(* ===== verification/Prelude.thy ===== *)
theory Prelude
  imports Main "HOL-Library.Word"
begin

text \<open>
  Shared vocabulary of the development: the machine-integer types, the representation of
  Rust strings as lists of Unicode code points, string literals, slices, and the generic
  list and option facts that the component theories use.

  A Rust \<^verbatim>\<open>char\<close> is a code point (\<open>cp\<close>, a natural number); a \<^verbatim>\<open>&str\<close> or
  \<^verbatim>\<open>String\<close> seen through \<^verbatim>\<open>chars()\<close> is a list of them; a \<^verbatim>\<open>[u8]\<close> is a list of
  8-bit words.  \<open>ustr\<close> turns an ASCII literal into such a string.
\<close>

type_synonym u8 = "8 word"
type_synonym u32 = "32 word"
type_synonym u64 = "64 word"
type_synonym i64 = "64 word"
type_synonym cp = nat
type_synonym ustring = "cp list"
type_synonym bytes = "u8 list"

named_theorems wf_intros \<open>well-formedness is kept by an operation\<close>
named_theorems len_simps \<open>lengths of encodings, slices and remainders\<close>

definition ustr :: "string \<Rightarrow> ustring" where
  "ustr s = map of_char s"

definition bstr :: "string \<Rightarrow> bytes" where
  "bstr s = map of_char s"

lemma ustr_simps [simp]:
  "ustr [] = []" "ustr (c # s) = of_char c # ustr s"
  by (simp_all add: ustr_def)

lemma bstr_simps [simp]:
  "bstr [] = []" "bstr (c # s) = of_char c # bstr s"
  by (simp_all add: bstr_def)

text \<open>\<open>slice a b xs\<close> is Rust's \<^verbatim>\<open>xs[a..b]\<close> for \<open>a \<le> b \<le> length xs\<close>.\<close>

definition slice :: "nat \<Rightarrow> nat \<Rightarrow> 'a list \<Rightarrow> 'a list" where
  "slice a b xs = take (b - a) (drop a xs)"

lemma length_slice [len_simps]: "b \<le> length xs \<Longrightarrow> length (slice a b xs) = b - a"
  by (simp add: slice_def)

text \<open>Characters of the ASCII classes that the standard library tests.\<close>

definition is_ascii_digit :: "cp \<Rightarrow> bool" where
  "is_ascii_digit c \<longleftrightarrow> 48 \<le> c \<and> c \<le> 57"

definition is_ascii_alphabetic :: "cp \<Rightarrow> bool" where
  "is_ascii_alphabetic c \<longleftrightarrow> (65 \<le> c \<and> c \<le> 90) \<or> (97 \<le> c \<and> c \<le> 122)"

definition is_ascii_alphanumeric :: "cp \<Rightarrow> bool" where
  "is_ascii_alphanumeric c \<longleftrightarrow> is_ascii_alphabetic c \<or> is_ascii_digit c"

definition is_ascii_hexdigit :: "cp \<Rightarrow> bool" where
  "is_ascii_hexdigit c \<longleftrightarrow> is_ascii_digit c \<or> (65 \<le> c \<and> c \<le> 70) \<or> (97 \<le> c \<and> c \<le> 102)"

text \<open>\<^verbatim>\<open>char::is_whitespace\<close>: the Unicode property \<^verbatim>\<open>White_Space\<close>.\<close>

definition is_whitespace :: "cp \<Rightarrow> bool" where
  "is_whitespace c \<longleftrightarrow> (9 \<le> c \<and> c \<le> 13) \<or> c = 32 \<or> c = 0x85 \<or> c = 0xA0 \<or> c = 0x1680 \<or>
     (0x2000 \<le> c \<and> c \<le> 0x200A) \<or> c = 0x2028 \<or> c = 0x2029 \<or> c = 0x202F \<or> c = 0x205F \<or> c = 0x3000"

text \<open>\<^verbatim>\<open>char::is_control\<close>: the general category \<^verbatim>\<open>Cc\<close>.\<close>

definition is_control :: "cp \<Rightarrow> bool" where
  "is_control c \<longleftrightarrow> c < 32 \<or> (127 \<le> c \<and> c < 160)"

text \<open>Unsigned bytes and their values.\<close>

lemma unat_u8_less: "unat (b :: u8) < 256"
  using unsigned_less [of b] by simp

definition byte :: "nat \<Rightarrow> u8" where
  "byte n = of_nat n"

lemma unat_byte [simp]: "n < 256 \<Longrightarrow> unat (byte n) = n"
  by (simp add: byte_def unat_of_nat)

lemma byte_unat [simp]: "byte (unat b) = b"
  by (simp add: byte_def)

lemma u8_eqI: "unat (a :: u8) = unat b \<Longrightarrow> a = b"
  by (simp add: word_unat_eq_iff)

text \<open>Lists.\<close>

lemma takeWhile_dropWhile_length [len_simps]:
  "length (takeWhile P xs) + length (dropWhile P xs) = length xs"
  by (metis length_append takeWhile_dropWhile_id)

lemma list_all_takeWhile: "list_all P (takeWhile P xs)"
  by (induction xs) auto

lemma dropWhile_length_le [len_simps]: "length (dropWhile P xs) \<le> length xs"
  by (simp add: length_dropWhile_le)

text \<open>\<^verbatim>\<open>Iterator::position\<close>: the index of the first element with a property.\<close>

fun position :: "('a \<Rightarrow> bool) \<Rightarrow> 'a list \<Rightarrow> nat option" where
  "position P [] = None"
| "position P (x # xs) = (if P x then Some 0 else map_option Suc (position P xs))"

lemma position_append:
  "position P (xs @ ys) = (case position P xs of None \<Rightarrow> map_option ((+) (length xs)) (position P ys) | Some i \<Rightarrow> Some i)"
  by (cases "position P ys"; induction xs) (auto split: option.splits)

lemma position_None: "position P xs = None \<longleftrightarrow> (\<forall>x \<in> set xs. \<not> P x)"
  by (induction xs) auto

lemma position_Some:
  "position P xs = Some i \<longleftrightarrow> i < length xs \<and> P (xs ! i) \<and> (\<forall>j < i. \<not> P (xs ! j))"
proof (induction xs arbitrary: i)
  case (Cons x xs)
  then show ?case by (cases i) (auto simp: less_Suc_eq_0_disj)
qed simp

lemma position_map: "position P (map f xs) = position (P \<circ> f) xs"
  by (induction xs) auto

lemma position_cong: "xs = ys \<Longrightarrow> (\<And>x. x \<in> set ys \<Longrightarrow> P x = Q x) \<Longrightarrow> position P xs = position Q ys"
  by (induction xs arbitrary: ys) auto

subsection \<open>Simulation\<close>

text \<open>The contract between a component that may panic and its specification: from related
  states every legal operation succeeds and leads to related states.  A run of operations that
  panics nowhere is a fold in the option type.\<close>

fun run_option :: "('op \<Rightarrow> 'c \<Rightarrow> 'c option) \<Rightarrow> 'op list \<Rightarrow> 'c \<Rightarrow> 'c option" where
  "run_option step [] c = Some c"
| "run_option step (p # ps) c = Option.bind (step p c) (run_option step ps)"

locale simulation =
  fixes rel :: "'c \<Rightarrow> 'a \<Rightarrow> bool"
    and legal :: "'op \<Rightarrow> bool"
    and conc :: "'op \<Rightarrow> 'c \<Rightarrow> 'c option"
    and abst :: "'op \<Rightarrow> 'a \<Rightarrow> 'a"
  assumes simulates: "legal p \<Longrightarrow> rel c a \<Longrightarrow> \<exists>c'. conc p c = Some c' \<and> rel c' (abst p a)"
begin

lemma runs_simulate:
  "list_all legal ps \<Longrightarrow> rel c a \<Longrightarrow> \<exists>c'. run_option conc ps c = Some c' \<and> rel c' (fold abst ps a)"
proof (induction ps arbitrary: c a)
  case (Cons p ps)
  then obtain c' where "conc p c = Some c'" "rel c' (abst p a)" using simulates [of p c a] by auto
  with Cons show ?case by fastforce
qed simp

end

end
