(* ===== verification/Utf8.thy ===== *)
theory Utf8
  imports Prelude
begin

text \<open>
  UTF-8 as the Rust standard library implements it: \<^verbatim>\<open>char::encode_utf8\<close>,
  \<^verbatim>\<open>char::len_utf8\<close>, \<^verbatim>\<open>str::from_utf8\<close> with \<^verbatim>\<open>valid_up_to\<close>, and
  \<^verbatim>\<open>str::is_char_boundary\<close>.  Every component that crosses between bytes and text
  rests on the two facts proved here: decoding inverts encoding, and whatever decodes is
  the encoding of the scalar value it decodes to.
\<close>

definition is_scalar :: "cp \<Rightarrow> bool" where
  "is_scalar c \<longleftrightarrow> c < 0xD800 \<or> (0xE000 \<le> c \<and> c \<le> 0x10FFFF)"

abbreviation wf_str :: "ustring \<Rightarrow> bool" where
  "wf_str s \<equiv> list_all is_scalar s"

definition len_utf8 :: "cp \<Rightarrow> nat" where
  "len_utf8 c = (if c < 0x80 then 1 else if c < 0x800 then 2 else if c < 0x10000 then 3 else 4)"

definition encode_utf8 :: "cp \<Rightarrow> bytes" where
  "encode_utf8 c =
     (if c < 0x80 then [byte c]
      else if c < 0x800 then [byte (0xC0 + c div 64), byte (0x80 + c mod 64)]
      else if c < 0x10000 then
        [byte (0xE0 + c div 4096), byte (0x80 + c div 64 mod 64), byte (0x80 + c mod 64)]
      else
        [byte (0xF0 + c div 262144), byte (0x80 + c div 4096 mod 64),
         byte (0x80 + c div 64 mod 64), byte (0x80 + c mod 64)])"

definition utf8 :: "ustring \<Rightarrow> bytes" where
  "utf8 s = concat (map encode_utf8 s)"

definition is_cont :: "u8 \<Rightarrow> bool" where
  "is_cont b \<longleftrightarrow> 0x80 \<le> unat b \<and> unat b \<le> 0xBF"

text \<open>The second byte's range for each three- and four-byte lead (no overlong forms, no
  surrogates, nothing above U+10FFFF).\<close>

definition second_ok :: "nat \<Rightarrow> u8 \<Rightarrow> bool" where
  "second_ok x b \<longleftrightarrow>
     (if x = 0xE0 then 0xA0 else if x = 0xF0 then 0x90 else 0x80) \<le> unat b \<and>
     unat b \<le> (if x = 0xED then 0x9F else if x = 0xF4 then 0x8F else 0xBF)"

definition decode1 :: "bytes \<Rightarrow> (cp \<times> bytes) option" where
  "decode1 bs = (case bs of [] \<Rightarrow> None | b0 # r \<Rightarrow>
     let x = unat b0 in
     if x < 0x80 then Some (x, r)
     else if x < 0xC2 then None
     else if x < 0xE0 then
       (case r of
          b1 # r1 \<Rightarrow> if is_cont b1 then Some ((x - 0xC0) * 64 + (unat b1 - 0x80), r1) else None
        | _ \<Rightarrow> None)
     else if x < 0xF0 then
       (case r of
          b1 # b2 # r2 \<Rightarrow>
            if second_ok x b1 \<and> is_cont b2
            then Some ((x - 0xE0) * 4096 + (unat b1 - 0x80) * 64 + (unat b2 - 0x80), r2) else None
        | _ \<Rightarrow> None)
     else if x < 0xF5 then
       (case r of
          b1 # b2 # b3 # r3 \<Rightarrow>
            if second_ok x b1 \<and> is_cont b2 \<and> is_cont b3
            then Some ((x - 0xF0) * 262144 + (unat b1 - 0x80) * 4096 + (unat b2 - 0x80) * 64
                       + (unat b3 - 0x80), r3) else None
        | _ \<Rightarrow> None)
     else None)"

lemma decode1_Nil [simp]: "decode1 [] = None"
  by (simp add: decode1_def)

lemma decode1_shorter: "decode1 bs = Some (c, r) \<Longrightarrow> length r < length bs"
  by (auto simp: decode1_def Let_def split: list.splits if_splits)

function utf8_chunk :: "bytes \<Rightarrow> ustring \<times> bytes" where
  "utf8_chunk bs = (case decode1 bs of
      None \<Rightarrow> ([], bs)
    | Some (c, r) \<Rightarrow> (let (cs, rest) = utf8_chunk r in (c # cs, rest)))"
  by pat_completeness auto
termination
  by (relation "measure length") (auto dest: decode1_shorter)

declare utf8_chunk.simps [simp del]

text \<open>\<^verbatim>\<open>str::from_utf8\<close>: the text, or how many bytes are valid (\<^verbatim>\<open>valid_up_to\<close>).\<close>

definition from_utf8 :: "bytes \<Rightarrow> nat + ustring" where
  "from_utf8 bs = (let (cs, rest) = utf8_chunk bs in
     if rest = [] then Inr cs else Inl (length bs - length rest))"

subsection \<open>Encoding and decoding are inverse\<close>

lemma utf8_Nil [simp]: "utf8 [] = []"
  and utf8_Cons [simp]: "utf8 (c # s) = encode_utf8 c @ utf8 s"
  and utf8_append [simp]: "utf8 (s @ t) = utf8 s @ utf8 t"
  by (simp_all add: utf8_def)

lemma length_encode_utf8 [simp, len_simps]: "length (encode_utf8 c) = len_utf8 c"
  by (simp add: encode_utf8_def len_utf8_def)

lemma len_utf8_pos [simp]: "0 < len_utf8 c"
  by (simp add: len_utf8_def)

lemma encode_utf8_not_Nil [simp]: "encode_utf8 c \<noteq> []"
  by (simp add: encode_utf8_def)

lemma length_utf8 [len_simps]: "length (utf8 s) = sum_list (map len_utf8 s)"
  by (induction s) auto

lemma utf8_eq_Nil [simp]: "utf8 s = [] \<longleftrightarrow> s = []"
  by (cases s) auto

text \<open>Base-64 digits of a code point.\<close>

lemma div_4096: "(c :: nat) div 4096 = c div 64 div 64"
  and div_262144: "(c :: nat) div 262144 = c div 64 div 64 div 64"
  by (simp_all add: div_mult2_eq [symmetric])

lemma digits64_3: "(c :: nat) div 4096 * 4096 + c div 64 mod 64 * 64 + c mod 64 = c"
  using div_mult_mod_eq [of c 64] div_mult_mod_eq [of "c div 64" 64] unfolding div_4096 by linarith

lemma digits64_4:
  "(c :: nat) div 262144 * 262144 + c div 4096 mod 64 * 4096 + c div 64 mod 64 * 64 + c mod 64 = c"
  using div_mult_mod_eq [of c 64] div_mult_mod_eq [of "c div 64" 64]
    div_mult_mod_eq [of "c div 64 div 64" 64]
  unfolding div_4096 div_262144 by linarith

lemma mod64_le [simp]: "(a :: nat) mod 64 \<le> 63"
  using mod_less_divisor [of 64 a] by linarith

lemma digit64_div: "z < 64 \<Longrightarrow> ((a :: nat) * 64 + z) div 64 = a"
  and digit64_mod: "z < 64 \<Longrightarrow> ((a :: nat) * 64 + z) mod 64 = z"
  by simp_all

lemma decode1_encode:
  assumes "is_scalar c"
  shows "decode1 (encode_utf8 c @ rest) = Some (c, rest)"
proof -
  consider (a) "c < 0x80" | (b) "0x80 \<le> c" "c < 0x800" | (c) "0x800 \<le> c" "c < 0x10000"
    | (d) "0x10000 \<le> c" "c \<le> 0x10FFFF"
    using assms by (cases "c < 0x80"; cases "c < 0x800"; cases "c < 0x10000") (auto simp: is_scalar_def)
  then show ?thesis
  proof cases
    case a
    then show ?thesis by (simp add: encode_utf8_def decode1_def)
  next
    case b
    then have "2 \<le> c div 64" "c div 64 < 32" by auto
    with b show ?thesis
      by (simp add: encode_utf8_def decode1_def is_cont_def Let_def)
  next
    case c
    note e = digits64_3 [of c]
    have m: "c mod 64 < 64" by simp
    have "c div 4096 < 16" using c by auto
    moreover have "c div 4096 = 0 \<Longrightarrow> 32 \<le> c div 64 mod 64" using c e m by linarith
    moreover have "c div 4096 = 13 \<Longrightarrow> c div 64 mod 64 \<le> 31"
      using assms c e m unfolding is_scalar_def by linarith
    ultimately show ?thesis using c e
      by (auto simp: encode_utf8_def decode1_def is_cont_def second_ok_def Let_def)
  next
    case d
    note e = digits64_4 [of c]
    have m: "c mod 64 < 64" "c div 64 mod 64 < 64" by simp_all
    have "c div 262144 < 5" using d by auto
    moreover have "c div 262144 = 0 \<Longrightarrow> 16 \<le> c div 4096 mod 64" using d e m by linarith
    moreover have "c div 262144 = 4 \<Longrightarrow> c div 4096 mod 64 \<le> 15" using d e m by linarith
    ultimately show ?thesis using d e
      by (auto simp: encode_utf8_def decode1_def is_cont_def second_ok_def Let_def)
  qed
qed

text \<open>The code point a two-, three- or four-byte sequence stands for encodes to it again.\<close>

lemma encode_2:
  assumes "2 \<le> u" "u < 32" "y < 64"
  shows "encode_utf8 (u * 64 + y) = [byte (0xC0 + u), byte (0x80 + y)]"
    and "is_scalar (u * 64 + y)"
proof -
  have "0x80 \<le> u * 64 + y" "u * 64 + y < 0x800" using assms by linarith+
  then show "encode_utf8 (u * 64 + y) = [byte (0xC0 + u), byte (0x80 + y)]"
    and "is_scalar (u * 64 + y)"
    using assms(3) by (simp_all add: encode_utf8_def is_scalar_def)
qed

lemma encode_3:
  assumes "u < 16" "y < 64" "z < 64" "u = 0 \<longrightarrow> 32 \<le> y" "u = 13 \<longrightarrow> y < 32"
  shows "encode_utf8 (u * 4096 + y * 64 + z) = [byte (0xE0 + u), byte (0x80 + y), byte (0x80 + z)]"
    and "is_scalar (u * 4096 + y * 64 + z)"
proof -
  define c where "c = u * 4096 + y * 64 + z"
  have c': "c = (u * 64 + y) * 64 + z" by (simp add: c_def)
  have d: "c div 4096 = u" "c div 64 mod 64 = y" "c mod 64 = z"
    using assms unfolding c' div_4096 by (simp_all only: digit64_div digit64_mod)
  have b: "0x800 \<le> c" "c < 0x10000" using assms unfolding c_def by linarith+
  from d b show "encode_utf8 (u * 4096 + y * 64 + z) =
      [byte (0xE0 + u), byte (0x80 + y), byte (0x80 + z)]"
    unfolding c_def [symmetric] by (simp add: encode_utf8_def)
  have "c < 0xD800 \<or> 0xE000 \<le> c"
  proof (cases "u \<le> 13")
    case True
    then have "c < 0xD800" using assms unfolding c_def by linarith
    then show ?thesis ..
  next
    case False
    then have "0xE000 \<le> c" unfolding c_def by linarith
    then show ?thesis ..
  qed
  with b show "is_scalar (u * 4096 + y * 64 + z)"
    unfolding c_def [symmetric] by (auto simp: is_scalar_def)
qed

lemma encode_4:
  assumes "u < 5" "y < 64" "z < 64" "w < 64" "u = 0 \<longrightarrow> 16 \<le> y" "u = 4 \<longrightarrow> y < 16"
  shows "encode_utf8 (u * 262144 + y * 4096 + z * 64 + w) =
      [byte (0xF0 + u), byte (0x80 + y), byte (0x80 + z), byte (0x80 + w)]"
    and "is_scalar (u * 262144 + y * 4096 + z * 64 + w)"
proof -
  define c where "c = u * 262144 + y * 4096 + z * 64 + w"
  have c': "c = ((u * 64 + y) * 64 + z) * 64 + w" by (simp add: c_def)
  have d: "c div 262144 = u" "c div 4096 mod 64 = y" "c div 64 mod 64 = z" "c mod 64 = w"
    using assms unfolding c' div_4096 div_262144 by (simp_all only: digit64_div digit64_mod)
  have b: "0x10000 \<le> c" "c \<le> 0x10FFFF" using assms unfolding c_def by linarith+
  with d show "encode_utf8 (u * 262144 + y * 4096 + z * 64 + w) =
      [byte (0xF0 + u), byte (0x80 + y), byte (0x80 + z), byte (0x80 + w)]"
    unfolding c_def [symmetric] by (simp add: encode_utf8_def)
  from b show "is_scalar (u * 262144 + y * 4096 + z * 64 + w)"
    unfolding c_def [symmetric] by (simp add: is_scalar_def)
qed

lemma byte_offset: "k \<le> unat b \<Longrightarrow> byte (k + (unat b - k)) = b"
  by simp

lemma encode_decode1:
  assumes "decode1 bs = Some (c, rest)"
  shows "is_scalar c \<and> bs = encode_utf8 c @ rest"
proof -
  obtain b0 r where bs: "bs = b0 # r" using assms by (cases bs) auto
  consider (1) "unat b0 < 0x80" | (2) "0xC2 \<le> unat b0" "unat b0 < 0xE0"
    | (3) "0xE0 \<le> unat b0" "unat b0 < 0xF0" | (4) "0xF0 \<le> unat b0" "unat b0 < 0xF5"
    using assms bs
    by (cases "unat b0 < 0x80"; cases "unat b0 < 0xC2"; cases "unat b0 < 0xE0";
        cases "unat b0 < 0xF0"; cases "unat b0 < 0xF5") (auto simp: decode1_def Let_def)
  then show ?thesis
  proof cases
    case 1
    then have "c = unat b0" "rest = r" using assms bs by (auto simp: decode1_def)
    with 1 bs show ?thesis by (simp add: encode_utf8_def is_scalar_def)
  next
    case 2
    then obtain b1 where r: "r = b1 # rest" "is_cont b1"
      and c: "c = (unat b0 - 0xC0) * 64 + (unat b1 - 0x80)"
      using assms bs by (auto simp: decode1_def Let_def split: list.splits if_splits)
    with 2 bs encode_2 [of "unat b0 - 0xC0" "unat b1 - 0x80"] show ?thesis
      by (auto simp: is_cont_def byte_offset)
  next
    case 3
    then obtain b1 b2 where r: "r = b1 # b2 # rest" "second_ok (unat b0) b1" "is_cont b2"
      and c: "c = (unat b0 - 0xE0) * 4096 + (unat b1 - 0x80) * 64 + (unat b2 - 0x80)"
      using assms bs by (auto simp: decode1_def Let_def split: list.splits if_splits)
    with 3 bs encode_3 [of "unat b0 - 0xE0" "unat b1 - 0x80" "unat b2 - 0x80"] show ?thesis
      by (auto simp: is_cont_def second_ok_def byte_offset split: if_splits)
  next
    case 4
    then obtain b1 b2 b3 where r: "r = b1 # b2 # b3 # rest" "second_ok (unat b0) b1"
        "is_cont b2" "is_cont b3"
      and c: "c = (unat b0 - 0xF0) * 262144 + (unat b1 - 0x80) * 4096 + (unat b2 - 0x80) * 64
              + (unat b3 - 0x80)"
      using assms bs by (auto simp: decode1_def Let_def split: list.splits if_splits)
    with 4 bs encode_4 [of "unat b0 - 0xF0" "unat b1 - 0x80" "unat b2 - 0x80" "unat b3 - 0x80"]
    show ?thesis by (auto simp: is_cont_def second_ok_def byte_offset split: if_splits)
  qed
qed

lemma utf8_chunk_sound:
  "utf8_chunk bs = (cs, rest) \<Longrightarrow> bs = utf8 cs @ rest \<and> wf_str cs \<and> decode1 rest = None"
proof (induction bs arbitrary: cs rest rule: utf8_chunk.induct)
  case (1 bs)
  show ?case
  proof (cases "decode1 bs")
    case None
    with "1.prems" show ?thesis by (simp add: utf8_chunk.simps [of bs])
  next
    case (Some p)
    obtain c r where p: "p = (c, r)" by (cases p)
    obtain cs' rest' where rec: "utf8_chunk r = (cs', rest')" by (cases "utf8_chunk r")
    have res: "cs = c # cs'" "rest = rest'"
      using "1.prems" Some p rec by (auto simp: utf8_chunk.simps [of bs])
    have "r = utf8 cs' @ rest' \<and> wf_str cs' \<and> decode1 rest' = None"
      using "1.IH" Some p rec by blast
    moreover have "is_scalar c \<and> bs = encode_utf8 c @ r"
      using Some p encode_decode1 by simp
    ultimately show ?thesis using res by simp
  qed
qed

lemma utf8_chunk_utf8:
  "wf_str cs \<Longrightarrow> decode1 rest = None \<Longrightarrow> utf8_chunk (utf8 cs @ rest) = (cs, rest)"
proof (induction cs)
  case Nil
  then show ?case by (simp add: utf8_chunk.simps [of rest])
next
  case (Cons c cs)
  then show ?case
    by (simp add: utf8_chunk.simps [of "encode_utf8 c @ utf8 cs @ rest"] decode1_encode)
qed

lemma from_utf8_utf8 [simp]: "wf_str cs \<Longrightarrow> from_utf8 (utf8 cs) = Inr cs"
  using utf8_chunk_utf8 [of cs "[]"] by (simp add: from_utf8_def)

lemma from_utf8_Inr: "from_utf8 bs = Inr cs \<longleftrightarrow> wf_str cs \<and> bs = utf8 cs"
proof
  assume "from_utf8 bs = Inr cs"
  then show "wf_str cs \<and> bs = utf8 cs"
    using utf8_chunk_sound by (fastforce simp: from_utf8_def split: prod.splits if_splits)
qed auto

lemma from_utf8_Inl:
  assumes "from_utf8 bs = Inl n"
  obtains cs b r where "wf_str cs" "bs = utf8 cs @ b # r" "n = length (utf8 cs)"
    "decode1 (b # r) = None" "0x80 \<le> unat b"
proof -
  obtain cs rest where c: "utf8_chunk bs = (cs, rest)" by (cases "utf8_chunk bs")
  with assms have n: "rest \<noteq> []" "n = length bs - length rest"
    by (auto simp: from_utf8_def split: if_splits)
  from utf8_chunk_sound [OF c] have s: "bs = utf8 cs @ rest" "wf_str cs" "decode1 rest = None"
    by auto
  obtain b r where rest: "rest = b # r" using n by (cases rest) auto
  have "0x80 \<le> unat b"
    using s(3) rest by (auto simp: decode1_def Let_def not_less split: if_splits)
  with that s n rest show ?thesis by simp
qed

text \<open>Induction over a byte string by what \<^verbatim>\<open>from_utf8\<close> sees: a scalar value, or a byte that
  starts no valid sequence.\<close>

lemma bytes_induct [case_names Nil Scalar Raw]:
  assumes "P []"
    and "\<And>c r. is_scalar c \<Longrightarrow> P r \<Longrightarrow> P (encode_utf8 c @ r)"
    and "\<And>b r. decode1 (b # r) = None \<Longrightarrow> 0x80 \<le> unat b \<Longrightarrow> P r \<Longrightarrow> P (b # r)"
  shows "P bs"
proof (induction bs rule: length_induct)
  case (1 bs)
  show ?case
  proof (cases "decode1 bs")
    case None
    then show ?thesis
    proof (cases bs)
      case (Cons b r)
      have "0x80 \<le> unat b"
        using None Cons by (auto simp: decode1_def Let_def not_less split: if_splits)
      with None Cons 1 assms(3) show ?thesis by simp
    qed (simp add: assms(1))
  next
    case (Some p)
    obtain c r where p: "p = (c, r)" by (cases p)
    with Some have "is_scalar c" "bs = encode_utf8 c @ r" "length r < length bs"
      using encode_decode1 decode1_shorter by auto
    with 1 assms(2) show ?thesis by blast
  qed
qed

lemma utf8_inj: "wf_str s \<Longrightarrow> wf_str t \<Longrightarrow> utf8 s = utf8 t \<longleftrightarrow> s = t"
  by (metis from_utf8_utf8 sum.inject(2))

end
