(* ===== verification/Encoding.thy ===== *)
theory Encoding
  imports Utf8
begin

text \<open>
  The reversible text encoding of arbitrary shell bytes
  (\<^verbatim>\<open>crates/epsh/src/encoding.rs\<close>) and the byte-string type built on it
  (\<^verbatim>\<open>crates/epsh/src/shell_bytes.rs\<close>).  Shell values are byte strings; the shell
  works on them as text in which a byte that is not part of valid UTF-8 is a private-use
  character U+E080--U+E0FF, and a literal occurrence of such a character, of the escape
  U+E000 or of the glob marker U+FFFE is preceded by U+E000.

  \<open>units\<close> is the reference reading of a byte string, a list of scalar values and raw
  bytes; the lemmas show that the code's encoder, decoder and iterators agree with it.
\<close>

definition PUA_BASE :: cp where "PUA_BASE = 0xE000"
definition ESCAPE :: cp where "ESCAPE = 0xE000"
definition CTLESC :: cp where "CTLESC = 0xFFFE"
definition GLOB_ESCAPE :: cp where "GLOB_ESCAPE = 0x110100"

text \<open>\<open>(PUA_BASE + 0x80..=PUA_BASE + 0xFF).contains(&c)\<close>\<close>

definition is_pua_byte :: "cp \<Rightarrow> bool" where
  "is_pua_byte c \<longleftrightarrow> PUA_BASE + 0x80 \<le> c \<and> c \<le> PUA_BASE + 0xFF"

fun push_text :: "ustring \<Rightarrow> ustring \<Rightarrow> bool \<Rightarrow> ustring" where
  "push_text result [] escape_glob_marker = result"
| "push_text result (c # text) escape_glob_marker =
     push_text
       ((if c = ESCAPE \<or> (escape_glob_marker \<and> c = CTLESC) \<or> is_pua_byte c
         then result @ [ESCAPE] else result) @ [c])
       text escape_glob_marker"

definition pattern_to_str :: "ustring \<Rightarrow> ustring" where
  "pattern_to_str text = push_text [] text False"

text \<open>\<^verbatim>\<open>char::from_u32\<close>\<close>

definition char_from_u32 :: "nat \<Rightarrow> cp option" where
  "char_from_u32 n = (if is_scalar n then Some n else None)"

text \<open>The loop of \<^verbatim>\<open>bytes_to_str\<close>; \<open>None\<close> is a panic of one of its \<^verbatim>\<open>unwrap\<close>s or of the
  index \<^verbatim>\<open>invalid[0]\<close>.\<close>

function bytes_to_str_loop :: "ustring \<Rightarrow> bytes \<Rightarrow> ustring option" where
  "bytes_to_str_loop result remaining =
     (if remaining = [] then Some result
      else case from_utf8 remaining of
        Inr text \<Rightarrow> Some (push_text result text True)
      | Inl valid_up_to \<Rightarrow>
          (case (from_utf8 (take valid_up_to remaining), drop valid_up_to remaining) of
             (Inr valid, b # rest) \<Rightarrow>
               (case char_from_u32 (PUA_BASE + unat b) of
                  Some c \<Rightarrow> bytes_to_str_loop (push_text result valid True @ [c]) rest
                | None \<Rightarrow> None)
           | _ \<Rightarrow> None))"
  by pat_completeness auto
termination
proof (relation "measure (\<lambda>(result, remaining). length remaining)", goal_cases)
  case (2 result remaining n xy valid xs b rest c)
  then have "drop n remaining = b # rest" by simp
  then have "length (drop n remaining) = Suc (length rest)" by (simp only: list.size)
  then show ?case by simp
qed simp

declare bytes_to_str_loop.simps [simp del]

definition bytes_to_str :: "bytes \<Rightarrow> ustring" where
  "bytes_to_str bs = the (bytes_to_str_loop [] bs)"

fun str_to_bytes :: "ustring \<Rightarrow> bytes" where
  "str_to_bytes [] = []"
| "str_to_bytes (c # chars) =
     (if c = ESCAPE then
        (case chars of
           [] \<Rightarrow> encode_utf8 ESCAPE
         | literal # chars' \<Rightarrow> encode_utf8 literal @ str_to_bytes chars')
      else if is_pua_byte c then byte (c - PUA_BASE) # str_to_bytes chars
      else encode_utf8 c @ str_to_bytes chars)"

fun shell_chars :: "ustring \<Rightarrow> ustring list" where
  "shell_chars [] = []"
| "shell_chars (c # chars) =
     (if c = ESCAPE then
        (case chars of [] \<Rightarrow> [[c]] | d # chars' \<Rightarrow> [c, d] # shell_chars chars')
      else [c] # shell_chars chars)"

fun unit_codepoint :: "ustring \<Rightarrow> nat" where
  "unit_codepoint [] = 0"
| "unit_codepoint (c # chars) =
     (if c = ESCAPE then (case chars of [] \<Rightarrow> ESCAPE | literal # _ \<Rightarrow> literal)
      else if c = CTLESC then GLOB_ESCAPE
      else if is_pua_byte c then 0x110000 + c - PUA_BASE
      else c)"

definition shell_codepoints :: "ustring \<Rightarrow> nat list" where
  "shell_codepoints text = map unit_codepoint (shell_chars text)"

subsection \<open>ShellBytes\<close>

type_synonym shell_bytes = bytes

definition from_str_lossless :: "ustring \<Rightarrow> shell_bytes" where
  "from_str_lossless s = str_to_bytes s"

definition to_shell_string :: "shell_bytes \<Rightarrow> ustring" where
  "to_shell_string b = bytes_to_str b"

definition as_utf8_str :: "shell_bytes \<Rightarrow> ustring option" where
  "as_utf8_str b = (case from_utf8 b of Inr s \<Rightarrow> Some s | Inl _ \<Rightarrow> None)"

definition shell_bytes_from :: "ustring \<Rightarrow> shell_bytes" where
  "shell_bytes_from s = utf8 s"

text \<open>\<^verbatim>\<open>CString::new\<close> fails at the first interior NUL.\<close>

definition to_cstring :: "shell_bytes \<Rightarrow> nat + bytes" where
  "to_cstring b = (if 0 \<in> set b then Inl (length (takeWhile (\<lambda>x. x \<noteq> 0) b)) else Inr (b @ [0]))"

subsection \<open>The reference reading of a byte string\<close>

datatype sunit = Scalar cp | Raw u8

function units :: "bytes \<Rightarrow> sunit list" where
  "units bs = (case decode1 bs of
      Some (c, r) \<Rightarrow> Scalar c # units r
    | None \<Rightarrow> (case bs of [] \<Rightarrow> [] | b # r \<Rightarrow> Raw b # units r))"
  by pat_completeness auto
termination
  by (relation "measure length") (auto dest: decode1_shorter)

declare units.simps [simp del]

definition special :: "bool \<Rightarrow> cp \<Rightarrow> bool" where
  "special glob c \<longleftrightarrow> c = ESCAPE \<or> (glob \<and> c = CTLESC) \<or> is_pua_byte c"

fun enc_unit :: "sunit \<Rightarrow> ustring" where
  "enc_unit (Scalar c) = (if special True c then [ESCAPE, c] else [c])"
| "enc_unit (Raw b) = [PUA_BASE + unat b]"

fun unit_bytes :: "sunit \<Rightarrow> bytes" where
  "unit_bytes (Scalar c) = encode_utf8 c"
| "unit_bytes (Raw b) = [b]"

fun unit_code :: "sunit \<Rightarrow> nat" where
  "unit_code (Scalar c) = c"
| "unit_code (Raw b) = 0x110000 + unat b"

fun wf_unit :: "sunit \<Rightarrow> bool" where
  "wf_unit (Scalar c) = is_scalar c"
| "wf_unit (Raw b) = (0x80 \<le> unat b)"

lemmas encoding_consts = PUA_BASE_def ESCAPE_def CTLESC_def GLOB_ESCAPE_def

lemma units_Nil [simp]: "units [] = []"
  by (simp add: units.simps)

lemma units_encode: "is_scalar c \<Longrightarrow> units (encode_utf8 c @ r) = Scalar c # units r"
  by (subst units.simps) (simp add: decode1_encode)

lemma units_raw: "decode1 (b # r) = None \<Longrightarrow> units (b # r) = Raw b # units r"
  by (subst units.simps) simp

lemma units_utf8: "wf_str cs \<Longrightarrow> units (utf8 cs @ r) = map Scalar cs @ units r"
  by (induction cs) (auto simp: units_encode)

lemma units_bytes: "concat (map unit_bytes (units bs)) = bs"
  by (induction bs rule: bytes_induct) (simp_all add: units_encode units_raw)

lemma units_wf: "list_all wf_unit (units bs)"
  by (induction bs rule: bytes_induct) (simp_all add: units_encode units_raw)

lemma push_text_eq:
  "push_text result cs glob =
     result @ concat (map (\<lambda>c. if special glob c then [ESCAPE, c] else [c]) cs)"
  by (induction cs arbitrary: result) (auto simp: special_def)

lemma push_text_units: "push_text result text True = result @ concat (map (enc_unit \<circ> Scalar) text)"
  by (simp add: push_text_eq comp_def)

lemma raw_scalar: "0x80 \<le> unat b \<Longrightarrow> char_from_u32 (PUA_BASE + unat (b :: u8)) = Some (PUA_BASE + unat b)"
  using unat_u8_less [of b]
  by (auto simp: char_from_u32_def is_scalar_def PUA_BASE_def)

lemma bytes_to_str_loop_eq:
  "bytes_to_str_loop result bs = Some (result @ concat (map enc_unit (units bs)))"
proof (induction result bs rule: bytes_to_str_loop.induct)
  case (1 result bs)
  show ?case
  proof (cases "from_utf8 bs")
    case (Inr cs)
    then have "wf_str cs" "bs = utf8 cs" by (simp_all add: from_utf8_Inr)
    then show ?thesis
      using Inr units_utf8 [of cs "[]"]
      by (subst bytes_to_str_loop.simps) (auto simp: push_text_units)
  next
    case (Inl n)
    then obtain cs b r where u: "wf_str cs" "bs = utf8 cs @ b # r" "n = length (utf8 cs)"
      "decode1 (b # r) = None" "0x80 \<le> unat b"
      by (rule from_utf8_Inl)
    have IH: "bytes_to_str_loop (push_text result cs True @ [PUA_BASE + unat b]) r =
        Some ((push_text result cs True @ [PUA_BASE + unat b]) @ concat (map enc_unit (units r)))"
      using "1.IH" [OF _ Inl refl _ _ raw_scalar [OF u(5)]] u by simp
    have "units bs = map Scalar cs @ Raw b # units r"
      using u by (simp add: units_utf8 units_raw)
    with Inl u raw_scalar [OF u(5)] IH show ?thesis
      by (subst bytes_to_str_loop.simps) (simp add: push_text_units)
  qed
qed

lemma bytes_to_str_units: "bytes_to_str bs = concat (map enc_unit (units bs))"
  by (simp add: bytes_to_str_def bytes_to_str_loop_eq)

lemma wf_unit_cases:
  assumes "wf_unit u"
  obtains (plain) c where "u = Scalar c" "is_scalar c" "\<not> special True c"
  | (escaped) c where "u = Scalar c" "is_scalar c" "special True c"
  | (raw) b where "u = Raw b" "is_pua_byte (PUA_BASE + unat b)" "PUA_BASE + unat b \<noteq> ESCAPE"
proof (cases u)
  case (Scalar c)
  with assms that show ?thesis by (cases "special True c") auto
next
  case (Raw b)
  with assms raw unat_u8_less [of b] show ?thesis
    by (auto simp: is_pua_byte_def encoding_consts)
qed

lemma shell_chars_enc_unit: "wf_unit u \<Longrightarrow> shell_chars (enc_unit u @ s) = enc_unit u # shell_chars s"
  by (erule wf_unit_cases) (auto simp: special_def)

lemma shell_chars_units:
  "list_all wf_unit us \<Longrightarrow> shell_chars (concat (map enc_unit us)) = map enc_unit us"
  by (induction us) (auto simp: shell_chars_enc_unit)

lemma shell_chars_bytes_to_str: "shell_chars (bytes_to_str bs) = map enc_unit (units bs)"
  by (simp add: bytes_to_str_units shell_chars_units units_wf)

lemma unit_codepoint_enc: "wf_unit u \<Longrightarrow> unit_codepoint (enc_unit u) = unit_code u"
  by (erule wf_unit_cases) (auto simp: special_def CTLESC_def is_pua_byte_def PUA_BASE_def ESCAPE_def)

lemma str_to_bytes_enc_unit:
  "wf_unit u \<Longrightarrow> str_to_bytes (enc_unit u @ s) = unit_bytes u @ str_to_bytes s"
  by (erule wf_unit_cases) (auto simp: special_def)

lemma str_to_bytes_units:
  "list_all wf_unit us \<Longrightarrow>
     str_to_bytes (concat (map enc_unit us) @ s) = concat (map unit_bytes us) @ str_to_bytes s"
  by (induction us) (auto simp: str_to_bytes_enc_unit)

lemma concat_shell_chars: "concat (shell_chars s) = s"
  by (induction s rule: shell_chars.induct) (auto split: list.splits)

lemma shell_codepoints_bytes_to_str: "shell_codepoints (bytes_to_str bs) = map unit_code (units bs)"
  using units_wf [of bs]
  by (simp add: shell_codepoints_def shell_chars_bytes_to_str list_all_iff unit_codepoint_enc)

lemma unit_code_inj: "wf_unit u \<Longrightarrow> wf_unit v \<Longrightarrow> unit_code u = unit_code v \<longleftrightarrow> u = v"
  by (cases u; cases v) (auto simp: is_scalar_def word_unat_eq_iff)

lemma map_unit_code_inj:
  "list_all wf_unit us \<Longrightarrow> list_all wf_unit vs \<Longrightarrow> map unit_code us = map unit_code vs \<Longrightarrow> us = vs"
proof (induction us arbitrary: vs)
  case (Cons u us)
  then obtain v vs' where vs: "vs = v # vs'" by (cases vs) auto
  have "us = vs'" using Cons.prems vs by (intro Cons.IH) auto
  moreover have "u = v" using Cons.prems vs unit_code_inj [of u v] by auto
  ultimately show ?case using vs by simp
qed simp

lemma units_inj: "units a = units b \<longleftrightarrow> a = b"
  by (metis units_bytes)

lemma enc_unit_wf [wf_intros]: "wf_unit u \<Longrightarrow> wf_str (enc_unit u)"
proof (cases u)
  case (Raw b)
  then show ?thesis using unat_u8_less [of b] by (simp add: PUA_BASE_def is_scalar_def)
qed (auto simp: ESCAPE_def is_scalar_def)

lemma bytes_to_str_wf [wf_intros]: "wf_str (bytes_to_str bs)"
  using units_wf [of bs] enc_unit_wf by (auto simp: bytes_to_str_units list_all_iff)

subsection \<open>The codec interface\<close>

text \<open>What the variable store, pathname expansion and the byte-string type rely on: a text
  encoding of byte strings with a left inverse.\<close>

locale byte_codec =
  fixes enc :: "bytes \<Rightarrow> ustring" and dec :: "ustring \<Rightarrow> bytes"
  assumes dec_enc: "dec (enc b) = b"
begin

lemma enc_eq_iff: "enc a = enc b \<longleftrightarrow> a = b"
  by (metis dec_enc)

lemma map_dec_enc: "map dec (map enc bs) = bs"
  by (induction bs) (simp_all add: dec_enc)

lemma distinct_map_enc: "distinct (map enc bs) \<longleftrightarrow> distinct bs"
  by (simp add: distinct_map inj_on_def enc_eq_iff)

end

lemma decode_encode_id: "str_to_bytes (bytes_to_str bs) = bs"
  using str_to_bytes_units [OF units_wf [of bs], of "[]"]
  by (simp add: bytes_to_str_units units_bytes)

interpretation shell: byte_codec bytes_to_str str_to_bytes
  by unfold_locales (rule decode_encode_id)

subsection \<open>Properties\<close>

text \<open>C8. Decoding inverts encoding on every byte string: any sequence of bytes, valid UTF-8
  or not, survives the trip through shell text unchanged.\<close>

theorem str_to_bytes_bytes_to_str: "str_to_bytes (bytes_to_str bs) = bs"
  by (rule shell.dec_enc)

text \<open>Encoding never panics: on every byte string the loop returns a text, every character
  of it a Unicode scalar value, so each \<^verbatim>\<open>unwrap\<close> and the index in its body succeed.\<close>

theorem bytes_to_str_no_panic:
  "\<exists>s. bytes_to_str_loop [] bs = Some s \<and> s = bytes_to_str bs \<and> wf_str s"
  by (simp add: bytes_to_str_loop_eq bytes_to_str_units [symmetric] bytes_to_str_wf)

text \<open>The pattern matcher's view of encoded bytes is faithful: two byte strings have the
  same code points only when they are equal, and no byte string yields the code point that
  marks an escape in a pattern.\<close>

theorem shell_codepoints_faithful:
  "(shell_codepoints (bytes_to_str as) = shell_codepoints (bytes_to_str bs) \<longleftrightarrow> as = bs) \<and>
   GLOB_ESCAPE \<notin> set (shell_codepoints (bytes_to_str bs))"
proof
  show "shell_codepoints (bytes_to_str as) = shell_codepoints (bytes_to_str bs) \<longleftrightarrow> as = bs"
    using map_unit_code_inj [OF units_wf [of as] units_wf [of bs]]
    by (auto simp: shell_codepoints_bytes_to_str units_inj)
  have "unit_code u \<noteq> GLOB_ESCAPE" if "wf_unit u" for u
  proof (cases u)
    case (Raw b)
    then show ?thesis using unat_u8_less [of b] by (simp add: GLOB_ESCAPE_def)
  qed (use that in \<open>auto simp: GLOB_ESCAPE_def is_scalar_def\<close>)
  then show "GLOB_ESCAPE \<notin> set (shell_codepoints (bytes_to_str bs))"
    using units_wf [of bs] by (force simp: shell_codepoints_bytes_to_str list_all_iff)
qed

end
