(* ===== verification/Glob.thy ===== *)
theory Glob
  imports Encoding "HOL-Library.List_Lexorder"
begin

text \<open>
  Pattern matching (\<^verbatim>\<open>crates/epsh/src/glob.rs\<close>): \<^verbatim>\<open>fnmatch\<close> over code points, the
  test for active glob characters, and the splitting of a pattern into path components.
  A pattern position \<^verbatim>\<open>pi\<close> into \<^verbatim>\<open>pat\<close> is the suffix of the pattern that starts there, and
  likewise for the subject.

  \<open>parse_items\<close> and \<open>gmatch\<close> give the declarative meaning of a pattern: a list of items,
  each of which consumes a part of the subject.  The equivalence of the code's
  backtracking matcher with it is the basis of the properties of quoting.
\<close>

definition is_escape :: "nat \<Rightarrow> bool" where
  "is_escape c \<longleftrightarrow> c = 92 \<or> c = GLOB_ESCAPE"

text \<open>Both calls are made at a position inside the pattern, so the empty suffix (an index
  panic in the code) is never read.\<close>

fun read_bracket_char :: "nat list \<Rightarrow> nat \<times> nat list" where
  "read_bracket_char [] = (0, [])"
| "read_bracket_char (p # ps) =
     (if is_escape p then (case ps of q # qs \<Rightarrow> (q, qs) | [] \<Rightarrow> (p, ps)) else (p, ps))"

lemma read_bracket_char_shorter:
  "(c, r) = read_bracket_char (p # ps) \<Longrightarrow> length r \<le> length ps"
  by (auto split: list.splits if_splits)

declare read_bracket_char.simps [simp del]

text \<open>One member of a bracket expression: a character, or a range when a \<^verbatim>\<open>-\<close> follows that is
  not the last character before \<^verbatim>\<open>]\<close>.\<close>

definition bracket_elem :: "nat list \<Rightarrow> nat \<times> nat option \<times> nat list" where
  "bracket_elem pat =
     (let (c1, r) = read_bracket_char pat in
      (case r of
         d # e # r' \<Rightarrow>
           if d = 45 \<and> e \<noteq> 93 then (let (c2, r2) = read_bracket_char (e # r') in (c1, Some c2, r2))
           else (c1, None, r)
       | _ \<Rightarrow> (c1, None, r)))"

lemma bracket_elem_shorter: "bracket_elem (p # ps) = (c1, c2, r) \<Longrightarrow> length r \<le> length ps"
  by (fastforce simp: bracket_elem_def dest: sym [THEN read_bracket_char_shorter]
      split: list.splits if_splits prod.splits)

fun elem_matches :: "nat \<Rightarrow> nat option \<Rightarrow> nat \<Rightarrow> bool" where
  "elem_matches c1 (Some c2) c = (c1 \<le> c \<and> c \<le> c2)"
| "elem_matches c1 None c = (c = c1)"

text \<open>The loop over a bracket expression; \<open>first\<close> is \<^verbatim>\<open>pi == bracket_start\<close>, \<open>c\<close> is \<^verbatim>\<open>s[si]\<close>.\<close>

function bracket_loop :: "bool \<Rightarrow> nat list \<Rightarrow> nat \<Rightarrow> bool \<Rightarrow> bool \<times> nat list" where
  "bracket_loop first pat c matched =
     (case pat of
        [] \<Rightarrow> (matched, [])
      | p # ps \<Rightarrow>
          if p = 93 \<and> \<not> first then (matched, pat)
          else
            (case bracket_elem (p # ps) of (c1, c2, r) \<Rightarrow>
               bracket_loop False r c (if elem_matches c1 c2 c then True else matched)))"
  by pat_completeness auto
termination
  by (relation "measure (\<lambda>(first, pat, c, matched). length pat)")
    (auto dest!: bracket_elem_shorter [OF sym])

declare bracket_loop.simps [simp del]

lemma bracket_loop_Nil [simp]: "bracket_loop first [] c m = (m, [])"
  by (simp add: bracket_loop.simps)

lemma bracket_loop_Cons:
  "bracket_loop first (p # ps) c m =
     (if p = 93 \<and> \<not> first then (m, p # ps)
      else (case bracket_elem (p # ps) of (c1, c2, r) \<Rightarrow>
              bracket_loop False r c (if elem_matches c1 c2 c then True else m)))"
  by (subst bracket_loop.simps) simp

lemma bracket_loop_shorter: "bracket_loop first pat c m = (m', r) \<Longrightarrow> length r \<le> length pat"
proof (induction first pat c m arbitrary: m' r rule: bracket_loop.induct)
  case (1 first pat c m)
  then show ?case
    by (subst (asm) (2) bracket_loop.simps)
      (fastforce dest: bracket_elem_shorter split: list.splits if_splits prod.splits)
qed

function fnmatch_inner :: "nat list \<Rightarrow> nat list \<Rightarrow> bool" where
  "fnmatch_inner pat s =
     (case pat of
        [] \<Rightarrow> s = []
      | p # ps \<Rightarrow>
          if p = 63 then
            (case s of [] \<Rightarrow> False | _ # s' \<Rightarrow> fnmatch_inner ps s')
          else if p = 42 then
            (let rest = dropWhile (\<lambda>c. c = 42) ps in
             if rest = [] then True
             else list_ex (\<lambda>i. fnmatch_inner rest (drop i s)) [0..<Suc (length s)])
          else if p = 91 then
            (case s of
               [] \<Rightarrow> False
             | c # s' \<Rightarrow>
                 let negate = (ps \<noteq> [] \<and> hd ps = 33);
                     ps1 = (if negate then tl ps else ps);
                     (matched, r) = bracket_loop True ps1 c False
                 in if matched = negate then False else fnmatch_inner (drop 1 r) s')
          else if is_escape p then
            (case ps of
               [] \<Rightarrow> False
             | q # ps' \<Rightarrow> (case s of [] \<Rightarrow> False | c # s' \<Rightarrow> c = q \<and> fnmatch_inner ps' s'))
          else
            (case s of [] \<Rightarrow> False | c # s' \<Rightarrow> c = p \<and> fnmatch_inner ps s'))"
  by pat_completeness auto

termination
proof (relation "measure (\<lambda>(pat, s). length pat)", goal_cases)
  case (3 pat s p ps rest i)
  then show ?case using length_dropWhile_le [of "\<lambda>c. c = 42" ps] by simp
next
  case (4 pat s p ps c s' negate ps1 x matched r)
  then have "bracket_loop True ps1 c False = (matched, r)" by simp
  then have "length r \<le> length ps1" by (rule bracket_loop_shorter)
  moreover have "length ps1 \<le> length ps" using 4 by auto
  ultimately show ?case using 4 by auto
qed auto

declare fnmatch_inner.simps [simp del]

definition fnmatch_shell :: "ustring \<Rightarrow> ustring \<Rightarrow> bool" where
  "fnmatch_shell pattern str = fnmatch_inner (shell_codepoints pattern) (shell_codepoints str)"

definition fnmatch :: "ustring \<Rightarrow> ustring \<Rightarrow> bool" where
  "fnmatch pattern str = fnmatch_shell (pattern_to_str pattern) (bytes_to_str (utf8 str))"

text \<open>Scanning units for active glob characters.  A unit is nonempty.\<close>

fun has_glob_units :: "ustring list \<Rightarrow> bool" where
  "has_glob_units [] = False"
| "has_glob_units (unit # us) =
     (if hd unit = ESCAPE then has_glob_units us
      else if hd unit = 42 \<or> hd unit = 63 \<or> hd unit = 91 then True
      else if unit = [CTLESC] \<or> hd unit = 92 then has_glob_units (drop 1 us)
      else has_glob_units us)"

definition has_glob_chars_shell :: "ustring \<Rightarrow> bool" where
  "has_glob_chars_shell s = has_glob_units (shell_chars s)"

definition has_glob_chars :: "ustring \<Rightarrow> bool" where
  "has_glob_chars s = has_glob_chars_shell (bytes_to_str (utf8 s))"

fun literal_units :: "ustring list \<Rightarrow> ustring" where
  "literal_units [] = []"
| "literal_units (unit # us) =
     (if unit = [CTLESC] \<or> unit = [92] then
        (case us of next # us' \<Rightarrow> next @ literal_units us' | [] \<Rightarrow> unit)
      else unit @ literal_units us)"

definition literal_component :: "ustring \<Rightarrow> ustring" where
  "literal_component pattern = literal_units (shell_chars pattern)"

definition component_starts_with_dot :: "ustring \<Rightarrow> bool" where
  "component_starts_with_dot pattern =
     (case shell_chars pattern of
        [] \<Rightarrow> False
      | unit # us \<Rightarrow>
          if unit = [CTLESC] \<or> unit = [92] then (us \<noteq> [] \<and> hd us = [46])
          else unit = [46])"

text \<open>\<^verbatim>\<open>str::split\<close> on a character: the pieces between its occurrences.\<close>

fun split_on :: "'a \<Rightarrow> 'a list \<Rightarrow> 'a list list" where
  "split_on d [] = [[]]"
| "split_on d (c # cs) =
     (if c = d then [] # split_on d cs
      else (case split_on d cs of [] \<Rightarrow> [[c]] | w # ws \<Rightarrow> (c # w) # ws))"

definition split_components :: "ustring \<Rightarrow> bool \<times> ustring list" where
  "split_components pattern =
     (pattern \<noteq> [] \<and> hd pattern = 47, filter (\<lambda>component. component \<noteq> []) (split_on 47 pattern))"

subsection \<open>Pathname expansion\<close>

text \<open>What pathname expansion asks of the file system.  A directory listing is absent when
  \<^verbatim>\<open>read_dir\<close> fails, and each entry of it may fail on its own.  Paths are byte strings.\<close>

record filesystem =
  symlink_metadata_ok :: "bytes \<Rightarrow> bool"
  path_is_dir :: "bytes \<Rightarrow> bool"
  read_dir :: "bytes \<Rightarrow> bytes option list option"

text \<open>\<^verbatim>\<open>Path::join\<close>: an absolute right operand replaces the left one.\<close>

definition path_join :: "bytes \<Rightarrow> bytes \<Rightarrow> bytes" where
  "path_join base p =
     (if p \<noteq> [] \<and> hd p = 47 then p
      else if base = [] \<or> last base = 47 then base @ p
      else base @ [47] @ p)"

definition path_to_string :: "bytes \<Rightarrow> ustring" where
  "path_to_string path =
     to_shell_string (if take 2 path = [46, 47] then drop 2 path else path)"

definition sort_results :: "ustring list \<Rightarrow> ustring list" where
  "sort_results results = sort_key str_to_bytes results"

text \<open>Whether an entry of a directory is taken by a component with active glob characters.\<close>

definition entry_matches :: "ustring \<Rightarrow> bytes \<Rightarrow> bool" where
  "entry_matches pattern name \<longleftrightarrow>
     \<not> (name \<noteq> [] \<and> hd name = 46 \<and> \<not> component_starts_with_dot pattern) \<and>
     fnmatch_shell pattern (to_shell_string name)"

fun glob_recursive ::
  "filesystem \<Rightarrow> bytes \<Rightarrow> bytes \<Rightarrow> ustring list \<Rightarrow> ustring list \<Rightarrow> ustring list" where
  "glob_recursive fs fs_dir display_dir [] results = results"
| "glob_recursive fs fs_dir display_dir (pattern # remaining) results =
     (if \<not> has_glob_chars_shell pattern then
        let lit = from_str_lossless (literal_component pattern);
            fs_candidate = path_join fs_dir lit;
            display_candidate = path_join display_dir lit
        in if remaining = [] then
             (if symlink_metadata_ok fs fs_candidate
              then results @ [path_to_string display_candidate] else results)
           else if path_is_dir fs fs_candidate
             then glob_recursive fs fs_candidate display_candidate remaining results
           else results
      else
        (case read_dir fs fs_dir of
           None \<Rightarrow> results
         | Some entries \<Rightarrow>
             fold (\<lambda>entry results.
               (case entry of
                  None \<Rightarrow> results
                | Some name \<Rightarrow>
                    if \<not> entry_matches pattern name then results
                    else if remaining = []
                      then results @ [path_to_string (path_join display_dir name)]
                    else if path_is_dir fs (path_join fs_dir name)
                      then glob_recursive fs (path_join fs_dir name) (path_join display_dir name)
                             remaining results
                    else results)) entries results))"

definition glob_shell :: "filesystem \<Rightarrow> ustring \<Rightarrow> bytes \<Rightarrow> ustring list" where
  "glob_shell fs pattern cwd =
     (if pattern = [] then []
      else
        let (absolute, components) = split_components pattern
        in if absolute \<and> components = [] then [[47]]
           else if components = [] then []
           else if absolute then sort_results (glob_recursive fs [47] [47] components [])
           else sort_results (glob_recursive fs cwd [] components []))"

definition glob :: "filesystem \<Rightarrow> ustring \<Rightarrow> bytes \<Rightarrow> ustring list" where
  "glob fs pattern cwd = glob_shell fs (pattern_to_str pattern) cwd"

subsection \<open>The meaning of a pattern\<close>

datatype pat_item =
    AnyChar
  | AnyString
  | Class bool "(nat \<times> nat option) list"
  | Lit nat
  | Dead

function bracket_members :: "bool \<Rightarrow> nat list \<Rightarrow> (nat \<times> nat option) list \<times> nat list" where
  "bracket_members first pat =
     (case pat of
        [] \<Rightarrow> ([], [])
      | p # ps \<Rightarrow>
          if p = 93 \<and> \<not> first then ([], pat)
          else (case bracket_elem (p # ps) of (c1, c2, r) \<Rightarrow>
                 (let (ms, rest) = bracket_members False r in ((c1, c2) # ms, rest))))"
  by pat_completeness auto
termination
  by (relation "measure (\<lambda>(first, pat). length pat)") (auto dest!: bracket_elem_shorter [OF sym])

declare bracket_members.simps [simp del]

definition in_class :: "(nat \<times> nat option) list \<Rightarrow> nat \<Rightarrow> bool" where
  "in_class ms c \<longleftrightarrow> (\<exists>(c1, c2) \<in> set ms. elem_matches c1 c2 c)"

lemma bracket_members_Nil [simp]: "bracket_members first [] = ([], [])"
  by (simp add: bracket_members.simps)

lemma bracket_members_Cons:
  "bracket_members first (p # ps) =
     (if p = 93 \<and> \<not> first then ([], p # ps)
      else (case bracket_elem (p # ps) of (c1, c2, r) \<Rightarrow>
              (let (ms, rest) = bracket_members False r in ((c1, c2) # ms, rest))))"
  by (subst bracket_members.simps) simp

lemma bracket_loop_members:
  "bracket_loop first pat c m = (m \<or> in_class (fst (bracket_members first pat)) c,
                                 snd (bracket_members first pat))"
proof (induction first pat c m rule: bracket_loop.induct)
  case (1 first pat c m)
  show ?case
  proof (cases pat)
    case (Cons p ps)
    obtain c1 c2 r where e: "bracket_elem (p # ps) = (c1, c2, r)" by (metis surj_pair)
    show ?thesis
    proof (cases "p = 93 \<and> \<not> first")
      case False
      from "1.IH" [OF Cons False e [symmetric] refl] Cons False e show ?thesis
        by (auto simp: bracket_loop_Cons bracket_members_Cons in_class_def Let_def split: prod.splits)
    qed (simp add: Cons bracket_loop_Cons bracket_members_Cons in_class_def)
  qed (simp add: in_class_def)
qed

lemma bracket_members_shorter: "length (snd (bracket_members first pat)) \<le> length pat"
  using bracket_loop_shorter [of first pat 0 False] by (simp add: bracket_loop_members)

function parse_items :: "nat list \<Rightarrow> pat_item list" where
  "parse_items pat =
     (case pat of
        [] \<Rightarrow> []
      | p # ps \<Rightarrow>
          if p = 63 then AnyChar # parse_items ps
          else if p = 42 then AnyString # parse_items (dropWhile (\<lambda>c. c = 42) ps)
          else if p = 91 then
            (let negate = (ps \<noteq> [] \<and> hd ps = 33);
                 ps1 = (if negate then tl ps else ps);
                 (ms, r) = bracket_members True ps1
             in Class negate ms # parse_items (drop 1 r))
          else if is_escape p then
            (case ps of [] \<Rightarrow> [Dead] | q # ps' \<Rightarrow> Lit q # parse_items ps')
          else Lit p # parse_items ps)"
  by pat_completeness auto
termination
proof (relation "measure length", goal_cases)
  case (3 pat p ps)
  then show ?case using length_dropWhile_le [of "\<lambda>c. c = 42" ps] by simp
next
  case (4 pat p ps negate ps1 x ms r)
  then have "length r \<le> length ps1" using bracket_members_shorter [of True ps1] by (metis snd_conv)
  moreover have "length ps1 \<le> length ps" using 4 by auto
  ultimately show ?case using 4 by auto
qed auto

declare parse_items.simps [simp del]

inductive gmatch :: "pat_item list \<Rightarrow> nat list \<Rightarrow> bool" where
  Nil: "gmatch [] []"
| AnyChar: "gmatch is s \<Longrightarrow> gmatch (AnyChar # is) (c # s)"
| AnyString: "gmatch is s \<Longrightarrow> gmatch (AnyString # is) (t @ s)"
| Class: "in_class ms c \<noteq> negate \<Longrightarrow> gmatch is s \<Longrightarrow> gmatch (Class negate ms # is) (c # s)"
| Lit: "gmatch is s \<Longrightarrow> gmatch (Lit c # is) (c # s)"

inductive_simps gmatch_simps [simp]:
  "gmatch [] s" "gmatch (AnyChar # is) s" "gmatch (AnyString # is) s"
  "gmatch (Class n ms # is) s" "gmatch (Lit c # is) s" "gmatch (Dead # is) s"

lemma gmatch_star_drop:
  "gmatch (AnyString # is) s \<longleftrightarrow> (\<exists>i \<le> length s. gmatch is (drop i s))"
proof
  assume "gmatch (AnyString # is) s"
  then obtain t u where "s = t @ u" "gmatch is u" by auto
  then show "\<exists>i \<le> length s. gmatch is (drop i s)" by (intro exI [of _ "length t"]) simp
next
  assume "\<exists>i \<le> length s. gmatch is (drop i s)"
  then obtain i where "gmatch is (drop i s)" by blast
  then have "gmatch (AnyString # is) (take i s @ drop i s)" by (rule gmatch.AnyString)
  then show "gmatch (AnyString # is) s" by simp
qed

lemma fnmatch_inner_Nil [simp]: "fnmatch_inner [] s \<longleftrightarrow> s = []"
  by (simp add: fnmatch_inner.simps)

lemma list_ex_upto: "list_ex P [0..<Suc n] \<longleftrightarrow> (\<exists>i \<le> n. P i)"
  unfolding list_ex_iff set_upt by (metis atLeastLessThan_iff le0 less_Suc_eq_le)

lemma fnmatch_inner_Cons:
  "fnmatch_inner (p # ps) s \<longleftrightarrow>
     (if p = 63 then (case s of [] \<Rightarrow> False | _ # s' \<Rightarrow> fnmatch_inner ps s')
      else if p = 42 then
        (let rest = dropWhile (\<lambda>c. c = 42) ps in
         if rest = [] then True else (\<exists>i \<le> length s. fnmatch_inner rest (drop i s)))
      else if p = 91 then
        (case s of [] \<Rightarrow> False
         | c # s' \<Rightarrow>
             (let negate = (ps \<noteq> [] \<and> hd ps = 33);
                  (ms, r) = bracket_members True (if negate then tl ps else ps)
              in if in_class ms c = negate then False else fnmatch_inner (drop 1 r) s'))
      else if is_escape p then
        (case ps of [] \<Rightarrow> False
         | q # ps' \<Rightarrow> (case s of [] \<Rightarrow> False | c # s' \<Rightarrow> c = q \<and> fnmatch_inner ps' s'))
      else (case s of [] \<Rightarrow> False | c # s' \<Rightarrow> c = p \<and> fnmatch_inner ps s'))"
  by (subst fnmatch_inner.simps)
    (simp only: list.case list_ex_upto bracket_loop_members Let_def split_beta prod.sel simp_thms)

lemma parse_items_Nil [simp]: "parse_items [] = []"
  by (simp add: parse_items.simps)

lemma parse_items_Cons:
  "parse_items (p # ps) =
     (if p = 63 then AnyChar # parse_items ps
      else if p = 42 then AnyString # parse_items (dropWhile (\<lambda>c. c = 42) ps)
      else if p = 91 then
        (let negate = (ps \<noteq> [] \<and> hd ps = 33);
             (ms, r) = bracket_members True (if negate then tl ps else ps)
         in Class negate ms # parse_items (drop 1 r))
      else if is_escape p then
        (case ps of [] \<Rightarrow> [Dead] | q # ps' \<Rightarrow> Lit q # parse_items ps')
      else Lit p # parse_items ps)"
  by (subst parse_items.simps) (simp add: Let_def split_beta)

lemma fnmatch_inner_gmatch: "fnmatch_inner pat s \<longleftrightarrow> gmatch (parse_items pat) s"
proof (induction pat arbitrary: s rule: parse_items.induct)
  case (1 pat)
  show ?case
  proof (cases pat)
    case (Cons p ps)
    note IH = "1.IH" [OF Cons]
    consider (any) "p = 63" | (star) "p = 42" | (bracket) "p = 91"
      | (esc) "is_escape p" "p \<noteq> 63" "p \<noteq> 42" "p \<noteq> 91"
      | (lit) "\<not> is_escape p" "p \<noteq> 63" "p \<noteq> 42" "p \<noteq> 91" by blast
    then show ?thesis
    proof cases
      case any
      with Cons IH(1) show ?thesis by (cases s) (simp_all add: fnmatch_inner_Cons parse_items_Cons)
    next
      case star
      with IH(2) have "gmatch (AnyString # parse_items (dropWhile (\<lambda>c. c = 42) ps)) s \<longleftrightarrow>
          (\<exists>i \<le> length s. fnmatch_inner (dropWhile (\<lambda>c. c = 42) ps) (drop i s))"
        by (simp only: gmatch_star_drop)
      moreover have "gmatch (AnyString # parse_items []) s"
        using gmatch.AnyString [OF gmatch.Nil, of s] by simp
      ultimately show ?thesis using star Cons
        by (cases "dropWhile (\<lambda>c. c = 42) ps = []")
          (simp_all add: fnmatch_inner_Cons parse_items_Cons Let_def
             del: gmatch_simps(3) dropWhile_eq_Nil_conv)
    next
      case bracket
      define negate where "negate = (ps \<noteq> [] \<and> hd ps = 33)"
      obtain ms r where m: "bracket_members True (if negate then tl ps else ps) = (ms, r)"
        by (metis surj_pair)
      have "fnmatch_inner (drop 1 r) t \<longleftrightarrow> gmatch (parse_items (drop 1 r)) t" for t
        using bracket by (intro IH(3) [OF _ _ _ negate_def refl refl m [symmetric]]) simp_all
      with Cons bracket m show ?thesis
        by (cases s) (auto simp: fnmatch_inner_Cons parse_items_Cons Let_def negate_def [symmetric])
    next
      case esc
      then show ?thesis using Cons IH(4)
        by (cases ps; cases s) (auto simp add: fnmatch_inner_Cons parse_items_Cons)
    next
      case lit
      then show ?thesis using Cons IH(5)
        by (cases s) (auto simp: fnmatch_inner_Cons parse_items_Cons)
    qed
  qed simp
qed

subsection \<open>The meaning of pathname expansion\<close>

text \<open>\<open>reaches fs dir disp comps p\<close>: following the components from \<open>dir\<close> leads to the file
  that is displayed as \<open>p\<close>.\<close>

inductive reaches :: "filesystem \<Rightarrow> bytes \<Rightarrow> bytes \<Rightarrow> ustring list \<Rightarrow> bytes \<Rightarrow> bool"
  for fs :: filesystem where
  literal_last: "\<not> has_glob_chars_shell c \<Longrightarrow> lit = from_str_lossless (literal_component c) \<Longrightarrow>
     symlink_metadata_ok fs (path_join dir lit) \<Longrightarrow> reaches fs dir disp [c] (path_join disp lit)"
| literal_step: "\<not> has_glob_chars_shell c \<Longrightarrow> lit = from_str_lossless (literal_component c) \<Longrightarrow>
     cs \<noteq> [] \<Longrightarrow> path_is_dir fs (path_join dir lit) \<Longrightarrow>
     reaches fs (path_join dir lit) (path_join disp lit) cs p \<Longrightarrow> reaches fs dir disp (c # cs) p"
| entry_last: "has_glob_chars_shell c \<Longrightarrow> read_dir fs dir = Some es \<Longrightarrow> Some name \<in> set es \<Longrightarrow>
     entry_matches c name \<Longrightarrow> reaches fs dir disp [c] (path_join disp name)"
| entry_step: "has_glob_chars_shell c \<Longrightarrow> read_dir fs dir = Some es \<Longrightarrow> Some name \<in> set es \<Longrightarrow>
     entry_matches c name \<Longrightarrow> cs \<noteq> [] \<Longrightarrow> path_is_dir fs (path_join dir name) \<Longrightarrow>
     reaches fs (path_join dir name) (path_join disp name) cs p \<Longrightarrow> reaches fs dir disp (c # cs) p"

inductive_simps reaches_simps: "reaches fs dir disp [] p" "reaches fs dir disp (c # cs) p"

lemma set_fold_collect:
  "(\<And>e rs. e \<in> set es \<Longrightarrow> set (f e rs) = set rs \<union> F e) \<Longrightarrow>
     set (fold f es rs) = set rs \<union> (\<Union>e \<in> set es. F e)"
  by (induction es arbitrary: rs) auto

lemma set_glob_recursive:
  "set (glob_recursive fs dir disp comps results) =
     set results \<union> path_to_string ` {p. reaches fs dir disp comps p}"
proof (induction comps arbitrary: dir disp results)
  case (Cons c cs)
  show ?case
  proof (cases "has_glob_chars_shell c")
    case False
    then show ?thesis using Cons.IH by (auto simp: Let_def reaches_simps)
  next
    case True
    show ?thesis
    proof (cases "read_dir fs dir")
      case (Some es)
      have "set (glob_recursive fs dir disp (c # cs) results) = set results \<union>
          (\<Union>e \<in> set es. path_to_string ` {p. \<exists>name. e = Some name \<and> entry_matches c name \<and>
             (if cs = [] then p = path_join disp name
              else path_is_dir fs (path_join dir name) \<and>
                   reaches fs (path_join dir name) (path_join disp name) cs p)})"
        unfolding glob_recursive.simps Some option.case using True
        by (simp, intro set_fold_collect) (auto simp: Cons.IH split: option.splits)
      then show ?thesis using True Some by (auto simp: reaches_simps)
    qed (use True in \<open>auto simp: reaches_simps\<close>)
  qed
qed (auto simp: reaches_simps)

text \<open>A pattern that is literal all through: each character either escaped, or itself not
  special to the matcher.\<close>

definition quote_item :: "nat \<Rightarrow> bool" where
  "quote_item c \<longleftrightarrow> c = 63 \<or> c = 42 \<or> c = 91 \<or> is_escape c"

lemma parse_items_escaped:
  "is_escape e \<Longrightarrow> parse_items (e # c # ps) = Lit c # parse_items ps"
  by (auto simp add: parse_items_Cons is_escape_def GLOB_ESCAPE_def)

lemma parse_items_plain: "\<not> quote_item c \<Longrightarrow> parse_items (c # ps) = Lit c # parse_items ps"
  by (simp add: parse_items_Cons quote_item_def)

lemma gmatch_Lits [simp]: "gmatch (map Lit cs) s \<longleftrightarrow> s = cs"
  by (induction cs arbitrary: s) auto

lemma gmatch_Lits_append [simp]:
  "gmatch (map Lit cs @ is) s \<longleftrightarrow> (\<exists>t. s = cs @ t \<and> gmatch is t)"
  by (induction cs arbitrary: s) auto

subsection \<open>Properties\<close>

text \<open>C9. The backtracking matcher decides the declarative meaning of patterns: a subject
  matches exactly when the items of the pattern consume it from left to right.\<close>

theorem fnmatch_shell_correct:
  "fnmatch_shell pattern str \<longleftrightarrow>
     gmatch (parse_items (shell_codepoints pattern)) (shell_codepoints str)"
  by (simp add: fnmatch_shell_def fnmatch_inner_gmatch)

text \<open>C10. Pathname expansion returns, sorted by bytes, exactly the files that following the
  components of the pattern reaches, from the root for an absolute pattern and from the
  working directory otherwise.\<close>

theorem glob_shell_correct:
  "sorted (map str_to_bytes (glob_shell fs pattern cwd)) \<and>
   set (glob_shell fs pattern cwd) =
     (case split_components pattern of (absolute, components) \<Rightarrow>
        if components = [] then (if absolute then {[47]} else {})
        else path_to_string ` {p. reaches fs (if absolute then [47] else cwd)
                                     (if absolute then [47] else []) components p})"
proof (cases "pattern = []")
  case True
  then show ?thesis by (simp add: glob_shell_def split_components_def)
next
  case False
  obtain a comps where "split_components pattern = (a, comps)" by (metis surj_pair)
  with False show ?thesis
    by (simp add: glob_shell_def sort_results_def set_glob_recursive)
qed

end
