(* ===== verification/Num_Text.thy ===== *)
theory Num_Text
  imports Prelude
begin

text \<open>
  The decimal and radix conversions of the standard library that the shell uses:
  \<^verbatim>\<open>to_string\<close> on integers, \<^verbatim>\<open>str::parse\<close> and \<^verbatim>\<open>from_str_radix\<close>.  Digits are code points.
  A value of a signed 64-bit type is a \<^typ>\<open>64 word\<close> read by \<^const>\<open>sint\<close>.
\<close>

fun nat_to_string :: "nat \<Rightarrow> ustring" where
  "nat_to_string n = (if n < 10 then [48 + n] else nat_to_string (n div 10) @ [48 + n mod 10])"

declare nat_to_string.simps [simp del]

definition int_to_string :: "int \<Rightarrow> ustring" where
  "int_to_string z = (if z < 0 then 45 # nat_to_string (nat (- z)) else nat_to_string (nat z))"

definition i64_to_string :: "i64 \<Rightarrow> ustring" where
  "i64_to_string w = int_to_string (sint w)"

definition digit_value :: "nat \<Rightarrow> cp \<Rightarrow> nat option" where
  "digit_value radix c =
     (let d = (if 48 \<le> c \<and> c \<le> 57 then c - 48
               else if 97 \<le> c \<and> c \<le> 122 then c - 87
               else if 65 \<le> c \<and> c \<le> 90 then c - 55 else radix)
      in if d < radix then Some d else None)"

fun digits_value :: "nat \<Rightarrow> nat \<Rightarrow> ustring \<Rightarrow> nat option" where
  "digits_value radix acc [] = Some acc"
| "digits_value radix acc (c # cs) =
     (case digit_value radix c of None \<Rightarrow> None | Some d \<Rightarrow> digits_value radix (acc * radix + d) cs)"

definition parse_nat_radix :: "nat \<Rightarrow> ustring \<Rightarrow> nat option" where
  "parse_nat_radix radix cs = (if cs = [] then None else digits_value radix 0 cs)"

definition i64_of_int :: "int \<Rightarrow> i64 option" where
  "i64_of_int z = (if - (2 ^ 63) \<le> z \<and> z < 2 ^ 63 then Some (word_of_int z) else None)"

text \<open>\<^verbatim>\<open>i64::from_str_radix\<close>: an optional sign, then at least one digit, in range.\<close>

definition i64_from_str_radix :: "nat \<Rightarrow> ustring \<Rightarrow> i64 option" where
  "i64_from_str_radix radix cs =
     (case cs of
        [] \<Rightarrow> None
      | c # r \<Rightarrow>
          if c = 45 then Option.bind (parse_nat_radix radix r) (\<lambda>n. i64_of_int (- int n))
          else Option.bind (parse_nat_radix radix (if c = 43 then r else cs)) (\<lambda>n. i64_of_int (int n)))"

definition parse_i64 :: "ustring \<Rightarrow> i64 option" where
  "parse_i64 = i64_from_str_radix 10"

definition parse_i32 :: "ustring \<Rightarrow> int option" where
  "parse_i32 t = (case parse_i64 t of None \<Rightarrow> None
     | Some v \<Rightarrow> if - (2 ^ 31) \<le> sint v \<and> sint v < 2 ^ 31 then Some (sint v) else None)"

text \<open>\<^verbatim>\<open>usize\<close> is 64 bits wide on the supported platforms.\<close>

definition parse_usize :: "ustring \<Rightarrow> nat option" where
  "parse_usize cs =
     (case parse_nat_radix 10 (case cs of [] \<Rightarrow> [] | c # r \<Rightarrow> if c = 43 then r else cs) of
        Some n \<Rightarrow> if n < 2 ^ 64 then Some n else None
      | None \<Rightarrow> None)"

lemma digit_value_digit [simp]: "d < 10 \<Longrightarrow> digit_value 10 (48 + d) = Some d"
  by (auto simp: digit_value_def)

lemma digits_value_append:
  "digits_value r acc (xs @ ys) = Option.bind (digits_value r acc xs) (\<lambda>a. digits_value r a ys)"
  by (induction xs arbitrary: acc) (auto split: option.splits)

lemma nat_to_string_nonempty [simp]: "nat_to_string n \<noteq> []"
  by (subst nat_to_string.simps) simp

lemma digits_value_nat_to_string: "digits_value 10 0 (nat_to_string n) = Some n"
proof (induction n rule: nat_to_string.induct)
  case (1 n)
  show ?case
  proof (cases "n < 10")
    case True
    then show ?thesis by (subst nat_to_string.simps) simp
  next
    case False
    then have "digits_value 10 0 (nat_to_string n) =
        Option.bind (digits_value 10 0 (nat_to_string (n div 10)))
          (\<lambda>a. digits_value 10 a [48 + n mod 10])"
      by (subst nat_to_string.simps) (simp add: digits_value_append)
    then show ?thesis using False 1 by simp
  qed
qed

lemma nat_to_string_digits: "c \<in> set (nat_to_string n) \<Longrightarrow> is_ascii_digit c"
proof (induction n rule: nat_to_string.induct)
  case (1 n)
  have d: "is_ascii_digit (48 + n mod 10)" "n < 10 \<Longrightarrow> is_ascii_digit (48 + n)"
    by (simp_all add: is_ascii_digit_def)
  from 1 d show ?case
    by (subst (asm) (2) nat_to_string.simps) (auto split: if_splits)
qed

lemma hd_nat_to_string: "is_ascii_digit (hd (nat_to_string n))"
  by (meson hd_in_set nat_to_string_digits nat_to_string_nonempty)

lemma parse_nat_radix_nat_to_string: "parse_nat_radix 10 (nat_to_string n) = Some n"
  by (simp add: parse_nat_radix_def digits_value_nat_to_string)

lemma i64_from_str_radix_digit:
  "is_ascii_digit (hd cs) \<Longrightarrow> cs \<noteq> [] \<Longrightarrow>
     i64_from_str_radix r cs = Option.bind (parse_nat_radix r cs) (\<lambda>n. i64_of_int (int n))"
  by (cases cs) (auto simp: i64_from_str_radix_def is_ascii_digit_def)

lemma i64_of_sint: "i64_of_int (sint w) = Some w"
  using sint_ge [of w] sint_lt [of w] by (simp add: i64_of_int_def)

lemma parse_i64_to_string: "parse_i64 (i64_to_string w) = Some w"
proof (cases "sint w < 0")
  case True
  then show ?thesis
    by (simp add: parse_i64_def i64_to_string_def int_to_string_def i64_from_str_radix_def
        parse_nat_radix_nat_to_string i64_of_sint)
next
  case False
  then show ?thesis
    by (simp add: parse_i64_def i64_to_string_def int_to_string_def i64_from_str_radix_digit
        hd_nat_to_string parse_nat_radix_nat_to_string i64_of_sint)
qed

lemma i64_to_string_ascii: "c \<in> set (i64_to_string w) \<Longrightarrow> c < 128"
  by (auto simp: i64_to_string_def int_to_string_def is_ascii_digit_def
      dest!: nat_to_string_digits split: if_splits)

end
