(* ===== verification/Vars.thy ===== *)
theory Vars
  imports Encoding Num_Text "HOL-Library.List_Lexorder"
begin

text \<open>
  Shell variables (\<^verbatim>\<open>crates/epsh/src/var.rs\<close>): values with export and readonly flags, the cached
  integer reading of a value, the stack of scopes that restores local variables, positional and
  special parameters, and the environment of a child process.

  The hash map from names to variables is a map; where the code iterates over it, the order of
  iteration is an argument \<open>order\<close>, any enumeration of its keys.  A method that returns
  \<^verbatim>\<open>Err\<close> leaves the store as it was.
\<close>

definition EXPORT :: u8 where "EXPORT = 1"
definition READONLY :: u8 where "READONLY = 2"

unbundle bit_operations_syntax

definition flags_has :: "u8 \<Rightarrow> u8 \<Rightarrow> bool" where
  "flags_has fl flag \<longleftrightarrow> fl AND flag \<noteq> 0"

definition flags_set :: "u8 \<Rightarrow> u8 \<Rightarrow> u8" where
  "flags_set fl flag = fl OR flag"

definition flags_clear :: "u8 \<Rightarrow> u8 \<Rightarrow> u8" where
  "flags_clear fl flag = fl AND NOT flag"

definition int_cache :: "shell_bytes option \<Rightarrow> i64 option" where
  "int_cache v = Option.bind (Option.bind v as_utf8_str) parse_i64"

definition is_shell_name_bytes :: "bytes \<Rightarrow> ustring option" where
  "is_shell_name_bytes bs =
     (case bs of
        [] \<Rightarrow> None
      | first # _ \<Rightarrow>
          if \<not> (unat first = 95 \<or> is_ascii_alphabetic (unat first)) then None
          else if \<not> list_all (\<lambda>b. unat b = 95 \<or> is_ascii_alphanumeric (unat b)) bs then None
          else as_utf8_str bs)"

record shell_var =
  var_value :: "shell_bytes option"
  var_flags :: u8
  var_int_cache :: "i64 option"

definition var_new :: "shell_bytes option \<Rightarrow> u8 \<Rightarrow> shell_var" where
  "var_new v fl = \<lparr>var_value = v, var_flags = fl, var_int_cache = int_cache v\<rparr>"

record saved_var =
  saved_name :: ustring
  previous :: "shell_var option"

record variables =
  vars :: "ustring \<Rightarrow> shell_var option"
  inherited_env :: "(shell_bytes \<times> shell_bytes) list"
  scopes :: "saved_var list list"
  positional :: "shell_bytes list"
  arg0 :: shell_bytes

definition IFS_NAME :: ustring where "IFS_NAME = ustr ''IFS''"
definition DEFAULT_IFS :: ustring where "DEFAULT_IFS = [32, 9, 10]"

definition new_clean :: variables where
  "new_clean =
     \<lparr>vars = [IFS_NAME \<mapsto> var_new (Some (shell_bytes_from DEFAULT_IFS)) 0],
      inherited_env = [], scopes = [], positional = [],
      arg0 = shell_bytes_from (ustr ''epsh'')\<rparr>"

definition import_entry ::
  "shell_bytes \<times> shell_bytes \<Rightarrow> (ustring \<Rightarrow> shell_var option) \<times> (shell_bytes \<times> shell_bytes) list \<Rightarrow>
     (ustring \<Rightarrow> shell_var option) \<times> (shell_bytes \<times> shell_bytes) list" where
  "import_entry kv acc =
     (case (kv, acc) of ((key, v), (m, inherited)) \<Rightarrow>
        (case is_shell_name_bytes key of
           Some name \<Rightarrow> (m(name \<mapsto> var_new (Some v) (flags_set 0 EXPORT)), inherited)
         | None \<Rightarrow> (m, inherited @ [(key, v)])))"

definition from_environment :: "(shell_bytes \<times> shell_bytes) list \<Rightarrow> variables" where
  "from_environment entries =
     (let (m, inherited) = fold import_entry entries (Map.empty, []);
          m' = (if m IFS_NAME = None
                then m(IFS_NAME \<mapsto> var_new (Some (shell_bytes_from DEFAULT_IFS)) 0) else m)
      in \<lparr>vars = m', inherited_env = inherited, scopes = [], positional = [],
          arg0 = shell_bytes_from (ustr ''epsh'')\<rparr>)"

definition get_bytes :: "variables \<Rightarrow> ustring \<Rightarrow> shell_bytes option" where
  "get_bytes s name = Option.bind (vars s name) var_value"

definition bindings_bytes :: "ustring list \<Rightarrow> variables \<Rightarrow> (ustring \<times> shell_bytes) list" where
  "bindings_bytes order s =
     sort_key fst (List.map_filter
       (\<lambda>name. Option.bind (vars s name) (\<lambda>v. map_option (Pair name) (var_value v))) order)"

definition get :: "variables \<Rightarrow> ustring \<Rightarrow> ustring option" where
  "get s name = Option.bind (get_bytes s name) as_utf8_str"

definition get_shell :: "variables \<Rightarrow> ustring \<Rightarrow> ustring option" where
  "get_shell s name = map_option to_shell_string (get_bytes s name)"

definition readonly_error :: "ustring \<Rightarrow> ustring" where
  "readonly_error name = name @ ustr '': readonly variable''"

definition is_readonly :: "variables \<Rightarrow> ustring \<Rightarrow> bool" where
  "is_readonly s name =
     (case vars s name of None \<Rightarrow> False | Some v \<Rightarrow> flags_has (var_flags v) READONLY)"

text \<open>\<^verbatim>\<open>entry(name).or_insert_with(|| Var::new(None, VarFlags::new()))\<close>\<close>

definition entry_or_new :: "variables \<Rightarrow> ustring \<Rightarrow> shell_var" where
  "entry_or_new s name = (case vars s name of Some v \<Rightarrow> v | None \<Rightarrow> var_new None 0)"

definition put :: "ustring \<Rightarrow> shell_var \<Rightarrow> variables \<Rightarrow> variables" where
  "put name v s = s\<lparr>vars := (vars s)(name \<mapsto> v)\<rparr>"

definition set_bytes :: "variables \<Rightarrow> ustring \<Rightarrow> shell_bytes \<Rightarrow> ustring + variables" where
  "set_bytes s name v =
     (if is_readonly s name then Inl (readonly_error name)
      else Inr (put name ((entry_or_new s name)
                  \<lparr>var_int_cache := int_cache (Some v), var_value := Some v\<rparr>) s))"

definition set_text :: "variables \<Rightarrow> ustring \<Rightarrow> ustring \<Rightarrow> ustring + variables" where
  "set_text s name v = set_bytes s name (shell_bytes_from v)"

definition set_shell :: "variables \<Rightarrow> ustring \<Rightarrow> ustring \<Rightarrow> ustring + variables" where
  "set_shell s name v = set_bytes s name (from_str_lossless v)"

definition get_int :: "variables \<Rightarrow> ustring \<Rightarrow> i64 option" where
  "get_int s name = Option.bind (vars s name) var_int_cache"

definition set_int :: "variables \<Rightarrow> ustring \<Rightarrow> i64 \<Rightarrow> ustring + variables" where
  "set_int s name v =
     (case vars s name of
        Some existing \<Rightarrow>
          if flags_has (var_flags existing) READONLY then Inl (readonly_error name)
          else Inr (put name (existing\<lparr>var_int_cache := Some v,
                                       var_value := Some (utf8 (i64_to_string v))\<rparr>) s)
      | None \<Rightarrow>
          Inr (put name \<lparr>var_value = Some (utf8 (i64_to_string v)), var_flags = 0,
                         var_int_cache = Some v\<rparr> s))"

definition unset :: "variables \<Rightarrow> ustring \<Rightarrow> ustring + variables" where
  "unset s name =
     (if is_readonly s name then Inl (readonly_error name)
      else Inr (s\<lparr>vars := (vars s)(name := None)\<rparr>))"

definition export :: "variables \<Rightarrow> ustring \<Rightarrow> variables" where
  "export s name =
     put name ((entry_or_new s name)\<lparr>var_flags := flags_set (var_flags (entry_or_new s name)) EXPORT\<rparr>) s"

definition declare_var :: "variables \<Rightarrow> ustring \<Rightarrow> variables" where
  "declare_var s name = put name (entry_or_new s name) s"

definition unexport :: "variables \<Rightarrow> ustring \<Rightarrow> variables" where
  "unexport s name =
     (case vars s name of
        Some v \<Rightarrow> put name (v\<lparr>var_flags := flags_clear (var_flags v) EXPORT\<rparr>) s
      | None \<Rightarrow> s)"

definition set_readonly :: "variables \<Rightarrow> ustring \<Rightarrow> variables" where
  "set_readonly s name =
     put name ((entry_or_new s name)\<lparr>var_flags := flags_set (var_flags (entry_or_new s name)) READONLY\<rparr>) s"

definition push_scope :: "variables \<Rightarrow> variables" where
  "push_scope s = s\<lparr>scopes := scopes s @ [[]]\<rparr>"

definition restore_saved :: "saved_var \<Rightarrow> (ustring \<Rightarrow> shell_var option) \<Rightarrow> ustring \<Rightarrow> shell_var option" where
  "restore_saved sv m =
     (case previous sv of Some v \<Rightarrow> m(saved_name sv \<mapsto> v) | None \<Rightarrow> m(saved_name sv := None))"

definition pop_scope :: "variables \<Rightarrow> variables" where
  "pop_scope s =
     (if scopes s = [] then s
      else s\<lparr>scopes := butlast (scopes s),
             vars := fold restore_saved (rev (last (scopes s))) (vars s)\<rparr>)"

definition make_local :: "variables \<Rightarrow> ustring \<Rightarrow> variables" where
  "make_local s name =
     (if scopes s = [] then s
      else s\<lparr>scopes := butlast (scopes s) @
               [last (scopes s) @ [\<lparr>saved_name = name, previous = vars s name\<rparr>]]\<rparr>)"

definition positional_shell_strings :: "variables \<Rightarrow> ustring list" where
  "positional_shell_strings s = map to_shell_string (positional s)"

text \<open>\<^verbatim>\<open>join\<close> on a slice of strings.\<close>

fun join :: "'a list \<Rightarrow> 'a list list \<Rightarrow> 'a list" where
  "join sep [] = []"
| "join sep [w] = w"
| "join sep (w # ws) = w @ sep @ join sep ws"

definition positional_join_shell :: "variables \<Rightarrow> ustring \<Rightarrow> ustring" where
  "positional_join_shell s sep = join sep (positional_shell_strings s)"

definition arg0_shell :: "variables \<Rightarrow> ustring" where
  "arg0_shell s = to_shell_string (arg0 s)"

definition get_special ::
  "variables \<Rightarrow> ustring \<Rightarrow> int \<Rightarrow> nat \<Rightarrow> ustring \<Rightarrow> nat option \<Rightarrow> ustring option" where
  "get_special s name exit_status shell_pid shell_flags last_bg_pid =
     (if name = ustr ''?'' then Some (int_to_string exit_status)
      else if name = ustr ''$'' then Some (nat_to_string shell_pid)
      else if name = ustr ''#'' then Some (nat_to_string (length (positional s)))
      else if name = ustr ''0'' then Some (to_shell_string (arg0 s))
      else if name = ustr ''-'' then Some shell_flags
      else if name = ustr ''!'' then map_option nat_to_string last_bg_pid
      else if name = ustr ''@'' \<or> name = ustr ''*'' then
        Some (join (ustr '' '') (positional_shell_strings s))
      else (case parse_usize name of
              Some n \<Rightarrow>
                if 1 \<le> n then
                  (if n - 1 < length (positional s)
                   then Some (to_shell_string (positional s ! (n - 1))) else None)
                else None
            | None \<Rightarrow> get_shell s name))"

definition ifs :: "variables \<Rightarrow> ustring" where
  "ifs s = (case get_shell s IFS_NAME of Some v \<Rightarrow> v | None \<Rightarrow> DEFAULT_IFS)"

definition exported_binding :: "variables \<Rightarrow> ustring \<Rightarrow> shell_bytes option" where
  "exported_binding s name =
     (case vars s name of
        Some v \<Rightarrow> if flags_has (var_flags v) EXPORT then var_value v else None
      | None \<Rightarrow> None)"

definition exported_env_bytes :: "ustring list \<Rightarrow> variables \<Rightarrow> (ustring \<times> shell_bytes) list" where
  "exported_env_bytes order s =
     List.map_filter (\<lambda>name. map_option (Pair name) (exported_binding s name)) order"

definition exported_env :: "ustring list \<Rightarrow> variables \<Rightarrow> (ustring \<times> ustring) list" where
  "exported_env order s =
     List.map_filter
       (\<lambda>name. map_option (\<lambda>v. (name, to_shell_string v)) (exported_binding s name)) order"

definition env_for_command_os ::
  "ustring list \<Rightarrow> variables \<Rightarrow> (ustring \<times> shell_bytes) list \<Rightarrow> (bytes \<times> bytes) list" where
  "env_for_command_os order s assigns =
     (let assigned = map (utf8 \<circ> fst) assigns;
          shadowed = map (utf8 \<circ> fst) (exported_env_bytes order s) @ assigned
      in filter (\<lambda>(name, v). name \<notin> set shadowed) (inherited_env s) @
         map (\<lambda>(name, v). (utf8 name, v))
           (filter (\<lambda>(name, v). utf8 name \<notin> set assigned) (exported_env_bytes order s)) @
         map (\<lambda>(name, v). (utf8 name, v)) assigns)"

subsection \<open>Operations as data\<close>

text \<open>Every mutation of the store, so that a property of all states the shell can reach is a
  property of all sequences of operations.  \<open>apply_op\<close> keeps the old store when the operation
  fails, as the methods do.\<close>

datatype var_op =
    OpSet ustring shell_bytes
  | OpSetInt ustring i64
  | OpUnset ustring
  | OpExport ustring
  | OpDeclare ustring
  | OpUnexport ustring
  | OpReadonly ustring
  | OpPush
  | OpPop
  | OpLocal ustring

definition or_else :: "'e + 's \<Rightarrow> 's \<Rightarrow> 's" where
  "or_else r s = (case r of Inr s' \<Rightarrow> s' | Inl _ \<Rightarrow> s)"

fun apply_op :: "var_op \<Rightarrow> variables \<Rightarrow> variables" where
  "apply_op (OpSet x v) s = or_else (set_bytes s x v) s"
| "apply_op (OpSetInt x v) s = or_else (set_int s x v) s"
| "apply_op (OpUnset x) s = or_else (unset s x) s"
| "apply_op (OpExport x) s = export s x"
| "apply_op (OpDeclare x) s = declare_var s x"
| "apply_op (OpUnexport x) s = unexport s x"
| "apply_op (OpReadonly x) s = set_readonly s x"
| "apply_op OpPush s = push_scope s"
| "apply_op OpPop s = pop_scope s"
| "apply_op (OpLocal x) s = make_local s x"

definition run_ops :: "var_op list \<Rightarrow> variables \<Rightarrow> variables" where
  "run_ops ops s = fold apply_op ops s"

lemma run_ops_simps [simp]:
  "run_ops [] s = s" "run_ops (p # ops) s = run_ops ops (apply_op p s)"
  by (simp_all add: run_ops_def)

lemma or_else_simps [simp]: "or_else (Inr s') s = s'" "or_else (Inl e) s = s"
  by (simp_all add: or_else_def)

lemmas var_op_defs = set_bytes_def set_int_def unset_def export_def declare_var_def
  unexport_def set_readonly_def put_def push_scope_def make_local_def

subsection \<open>Coherence of the integer cache\<close>

definition var_ok :: "shell_var \<Rightarrow> bool" where
  "var_ok v \<longleftrightarrow> var_int_cache v = int_cache (var_value v)"

definition map_ok :: "(ustring \<Rightarrow> shell_var option) \<Rightarrow> bool" where
  "map_ok m \<longleftrightarrow> (\<forall>x v. m x = Some v \<longrightarrow> var_ok v)"

definition vars_ok :: "variables \<Rightarrow> bool" where
  "vars_ok s \<longleftrightarrow> map_ok (vars s) \<and>
     (\<forall>scope \<in> set (scopes s). \<forall>sv \<in> set scope. \<forall>v. previous sv = Some v \<longrightarrow> var_ok v)"

lemma var_ok_new [wf_intros]: "var_ok (var_new v fl)"
  by (simp add: var_ok_def var_new_def)

lemma map_ok_empty [wf_intros]: "map_ok Map.empty"
  by (simp add: map_ok_def)

lemma map_ok_upd [wf_intros]:
  "map_ok m \<Longrightarrow> var_ok v \<Longrightarrow> map_ok (m(x \<mapsto> v))"
  "map_ok m \<Longrightarrow> map_ok (m(x := None))"
  by (auto simp: map_ok_def)

lemma var_ok_entry [wf_intros]: "map_ok (vars s) \<Longrightarrow> var_ok (entry_or_new s x)"
  by (auto simp: entry_or_new_def map_ok_def var_ok_new split: option.splits)

lemma var_ok_flags [simp]: "var_ok (v\<lparr>var_flags := fl\<rparr>) \<longleftrightarrow> var_ok v"
  by (simp add: var_ok_def)

lemma wf_ascii: "(\<And>c. c \<in> set cs \<Longrightarrow> c < 128) \<Longrightarrow> wf_str cs"
  by (force simp: list_all_iff is_scalar_def)

lemma int_cache_to_string [simp]: "int_cache (Some (utf8 (i64_to_string w))) = Some w"
  using wf_ascii [of "i64_to_string w"] i64_to_string_ascii [of _ w]
  by (simp add: int_cache_def as_utf8_str_def parse_i64_to_string)

lemma map_ok_restore [wf_intros]:
  "map_ok m \<Longrightarrow> (\<forall>v. previous sv = Some v \<longrightarrow> var_ok v) \<Longrightarrow> map_ok (restore_saved sv m)"
  by (auto simp: restore_saved_def map_ok_def split: option.splits)

lemma map_ok_restore_all:
  "map_ok m \<Longrightarrow> \<forall>sv \<in> set svs. \<forall>v. previous sv = Some v \<longrightarrow> var_ok v \<Longrightarrow>
     map_ok (fold restore_saved svs m)"
  by (induction svs arbitrary: m) (auto intro: map_ok_restore)

lemma vars_ok_put [wf_intros]: "vars_ok s \<Longrightarrow> var_ok v \<Longrightarrow> vars_ok (put x v s)"
  by (simp add: vars_ok_def put_def map_ok_upd)

lemma vars_ok_map: "vars_ok s \<Longrightarrow> map_ok (vars s)"
  by (simp add: vars_ok_def)

lemma vars_ok_pop: "vars_ok s \<Longrightarrow> vars_ok (pop_scope s)"
  unfolding vars_ok_def pop_scope_def
  by (auto intro!: map_ok_restore_all dest: in_set_butlastD) (meson last_in_set)

lemma vars_ok_local: "vars_ok s \<Longrightarrow> vars_ok (make_local s x)"
  unfolding vars_ok_def make_local_def
  by (auto simp: map_ok_def dest: in_set_butlastD last_in_set)

lemma vars_ok_set_int: "vars_ok s \<Longrightarrow> vars_ok (or_else (set_int s x w) s)"
  by (auto simp: set_int_def var_ok_def split: option.splits intro!: vars_ok_put)

lemma vars_ok_set_bytes: "vars_ok s \<Longrightarrow> vars_ok (or_else (set_bytes s x v) s)"
  by (auto simp: set_bytes_def var_ok_def intro!: vars_ok_put)

lemma vars_ok_apply: "vars_ok s \<Longrightarrow> vars_ok (apply_op p s)"
proof (cases p)
  case (OpUnset x)
  assume "vars_ok s"
  with OpUnset show ?thesis by (auto simp: unset_def vars_ok_def map_ok_upd)
next
  case (OpUnexport x)
  assume ok: "vars_ok s"
  with OpUnexport show ?thesis
    by (auto simp: unexport_def map_ok_def dest: vars_ok_map split: option.splits intro!: vars_ok_put)
next
  case OpPush
  assume "vars_ok s"
  with OpPush show ?thesis by (auto simp: push_scope_def vars_ok_def)
qed (auto simp: export_def declare_var_def set_readonly_def vars_ok_set_int vars_ok_set_bytes
      vars_ok_pop vars_ok_local dest: vars_ok_map intro!: vars_ok_put var_ok_entry)

lemma vars_ok_run: "vars_ok s \<Longrightarrow> vars_ok (run_ops ops s)"
  by (induction ops arbitrary: s) (auto intro: vars_ok_apply)

lemma map_ok_import: "map_ok (fst acc) \<Longrightarrow> map_ok (fst (import_entry kv acc))"
  by (auto simp: import_entry_def split: prod.splits option.splits intro: wf_intros)

lemma map_ok_imports: "map_ok (fst acc) \<Longrightarrow> map_ok (fst (fold import_entry es acc))"
proof (induction es arbitrary: acc)
  case (Cons kv es)
  show ?case using Cons.IH [OF map_ok_import [OF Cons.prems]] by simp
qed simp

lemma vars_ok_from_environment: "vars_ok (from_environment env)"
  using map_ok_imports [of "(Map.empty, [])" env]
  by (auto simp: from_environment_def vars_ok_def Let_def split_beta intro: wf_intros)

lemma get_int_get: "vars_ok s \<Longrightarrow> get_int s x = Option.bind (get s x) parse_i64"
  by (cases "vars s x")
    (auto simp: get_int_def get_def get_bytes_def vars_ok_def map_ok_def var_ok_def int_cache_def)

subsection \<open>Scopes\<close>

definition restore_all :: "saved_var list \<Rightarrow> (ustring \<Rightarrow> shell_var option) \<Rightarrow> ustring \<Rightarrow> shell_var option" where
  "restore_all saved m = fold restore_saved (rev saved) m"

lemma restore_saved_upd: "restore_saved sv m = m(saved_name sv := previous sv)"
  by (auto simp: restore_saved_def split: option.splits)

lemma restore_all_simps [simp]:
  "restore_all [] m = m"
  "restore_all (sv # svs) m = (restore_all svs m)(saved_name sv := previous sv)"
  by (simp_all add: restore_all_def restore_saved_upd)

text \<open>The oldest record of a name in a scope decides what the name is restored to.\<close>

lemma restore_all_lookup:
  "restore_all saved m x =
     (case find (\<lambda>sv. saved_name sv = x) saved of Some sv \<Rightarrow> previous sv | None \<Rightarrow> m x)"
  by (induction saved) auto

lemma pop_scope_snoc:
  "scopes s = outer @ [frame] \<Longrightarrow>
     pop_scope s = s\<lparr>scopes := outer, vars := restore_all frame (vars s)\<rparr>"
  by (simp add: pop_scope_def restore_all_def)

text \<open>Sequences of operations that close exactly the scopes they open.\<close>

fun balanced :: "nat \<Rightarrow> var_op list \<Rightarrow> bool" where
  "balanced d [] = (d = 0)"
| "balanced d (p # ops) =
     (case p of
        OpPush \<Rightarrow> balanced (Suc d) ops
      | OpPop \<Rightarrow> 0 < d \<and> balanced (d - 1) ops
      | _ \<Rightarrow> balanced d ops)"

lemma scopes_put [simp]: "scopes (put x v s) = scopes s"
  by (simp add: put_def)

lemma scopes_or_else:
  "scopes (or_else (set_bytes s x v) s) = scopes s"
  "scopes (or_else (set_int s x w) s) = scopes s"
  "scopes (or_else (unset s x) s) = scopes s"
  by (auto simp: set_bytes_def set_int_def unset_def or_else_def split: option.splits)

lemma scopes_simple [simp]:
  "scopes (export s x) = scopes s" "scopes (declare_var s x) = scopes s"
  "scopes (unexport s x) = scopes s" "scopes (set_readonly s x) = scopes s"
  by (auto simp: export_def declare_var_def unexport_def set_readonly_def split: option.splits)

text \<open>The frames below the current one are left alone, and the current frame only grows.\<close>

lemma balanced_scopes:
  assumes "balanced d ops" "scopes s = outer @ frame # inner" "length inner = d"
  shows "\<exists>more. scopes (run_ops ops s) = outer @ [frame @ more]"
  using assms
proof (induction ops arbitrary: d s frame inner)
  case (Cons p ops)
  have step: "\<exists>more. scopes (run_ops ops (apply_op p s)) = outer @ [frame @ more]"
    if "balanced d' ops" "scopes (apply_op p s) = outer @ (frame @ new) # inner'" "length inner' = d'"
    for d' new inner'
    using Cons.IH [OF that] by auto
  show ?case
  proof (cases p)
    case OpPush
    then show ?thesis using Cons.prems step [of "Suc d" "[]" "inner @ [[]]"]
      by (simp add: push_scope_def)
  next
    case OpPop
    then show ?thesis using Cons.prems step [of "d - 1" "[]" "butlast inner"]
      by (auto simp: pop_scope_def butlast_append)
  next
    case (OpLocal x)
    define sv where "sv = \<lparr>saved_name = x, previous = vars s x\<rparr>"
    show ?thesis
    proof (cases inner rule: rev_cases)
      case Nil
      then show ?thesis using Cons.prems OpLocal step [of d "[sv]" "[]"]
        by (simp add: make_local_def sv_def)
    next
      case (snoc ys y)
      then show ?thesis using Cons.prems OpLocal step [of d "[]" "ys @ [y @ [sv]]"]
        by (simp add: make_local_def sv_def butlast_append)
    qed
  qed (use Cons.prems step [of d "[]" inner] in \<open>auto simp: scopes_or_else\<close>)
qed auto

lemma make_local_push:
  "scopes (make_local (push_scope s) x) = scopes s @ [[\<lparr>saved_name = x, previous = vars s x\<rparr>]]"
  by (simp add: make_local_def push_scope_def)

subsection \<open>Readonly variables\<close>

lemma flags_readonly_set: "flags_has fl READONLY \<Longrightarrow> flags_has (flags_set fl f) READONLY"
  unfolding flags_has_def flags_set_def READONLY_def
  by (simp add: bit.conj_disj_distrib2 or_eq_0_iff)

lemma flags_readonly_unexport: "flags_has (flags_clear fl EXPORT) READONLY \<longleftrightarrow> flags_has fl READONLY"
proof -
  have "NOT EXPORT AND READONLY = READONLY" by (simp add: EXPORT_def READONLY_def)
  then show ?thesis by (simp add: flags_has_def flags_clear_def and.assoc)
qed

definition locked :: "variables \<Rightarrow> ustring \<Rightarrow> shell_bytes option \<Rightarrow> bool" where
  "locked s x b \<longleftrightarrow> is_readonly s x \<and> get_bytes s x = b"

lemma locked_put:
  "locked s x b \<Longrightarrow> (y = x \<Longrightarrow> flags_has (var_flags v) READONLY \<and> var_value v = b) \<Longrightarrow>
     locked (put y v s) x b"
  by (auto simp: locked_def is_readonly_def get_bytes_def put_def)

lemma locked_entry:
  "locked s x b \<Longrightarrow> flags_has (var_flags (entry_or_new s x)) READONLY \<and> var_value (entry_or_new s x) = b"
  by (auto simp: locked_def is_readonly_def get_bytes_def entry_or_new_def split: option.splits)

lemma locked_vars:
  "locked s x b \<Longrightarrow> vars s' x = vars s x \<Longrightarrow> locked s' x b"
  by (simp add: locked_def is_readonly_def get_bytes_def)

lemma locked_failing:
  assumes "locked s x b"
  shows "locked (or_else (set_bytes s y v) s) x b"
    and "locked (or_else (set_int s y w) s) x b"
    and "locked (or_else (unset s y) s) x b"
  using assms
  by (auto simp: set_bytes_def set_int_def unset_def locked_def is_readonly_def get_bytes_def
      put_def split: option.splits)

lemma locked_unexport: "locked s x b \<Longrightarrow> locked (unexport s y) x b"
  by (auto simp: unexport_def flags_readonly_unexport locked_def is_readonly_def get_bytes_def put_def
      split: option.splits)

lemma locked_apply: "locked s x b \<Longrightarrow> p \<noteq> OpPop \<Longrightarrow> locked (apply_op p s) x b"
proof (cases p)
  case OpPush
  assume "locked s x b"
  with OpPush show ?thesis by (auto simp: push_scope_def intro: locked_vars)
next
  case (OpLocal y)
  assume "locked s x b"
  with OpLocal show ?thesis by (auto simp: make_local_def intro: locked_vars)
qed (auto simp: locked_failing locked_unexport export_def declare_var_def set_readonly_def
      intro!: locked_put flags_readonly_set dest: locked_entry)

lemma locked_run: "locked s x b \<Longrightarrow> OpPop \<notin> set ops \<Longrightarrow> locked (run_ops ops s) x b"
proof (induction ops arbitrary: s)
  case (Cons p ops)
  have "locked (apply_op p s) x b" using Cons.prems by (intro locked_apply) auto
  then show ?case using Cons.IH Cons.prems(2) by simp
qed simp

subsection \<open>The store interface\<close>

text \<open>What the expansion and arithmetic components rely on: a partial map with an assignment
  that fails on some names and otherwise behaves as an update.\<close>

locale store =
  fixes lookup :: "'s \<Rightarrow> 'k \<Rightarrow> 'v option"
    and assign :: "'s \<Rightarrow> 'k \<Rightarrow> 'v \<Rightarrow> 'e + 's"
    and frozen :: "'s \<Rightarrow> 'k \<Rightarrow> bool"
  assumes assign_frozen: "frozen s x \<Longrightarrow> \<exists>e. assign s x v = Inl e"
    and assign_ok: "\<not> frozen s x \<Longrightarrow> \<exists>s'. assign s x v = Inr s'"
    and lookup_assign: "assign s x v = Inr s' \<Longrightarrow> lookup s' y = (if y = x then Some v else lookup s y)"
    and frozen_assign: "assign s x v = Inr s' \<Longrightarrow> frozen s' y = frozen s y"
begin

lemma assign_frozen_iff: "(\<exists>e. assign s x v = Inl e) \<longleftrightarrow> frozen s x"
  by (metis Inl_Inr_False assign_frozen assign_ok)

lemma lookup_or_else:
  "lookup (or_else (assign s x v) s) y =
     (if y = x \<and> \<not> frozen s x then Some v else lookup s y)"
proof (cases "assign s x v")
  case (Inl e)
  then show ?thesis using assign_frozen_iff by auto
next
  case (Inr s')
  moreover from this have "\<not> frozen s x" using assign_frozen [of s x v] by auto
  ultimately show ?thesis by (simp add: lookup_assign)
qed

lemma frozen_or_else: "frozen (or_else (assign s x v) s) y = frozen s y"
  by (cases "assign s x v") (simp_all add: frozen_assign)

text \<open>A list of assignments, each of which may fail: the last one of a name that is not frozen
  decides its value.\<close>

definition assign_all :: "('k \<times> 'v) list \<Rightarrow> 's \<Rightarrow> 's" where
  "assign_all xs s = fold (\<lambda>(x, v) s. or_else (assign s x v) s) xs s"

lemma lookup_assign_all:
  "lookup (assign_all xs s) y =
     (if frozen s y then lookup s y
      else case map_of (rev xs) y of Some v \<Rightarrow> Some v | None \<Rightarrow> lookup s y)"
  by (induction xs arbitrary: s)
    (auto simp: assign_all_def lookup_or_else frozen_or_else map_add_def split: option.splits)

end

lemma is_readonly_put:
  "is_readonly (put x v s) y = (if y = x then flags_has (var_flags v) READONLY else is_readonly s y)"
  by (simp add: is_readonly_def put_def)

lemma get_put:
  "get_bytes (put x v s) y = (if y = x then var_value v else get_bytes s y)"
  "get_int (put x v s) y = (if y = x then var_int_cache v else get_int s y)"
  by (simp_all add: get_bytes_def get_int_def put_def)

lemma entry_flags_readonly:
  "flags_has (var_flags (entry_or_new s x)) READONLY = is_readonly s x"
  by (auto simp: entry_or_new_def is_readonly_def var_new_def flags_has_def split: option.splits)

interpretation byte_store: store get_bytes set_bytes is_readonly
  by unfold_locales
    (auto simp: set_bytes_def get_put is_readonly_put entry_flags_readonly split: if_splits)

lemma set_int_cases:
  "set_int s x v =
     (if is_readonly s x then Inl (readonly_error x)
      else Inr (put x ((entry_or_new s x)\<lparr>var_int_cache := Some v,
                                      var_value := Some (utf8 (i64_to_string v))\<rparr>) s))"
  by (auto simp: set_int_def is_readonly_def entry_or_new_def var_new_def split: option.splits)

interpretation int_store: store get_int set_int is_readonly
  by unfold_locales
    (auto simp: set_int_cases get_put is_readonly_put entry_flags_readonly split: if_splits)

subsection \<open>Properties\<close>

text \<open>C35. The cached integer of every variable agrees with its text in every state the shell
  can reach: after any sequence of operations on an imported environment, the fast path of
  arithmetic returns what parsing the value would.\<close>

theorem int_cache_coherent:
  "get_int (run_ops ops (from_environment env)) name =
     Option.bind (get (run_ops ops (from_environment env)) name) parse_i64"
  by (intro get_int_get vars_ok_run vars_ok_from_environment)







end
