(* ===== verification/Arith.thy ===== *)
theory Arith
  imports Vars "HOL-Library.Signed_Division"
begin

text \<open>
  Shell arithmetic (\<^verbatim>\<open>crates/epsh/src/arith.rs\<close>, \<^verbatim>\<open>arith/shift.rs\<close>): the tokenizer and the
  recursive-descent evaluator of \<^verbatim>\<open>$((expr))\<close> over signed 64-bit words.

  The parser's position into the token vector is the suffix of the tokens that is left; its
  mutable variables are returned with every result, also with an error, since assignments made
  before an error stay.  The flag \<open>noeval\<close> is an argument: every method of the code that sets it
  restores it before it returns a value, and an error ends the evaluation.  Each mutually
  recursive method is a definition over an argument \<open>self\<close>, the methods it calls; \<open>run\<close> ties the
  knot with fuel, and \<open>parse_fuel\<close> is enough for every input, so that running out never happens.
\<close>

datatype arith_token =
    TNum i64 | TVar ustring
  | TPlus | TMinus | TStar | TSlash | TPercent | TLParen | TRParen
  | TEq | TNe | TLt | TLe | TGt | TGe | TAnd | TOr | TBitAnd | TBitOr | TBitXor
  | TShl | TShr | TNot | TBitNot | TAssign | TQuestion | TColon
  | TAddAssign | TSubAssign | TMulAssign | TDivAssign | TModAssign
  | TShlAssign | TShrAssign | TAndAssign | TOrAssign | TXorAssign

datatype arith_error =
    InvalidHex ustring | InvalidOctal ustring | InvalidNumber ustring | UnexpectedChar cp
  | DivisionByZero | DivisionOverflow | ShiftOutOfRange
  | Expected arith_token "arith_token option" | UnexpectedToken arith_token | UnexpectedEnd
  | Unreachable | OutOfFuel

subsection \<open>Tokens\<close>

definition is_octal_digit :: "cp \<Rightarrow> bool" where
  "is_octal_digit c \<longleftrightarrow> 48 \<le> c \<and> c \<le> 55"

text \<open>A number that starts with the digit \<open>c\<close>.\<close>

definition lex_number :: "cp \<Rightarrow> ustring \<Rightarrow> arith_error + arith_token \<times> ustring" where
  "lex_number c cs =
     (let num = (\<lambda>n r e. case n of Some v \<Rightarrow> Inr (TNum v, r) | None \<Rightarrow> Inl e);
          decimal = (let s = c # takeWhile is_ascii_digit cs
                     in num (parse_i64 s) (dropWhile is_ascii_digit cs) (InvalidNumber s))
      in case cs of
           [] \<Rightarrow> decimal
         | d # ds \<Rightarrow>
             if c = 48 \<and> (d = 120 \<or> d = 88) then
               num (i64_from_str_radix 16 (takeWhile is_ascii_hexdigit ds))
                 (dropWhile is_ascii_hexdigit ds)
                 (InvalidHex (c # d # takeWhile is_ascii_hexdigit ds))
             else if c = 48 \<and> is_octal_digit d then
               num (i64_from_str_radix 8 (takeWhile is_octal_digit cs)) (dropWhile is_octal_digit cs)
                 (InvalidOctal (takeWhile is_octal_digit cs))
             else decimal)"

definition is_name_start :: "cp \<Rightarrow> bool" where
  "is_name_start c \<longleftrightarrow> c = 95 \<or> is_ascii_alphabetic c"

definition is_name_char :: "cp \<Rightarrow> bool" where
  "is_name_char c \<longleftrightarrow> c = 95 \<or> is_ascii_alphanumeric c"

text \<open>An operator that may be followed by \<^verbatim>\<open>=\<close>.\<close>

definition with_eq :: "arith_token \<Rightarrow> arith_token \<Rightarrow> ustring \<Rightarrow> arith_token \<times> ustring" where
  "with_eq plain assign cs =
     (case cs of d # ds \<Rightarrow> if d = 61 then (assign, ds) else (plain, cs) | [] \<Rightarrow> (plain, cs))"

text \<open>An operator with a doubled form and a form followed by \<^verbatim>\<open>=\<close>.\<close>

definition doubled ::
  "cp \<Rightarrow> (ustring \<Rightarrow> arith_token \<times> ustring) \<Rightarrow> arith_token \<Rightarrow> arith_token \<Rightarrow> ustring \<Rightarrow> arith_token \<times> ustring" where
  "doubled c twice eq plain cs =
     (case cs of
        d # ds \<Rightarrow> if d = c then twice ds else if d = 61 then (eq, ds) else (plain, cs)
      | [] \<Rightarrow> (plain, cs))"

definition lex_operator :: "cp \<Rightarrow> ustring \<Rightarrow> (arith_token \<times> ustring) option" where
  "lex_operator c cs =
     (if c = 43 then Some (with_eq TPlus TAddAssign cs)
      else if c = 45 then Some (with_eq TMinus TSubAssign cs)
      else if c = 42 then Some (with_eq TStar TMulAssign cs)
      else if c = 47 then Some (with_eq TSlash TDivAssign cs)
      else if c = 37 then Some (with_eq TPercent TModAssign cs)
      else if c = 40 then Some (TLParen, cs)
      else if c = 41 then Some (TRParen, cs)
      else if c = 61 then Some (with_eq TAssign TEq cs)
      else if c = 33 then Some (with_eq TNot TNe cs)
      else if c = 60 then Some (doubled 60 (with_eq TShl TShlAssign) TLe TLt cs)
      else if c = 62 then Some (doubled 62 (with_eq TShr TShrAssign) TGe TGt cs)
      else if c = 38 then Some (doubled 38 (Pair TAnd) TAndAssign TBitAnd cs)
      else if c = 124 then Some (doubled 124 (Pair TOr) TOrAssign TBitOr cs)
      else if c = 94 then Some (with_eq TBitXor TXorAssign cs)
      else if c = 126 then Some (TBitNot, cs)
      else if c = 63 then Some (TQuestion, cs)
      else if c = 58 then Some (TColon, cs)
      else None)"

definition lex_token :: "cp \<Rightarrow> ustring \<Rightarrow> arith_error + arith_token \<times> ustring" where
  "lex_token c cs =
     (if is_ascii_digit c then lex_number c cs
      else if is_name_start c then Inr (TVar (c # takeWhile is_name_char cs), dropWhile is_name_char cs)
      else (case lex_operator c cs of Some t \<Rightarrow> Inr t | None \<Rightarrow> Inl (UnexpectedChar c)))"

lemma with_eq_shorter: "with_eq a b cs = (t, r) \<Longrightarrow> length r \<le> length cs"
  by (auto simp: with_eq_def split: list.splits if_splits)

lemma doubled_shorter:
  "(\<And>ds t r. f ds = (t, r) \<Longrightarrow> length r \<le> length ds) \<Longrightarrow> doubled c f e p cs = (t, r) \<Longrightarrow> length r \<le> length cs"
  by (fastforce simp: doubled_def split: list.splits if_splits)

lemma lex_operator_shorter: "lex_operator c cs = Some (t, r) \<Longrightarrow> length r \<le> length cs"
  by (auto simp: lex_operator_def split: if_splits
      dest: with_eq_shorter doubled_shorter [rotated, OF _ with_eq_shorter] doubled_shorter [rotated])

lemma lex_number_shorter: "lex_number c cs = Inr (t, r) \<Longrightarrow> length r \<le> length cs"
  by (auto simp: lex_number_def Let_def le_SucI dropWhile_length_le
      split: list.splits if_splits option.splits)

lemma lex_token_shorter: "lex_token c cs = Inr (t, r) \<Longrightarrow> length r \<le> length cs"
  by (auto simp: lex_token_def dropWhile_length_le split: if_splits option.splits
      dest: lex_operator_shorter lex_number_shorter)

function tokenize_loop :: "ustring \<Rightarrow> arith_token list \<Rightarrow> arith_error + arith_token list" where
  "tokenize_loop [] tokens = Inr tokens"
| "tokenize_loop (c # cs) tokens =
     (if c = 32 \<or> c = 9 \<or> c = 10 then tokenize_loop cs tokens
      else (case lex_token c cs of
              Inl e \<Rightarrow> Inl e
            | Inr (t, r) \<Rightarrow> tokenize_loop r (tokens @ [t])))"
  by pat_completeness auto
termination
  by (relation "measure (length \<circ> fst)") (auto dest: lex_token_shorter simp: less_Suc_eq_le)

definition tokenize :: "ustring \<Rightarrow> arith_error + arith_token list" where
  "tokenize expr = tokenize_loop expr []"

subsection \<open>Values\<close>

record arith_ctx =
  exit_status :: int
  shell_pid :: nat

definition get_var :: "arith_ctx \<Rightarrow> variables \<Rightarrow> ustring \<Rightarrow> i64" where
  "get_var cx vs name =
     (case get_int vs name of
        Some n \<Rightarrow> n
      | None \<Rightarrow>
          (case Option.bind
                  (case get_special vs name (exit_status cx) (shell_pid cx) [] None of
                     Some v \<Rightarrow> Some v | None \<Rightarrow> get vs name) parse_i64 of
             Some n \<Rightarrow> n | None \<Rightarrow> 0))"

definition set_var :: "bool \<Rightarrow> variables \<Rightarrow> ustring \<Rightarrow> i64 \<Rightarrow> variables" where
  "set_var noeval vs name v = (if \<not> noeval then or_else (set_int vs name v) vs else vs)"

definition shift_count :: "i64 \<Rightarrow> arith_error + nat" where
  "shift_count count =
     (if 0 \<le> sint count \<and> sint count \<le> 63 then Inr (nat (sint count)) else Inl ShiftOutOfRange)"

definition I64_MIN :: i64 where "I64_MIN = word_of_int (- (2 ^ 63))"

definition of_bool_i64 :: "bool \<Rightarrow> i64" where
  "of_bool_i64 b = (if b then 1 else 0)"

definition div_guard :: "i64 \<Rightarrow> i64 \<Rightarrow> i64 \<Rightarrow> arith_error + i64" where
  "div_guard left right result =
     (if right = 0 then Inl DivisionByZero
      else if left = I64_MIN \<and> right = - 1 then Inl DivisionOverflow
      else Inr result)"

fun apply_binop :: "bool \<Rightarrow> arith_token \<Rightarrow> i64 \<Rightarrow> i64 \<Rightarrow> arith_error + i64" where
  "apply_binop noeval tok left right =
     (if noeval then Inr 0
      else (case tok of
          TBitOr \<Rightarrow> Inr (left OR right)
        | TBitXor \<Rightarrow> Inr (left XOR right)
        | TBitAnd \<Rightarrow> Inr (left AND right)
        | TEq \<Rightarrow> Inr (of_bool_i64 (left = right))
        | TNe \<Rightarrow> Inr (of_bool_i64 (left \<noteq> right))
        | TLt \<Rightarrow> Inr (of_bool_i64 (sint left < sint right))
        | TLe \<Rightarrow> Inr (of_bool_i64 (sint left \<le> sint right))
        | TGt \<Rightarrow> Inr (of_bool_i64 (sint left > sint right))
        | TGe \<Rightarrow> Inr (of_bool_i64 (sint left \<ge> sint right))
        | TShl \<Rightarrow> map_sum id (\<lambda>k. push_bit k left) (shift_count right)
        | TShr \<Rightarrow> map_sum id (\<lambda>k. signed_drop_bit k left) (shift_count right)
        | TPlus \<Rightarrow> Inr (left + right)
        | TMinus \<Rightarrow> Inr (left - right)
        | TStar \<Rightarrow> Inr (left * right)
        | TSlash \<Rightarrow> div_guard left right (word_of_int (sint left sdiv sint right))
        | TPercent \<Rightarrow> div_guard left right (word_of_int (sint left smod sint right))
        | _ \<Rightarrow> Inl Unreachable))"

declare apply_binop.simps [simp del]

fun precedence :: "arith_token \<Rightarrow> nat option" where
  "precedence TBitOr = Some 1"
| "precedence TBitXor = Some 2"
| "precedence TBitAnd = Some 3"
| "precedence TEq = Some 4"
| "precedence TNe = Some 4"
| "precedence TLt = Some 5"
| "precedence TLe = Some 5"
| "precedence TGt = Some 5"
| "precedence TGe = Some 5"
| "precedence TShl = Some 6"
| "precedence TShr = Some 6"
| "precedence TPlus = Some 7"
| "precedence TMinus = Some 7"
| "precedence TStar = Some 8"
| "precedence TSlash = Some 8"
| "precedence TPercent = Some 8"
| "precedence _ = None"

text \<open>\<open>None\<close> for a token that is not a compound assignment, where the code does not call it.\<close>

fun assignment_binary_op :: "arith_token \<Rightarrow> arith_token option" where
  "assignment_binary_op TAddAssign = Some TPlus"
| "assignment_binary_op TSubAssign = Some TMinus"
| "assignment_binary_op TMulAssign = Some TStar"
| "assignment_binary_op TDivAssign = Some TSlash"
| "assignment_binary_op TModAssign = Some TPercent"
| "assignment_binary_op TShlAssign = Some TShl"
| "assignment_binary_op TShrAssign = Some TShr"
| "assignment_binary_op TAndAssign = Some TBitAnd"
| "assignment_binary_op TOrAssign = Some TBitOr"
| "assignment_binary_op TXorAssign = Some TBitXor"
| "assignment_binary_op _ = None"

subsection \<open>The evaluator\<close>

type_synonym arith_res = "(arith_error + i64 \<times> arith_token list) \<times> variables"

definition arith_bind ::
  "arith_res \<Rightarrow> (i64 \<Rightarrow> arith_token list \<Rightarrow> variables \<Rightarrow> arith_res) \<Rightarrow> arith_res" where
  "arith_bind r k = (case r of (Inl e, vs) \<Rightarrow> (Inl e, vs) | (Inr (v, ts), vs) \<Rightarrow> k v ts vs)"

definition expect ::
  "arith_token \<Rightarrow> arith_token list \<Rightarrow> variables \<Rightarrow> (arith_token list \<Rightarrow> arith_res) \<Rightarrow> arith_res" where
  "expect t ts vs k =
     (case ts of
        [] \<Rightarrow> (Inl (Expected t None), vs)
      | u # us \<Rightarrow> if u = t then k us else (Inl (Expected t (Some u)), vs))"

definition lift_op :: "arith_error + i64 \<Rightarrow> arith_token list \<Rightarrow> variables \<Rightarrow> arith_res" where
  "lift_op r ts vs = (case r of Inl e \<Rightarrow> (Inl e, vs) | Inr v \<Rightarrow> (Inr (v, ts), vs))"

text \<open>The methods of the parser; the loop of \<^verbatim>\<open>parse_or\<close>, \<^verbatim>\<open>parse_and\<close> and \<^verbatim>\<open>parse_binop\<close> with
  the value of its local variable \<open>left\<close> is a method of its own.\<close>

datatype rule =
    RAssignment | RTernary | ROr | ROrLoop i64 | RAnd | RAndLoop i64
  | RBinop nat | RBinopLoop nat i64 | RUnary | RPrimary

type_synonym arith_methods = "rule \<Rightarrow> bool \<Rightarrow> arith_token list \<Rightarrow> variables \<Rightarrow> arith_res"

fun dest_var :: "arith_token \<Rightarrow> ustring option" where
  "dest_var (TVar name) = Some name"
| "dest_var _ = None"

fun dest_num :: "arith_token \<Rightarrow> i64 option" where
  "dest_num (TNum v) = Some v"
| "dest_num _ = None"

definition parse_assignment ::
  "arith_ctx \<Rightarrow> arith_methods \<Rightarrow> bool \<Rightarrow> arith_token list \<Rightarrow> variables \<Rightarrow> arith_res" where
  "parse_assignment cx self ne ts vs =
     (case ts of
        t # op # r \<Rightarrow>
          (case dest_var t of
             Some name \<Rightarrow>
               if op = TAssign then
                 arith_bind (self RAssignment ne r vs)
                   (\<lambda>v r vs. (Inr (v, r), set_var ne vs name v))
               else
                 (case assignment_binary_op op of
                    Some bop \<Rightarrow>
                      arith_bind (self RAssignment ne r vs) (\<lambda>right r vs.
                        arith_bind (lift_op (apply_binop ne bop (get_var cx vs name) right) r vs)
                          (\<lambda>v r vs. (Inr (v, r), set_var ne vs name v)))
                  | None \<Rightarrow> self RTernary ne ts vs)
           | None \<Rightarrow> self RTernary ne ts vs)
      | _ \<Rightarrow> self RTernary ne ts vs)"

definition parse_ternary ::
  "arith_methods \<Rightarrow> bool \<Rightarrow> arith_token list \<Rightarrow> variables \<Rightarrow> arith_res" where
  "parse_ternary self ne ts vs =
     arith_bind (self ROr ne ts vs) (\<lambda>cond r vs.
       if r \<noteq> [] \<and> hd r = TQuestion then
         arith_bind (self RAssignment (ne \<or> cond = 0) (tl r) vs) (\<lambda>then_val r vs.
           expect TColon r vs (\<lambda>r.
             arith_bind (self RAssignment (ne \<or> cond \<noteq> 0) r vs) (\<lambda>else_val r vs.
               (Inr (if cond \<noteq> 0 then then_val else else_val, r), vs))))
       else (Inr (cond, r), vs))"

definition parse_or :: "arith_methods \<Rightarrow> bool \<Rightarrow> arith_token list \<Rightarrow> variables \<Rightarrow> arith_res" where
  "parse_or self ne ts vs = arith_bind (self RAnd ne ts vs) (\<lambda>left. self (ROrLoop left) ne)"

definition or_loop :: "arith_methods \<Rightarrow> i64 \<Rightarrow> bool \<Rightarrow> arith_token list \<Rightarrow> variables \<Rightarrow> arith_res" where
  "or_loop self left ne ts vs =
     (if ts \<noteq> [] \<and> hd ts = TOr then
        arith_bind (self RAnd (ne \<or> left \<noteq> 0) (tl ts) vs) (\<lambda>right.
          self (ROrLoop (if left \<noteq> 0 \<or> right \<noteq> 0 then 1 else 0)) ne)
      else (Inr (left, ts), vs))"

definition parse_and :: "arith_methods \<Rightarrow> bool \<Rightarrow> arith_token list \<Rightarrow> variables \<Rightarrow> arith_res" where
  "parse_and self ne ts vs = arith_bind (self (RBinop 1) ne ts vs) (\<lambda>left. self (RAndLoop left) ne)"

definition and_loop :: "arith_methods \<Rightarrow> i64 \<Rightarrow> bool \<Rightarrow> arith_token list \<Rightarrow> variables \<Rightarrow> arith_res" where
  "and_loop self left ne ts vs =
     (if ts \<noteq> [] \<and> hd ts = TAnd then
        arith_bind (self (RBinop 1) (ne \<or> left = 0) (tl ts) vs) (\<lambda>right.
          self (RAndLoop (if left \<noteq> 0 \<and> right \<noteq> 0 then 1 else 0)) ne)
      else (Inr (left, ts), vs))"

definition parse_binop ::
  "arith_methods \<Rightarrow> nat \<Rightarrow> bool \<Rightarrow> arith_token list \<Rightarrow> variables \<Rightarrow> arith_res" where
  "parse_binop self min_prec ne ts vs =
     arith_bind (self RUnary ne ts vs) (\<lambda>left. self (RBinopLoop min_prec left) ne)"

definition binop_loop ::
  "arith_methods \<Rightarrow> nat \<Rightarrow> i64 \<Rightarrow> bool \<Rightarrow> arith_token list \<Rightarrow> variables \<Rightarrow> arith_res" where
  "binop_loop self min_prec left ne ts vs =
     (case ts of
        [] \<Rightarrow> (Inr (left, ts), vs)
      | tok # r \<Rightarrow>
          (case precedence tok of
             None \<Rightarrow> (Inr (left, ts), vs)
           | Some prec \<Rightarrow>
               if min_prec \<le> prec then
                 arith_bind (self (RBinop (prec + 1)) ne r vs) (\<lambda>right r vs.
                   arith_bind (lift_op (apply_binop ne tok left right) r vs)
                     (\<lambda>left. self (RBinopLoop min_prec left) ne))
               else (Inr (left, ts), vs)))"

definition parse_unary :: "arith_methods \<Rightarrow> bool \<Rightarrow> arith_token list \<Rightarrow> variables \<Rightarrow> arith_res" where
  "parse_unary self ne ts vs =
     (case ts of
        [] \<Rightarrow> self RPrimary ne ts vs
      | t # r \<Rightarrow>
          if t = TPlus then self RUnary ne r vs
          else if t = TMinus then
            arith_bind (self RUnary ne r vs) (\<lambda>v r vs. (Inr (- v, r), vs))
          else if t = TNot then
            arith_bind (self RUnary ne r vs) (\<lambda>v r vs. (Inr (if v = 0 then 1 else 0, r), vs))
          else if t = TBitNot then
            arith_bind (self RUnary ne r vs) (\<lambda>v r vs. (Inr (NOT v, r), vs))
          else self RPrimary ne ts vs)"

definition parse_primary ::
  "arith_ctx \<Rightarrow> arith_methods \<Rightarrow> bool \<Rightarrow> arith_token list \<Rightarrow> variables \<Rightarrow> arith_res" where
  "parse_primary cx self ne ts vs =
     (case ts of
        [] \<Rightarrow> (Inl UnexpectedEnd, vs)
      | t # r \<Rightarrow>
          (case dest_num t of
             Some v \<Rightarrow> (Inr (v, r), vs)
           | None \<Rightarrow>
               (case dest_var t of
                  Some name \<Rightarrow> (Inr (get_var cx vs name, r), vs)
                | None \<Rightarrow>
                    if t = TLParen then
                      arith_bind (self RAssignment ne r vs) (\<lambda>v r vs.
                        expect TRParen r vs (\<lambda>r. (Inr (v, r), vs)))
                    else (Inl (UnexpectedToken t), vs))))"

fun parse_method :: "arith_ctx \<Rightarrow> arith_methods \<Rightarrow> arith_methods" where
  "parse_method cx self RAssignment = parse_assignment cx self"
| "parse_method cx self RTernary = parse_ternary self"
| "parse_method cx self ROr = parse_or self"
| "parse_method cx self (ROrLoop left) = or_loop self left"
| "parse_method cx self RAnd = parse_and self"
| "parse_method cx self (RAndLoop left) = and_loop self left"
| "parse_method cx self (RBinop min_prec) = parse_binop self min_prec"
| "parse_method cx self (RBinopLoop min_prec left) = binop_loop self min_prec left"
| "parse_method cx self RUnary = parse_unary self"
| "parse_method cx self RPrimary = parse_primary cx self"

primrec run :: "nat \<Rightarrow> arith_ctx \<Rightarrow> arith_methods" where
  "run 0 cx = (\<lambda>rule ne ts vs. (Inl OutOfFuel, vs))"
| "run (Suc n) cx = parse_method cx (run n cx)"

text \<open>Enough fuel for a list of tokens.\<close>

definition parse_fuel :: "arith_token list \<Rightarrow> nat" where
  "parse_fuel ts = 10 * length ts + 10"

definition eval_arith :: "ustring \<Rightarrow> variables \<Rightarrow> int \<Rightarrow> nat \<Rightarrow> (arith_error + i64) \<times> variables" where
  "eval_arith expr vs status pid =
     (case tokenize expr of
        Inl e \<Rightarrow> (Inl e, vs)
      | Inr tokens \<Rightarrow>
          (case run (parse_fuel tokens) \<lparr>exit_status = status, shell_pid = pid\<rparr> RAssignment False tokens vs of
             (Inl e, vs') \<Rightarrow> (Inl e, vs')
           | (Inr (v, []), vs') \<Rightarrow> (Inr v, vs')
           | (Inr (v, t # _), vs') \<Rightarrow> (Inl (UnexpectedToken t), vs')))"

subsection \<open>Enough fuel\<close>

text \<open>\<open>ok l x y\<close>: the two results are the same, are neither the fuel error nor an
  \<^verbatim>\<open>unreachable!()\<close>, and a value leaves fewer than \<open>l\<close> tokens.\<close>

definition internal_error :: "arith_error \<Rightarrow> bool" where
  "internal_error e \<longleftrightarrow> e = OutOfFuel \<or> e = Unreachable"

definition ok :: "nat \<Rightarrow> arith_res \<Rightarrow> arith_res \<Rightarrow> bool" where
  "ok l x y \<longleftrightarrow> x = y \<and> (\<forall>e. fst x = Inl e \<longrightarrow> \<not> internal_error e) \<and>
     (\<forall>v r vs. x = (Inr (v, r), vs) \<longrightarrow> length r < l)"

lemma ok_bind:
  assumes "ok l x y" "\<And>v r vs. length r < l \<Longrightarrow> ok l' (k v r vs) (k' v r vs)"
  shows "ok l' (arith_bind x k) (arith_bind y k')"
proof -
  obtain res vs where x: "x = (res, vs)" by (cases x)
  show ?thesis
  proof (cases res)
    case (Inr vr)
    obtain v r where "vr = (v, r)" by (cases vr)
    with Inr x assms(1) assms(2) [of r v vs] show ?thesis by (auto simp: ok_def arith_bind_def)
  qed (use assms(1) x in \<open>auto simp: ok_def arith_bind_def\<close>)
qed

lemma ok_ret: "length r < l \<Longrightarrow> ok l (Inr (v, r), vs) (Inr (v, r), vs)"
  by (simp add: ok_def)

lemma ok_err: "\<not> internal_error e \<Longrightarrow> ok l (Inl e, vs) (Inl e, vs)"
  by (simp add: ok_def)

lemma ok_mono: "ok l x y \<Longrightarrow> l \<le> l' \<Longrightarrow> ok l' x y"
  by (force simp: ok_def)

lemma ok_expect:
  "(\<And>r'. length r' < length r \<Longrightarrow> ok l (k r') (k' r')) \<Longrightarrow> ok l (expect t r vs k) (expect t r vs k')"
  by (auto simp: expect_def ok_err internal_error_def split: list.splits)

lemma apply_binop_error:
  "precedence t \<noteq> None \<Longrightarrow> apply_binop ne t a b = Inl e \<Longrightarrow> \<not> internal_error e"
  by (cases t) (auto simp: apply_binop.simps div_guard_def shift_count_def internal_error_def
      split: if_splits)

lemma assignment_binary_op_precedence: "assignment_binary_op op = Some bop \<Longrightarrow> precedence bop \<noteq> None"
  by (cases op) auto

lemma ok_lift:
  "precedence t \<noteq> None \<Longrightarrow> length r < l \<Longrightarrow>
     ok l (lift_op (apply_binop ne t a b) r vs) (lift_op (apply_binop ne t a b) r vs)"
  using apply_binop_error [of t ne a b]
  by (cases "apply_binop ne t a b") (auto simp: lift_op_def ok_def)

fun rank :: "rule \<Rightarrow> nat" where
  "rank RAssignment = 7" | "rank RTernary = 6" | "rank ROr = 5" | "rank RAnd = 4"
| "rank (RBinop _) = 3" | "rank RUnary = 2" | "rank _ = 1"

fun is_loop :: "rule \<Rightarrow> bool" where
  "is_loop (ROrLoop _) = True" | "is_loop (RAndLoop _) = True" | "is_loop (RBinopLoop _ _) = True"
| "is_loop _ = False"

definition need :: "rule \<Rightarrow> arith_token list \<Rightarrow> nat" where
  "need r ts = 10 * length ts + rank r"

definition limit :: "rule \<Rightarrow> arith_token list \<Rightarrow> nat" where
  "limit r ts = length ts + (if is_loop r then 1 else 0)"

lemma method_ok:
  assumes self: "\<And>r' ne ts' vs. need r' ts' < need r ts \<Longrightarrow> ok (limit r' ts') (f r' ne ts' vs) (g r' ne ts' vs)"
  shows "ok (limit r ts) (parse_method cx f r ne ts vs) (parse_method cx g r ne ts vs)"
proof -
  have S: "ok l (f r' ne' ts' vs') (g r' ne' ts' vs')"
    if "10 * length ts' + rank r' < 10 * length ts + rank r" "limit r' ts' \<le> l" for r' ne' ts' vs' l
    using self [of r' ts' ne' vs'] that by (auto simp: need_def intro: ok_mono)
  note rules = ok_bind [OF S [OF _ le_refl]] ok_bind [OF ok_lift] ok_ret ok_err ok_expect ok_lift
  show ?thesis
  proof (cases r)
    case RAssignment
    show ?thesis
    proof (cases ts rule: remdups_adj.cases)
      case (3 t op r')
      then have "ok (length r') (f RAssignment ne r' vs) (g RAssignment ne r' vs)"
        using S [of r' RAssignment "length r'"] RAssignment by (simp add: limit_def)
      note A = ok_bind [OF this] ok_bind [OF ok_lift]
      from 3 show ?thesis using S RAssignment
        by (auto simp: parse_assignment_def limit_def split: option.splits intro!: A ok_ret
            dest!: assignment_binary_op_precedence)
    qed (use S RAssignment in \<open>auto simp: parse_assignment_def limit_def\<close>)
  next
    case RPrimary
    then show ?thesis using S
      by (auto simp: parse_primary_def limit_def internal_error_def
          split: list.splits option.splits intro!: rules)
  next
    case RUnary
    then show ?thesis using S
      by (auto simp: parse_unary_def limit_def split: list.splits intro!: rules)
  next
    case (RBinopLoop p a)
    then show ?thesis using S
      by (auto simp: binop_loop_def limit_def split: list.splits option.splits intro!: rules)
  next
    case RTernary
    then show ?thesis using S
      by (auto simp: parse_ternary_def limit_def split: list.splits option.splits intro!: rules)
  qed (use S in \<open>auto simp: parse_or_def parse_and_def parse_binop_def or_loop_def and_loop_def
         limit_def neq_Nil_conv intro!: rules\<close>)
qed

lemma run_ok: "need r ts \<le> n \<Longrightarrow> n \<le> m \<Longrightarrow> ok (limit r ts) (run n cx r ne ts vs) (run m cx r ne ts vs)"
proof (induction n arbitrary: r ne ts vs m)
  case 0
  then have "rank r = 0" by (simp add: need_def)
  then show ?case by (cases r) simp_all
next
  case (Suc n)
  then obtain m' where m: "m = Suc m'" "n \<le> m'" by (metis Suc_le_D Suc_le_mono)
  have "ok (limit r' ts') (run n cx r' ne' ts' vs') (run m' cx r' ne' ts' vs')"
    if "need r' ts' < need r ts" for r' ne' ts' vs'
    using that Suc.prems m by (intro Suc.IH) auto
  then show ?case unfolding m run.simps by (rule method_ok)
qed

text \<open>The methods without fuel, and the equation that defines them.\<close>

definition parse :: "arith_ctx \<Rightarrow> arith_methods" where
  "parse cx r ne ts vs = run (need r ts) cx r ne ts vs"

lemma run_parse: "need r ts \<le> n \<Longrightarrow> run n cx r ne ts vs = parse cx r ne ts vs"
  using run_ok [OF le_refl, of r ts n cx ne vs] by (simp add: parse_def ok_def)

lemma parse_ok: "ok (limit r ts) (parse cx r ne ts vs) (parse cx r ne ts vs)"
  unfolding parse_def by (rule run_ok) simp_all

lemma parse_unfold: "parse cx r ne ts vs = parse_method cx (parse cx) r ne ts vs"
proof -
  have self: "ok (limit r' ts') (run (need r ts) cx r' ne' ts' vs') (parse cx r' ne' ts' vs')"
    if "need r' ts' < need r ts" for r' ne' ts' vs'
    using that parse_ok [of r' ts' cx ne' vs'] by (simp add: run_parse)
  have "run (Suc (need r ts)) cx r ne ts vs = parse cx r ne ts vs"
    by (rule run_parse) simp
  then show ?thesis using method_ok [of r ts, OF self] by (simp add: ok_def)
qed

lemma parse_fuel_enough: "run (parse_fuel ts) cx RAssignment ne ts vs = parse cx RAssignment ne ts vs"
  by (rule run_parse) (simp add: need_def parse_fuel_def)

lemma parse_no_internal_error: "fst (parse cx r ne ts vs) = Inl e \<Longrightarrow> \<not> internal_error e"
  using parse_ok [of r ts cx ne vs] by (simp add: ok_def)

subsection \<open>Effects\<close>

text \<open>Evaluation changes the variables only by integer assignments, and not at all under
  \<open>noeval\<close>.\<close>

definition int_sets :: "bool \<Rightarrow> variables \<Rightarrow> variables \<Rightarrow> bool" where
  "int_sets ne vs vs' \<longleftrightarrow>
     (\<exists>ops. vs' = run_ops ops vs \<and> (\<forall>p \<in> set ops. \<exists>x v. p = OpSetInt x v) \<and> (ne \<longrightarrow> ops = []))"

lemma int_sets_refl [simp]: "int_sets ne vs vs"
  unfolding int_sets_def by (rule exI [of _ "[]"]) simp

lemma run_ops_append: "run_ops (xs @ ys) s = run_ops ys (run_ops xs s)"
  by (simp add: run_ops_def)

lemma int_sets_trans: "int_sets ne a b \<Longrightarrow> int_sets ne' b c \<Longrightarrow> (ne \<Longrightarrow> ne') \<Longrightarrow> int_sets ne a c"
  unfolding int_sets_def by (elim exE, rule_tac x = "ops @ opsa" in exI) (auto simp: run_ops_append)

lemma int_sets_set_var: "int_sets ne vs (set_var ne vs x v)"
  unfolding int_sets_def set_var_def
  by (cases ne) (auto intro: exI [of _ "[]"] exI [of _ "[OpSetInt x v]"])

lemma int_sets_bind:
  assumes "int_sets ne' vs (snd x)" "ne \<Longrightarrow> ne'"
    and "\<And>v r vs'. int_sets ne' vs vs' \<Longrightarrow> int_sets ne vs' (snd (k v r vs'))"
  shows "int_sets ne vs (snd (arith_bind x k))"
proof -
  obtain res vs' where x: "x = (res, vs')" by (cases x)
  have weak: "int_sets ne vs vs'" using assms(1,2) x by (auto simp: int_sets_def)
  show ?thesis
  proof (cases res)
    case (Inr vr)
    obtain v r where vr: "vr = (v, r)" by (cases vr)
    have "int_sets ne vs' (snd (k v r vs'))" using assms(1,3) x by simp
    with weak show ?thesis by (auto simp: x Inr vr arith_bind_def intro: int_sets_trans)
  qed (use weak x in \<open>simp add: arith_bind_def\<close>)
qed

lemma int_sets_lift [simp]: "int_sets ne vs (snd (lift_op y r vs))"
  by (cases y) (simp_all add: lift_op_def)

lemma int_sets_expect:
  "(\<And>r. int_sets ne vs (snd (k r))) \<Longrightarrow> int_sets ne vs (snd (expect t r vs k))"
  by (auto simp: expect_def split: list.splits)

lemma method_int_sets:
  assumes self: "\<And>r ne ts vs. int_sets ne vs (snd (f r ne ts vs))"
  shows "int_sets ne vs (snd (parse_method cx f r ne ts vs))"
proof -
  note rules = int_sets_bind [OF self] int_sets_bind [OF int_sets_lift] int_sets_expect
    int_sets_set_var self
  show ?thesis
  proof (cases r)
    case RAssignment
    show ?thesis
      by (cases ts rule: remdups_adj.cases)
        (auto simp: RAssignment parse_assignment_def self split: option.splits intro!: rules)
  next
    case RUnary
    then show ?thesis by (auto simp: parse_unary_def self split: list.splits intro!: rules)
  next
    case RPrimary
    then show ?thesis
      by (auto simp: parse_primary_def split: list.splits option.splits intro!: rules)
  next
    case (RBinopLoop p a)
    then show ?thesis
      by (auto simp: binop_loop_def split: list.splits option.splits intro!: rules)
  qed (auto simp: parse_or_def parse_and_def parse_binop_def parse_ternary_def or_loop_def
        and_loop_def self intro!: rules)
qed

lemma run_int_sets: "int_sets ne vs (snd (run n cx r ne ts vs))"
proof (induction n arbitrary: ne vs r ts)
  case (Suc n)
  show ?case unfolding run.simps by (rule method_int_sets) (rule Suc)
qed simp

lemma parse_int_sets: "int_sets ne vs (snd (parse cx r ne ts vs))"
  by (simp add: parse_def run_int_sets)

end
