(* ===== verification/Arith_Spec.thy ===== *)
theory Arith_Spec
  imports Arith
begin

text \<open>
  What an arithmetic expression means, independently of how the evaluator of \<^verbatim>\<open>arith.rs\<close> works:
  abstract syntax, a short-circuit evaluation, and the grammar of the operators' precedences and
  associativity.  The evaluator, which parses and evaluates in one pass and skips operands by
  evaluating them with \<^verbatim>\<open>noeval\<close>, is proved to compute that meaning.
\<close>

subsection \<open>Expressions and their meaning\<close>

text \<open>The specification: abstract syntax, evaluation that skips the operand a short circuit does
  not need, and the grammar that says which tokens an expression may be written with.\<close>

datatype aexp =
    ANum i64
  | AVar ustring
  | AUn arith_token aexp
  | ABin arith_token aexp aexp
  | AAnd aexp aexp
  | AOr aexp aexp
  | ACond aexp aexp aexp
  | AAssign ustring aexp
  | AUpdate ustring arith_token aexp

fun un_op :: "arith_token \<Rightarrow> i64 \<Rightarrow> i64" where
  "un_op TMinus v = - v"
| "un_op TNot v = (if v = 0 then 1 else 0)"
| "un_op TBitNot v = NOT v"
| "un_op _ v = v"

text \<open>The operators on mathematical integers; a result is brought back into 64 bits.\<close>

definition op_meaning :: "arith_token \<Rightarrow> int \<Rightarrow> int \<Rightarrow> arith_error + int" where
  "op_meaning op x y = (case op of
       TBitOr \<Rightarrow> Inr (x OR y) | TBitXor \<Rightarrow> Inr (x XOR y) | TBitAnd \<Rightarrow> Inr (x AND y)
     | TEq \<Rightarrow> Inr (of_bool (x = y)) | TNe \<Rightarrow> Inr (of_bool (x \<noteq> y))
     | TLt \<Rightarrow> Inr (of_bool (x < y)) | TLe \<Rightarrow> Inr (of_bool (x \<le> y))
     | TGt \<Rightarrow> Inr (of_bool (y < x)) | TGe \<Rightarrow> Inr (of_bool (y \<le> x))
     | TShl \<Rightarrow> if 0 \<le> y \<and> y < 64 then Inr (x * 2 ^ nat y) else Inl ShiftOutOfRange
     | TShr \<Rightarrow> if 0 \<le> y \<and> y < 64 then Inr (x div 2 ^ nat y) else Inl ShiftOutOfRange
     | TPlus \<Rightarrow> Inr (x + y) | TMinus \<Rightarrow> Inr (x - y) | TStar \<Rightarrow> Inr (x * y)
     | TSlash \<Rightarrow> if y = 0 then Inl DivisionByZero else if x = - (2 ^ 63) \<and> y = - 1 then Inl DivisionOverflow else Inr (x sdiv y)
     | TPercent \<Rightarrow> if y = 0 then Inl DivisionByZero else if x = - (2 ^ 63) \<and> y = - 1 then Inl DivisionOverflow else Inr (x smod y)
     | _ \<Rightarrow> Inl Unreachable)"

definition op_value :: "arith_token \<Rightarrow> i64 \<Rightarrow> i64 \<Rightarrow> arith_error + i64" where
  "op_value op a b = map_sum id word_of_int (op_meaning op (sint a) (sint b))"

lemma sint_eq_iff: "sint (a :: i64) = sint b \<longleftrightarrow> a = b"
  by (auto dest: arg_cong [where f = "word_of_int :: int \<Rightarrow> i64"])

lemma sint_I64_MIN [simp]: "sint I64_MIN = - (2 ^ 63)"
  by (simp add: I64_MIN_def)

lemma sint_guards:
  "sint (b :: i64) = 0 \<longleftrightarrow> b = 0" "sint b = - 1 \<longleftrightarrow> b = - 1" "sint b = - (2 ^ 63) \<longleftrightarrow> b = I64_MIN"
  using sint_eq_iff [of b 0] sint_eq_iff [of b "- 1"] sint_eq_iff [of b I64_MIN] unfolding sint_I64_MIN by simp_all

lemma word_of_int_bits:
  "word_of_int (sint (a :: i64) OR sint b) = a OR b" "word_of_int (sint a XOR sint b) = a XOR b"
  "word_of_int (sint a AND sint b) = a AND b"
  by (rule bit_word_eqI, simp add: bit_simps bit_sint_iff)+

lemma word_of_int_shift: "word_of_int (sint (a :: i64) div 2 ^ k) = signed_drop_bit k a"
proof -
  have "sint (word_of_int (drop_bit k (sint a)) :: i64) = sint (signed_drop_bit k a)"
    unfolding sint_signed_drop_bit_eq [symmetric] by simp
  then show ?thesis unfolding sint_eq_iff drop_bit_eq_div .
qed

lemma apply_binop_value: "apply_binop False op a b = op_value op a b"
proof -
  have shift: "shift_count b = (if 0 \<le> sint b \<and> sint b < 64 then Inr (nat (sint b)) else Inl ShiftOutOfRange)"
    by (auto simp: shift_count_def)
  have guard: "div_guard a b (word_of_int q) = map_sum id word_of_int
      (if sint b = 0 then Inl DivisionByZero else if sint a = - (2 ^ 63) \<and> sint b = - 1 then Inl DivisionOverflow else Inr q)" for q
    unfolding sint_guards div_guard_def by simp
  show ?thesis
    unfolding apply_binop.simps op_value_def op_meaning_def
    by (cases op) (simp_all add: shift guard word_of_int_bits word_of_int_shift of_bool_i64_def sint_eq_iff
        push_bit_eq_mult split del: if_split, auto simp: word_of_int_shift)
qed

type_synonym aval = "(arith_error + i64) \<times> variables"

definition then_do :: "aval \<Rightarrow> (i64 \<Rightarrow> variables \<Rightarrow> (arith_error + 'c) \<times> variables) \<Rightarrow> (arith_error + 'c) \<times> variables" where
  "then_do r k = (case r of (Inl e, vs) \<Rightarrow> (Inl e, vs) | (Inr v, vs) \<Rightarrow> k v vs)"

fun aeval :: "arith_ctx \<Rightarrow> aexp \<Rightarrow> variables \<Rightarrow> aval" where
  "aeval cx (ANum v) vs = (Inr v, vs)"
| "aeval cx (AVar x) vs = (Inr (get_var cx vs x), vs)"
| "aeval cx (AUn op a) vs = then_do (aeval cx a vs) (\<lambda>x vs. (Inr (un_op op x), vs))"
| "aeval cx (ABin op a b) vs =
     then_do (aeval cx a vs) (\<lambda>x vs. then_do (aeval cx b vs) (\<lambda>y vs. (op_value op x y, vs)))"
| "aeval cx (AAnd a b) vs =
     then_do (aeval cx a vs) (\<lambda>x vs.
       if x = 0 then (Inr 0, vs)
       else then_do (aeval cx b vs) (\<lambda>y vs. (Inr (of_bool_i64 (y \<noteq> 0)), vs)))"
| "aeval cx (AOr a b) vs =
     then_do (aeval cx a vs) (\<lambda>x vs.
       if x \<noteq> 0 then (Inr 1, vs)
       else then_do (aeval cx b vs) (\<lambda>y vs. (Inr (of_bool_i64 (y \<noteq> 0)), vs)))"
| "aeval cx (ACond c a b) vs =
     then_do (aeval cx c vs) (\<lambda>x vs. if x \<noteq> 0 then aeval cx a vs else aeval cx b vs)"
| "aeval cx (AAssign n a) vs = then_do (aeval cx a vs) (\<lambda>v vs. (Inr v, set_var False vs n v))"
| "aeval cx (AUpdate n op a) vs =
     then_do (aeval cx a vs) (\<lambda>y vs.
       then_do (op_value op (get_var cx vs n) y, vs)
         (\<lambda>v vs. (Inr v, set_var False vs n v)))"

text \<open>The same with the flag of the code: under \<open>noeval\<close> operators give 0 and nothing is
  assigned.\<close>

fun aevn :: "arith_ctx \<Rightarrow> bool \<Rightarrow> aexp \<Rightarrow> variables \<Rightarrow> aval" where
  "aevn cx ne (ANum v) vs = (Inr v, vs)"
| "aevn cx ne (AVar x) vs = (Inr (get_var cx vs x), vs)"
| "aevn cx ne (AUn op a) vs = then_do (aevn cx ne a vs) (\<lambda>x vs. (Inr (un_op op x), vs))"
| "aevn cx ne (ABin op a b) vs =
     then_do (aevn cx ne a vs) (\<lambda>x vs. then_do (aevn cx ne b vs) (\<lambda>y vs. (apply_binop ne op x y, vs)))"
| "aevn cx ne (AAnd a b) vs =
     then_do (aevn cx ne a vs) (\<lambda>x vs. then_do (aevn cx (ne \<or> x = 0) b vs)
       (\<lambda>y vs. (Inr (if x \<noteq> 0 \<and> y \<noteq> 0 then 1 else 0), vs)))"
| "aevn cx ne (AOr a b) vs =
     then_do (aevn cx ne a vs) (\<lambda>x vs. then_do (aevn cx (ne \<or> x \<noteq> 0) b vs)
       (\<lambda>y vs. (Inr (if x \<noteq> 0 \<or> y \<noteq> 0 then 1 else 0), vs)))"
| "aevn cx ne (ACond c a b) vs =
     then_do (aevn cx ne c vs) (\<lambda>x vs.
       then_do (aevn cx (ne \<or> x = 0) a vs) (\<lambda>y vs.
       then_do (aevn cx (ne \<or> x \<noteq> 0) b vs) (\<lambda>z vs. (Inr (if x \<noteq> 0 then y else z), vs))))"
| "aevn cx ne (AAssign n a) vs = then_do (aevn cx ne a vs) (\<lambda>v vs. (Inr v, set_var ne vs n v))"
| "aevn cx ne (AUpdate n op a) vs =
     then_do (aevn cx ne a vs) (\<lambda>y vs.
       then_do (apply_binop ne op (get_var cx vs n) y, vs)
         (\<lambda>v vs. (Inr v, set_var ne vs n v)))"

lemma then_do_simps [simp]:
  "then_do (Inl e, vs) k = (Inl e, vs)" "then_do (Inr v, vs) k = k v vs"
  by (simp_all add: then_do_def)

lemma apply_binop_noeval [simp]: "apply_binop True op a b = Inr 0"
  by (simp add: apply_binop.simps)

text \<open>A skipped expression has no effect and cannot fail.\<close>

lemma aevn_skip: "\<exists>v. aevn cx True e vs = (Inr v, vs)"
  by (induction e) (auto simp: set_var_def)

lemma then_do_cong:
  "r = r' \<Longrightarrow> (\<And>v vs. r' = (Inr v, vs) \<Longrightarrow> k v vs = k' v vs) \<Longrightarrow> then_do r k = then_do r' k'"
  by (auto simp: then_do_def split: sum.splits prod.splits)

lemma then_do_skip: "then_do (aevn cx True e vs) (\<lambda>y vs. (c, vs)) = (c, vs)"
  using aevn_skip [of cx e vs] by auto

lemma then_do_ret [simp]: "then_do r (\<lambda>y vs. (Inr y, vs)) = r"
  by (auto simp: then_do_def split: sum.splits prod.splits)

lemma aevn_aeval: "aevn cx False e vs = aeval cx e vs"
proof (induction e arbitrary: vs)
  case (ACond c a b)
  have skip: "then_do (aevn cx True a vs) (\<lambda>y. k) = k vs" for a k vs
    using aevn_skip [of cx a vs] by auto
  show ?case using ACond
    by (auto simp: skip then_do_skip intro!: then_do_cong)
qed (auto simp: then_do_skip of_bool_i64_def apply_binop_value intro!: then_do_cong)

subsection \<open>The grammar\<close>

text \<open>The binary operators, from the loosest level to the tightest, and the compound assignments.\<close>

definition op_levels :: "(arith_token \<times> nat) list" where
  "op_levels = [(TBitOr, 1), (TBitXor, 2), (TBitAnd, 3), (TEq, 4), (TNe, 4), (TLt, 5), (TLe, 5), (TGt, 5), (TGe, 5),
     (TShl, 6), (TShr, 6), (TPlus, 7), (TMinus, 7), (TStar, 8), (TSlash, 8), (TPercent, 8)]"

lemma op_levels_iff: "(op, q) \<in> set op_levels \<longleftrightarrow> precedence op = Some q"
  by (cases op) (auto simp: op_levels_def)

definition compound_ops :: "(arith_token \<times> arith_token) list" where
  "compound_ops = [(TAddAssign, TPlus), (TSubAssign, TMinus), (TMulAssign, TStar), (TDivAssign, TSlash),
     (TModAssign, TPercent), (TShlAssign, TShl), (TShrAssign, TShr), (TAndAssign, TBitAnd), (TOrAssign, TBitOr),
     (TXorAssign, TBitXor)]"

lemma compound_ops_iff: "(op, bop) \<in> set compound_ops \<longleftrightarrow> assignment_binary_op op = Some bop"
  by (cases op) (auto simp: compound_ops_def)

inductive derives :: "rule \<Rightarrow> arith_token list \<Rightarrow> aexp \<Rightarrow> bool" where
  num: "derives RPrimary [TNum v] (ANum v)"
| var: "derives RPrimary [TVar x] (AVar x)"
| paren: "derives RAssignment ts e \<Longrightarrow> derives RPrimary (TLParen # ts @ [TRParen]) e"
| primary: "derives RPrimary ts e \<Longrightarrow> derives RUnary ts e"
| unary: "op \<in> {TPlus, TMinus, TNot, TBitNot} \<Longrightarrow> derives RUnary ts e \<Longrightarrow>
    derives RUnary (op # ts) (AUn op e)"
| operand: "derives RUnary ts e \<Longrightarrow> derives (RBinop p) ts e"
| binop: "(op, q) \<in> set op_levels \<Longrightarrow> p \<le> q \<Longrightarrow> derives (RBinop q) s a \<Longrightarrow>
    derives (RBinop (q + 1)) t b \<Longrightarrow> derives (RBinop p) (s @ op # t) (ABin op a b)"
| and_one: "derives (RBinop 1) ts e \<Longrightarrow> derives RAnd ts e"
| and_more: "derives RAnd s a \<Longrightarrow> derives (RBinop 1) t b \<Longrightarrow> derives RAnd (s @ TAnd # t) (AAnd a b)"
| or_one: "derives RAnd ts e \<Longrightarrow> derives ROr ts e"
| or_more: "derives ROr s a \<Longrightarrow> derives RAnd t b \<Longrightarrow> derives ROr (s @ TOr # t) (AOr a b)"
| ternary: "derives ROr ts e \<Longrightarrow> derives RTernary ts e"
| cond: "derives ROr s c \<Longrightarrow> derives RAssignment t a \<Longrightarrow> derives RAssignment u b \<Longrightarrow>
    derives RTernary (s @ TQuestion # t @ TColon # u) (ACond c a b)"
| expr: "derives RTernary ts e \<Longrightarrow> derives RAssignment ts e"
| assign: "derives RAssignment ts e \<Longrightarrow> derives RAssignment (TVar x # TAssign # ts) (AAssign x e)"
| update: "(op, bop) \<in> set compound_ops \<Longrightarrow> derives RAssignment ts e \<Longrightarrow>
    derives RAssignment (TVar x # op # ts) (AUpdate x bop e)"

inductive_cases derives_primaryE: "derives RPrimary ts e"

definition assigns :: "arith_token \<Rightarrow> bool" where
  "assigns t \<longleftrightarrow> t = TAssign \<or> assignment_binary_op t \<noteq> None"

lemma precedence_not_assigns: "precedence t = Some q \<Longrightarrow> \<not> assigns t"
  by (cases t) (auto simp: assigns_def)

lemma second_token:
  "derives r ts e \<Longrightarrow> r \<noteq> RAssignment \<Longrightarrow> ts = TVar x # t # ts' \<Longrightarrow> \<not> assigns t"
proof (induction arbitrary: ts' rule: derives.induct)
  case (binop op q p s a u b)
  then show ?case
    by (cases s rule: remdups_adj.cases) (auto simp: op_levels_iff dest: precedence_not_assigns)
next
  case (and_more s a u b)
  then show ?case by (cases s rule: remdups_adj.cases) (auto simp: assigns_def)
next
  case (or_more s a u b)
  then show ?case by (cases s rule: remdups_adj.cases) (auto simp: assigns_def)
next
  case (cond s c u a w b)
  then show ?case by (cases s rule: remdups_adj.cases) (auto simp: assigns_def)
qed auto

lemma derives_nonempty: "derives r ts e \<Longrightarrow> ts \<noteq> []"
  by (induction rule: derives.induct) auto

text \<open>What may follow the tokens of a rule, so that its loops stop there.\<close>

definition no_operator :: "arith_token list \<Rightarrow> bool" where
  "no_operator rest \<longleftrightarrow> rest = [] \<or> precedence (hd rest) = None"

fun follows :: "rule \<Rightarrow> arith_token list \<Rightarrow> bool" where
  "follows (RBinop p) rest = (rest = [] \<or> (\<forall>q. precedence (hd rest) = Some q \<longrightarrow> q \<le> p))"
| "follows RAnd rest = no_operator rest"
| "follows ROr rest = (no_operator rest \<and> (rest = [] \<or> hd rest \<noteq> TAnd))"
| "follows RTernary rest = (rest = [] \<or> hd rest = TRParen \<or> hd rest = TColon)"
| "follows RAssignment rest = (rest = [] \<or> hd rest = TRParen \<or> hd rest = TColon)"
| "follows _ rest = True"

text \<open>What a rule does once it has the value of its tokens: a rule with a loop goes on with it.\<close>

fun continue :: "arith_ctx \<Rightarrow> rule \<Rightarrow> bool \<Rightarrow> arith_token list \<Rightarrow> i64 \<Rightarrow> variables \<Rightarrow> arith_res" where
  "continue cx (RBinop p) ne rest v vs = parse cx (RBinopLoop p v) ne rest vs"
| "continue cx RAnd ne rest v vs = parse cx (RAndLoop v) ne rest vs"
| "continue cx ROr ne rest v vs = parse cx (ROrLoop v) ne rest vs"
| "continue cx r ne rest v vs = (Inr (v, rest), vs)"

lemma continue_fun [simp]:
  "continue cx (RBinop p) ne rest = (\<lambda>v. parse cx (RBinopLoop p v) ne rest)"
  "continue cx RAnd ne rest = (\<lambda>v. parse cx (RAndLoop v) ne rest)"
  "continue cx ROr ne rest = (\<lambda>v. parse cx (ROrLoop v) ne rest)"
  "continue cx RTernary ne rest = (\<lambda>v vs. (Inr (v, rest), vs))"
  "continue cx RAssignment ne rest = (\<lambda>v vs. (Inr (v, rest), vs))"
  "continue cx RUnary ne rest = (\<lambda>v vs. (Inr (v, rest), vs))"
  "continue cx RPrimary ne rest = (\<lambda>v vs. (Inr (v, rest), vs))"
  by (simp_all add: fun_eq_iff)

fun weaker :: "rule \<Rightarrow> rule \<Rightarrow> bool" where
  "weaker (RBinop p') (RBinop p) = (p' \<le> p)"
| "weaker r' r = (r' = r)"

lemma bind_then_do:
  "arith_bind (then_do r k) h = then_do r (\<lambda>v vs. arith_bind (k v vs) h)"
  by (auto simp: arith_bind_def then_do_def split: prod.splits sum.splits)

lemma then_do_assoc: "then_do (then_do r k) h = then_do r (\<lambda>v vs. then_do (k v vs) h)"
  by (auto simp: then_do_def split: prod.splits sum.splits)

lemma arith_bind_ret [simp]: "arith_bind (Inr (v, r), vs) k = k v r vs"
  by (simp add: arith_bind_def)

lemma bind_lift_op: "arith_bind (lift_op x r vs) k = then_do (x, vs) (\<lambda>v. k v r)"
  by (cases x) (auto simp: lift_op_def arith_bind_def)

lemma binop_loop_stop: "follows (RBinop p) rest \<Longrightarrow> p < p' \<Longrightarrow> parse cx (RBinopLoop p' v) ne rest vs = (Inr (v, rest), vs)"
  by (auto simp: parse_unfold [of cx "RBinopLoop p' v"] binop_loop_def split: list.splits option.splits)

lemma and_loop_stop: "rest = [] \<or> hd rest \<noteq> TAnd \<Longrightarrow> parse cx (RAndLoop v) ne rest vs = (Inr (v, rest), vs)"
  by (auto simp: parse_unfold [of cx "RAndLoop v"] and_loop_def)

lemma or_loop_stop: "rest = [] \<or> hd rest \<noteq> TOr \<Longrightarrow> parse cx (ROrLoop v) ne rest vs = (Inr (v, rest), vs)"
  by (auto simp: parse_unfold [of cx "ROrLoop v"] or_loop_def)

lemmas parse_defs = parse_assignment_def parse_ternary_def parse_or_def parse_and_def
  parse_binop_def parse_unary_def parse_primary_def

definition follows_meaning :: "arith_ctx \<Rightarrow> rule \<Rightarrow> arith_token list \<Rightarrow> aexp \<Rightarrow> bool" where
  "follows_meaning cx r ts e \<longleftrightarrow>
     (\<forall>r' ne rest vs. weaker r' r \<longrightarrow> follows r rest \<longrightarrow>
        parse cx r' ne (ts @ rest) vs = then_do (aevn cx ne e vs) (continue cx r' ne rest))"

lemma meaningI:
  "(\<And>ne rest vs. follows r rest \<Longrightarrow>
      parse cx r ne (ts @ rest) vs = then_do (aevn cx ne e vs) (continue cx r ne rest)) \<Longrightarrow>
   (\<And>p. r \<noteq> RBinop p) \<Longrightarrow> follows_meaning cx r ts e"
  by (cases r) (auto simp: follows_meaning_def elim: weaker.elims)

lemma meaningD:
  "follows_meaning cx r ts e \<Longrightarrow> follows r rest \<Longrightarrow>
     parse cx r ne (ts @ rest) vs = then_do (aevn cx ne e vs) (continue cx r ne rest)"
  by (cases r) (auto simp: follows_meaning_def)

lemma meaning_binopI:
  "(\<And>p' ne rest vs. p' \<le> p \<Longrightarrow> follows (RBinop p) rest \<Longrightarrow>
      parse cx (RBinop p') ne (ts @ rest) vs =
        then_do (aevn cx ne e vs) (\<lambda>v. parse cx (RBinopLoop p' v) ne rest)) \<Longrightarrow>
   follows_meaning cx (RBinop p) ts e"
  unfolding follows_meaning_def
proof (intro allI impI)
  fix r' ne rest vs
  assume *: "\<And>p' ne rest vs. p' \<le> p \<Longrightarrow> follows (RBinop p) rest \<Longrightarrow>
      parse cx (RBinop p') ne (ts @ rest) vs =
        then_do (aevn cx ne e vs) (\<lambda>v. parse cx (RBinopLoop p' v) ne rest)"
    and "weaker r' (RBinop p)" "follows (RBinop p) rest"
  then obtain p' where "r' = RBinop p'" "p' \<le> p" by (cases r') auto
  with * \<open>follows (RBinop p) rest\<close>
  show "parse cx r' ne (ts @ rest) vs = then_do (aevn cx ne e vs) (continue cx r' ne rest)"
    by (auto intro!: then_do_cong)
qed

lemma meaning_binopD:
  "follows_meaning cx (RBinop p) ts e \<Longrightarrow> p' \<le> p \<Longrightarrow> follows (RBinop p) rest \<Longrightarrow>
     parse cx (RBinop p') ne (ts @ rest) vs =
       then_do (aevn cx ne e vs) (\<lambda>v. parse cx (RBinopLoop p' v) ne rest)"
  unfolding follows_meaning_def by (drule spec [of _ "RBinop p'"]) (auto intro!: then_do_cong)

lemma meaning_num: "follows_meaning cx RPrimary [TNum v] (ANum v)"
  by (rule meaningI) (simp_all add: parse_unfold [of cx RPrimary] parse_defs)

lemma meaning_var: "follows_meaning cx RPrimary [TVar x] (AVar x)"
  by (rule meaningI) (simp_all add: parse_unfold [of cx RPrimary] parse_defs)

lemma meaning_paren:
  assumes "follows_meaning cx RAssignment ts e"
  shows "follows_meaning cx RPrimary (TLParen # ts @ [TRParen]) e"
proof (rule meaningI)
  fix ne rest vs
  show "parse cx RPrimary ne ((TLParen # ts @ [TRParen]) @ rest) vs =
      then_do (aevn cx ne e vs) (continue cx RPrimary ne rest)"
    using meaningD [OF assms, of "TRParen # rest" ne vs]
    by (simp add: parse_unfold [of cx RPrimary] parse_defs bind_then_do expect_def)
qed simp

lemma meaning_primary:
  assumes "derives RPrimary ts e" "follows_meaning cx RPrimary ts e"
  shows "follows_meaning cx RUnary ts e"
proof (rule meaningI)
  fix ne rest vs
  have "parse cx RUnary ne (ts @ rest) vs = parse cx RPrimary ne (ts @ rest) vs"
    using assms(1)
    by (rule derives_primaryE) (simp_all add: parse_unfold [of cx RUnary] parse_unary_def)
  then show "parse cx RUnary ne (ts @ rest) vs = then_do (aevn cx ne e vs) (continue cx RUnary ne rest)"
    using meaningD [OF assms(2), of rest ne vs] by (simp add: fun_eq_iff)
qed simp

lemma meaning_unary:
  assumes "op \<in> {TPlus, TMinus, TNot, TBitNot}" "follows_meaning cx RUnary ts e"
  shows "follows_meaning cx RUnary (op # ts) (AUn op e)"
proof (rule meaningI)
  fix ne rest vs
  show "parse cx RUnary ne ((op # ts) @ rest) vs =
      then_do (aevn cx ne (AUn op e) vs) (continue cx RUnary ne rest)"
    using assms(1) meaningD [OF assms(2), of rest ne vs]
    by (auto simp: parse_unfold [of cx RUnary "ne" "op # ts @ rest"] parse_unary_def bind_then_do
        then_do_assoc)
qed simp

lemma meaning_operand:
  assumes "follows_meaning cx RUnary ts e"
  shows "follows_meaning cx (RBinop p) ts e"
proof (rule meaning_binopI)
  fix p' ne rest vs
  show "parse cx (RBinop p') ne (ts @ rest) vs =
      then_do (aevn cx ne e vs) (\<lambda>v. parse cx (RBinopLoop p' v) ne rest)"
    using meaningD [OF assms, of rest ne vs]
    by (simp add: parse_unfold [of cx "RBinop p'"] parse_binop_def bind_then_do)
qed

lemma meaning_binop:
  assumes op: "precedence op = Some q" "p \<le> q"
    and a: "follows_meaning cx (RBinop q) s a" and b: "follows_meaning cx (RBinop (q + 1)) t b"
  shows "follows_meaning cx (RBinop p) (s @ op # t) (ABin op a b)"
proof (rule meaning_binopI)
  fix p' ne rest vs
  assume p': "p' \<le> p" and rest: "follows (RBinop p) rest"
  have f: "follows (RBinop q) (op # t @ rest)" "follows (RBinop (q + 1)) rest"
    using op rest by auto
  have step: "parse cx (RBinopLoop p' x) ne (op # t @ rest) vs1 =
      then_do (aevn cx ne b vs1) (\<lambda>y vs2. then_do (apply_binop ne op x y, vs2)
        (\<lambda>v. parse cx (RBinopLoop p' v) ne rest))" for x vs1
    using op p' meaning_binopD [OF b le_refl f(2), of ne vs1] binop_loop_stop [OF rest, of "q + 1"]
    by (subst parse_unfold) (simp add: binop_loop_def bind_then_do bind_lift_op)
  show "parse cx (RBinop p') ne ((s @ op # t) @ rest) vs =
      then_do (aevn cx ne (ABin op a b) vs) (\<lambda>v. parse cx (RBinopLoop p' v) ne rest)"
    using meaning_binopD [OF a _ f(1), of p' ne vs] op p' by (auto simp: step then_do_assoc intro!: then_do_cong)
qed

lemma meaning_and_one:
  assumes "follows_meaning cx (RBinop 1) ts e"
  shows "follows_meaning cx RAnd ts e"
proof (rule meaningI)
  fix ne rest vs
  assume "follows RAnd rest"
  then have f: "follows (RBinop 1) rest" "follows (RBinop 0) rest" by (auto simp: no_operator_def)
  show "parse cx RAnd ne (ts @ rest) vs = then_do (aevn cx ne e vs) (continue cx RAnd ne rest)"
    using meaning_binopD [OF assms le_refl f(1), of ne vs] binop_loop_stop [OF f(2), of 1]
    by (simp add: parse_unfold [of cx RAnd] parse_and_def bind_then_do)
qed simp

lemma meaning_and_more:
  assumes a: "follows_meaning cx RAnd s a" and b: "follows_meaning cx (RBinop 1) t b"
  shows "follows_meaning cx RAnd (s @ TAnd # t) (AAnd a b)"
proof (rule meaningI)
  fix ne rest vs
  assume "follows RAnd rest"
  then have f: "follows (RBinop 1) rest" "follows (RBinop 0) rest" "follows RAnd (TAnd # t @ rest)"
    by (auto simp: no_operator_def)
  have step: "parse cx (RAndLoop x) ne (TAnd # t @ rest) vs1 =
      then_do (aevn cx (ne \<or> x = 0) b vs1) (\<lambda>y. parse cx (RAndLoop (if x \<noteq> 0 \<and> y \<noteq> 0 then 1 else 0)) ne rest)"
    for x vs1
    using meaning_binopD [OF b le_refl f(1), of "ne \<or> x = 0" vs1] binop_loop_stop [OF f(2), of 1]
    by (subst parse_unfold) (simp add: and_loop_def bind_then_do)
  show "parse cx RAnd ne ((s @ TAnd # t) @ rest) vs =
      then_do (aevn cx ne (AAnd a b) vs) (continue cx RAnd ne rest)"
    using meaningD [OF a f(3), of ne vs] by (auto simp: step then_do_assoc intro!: then_do_cong)
qed simp

lemma meaning_or_one:
  assumes "follows_meaning cx RAnd ts e"
  shows "follows_meaning cx ROr ts e"
proof (rule meaningI)
  fix ne rest vs
  assume f: "follows ROr rest"
  then show "parse cx ROr ne (ts @ rest) vs = then_do (aevn cx ne e vs) (continue cx ROr ne rest)"
    using meaningD [OF assms, of rest ne vs] and_loop_stop [of rest]
    by (simp add: parse_unfold [of cx ROr] parse_or_def bind_then_do)
qed simp

lemma meaning_or_more:
  assumes a: "follows_meaning cx ROr s a" and b: "follows_meaning cx RAnd t b"
  shows "follows_meaning cx ROr (s @ TOr # t) (AOr a b)"
proof (rule meaningI)
  fix ne rest vs
  assume f: "follows ROr rest"
  have step: "parse cx (ROrLoop x) ne (TOr # t @ rest) vs1 =
      then_do (aevn cx (ne \<or> x \<noteq> 0) b vs1) (\<lambda>y. parse cx (ROrLoop (if x \<noteq> 0 \<or> y \<noteq> 0 then 1 else 0)) ne rest)"
    for x vs1
    using f meaningD [OF b, of rest "ne \<or> x \<noteq> 0" vs1] and_loop_stop [of rest]
    by (subst parse_unfold) (simp add: or_loop_def bind_then_do)
  show "parse cx ROr ne ((s @ TOr # t) @ rest) vs =
      then_do (aevn cx ne (AOr a b) vs) (continue cx ROr ne rest)"
    using meaningD [OF a, of "TOr # t @ rest" ne vs]
    by (auto simp: no_operator_def step then_do_assoc intro!: then_do_cong)
qed simp

lemma follows_or: "follows RTernary rest \<Longrightarrow> follows ROr rest"
  by (auto simp: no_operator_def)

lemma meaning_ternary:
  assumes "follows_meaning cx ROr ts e"
  shows "follows_meaning cx RTernary ts e"
proof (rule meaningI)
  fix ne rest vs
  assume f: "follows RTernary rest"
  then show "parse cx RTernary ne (ts @ rest) vs = then_do (aevn cx ne e vs) (continue cx RTernary ne rest)"
    using meaningD [OF assms follows_or [OF f], of ne vs] or_loop_stop [of rest]
    by (auto simp: parse_unfold [of cx RTernary] parse_ternary_def bind_then_do intro!: then_do_cong)
qed simp

lemma meaning_cond:
  assumes c: "follows_meaning cx ROr s c" and a: "follows_meaning cx RAssignment t a"
    and b: "follows_meaning cx RAssignment u b"
  shows "follows_meaning cx RTernary (s @ TQuestion # t @ TColon # u) (ACond c a b)"
proof (rule meaningI)
  fix ne rest vs
  assume f: "follows RTernary rest"
  show "parse cx RTernary ne ((s @ TQuestion # t @ TColon # u) @ rest) vs =
      then_do (aevn cx ne (ACond c a b) vs) (continue cx RTernary ne rest)"
    using f meaningD [OF c, of "TQuestion # t @ TColon # u @ rest" ne vs]
      meaningD [OF a, of "TColon # u @ rest"] meaningD [OF b, of rest]
    by (auto simp: parse_unfold [of cx RTernary] parse_ternary_def bind_then_do no_operator_def
        or_loop_stop expect_def then_do_assoc intro!: then_do_cong)
qed simp

lemma meaning_expr:
  assumes d: "derives RTernary ts e" and m: "follows_meaning cx RTernary ts e"
  shows "follows_meaning cx RAssignment ts e"
proof (rule meaningI)
  fix ne rest vs
  assume f: "follows RAssignment rest"
  have "parse cx RAssignment ne (ts @ rest) vs = parse cx RTernary ne (ts @ rest) vs"
  proof (cases "ts @ rest" rule: remdups_adj.cases)
    case (3 t u ts')
    have "\<not> assigns u" if "dest_var t = Some x" for x
    proof (cases "tl ts")
      case Nil
      with 3 f derives_nonempty [OF d] show ?thesis by (cases ts) (auto simp: assigns_def)
    next
      case (Cons u' us)
      from that have "t = TVar x" by (cases t) auto
      with 3 Cons derives_nonempty [OF d] have "ts = TVar x # u # us" by (cases ts) auto
      with second_token [OF d] show ?thesis by blast
    qed
    then show ?thesis
      by (auto simp: parse_unfold [of cx RAssignment] parse_assignment_def 3 assigns_def split: option.splits)
  qed (simp_all add: parse_unfold [of cx RAssignment] parse_assignment_def)
  with meaningD [OF m, of rest ne vs] f
  show "parse cx RAssignment ne (ts @ rest) vs = then_do (aevn cx ne e vs) (continue cx RAssignment ne rest)"
    by simp
qed simp

lemma meaning_assign:
  assumes "follows_meaning cx RAssignment ts e"
  shows "follows_meaning cx RAssignment (TVar x # TAssign # ts) (AAssign x e)"
proof (rule meaningI)
  fix ne rest vs
  assume "follows RAssignment rest"
  then show "parse cx RAssignment ne ((TVar x # TAssign # ts) @ rest) vs =
      then_do (aevn cx ne (AAssign x e) vs) (continue cx RAssignment ne rest)"
    using meaningD [OF assms, of rest ne vs]
    by (subst parse_unfold) (simp add: parse_assignment_def bind_then_do then_do_assoc)
qed simp

lemma meaning_update:
  assumes "assignment_binary_op op = Some bop" "follows_meaning cx RAssignment ts e"
  shows "follows_meaning cx RAssignment (TVar x # op # ts) (AUpdate x bop e)"
proof (rule meaningI)
  fix ne rest vs
  assume "follows RAssignment rest"
  moreover have "op \<noteq> TAssign" using assms(1) by auto
  ultimately show "parse cx RAssignment ne ((TVar x # op # ts) @ rest) vs =
      then_do (aevn cx ne (AUpdate x bop e) vs) (continue cx RAssignment ne rest)"
    using assms(1) meaningD [OF assms(2), of rest ne vs]
    by (subst parse_unfold) (simp add: parse_assignment_def bind_then_do then_do_assoc bind_lift_op)
qed simp

lemma derives_meaning: "derives r ts e \<Longrightarrow> follows_meaning cx r ts e"
  by (induction rule: derives.induct)
    (blast intro: meaning_num meaning_var meaning_paren meaning_primary meaning_unary meaning_operand
      meaning_binop [folded op_levels_iff] meaning_and_one meaning_and_more meaning_or_one meaning_or_more meaning_ternary
      meaning_cond meaning_expr meaning_assign meaning_update [folded compound_ops_iff])+

subsection \<open>Truncated division\<close>

lemma sint_bounds: "- (2 ^ 63) \<le> sint (w :: i64)" "sint (w :: i64) < 2 ^ 63"
  using sint_ge [of w] sint_lt [of w] by simp_all

lemma sint_word_of_int:
  "- (2 ^ 63) \<le> z \<Longrightarrow> z < 2 ^ 63 \<Longrightarrow> sint (word_of_int z :: i64) = z"
  by (simp add: signed_take_bit_int_eq_self sint_sbintrunc')

lemma sdiv_range:
  assumes "\<not> (a = - (2 ^ 63) \<and> b = - 1)" "- (2 ^ 63) \<le> a" "a < 2 ^ 63"
  shows "- (2 ^ 63) \<le> a sdiv b \<and> (a :: int) sdiv b < 2 ^ 63"
proof -
  have r: "- \<bar>a\<bar> \<le> a sdiv b" "a sdiv b \<le> \<bar>a\<bar>" using sdiv_int_range [of a b] by simp_all
  have "a sdiv b \<noteq> 2 ^ 63"
  proof
    assume top: "a sdiv b = 2 ^ 63"
    with r assms(2,3) have a: "a = - (2 ^ 63)" by linarith
    with top int_sdiv_negated_is_minus1 [of a b] have "b = - 1" by simp
    with a assms(1) show False by simp
  qed
  with r assms(2,3) show ?thesis by linarith
qed

lemma smod_range:
  assumes "b \<noteq> 0" "- (2 ^ 63) \<le> b" "b < 2 ^ 63"
  shows "- (2 ^ 63) \<le> a smod b \<and> (a :: int) smod b < 2 ^ 63"
  using smod_int_range [OF assms(1), of a] assms by auto

lemma division_result:
  assumes "div_guard l r (word_of_int (sint l sdiv sint r)) = Inr q"
  shows "sint q = sint l sdiv sint r"
proof -
  from assms have "\<not> (l = I64_MIN \<and> r = - 1)" and q: "q = word_of_int (sint l sdiv sint r)"
    by (auto simp: div_guard_def split: if_splits)
  then have "\<not> (sint l = - (2 ^ 63) \<and> sint r = - 1)"
    using sint_eq_iff [of l I64_MIN] sint_eq_iff [of r "- 1"] by auto
  with q sdiv_range [OF _ sint_bounds] sint_word_of_int show ?thesis by blast
qed

lemma remainder_result:
  assumes "div_guard l r (word_of_int (sint l smod sint r)) = Inr m"
  shows "sint m = sint l smod sint r"
proof -
  from assms have "r \<noteq> 0" and m: "m = word_of_int (sint l smod sint r)"
    by (auto simp: div_guard_def split: if_splits)
  then have "sint r \<noteq> 0" using sint_eq_iff [of r 0] by simp
  with m smod_range [OF _ sint_bounds] sint_word_of_int show ?thesis by blast
qed

lemma eval_arith_parse:
  "eval_arith s vs st pid =
     (case tokenize s of
        Inl e \<Rightarrow> (Inl e, vs)
      | Inr ts \<Rightarrow>
          (case parse \<lparr>exit_status = st, shell_pid = pid\<rparr> RAssignment False ts vs of
             (Inl e, vs') \<Rightarrow> (Inl e, vs')
           | (Inr (v, []), vs') \<Rightarrow> (Inr v, vs')
           | (Inr (v, t # _), vs') \<Rightarrow> (Inl (UnexpectedToken t), vs')))"
  by (cases "tokenize s") (simp_all add: eval_arith_def parse_fuel_enough)

lemma lex_token_error: "lex_token c cs = Inl e \<Longrightarrow> \<not> internal_error e"
  by (auto simp: lex_token_def lex_number_def internal_error_def Let_def
      split: if_splits option.splits list.splits)

lemma tokenize_loop_error: "tokenize_loop cs ts = Inl e \<Longrightarrow> \<not> internal_error e"
  by (induction cs ts rule: tokenize_loop.induct)
    (auto dest: lex_token_error split: if_splits sum.splits prod.splits)

lemma eval_arith_int_sets:
  "\<exists>ops. snd (eval_arith s vs st pid) = run_ops ops vs \<and> (\<forall>p \<in> set ops. \<exists>x v. p = OpSetInt x v)"
proof (cases "tokenize s")
  case (Inl e)
  then show ?thesis by (intro exI [of _ "[]"]) (simp add: eval_arith_def)
next
  case (Inr ts)
  then have "snd (eval_arith s vs st pid) =
      snd (parse \<lparr>exit_status = st, shell_pid = pid\<rparr> RAssignment False ts vs)"
    by (auto simp: eval_arith_parse split: sum.splits prod.splits list.splits)
  then show ?thesis
    using parse_int_sets [of False vs "\<lparr>exit_status = st, shell_pid = pid\<rparr>" RAssignment ts]
    by (auto simp: int_sets_def)
qed

subsection \<open>Properties\<close>

text \<open>C2. Precedence, associativity and short circuits: when the tokens of an expression are
  written according to the grammar, evaluating them gives the value, the error and the variables
  of the expression's meaning.  In particular the one-pass evaluator, which goes through a
  skipped operand with \<^verbatim>\<open>noeval\<close>, behaves as if the operand had not been there.\<close>

theorem eval_arith_correct:
  assumes "tokenize s = Inr ts" and "derives RAssignment ts e"
  shows "eval_arith s vs st pid = aeval \<lparr>exit_status = st, shell_pid = pid\<rparr> e vs"
proof -
  define cx where "cx = \<lparr>exit_status = st, shell_pid = pid\<rparr>"
  have "parse cx RAssignment False (ts @ []) vs = then_do (aevn cx False e vs) (continue cx RAssignment False [])"
    by (rule meaningD [OF derives_meaning [OF assms(2)]]) simp
  then have "parse cx RAssignment False ts vs = then_do (aeval cx e vs) (\<lambda>v vs. (Inr (v, []), vs))"
    by (simp add: aevn_aeval)
  then show ?thesis using assms(1)
    by (auto simp: eval_arith_parse cx_def then_do_def split: sum.splits prod.splits)
qed

theorem eval_arith_correct_witness:
  "eval_arith (ustr ''1+2*3'') new_clean 0 1 = (Inr 7, new_clean)"
proof -
  have tok: "tokenize (ustr ''1+2*3'') = Inr [TNum 1, TPlus, TNum 2, TStar, TNum 3]"
    by code_simp
  have leaf: "derives (RBinop p) [TNum v] (ANum v)" for p v
    by (intro derives.operand derives.primary derives.num)
  have "derives (RBinop 8) ([TNum 2] @ TStar # [TNum 3]) (ABin TStar (ANum 2) (ANum 3))"
    by (rule derives.binop [where q = 8]) (simp_all add: leaf op_levels_iff)
  then have "derives (RBinop 1) ([TNum 1] @ TPlus # [TNum 2, TStar, TNum 3])
      (ABin TPlus (ANum 1) (ABin TStar (ANum 2) (ANum 3)))"
    by (intro derives.binop [where q = 7]) (simp_all add: leaf op_levels_iff)
  then have "derives RAssignment [TNum 1, TPlus, TNum 2, TStar, TNum 3]
      (ABin TPlus (ANum 1) (ABin TStar (ANum 2) (ANum 3)))"
    by (intro derives.expr derives.ternary derives.or_one derives.and_one) simp
  from eval_arith_correct [OF tok this] show ?thesis by (simp add: op_value_def op_meaning_def)
qed

text \<open>C32. Evaluation is total: every expression yields a value or one of the errors the shell
  reports; the recursion always ends and no \<^verbatim>\<open>unreachable!()\<close> is reached.\<close>

theorem eval_arith_total:
  "(\<exists>v vs'. eval_arith s vs st pid = (Inr v, vs')) \<or>
   (\<exists>e vs'. eval_arith s vs st pid = (Inl e, vs') \<and> e \<noteq> OutOfFuel \<and> e \<noteq> Unreachable)"
proof (cases "tokenize s")
  case (Inl e)
  then show ?thesis using tokenize_loop_error [of s "[]" e]
    by (simp add: eval_arith_parse tokenize_def internal_error_def)
next
  case (Inr ts)
  then show ?thesis
    using parse_no_internal_error [of "\<lparr>exit_status = st, shell_pid = pid\<rparr>" RAssignment False ts vs]
    by (auto simp: eval_arith_parse internal_error_def split: sum.splits prod.splits list.splits)
qed

text \<open>C33. Evaluation touches the shell's variables only by integer assignments: whatever the
  expression, and also when it fails half-way, the store afterwards is the result of a sequence
  of them, and it is unchanged where the evaluator skips.\<close>

theorem eval_arith_effects:
  "(\<exists>ops. snd (eval_arith s vs st pid) = run_ops ops vs \<and> (\<forall>p \<in> set ops. \<exists>x v. p = OpSetInt x v)) \<and>
   snd (run fuel cx r True ts vs) = vs"
  using eval_arith_int_sets [of s vs st pid] run_int_sets [of True vs fuel cx r ts]
  by (auto simp: int_sets_def)

theorem eval_arith_effects_witness:
  "\<exists>ops. snd (eval_arith (ustr ''x=1'') new_clean 0 1) = run_ops ops new_clean \<and>
     (\<forall>p \<in> set ops. \<exists>x v. p = OpSetInt x v)"
  using eval_arith_effects [of "ustr ''x=1''" new_clean 0 1] by simp

text \<open>Division and remainder: exactly division by zero and the one quotient that does not
  fit are refused; otherwise the results are the truncated quotient and remainder of the signed
  values, without wrap-around, and \<open>left = quotient * right + remainder\<close>.\<close>

lemma division_exact:
  "(apply_binop False TSlash l r = Inl DivisionByZero \<longleftrightarrow> sint r = 0) \<and>
   (apply_binop False TSlash l r = Inl DivisionOverflow \<longleftrightarrow> sint l = - (2 ^ 63) \<and> sint r = - 1) \<and>
   (apply_binop False TSlash l r = Inr q \<and> apply_binop False TPercent l r = Inr m \<longrightarrow>
      sint q = sint l sdiv sint r \<and> sint m = sint l smod sint r \<and>
      sint l = sint q * sint r + sint m)"
proof -
  have e: "sint l = - (2 ^ 63) \<longleftrightarrow> l = I64_MIN" "sint r = - 1 \<longleftrightarrow> r = - 1" "sint r = 0 \<longleftrightarrow> r = 0"
    using sint_eq_iff [of l I64_MIN] sint_eq_iff [of r "- 1"] sint_eq_iff [of r 0] by simp_all
  have "sint q = sint l sdiv sint r \<and> sint m = sint l smod sint r"
    if "apply_binop False TSlash l r = Inr q" "apply_binop False TPercent l r = Inr m"
    using that division_result [of l r q] remainder_result [of l r m] by (simp add: apply_binop.simps)
  then show ?thesis unfolding e
    by (auto simp: apply_binop.simps div_guard_def sdiv_mult_smod_eq)
qed

end
