(* ===== verification/Ast.thy ===== *)
theory Ast
  imports Encoding
begin

text \<open>
  The part of the syntax tree that word expansion works on (\<^verbatim>\<open>crates/epsh/src/ast.rs\<close>) and the
  errors and exit statuses of the engine (\<^verbatim>\<open>crates/epsh/src/error.rs\<close>).  The type of commands
  inside a command substitution is a parameter, since expansion only hands them on.
\<close>

record span =
  offset :: nat
  line_no :: nat
  col :: nat

datatype 'c word_part =
    Literal shell_bytes
  | SingleQuoted shell_bytes
  | DoubleQuoted "'c word_part list"
  | Param ustring "'c param_op" span
  | CmdSubst 'c
  | Backtick 'c
  | Arith "'c word_part list"
  | Tilde shell_bytes
and 'c param_op =
    Normal
  | Length
  | Default bool "'c word_part list"
  | Assign bool "'c word_part list"
  | Error bool "'c word_part list"
  | Alternative bool "'c word_part list"
  | TrimSuffixSmall "'c word_part list"
  | TrimSuffixLarge "'c word_part list"
  | TrimPrefixSmall "'c word_part list"
  | TrimPrefixLarge "'c word_part list"
  | BadSubst

datatype 'c word_node = Word (parts: "'c word_part list") (word_span: span)

text \<open>Redirections, assignments and commands.\<close>

datatype 'c here_doc_body = HereLiteral shell_bytes | HereParsed "'c word_part list"

datatype 'c redir_kind =
    Input "'c word_node"
  | Output "'c word_node"
  | Clobber "'c word_node"
  | Append "'c word_node"
  | ReadWrite "'c word_node"
  | DupInput "'c word_node"
  | DupOutput "'c word_node"
  | HereDoc "'c here_doc_body"
  | HereDocStrip "'c here_doc_body"

datatype 'c redir = Redir (redir_fd: int) (redir_kind: "'c redir_kind") (redir_span: span)

datatype 'c assignment = Assignment (assign_name: ustring) (assign_value: "'c word_node") (assign_span: span)

datatype 'c case_arm = CaseArm (arm_patterns: "'c word_node list") (arm_body: "'c option") (arm_span: span)

datatype command =
    Simple "command assignment list" "command word_node list" "command redir list" span
  | Pipeline "command list" bool span
  | AndList command command
  | OrList command command
  | Sequence command command
  | Subshell command "command redir list" span
  | BraceGroup command "command redir list" span
  | If command command "command option" span
  | While command command span
  | Until command command span
  | For ustring "command word_node list option" command span
  | Case "command word_node" "command case_arm list" span
  | FuncDef ustring command span
  | NotCommand command
  | Background command "command redir list"

subsection \<open>Exit statuses\<close>

text \<open>\<^verbatim>\<open>ExitStatus\<close> holds an \<^verbatim>\<open>i32\<close>; the conversion keeps the low byte, also of a negative
  number.\<close>

type_synonym exit_code = int

definition exit_from_i32 :: "int \<Rightarrow> exit_code" where
  "exit_from_i32 n = n mod 256"

definition exit_success :: "exit_code \<Rightarrow> bool" where
  "exit_success s \<longleftrightarrow> s = 0"

definition exit_from_bool :: "bool \<Rightarrow> exit_code" where
  "exit_from_bool ok = (if ok then 0 else 1)"

definition exit_inverted :: "exit_code \<Rightarrow> exit_code" where
  "exit_inverted s = exit_from_bool (\<not> exit_success s)"

subsection \<open>Errors\<close>

text \<open>An I/O error is known by its code; the text of a runtime error is kept as data.\<close>

datatype 'm shell_error =
    CallbackProcess nat
  | CommandRefused ustring span
  | Exit exit_code
  | Return exit_code
  | Break nat
  | Continue nat
  | Syntax ustring span
  | CommandNotFound ustring
  | Io int
  | Runtime 'm span
  | Cancelled
  | TimedOut
  | Stopped int int

definition is_interrupted :: "'m shell_error \<Rightarrow> bool" where
  "is_interrupted e \<longleftrightarrow> e = Cancelled \<or> e = TimedOut"

fun exit_code_of :: "'m shell_error \<Rightarrow> exit_code option" where
  "exit_code_of (Exit s) = Some s"
| "exit_code_of (Return s) = Some s"
| "exit_code_of _ = None"

lemma exit_from_i32_range: "0 \<le> exit_from_i32 n \<and> exit_from_i32 n < 256"
  by (simp add: exit_from_i32_def)

end
