(* ===== verification/Expand_Text.thy ===== *)
theory Expand_Text
  imports Glob Vars Arith_Spec Ast
begin

text \<open>
  The text-level parts of word expansion (\<^verbatim>\<open>crates/epsh/src/expand.rs\<close>): protecting quoted text
  from the matcher and undoing it, splitting fragments into fields by \<^verbatim>\<open>IFS\<close>, and trimming
  prefixes and suffixes by a pattern.
\<close>

record expanded_word =
  frag_value :: ustring
  split_fields :: bool
  word_break :: bool

definition protect_globs :: "ustring \<Rightarrow> bool \<Rightarrow> ustring" where
  "protect_globs v enabled =
     (if \<not> enabled then v
      else concat (map (\<lambda>unit. (if unit \<noteq> [47] then [CTLESC] else []) @ unit) (shell_chars v)))"

text \<open>The loop over a quoted text in \<^verbatim>\<open>expand_pattern\<close>.\<close>

definition pattern_special :: "cp \<Rightarrow> bool" where
  "pattern_special c \<longleftrightarrow> c \<in> {42, 63, 91, 93, 92, 33}"

definition quote_pattern :: "ustring \<Rightarrow> ustring" where
  "quote_pattern cs = concat (map (\<lambda>c. if pattern_special c then [CTLESC, c] else [c]) cs)"

fun remove_units :: "ustring list \<Rightarrow> ustring" where
  "remove_units [] = []"
| "remove_units (unit # us) =
     (if unit = [CTLESC] then
        (case us of next # us' \<Rightarrow> next @ remove_units us' | [] \<Rightarrow> unit)
      else unit @ remove_units us)"

definition remove_glob_escapes :: "ustring \<Rightarrow> ustring" where
  "remove_glob_escapes s = remove_units (shell_chars s)"

definition ifs_ws :: "ustring \<Rightarrow> ustring list" where
  "ifs_ws i = filter (list_all is_whitespace) (shell_chars i)"

definition ifs_nws :: "ustring \<Rightarrow> ustring list" where
  "ifs_nws i = filter (\<lambda>u. \<not> list_all is_whitespace u) (shell_chars i)"

text \<open>The local variables \<^verbatim>\<open>fields\<close>, \<^verbatim>\<open>current\<close> and \<^verbatim>\<open>have_field\<close>.\<close>

type_synonym split_state = "ustring list \<times> ustring \<times> bool"

definition emit :: "split_state \<Rightarrow> split_state" where
  "emit st = (case st of (flds, current, hv) \<Rightarrow>
     if hv then (flds @ [current], [], False) else st)"

text \<open>The loop over the characters of one fragment.\<close>

function split_units :: "ustring list \<Rightarrow> ustring list \<Rightarrow> ustring list \<Rightarrow> split_state \<Rightarrow> split_state" where
  "split_units ws nws [] st = st"
| "split_units ws nws (ch # chars) st =
     (if ch \<in> set ws then
        let rest = dropWhile (\<lambda>u. u \<in> set ws) chars;
            rest' = (case rest of
                       d # ds \<Rightarrow> if d \<in> set nws then dropWhile (\<lambda>u. u \<in> set ws) ds else rest
                     | [] \<Rightarrow> rest)
        in split_units ws nws rest' (emit st)
      else if ch \<in> set nws then
        split_units ws nws (dropWhile (\<lambda>u. u \<in> set ws) chars)
          (case st of (flds, current, hv) \<Rightarrow>
             if hv then (flds @ [current], [], False) else (flds @ [[]], current, False))
      else
        split_units ws nws chars (case st of (flds, current, hv) \<Rightarrow> (flds, current @ ch, True)))"
  by pat_completeness auto
termination
proof (relation "measure (\<lambda>(ws, nws, chars, st). length chars)", goal_cases)
  case (2 ws nws ch chars st rest rest')
  then have "length rest' \<le> length chars"
    by (auto split: list.splits if_splits)
      (metis dropWhile_length_le le_SucI le_trans length_Cons)+
  then show ?case by simp
qed (auto simp: less_Suc_eq_le dropWhile_length_le)

definition split_fragment :: "ustring \<Rightarrow> ustring list \<Rightarrow> ustring list \<Rightarrow> expanded_word \<Rightarrow> split_state \<Rightarrow> split_state" where
  "split_fragment i ws nws frag st =
     (let st1 = (if word_break frag then emit st else st)
      in if \<not> split_fields frag \<or> i = [] then
           (case st1 of (flds, current, hv) \<Rightarrow> (flds, current @ frag_value frag, True))
         else split_units ws nws (shell_chars (frag_value frag)) st1)"

definition field_split :: "expanded_word list \<Rightarrow> ustring \<Rightarrow> ustring list" where
  "field_split fragments i =
     (if fragments = [] then []
      else (case fold (split_fragment i (ifs_ws i) (ifs_nws i)) fragments ([], [], False) of
              (flds, current, hv) \<Rightarrow> if hv then flds @ [current] else flds))"

definition is_special_param :: "ustring \<Rightarrow> bool" where
  "is_special_param name \<longleftrightarrow>
     name \<in> {ustr ''@'', ustr ''*'', ustr ''#'', ustr ''?'', ustr ''-'', ustr ''$'', ustr ''!'', ustr ''0''} \<or>
     (length name = 1 \<and> is_ascii_digit (hd name))"

text \<open>The first index of a range at which the pattern matches.\<close>

definition trim_suffix :: "ustring \<Rightarrow> ustring \<Rightarrow> bool \<Rightarrow> ustring" where
  "trim_suffix v pattern greedy =
     (let chars = shell_chars v;
          range = (if greedy then [0..<length chars] else rev [0..<length chars])
      in case find (\<lambda>i. fnmatch_shell pattern (concat (drop i chars))) range of
           Some i \<Rightarrow> concat (take i chars)
         | None \<Rightarrow> v)"

definition trim_prefix :: "ustring \<Rightarrow> ustring \<Rightarrow> bool \<Rightarrow> ustring" where
  "trim_prefix v pattern greedy =
     (let chars = shell_chars v;
          range = (if greedy then rev [1..<Suc (length chars)] else [1..<Suc (length chars)])
      in case find (\<lambda>i. fnmatch_shell pattern (concat (take i chars))) range of
           Some i \<Rightarrow> concat (drop i chars)
         | None \<Rightarrow> v)"

subsection \<open>Quoted text\<close>

text \<open>The units of protected text: every unit but a slash has a marker before it.\<close>

definition guarded :: "sunit \<Rightarrow> ustring list" where
  "guarded u = (if enc_unit u \<noteq> [47] then [[CTLESC], enc_unit u] else [[47]])"

lemma shell_chars_marker: "shell_chars (CTLESC # s) = [CTLESC] # shell_chars s"
  by (simp add: encoding_consts)

lemma shell_chars_slash: "shell_chars (47 # s) = [47] # shell_chars s"
  by (simp add: encoding_consts)

lemma shell_chars_guarded:
  "list_all wf_unit us \<Longrightarrow>
     shell_chars (concat (map (\<lambda>u. concat (guarded u)) us) @ s) = concat (map guarded us) @ shell_chars s"
  by (induction us)
    (auto simp: guarded_def shell_chars_marker shell_chars_slash shell_chars_enc_unit
      simp del: shell_chars.simps)

lemma protect_globs_units:
  "protect_globs (bytes_to_str bs) True = concat (map (\<lambda>u. concat (guarded u)) (units bs))"
  unfolding protect_globs_def shell_chars_bytes_to_str map_map comp_def guarded_def
  by (auto intro!: arg_cong [of _ _ concat] map_cong)

lemma shell_chars_protect: "shell_chars (protect_globs (bytes_to_str bs) True) = concat (map guarded (units bs))"
  using shell_chars_guarded [OF units_wf, of bs "[]"] by (simp add: protect_globs_units)

lemma enc_unit_not_marker: "wf_unit u \<Longrightarrow> enc_unit u \<noteq> [CTLESC]"
  by (erule wf_unit_cases)
    (auto simp: special_def is_pua_byte_def encoding_consts split: if_splits)

lemma remove_units_guarded:
  "list_all wf_unit us \<Longrightarrow>
     remove_units (concat (map guarded us) @ vs) = concat (map enc_unit us) @ remove_units vs"
  by (induction us) (auto simp: guarded_def encoding_consts)

lemma remove_protect: "remove_glob_escapes (protect_globs (bytes_to_str bs) True) = bytes_to_str bs"
  using remove_units_guarded [OF units_wf, of bs "[]"]
  unfolding remove_glob_escapes_def shell_chars_protect by (simp add: bytes_to_str_units)

lemma has_glob_guarded: "has_glob_units (concat (map guarded us) @ vs) = has_glob_units vs"
  by (induction us) (auto simp: guarded_def encoding_consts)

lemma has_glob_protect: "\<not> has_glob_chars_shell (protect_globs (bytes_to_str bs) True)"
  using has_glob_guarded [of "units bs" "[]"] by (simp add: has_glob_chars_shell_def shell_chars_protect)

lemma codepoint_marker [simp]: "unit_codepoint [CTLESC] = GLOB_ESCAPE" "unit_codepoint [47] = 47"
  by (simp_all add: is_pua_byte_def encoding_consts)

declare unit_codepoint.simps [simp del]

lemma escape_marker [simp]: "is_escape GLOB_ESCAPE"
  by (simp add: is_escape_def)

lemma slash_plain [simp]: "\<not> quote_item 47"
  by (simp add: quote_item_def is_escape_def GLOB_ESCAPE_def)

lemma slash_unit: "wf_unit u \<Longrightarrow> enc_unit u = [47] \<Longrightarrow> unit_code u = 47"
  by (erule wf_unit_cases) (auto simp: special_def is_pua_byte_def encoding_consts)

lemma parse_guarded:
  "list_all wf_unit us \<Longrightarrow>
     parse_items (map unit_codepoint (concat (map guarded us)) @ ps) =
       map Lit (map unit_code us) @ parse_items ps"
  by (induction us)
    (auto simp: guarded_def parse_items_escaped parse_items_plain unit_codepoint_enc slash_unit)

text \<open>The same for patterns: only the characters that mean something to the matcher get a
  marker.\<close>

definition quoted_unit :: "sunit \<Rightarrow> ustring list" where
  "quoted_unit u = (if \<exists>c. u = Scalar c \<and> pattern_special c then [[CTLESC], enc_unit u] else [enc_unit u])"

lemma quote_pattern_append: "quote_pattern (a @ b) = quote_pattern a @ quote_pattern b"
  by (simp add: quote_pattern_def)

lemma quote_unit: "wf_unit u \<Longrightarrow> quote_pattern (enc_unit u) = concat (quoted_unit u)"
  by (erule wf_unit_cases)
    (auto simp: quote_pattern_def quoted_unit_def special_def pattern_special_def is_pua_byte_def encoding_consts)

lemma quote_pattern_units:
  "list_all wf_unit us \<Longrightarrow>
     quote_pattern (concat (map enc_unit us)) = concat (map (\<lambda>u. concat (quoted_unit u)) us)"
proof (induction us)
  case Nil
  show ?case by (simp add: quote_pattern_def)
qed (simp add: quote_pattern_append quote_unit)

lemma shell_chars_quoted:
  "list_all wf_unit us \<Longrightarrow>
     shell_chars (concat (map (\<lambda>u. concat (quoted_unit u)) us) @ s) = concat (map quoted_unit us) @ shell_chars s"
  by (induction us)
    (auto simp: quoted_unit_def shell_chars_marker shell_chars_enc_unit simp del: shell_chars.simps)

lemma unquoted_code:
  "wf_unit u \<Longrightarrow> \<not> (\<exists>c. u = Scalar c \<and> pattern_special c) \<Longrightarrow> \<not> quote_item (unit_code u)"
proof (cases u)
  case (Raw b)
  then show ?thesis using unat_u8_less [of b]
    by (simp add: quote_item_def is_escape_def GLOB_ESCAPE_def)
qed (auto simp: quote_item_def is_escape_def GLOB_ESCAPE_def pattern_special_def is_scalar_def)

lemma parse_quoted:
  "list_all wf_unit us \<Longrightarrow>
     parse_items (map unit_codepoint (concat (map quoted_unit us)) @ ps) =
       map Lit (map unit_code us) @ parse_items ps"
proof (induction us)
  case (Cons u us)
  show ?case
  proof (cases "\<exists>c. u = Scalar c \<and> pattern_special c")
    case True
    then have "quoted_unit u = [[CTLESC], enc_unit u]" by (simp add: quoted_unit_def)
    with Cons show ?thesis by (simp add: parse_items_escaped unit_codepoint_enc)
  next
    case False
    then have "quoted_unit u = [enc_unit u]" unfolding quoted_unit_def by (simp only: if_False)
    with Cons unquoted_code [of u] False show ?thesis
      by (simp add: unit_codepoint_enc parse_items_plain)
  qed
qed simp

lemma parse_quote_pattern:
  "parse_items (shell_codepoints (quote_pattern (bytes_to_str bs) @ s)) =
     map Lit (map unit_code (units bs)) @ parse_items (shell_codepoints s)"
  using units_wf [of bs]
  by (simp add: shell_codepoints_def bytes_to_str_units quote_pattern_units shell_chars_quoted parse_quoted)

lemma codes_eq_iff: "map unit_code (units as) = map unit_code (units bs) \<longleftrightarrow> as = bs"
  using map_unit_code_inj [OF units_wf units_wf] units_inj by blast

subsection \<open>Splitting at white space\<close>

text \<open>The pieces of a list between the elements that satisfy a predicate.\<close>

fun split_by :: "('a \<Rightarrow> bool) \<Rightarrow> 'a list \<Rightarrow> 'a list list" where
  "split_by P [] = [[]]"
| "split_by P (x # xs) =
     (if P x then [] # split_by P xs
      else (case split_by P xs of [] \<Rightarrow> [[x]] | w # ws \<Rightarrow> (x # w) # ws))"

definition words :: "('a \<Rightarrow> bool) \<Rightarrow> 'a list \<Rightarrow> 'a list list" where
  "words P xs = filter (\<lambda>w. w \<noteq> []) (split_by P xs)"

lemma split_by_nonempty [simp]: "split_by P xs \<noteq> []"
  by (induction xs) (auto split: list.splits)

lemma words_dropWhile: "words P (dropWhile P xs) = words P xs"
  by (induction xs) (auto simp: words_def)

definition finish :: "split_state \<Rightarrow> ustring list" where
  "finish st = (case st of (flds, current, hv) \<Rightarrow> if hv then flds @ [current] else flds)"

lemma split_units_words:
  "\<not> hv \<longrightarrow> current = [] \<Longrightarrow>
   finish (split_units ws [] chars (flds, current, hv)) =
     flds @ (if hv then (current @ concat (hd (split_by (\<lambda>u. u \<in> set ws) chars))) #
                        map concat (filter (\<lambda>w. w \<noteq> []) (tl (split_by (\<lambda>u. u \<in> set ws) chars)))
             else map concat (words (\<lambda>u. u \<in> set ws) chars))"
proof (induction ws "[] :: ustring list" chars "(flds, current, hv)"
    arbitrary: flds current hv rule: split_units.induct)
  case (1 ws)
  then show ?case by (simp add: finish_def words_def)
next
  case (2 ws ch chars)
  show ?case
  proof (cases "ch \<in> set ws")
    case True
    define D where "D = dropWhile (\<lambda>u. u \<in> set ws) chars"
    define F where "F = (if hv then flds @ [current] else flds)"
    have D: "(case D of [] \<Rightarrow> D | d # ds \<Rightarrow>
        if d \<in> set ([] :: ustring list) then dropWhile (\<lambda>u. u \<in> set ws) ds else D) = D"
      by (cases D) simp_all
    have F: "emit (flds, current, hv) = (F, [], False)"
      using 2(4) by (auto simp: emit_def F_def)
    have "finish (split_units ws [] D (F, [], False)) = F @ map concat (words (\<lambda>u. u \<in> set ws) D)"
      using 2(1) [OF True D_def refl, unfolded D, of F "[]" False] F by simp
    moreover have "split_units ws [] (ch # chars) (flds, current, hv) = split_units ws [] D (F, [], False)"
      using True F D by (simp add: D_def [symmetric] Let_def)
    ultimately show ?thesis
      using True 2(4) by (simp add: D_def words_dropWhile F_def) (simp add: words_def)
  next
    case False
    then show ?thesis
      using 2(4) 2(3) [OF False, of flds "current @ ch" True]
      by (cases "split_by (\<lambda>u. u \<in> set ws) chars")
        (auto simp: words_def)
  qed
qed

lemma field_split_single:
  "i \<noteq> [] \<Longrightarrow> field_split [\<lparr>frag_value = v, split_fields = True, word_break = wb\<rparr>] i =
     finish (split_units (ifs_ws i) (ifs_nws i) (shell_chars v) ([], [], False))"
  by (simp add: field_split_def split_fragment_def emit_def finish_def)

lemma field_split_unsplit:
  "field_split [\<lparr>frag_value = v, split_fields = False, word_break = wb\<rparr>] i = [v]"
  by (simp add: field_split_def split_fragment_def emit_def)

text \<open>The outcome of a search through candidate lengths in an order: the result for the first
  match in that order, or the value itself.\<close>

definition trims ::
  "(nat \<Rightarrow> bool) \<Rightarrow> nat set \<Rightarrow> (nat \<Rightarrow> nat \<Rightarrow> bool) \<Rightarrow> (nat \<Rightarrow> ustring) \<Rightarrow> ustring \<Rightarrow> ustring \<Rightarrow> bool" where
  "trims matches I before result v r \<longleftrightarrow>
     (\<exists>i \<in> I. matches i \<and> (\<forall>j \<in> I. before j i \<longrightarrow> \<not> matches j) \<and> r = result i) \<or>
     ((\<forall>i \<in> I. \<not> matches i) \<and> r = v)"

lemma find_first:
  "sorted_wrt before xs \<Longrightarrow> (\<And>a b. before a b \<Longrightarrow> \<not> before b a) \<Longrightarrow>
     trims M (set xs) before result v (case find M xs of Some i \<Rightarrow> result i | None \<Rightarrow> v)"
proof (induction xs)
  case (Cons x xs)
  show ?case
  proof (cases "M x")
    case True
    then show ?thesis using Cons.prems by (auto simp: trims_def)
  next
    case False
    with Cons show ?thesis by (auto simp: trims_def)
  qed
qed (simp add: trims_def)

lemma sorted_wrt_upt: "sorted_wrt (<) [a..<b]" "sorted_wrt (>) (rev [a..<b])"
  by (simp_all add: sorted_wrt_rev)

lemma find_up: "trims M {1..n} (<) f v (case find M [1..<Suc n] of Some i \<Rightarrow> f i | None \<Rightarrow> v)"
  using find_first [OF sorted_wrt_upt(1) [of 1 "Suc n"], of M f v]
  by (simp add: atLeastLessThanSuc_atLeastAtMost del: upt_Suc)

lemma find_down: "trims M {1..n} (>) f v (case find M (rev [1..<Suc n]) of Some i \<Rightarrow> f i | None \<Rightarrow> v)"
  using find_first [OF sorted_wrt_upt(2) [of 1 "Suc n"], of M f v]
  by (simp add: atLeastLessThanSuc_atLeastAtMost del: upt_Suc)

lemma find_up0: "trims M {0..<n} (<) f v (case find M [0..<n] of Some i \<Rightarrow> f i | None \<Rightarrow> v)"
  using find_first [OF sorted_wrt_upt(1) [of 0 n], of M f v] by simp

lemma find_down0: "trims M {0..<n} (>) f v (case find M (rev [0..<n]) of Some i \<Rightarrow> f i | None \<Rightarrow> v)"
  using find_first [OF sorted_wrt_upt(2) [of 0 n], of M f v] by simp

subsection \<open>Properties\<close>

text \<open>Protecting quoted text loses nothing and deactivates it: removing the markers gives the
  text back, no glob character of it is active, and as a pattern it matches exactly itself.\<close>

theorem protect_globs_literal:
  "remove_glob_escapes (protect_globs (bytes_to_str bs) True) = bytes_to_str bs \<and>
   \<not> has_glob_chars_shell (protect_globs (bytes_to_str bs) True) \<and>
   (fnmatch_shell (protect_globs (bytes_to_str bs) True) (bytes_to_str cs) \<longleftrightarrow> cs = bs)"
proof (intro conjI)
  have "parse_items (shell_codepoints (protect_globs (bytes_to_str bs) True)) = map Lit (map unit_code (units bs))"
    using parse_guarded [OF units_wf, of bs "[]"] by (simp add: shell_codepoints_def shell_chars_protect)
  then show "fnmatch_shell (protect_globs (bytes_to_str bs) True) (bytes_to_str cs) \<longleftrightarrow> cs = bs"
    using gmatch_Lits [of "map unit_code (units bs)" "map unit_code (units cs)"]
    by (simp add: fnmatch_shell_def fnmatch_inner_gmatch shell_codepoints_bytes_to_str codes_eq_iff
        del: gmatch_Lits)
qed (simp_all add: remove_protect has_glob_protect)

text \<open>Quoted text in a \<^verbatim>\<open>case\<close> or trim pattern stands for itself: the pattern made from it
  matches exactly the same bytes, and followed by an unquoted \<open>*\<close> exactly the values whose
  characters begin with it.\<close>

theorem quote_pattern_literal:
  "(fnmatch_shell (quote_pattern (bytes_to_str bs)) (bytes_to_str cs) \<longleftrightarrow> cs = bs) \<and>
   (fnmatch_shell (quote_pattern (bytes_to_str bs) @ [42]) (bytes_to_str cs) \<longleftrightarrow>
      (\<exists>more. units cs = units bs @ more))"
proof
  show "fnmatch_shell (quote_pattern (bytes_to_str bs)) (bytes_to_str cs) \<longleftrightarrow> cs = bs"
    using parse_quote_pattern [of bs "[]"]
      gmatch_Lits [of "map unit_code (units bs)" "map unit_code (units cs)"]
    by (simp add: fnmatch_shell_def fnmatch_inner_gmatch shell_codepoints_bytes_to_str codes_eq_iff
        shell_codepoints_def [of "[]"] del: gmatch_Lits)
  have star: "parse_items (shell_codepoints [42]) = [AnyString]"
    by (simp add: shell_codepoints_def unit_codepoint.simps encoding_consts is_pua_byte_def parse_items_Cons)
  have any: "gmatch [AnyString] t" for t
    using gmatch.AnyString [OF gmatch.Nil, of t] by simp
  have "fnmatch_shell (quote_pattern (bytes_to_str bs) @ [42]) (bytes_to_str cs) \<longleftrightarrow>
      (\<exists>t. map unit_code (units cs) = map unit_code (units bs) @ t)"
    unfolding fnmatch_shell_def fnmatch_inner_gmatch parse_quote_pattern star gmatch_Lits_append
      shell_codepoints_bytes_to_str
    using any by simp
  also have "\<dots> \<longleftrightarrow> (\<exists>more. units cs = units bs @ more)"
  proof
    assume "\<exists>t. map unit_code (units cs) = map unit_code (units bs) @ t"
    then obtain us vs where split: "units cs = us @ vs" "map unit_code us = map unit_code (units bs)"
      by (auto simp: map_eq_append_conv)
    moreover have "list_all wf_unit us" using units_wf [of cs] split(1) by simp
    ultimately show "\<exists>more. units cs = units bs @ more"
      using map_unit_code_inj [OF _ units_wf] by blast
  qed auto
  finally show "fnmatch_shell (quote_pattern (bytes_to_str bs) @ [42]) (bytes_to_str cs) \<longleftrightarrow>
      (\<exists>more. units cs = units bs @ more)" .
qed




end
