(* ===== verification/Expand.thy ===== *)
theory Expand
  imports Expand_Text
begin

text \<open>
  Word expansion (\<^verbatim>\<open>crates/epsh/src/expand.rs\<close>): parameters, command substitution, arithmetic
  and tilde, then field splitting and pathname expansion.

  The trait \<^verbatim>\<open>ShellExpand\<close> is the record \<open>shell\<close>, except \<^verbatim>\<open>command_subst\<close>, which runs a command and is
  an argument \<open>subst\<close> of the definitions; the file system, as it is in the state at that
  point, is an argument of the last stage.  A
  computation returns the state also when it fails, since assignments made before stay.
\<close>

datatype runtime_msg = Msg ustring | ArithmeticError arith_error

type_synonym error = "runtime_msg shell_error"

record shell =
  sh_vars :: variables
  sh_exit_status :: exit_code
  sh_pid :: nat
  sh_cwd :: bytes
  sh_flags :: ustring
  sh_last_bg_pid :: "nat option"
  sh_nounset :: bool
  sh_noglob :: bool

text \<open>The evaluator extends the record: expansion is defined on every extension of it.\<close>

type_synonym ('z, 'a) ex = "'z shell_scheme \<Rightarrow> (error + 'a) \<times> 'z shell_scheme"
type_synonym ('z, 'c) subst = "'c \<Rightarrow> ('z, ustring) ex"

definition ret :: "'a \<Rightarrow> ('z, 'a) ex" where
  "ret x = (\<lambda>sh. (Inr x, sh))"

definition fail :: "error \<Rightarrow> ('z, 'a) ex" where
  "fail e = (\<lambda>sh. (Inl e, sh))"

definition ebind :: "('z, 'a) ex \<Rightarrow> ('a \<Rightarrow> ('z, 'b) ex) \<Rightarrow> ('z, 'b) ex" where
  "ebind m k = (\<lambda>sh. case m sh of (Inl e, sh') \<Rightarrow> (Inl e, sh') | (Inr x, sh') \<Rightarrow> k x sh')"

definition asks :: "('z shell_scheme \<Rightarrow> 'a) \<Rightarrow> ('z, 'a) ex" where
  "asks f = (\<lambda>sh. (Inr (f sh), sh))"

definition frag :: "ustring \<Rightarrow> bool \<Rightarrow> bool \<Rightarrow> expanded_word" where
  "frag v s b = \<lparr>frag_value = v, split_fields = s, word_break = b\<rparr>"

definition frag_text :: "expanded_word list \<Rightarrow> ustring" where
  "frag_text fs = concat (map frag_value fs)"

definition number_from :: "nat \<Rightarrow> 'a list \<Rightarrow> (nat \<times> 'a) list" where
  "number_from k xs = zip [k..<k + length xs] xs"

text \<open>\<^verbatim>\<open>shell_chars(&ifs).next().unwrap_or_default()\<close>\<close>

definition ifs_separator :: "'z shell_scheme \<Rightarrow> ustring" where
  "ifs_separator sh = (case shell_chars (ifs (sh_vars sh)) of [] \<Rightarrow> [] | u # _ \<Rightarrow> u)"

definition raw_value :: "ustring \<Rightarrow> 'z shell_scheme \<Rightarrow> ustring option" where
  "raw_value name sh =
     (if name = ustr ''*'' \<or> name = ustr ''@'' then
        Some (positional_join_shell (sh_vars sh) (ifs_separator sh))
      else if is_special_param name then
        get_special (sh_vars sh) name (sh_exit_status sh) (sh_pid sh) (sh_flags sh) (sh_last_bg_pid sh)
      else get_shell (sh_vars sh) name)"

fun nounset_op :: "'c param_op \<Rightarrow> bool" where
  "nounset_op Normal = True"
| "nounset_op Length = True"
| "nounset_op (TrimSuffixSmall _) = True"
| "nounset_op (TrimSuffixLarge _) = True"
| "nounset_op (TrimPrefixSmall _) = True"
| "nounset_op (TrimPrefixLarge _) = True"
| "nounset_op _ = False"

definition nounset_error :: "ustring \<Rightarrow> 'c param_op \<Rightarrow> 'z shell_scheme \<Rightarrow> bool" where
  "nounset_error name op sh \<longleftrightarrow>
     raw_value name sh = None \<and> \<not> is_special_param name \<and> sh_nounset sh \<and> nounset_op op"

definition is_unset :: "bool \<Rightarrow> ustring option \<Rightarrow> bool" where
  "is_unset colon v = (if colon then v = None \<or> v = Some [] else v = None)"

definition default_text :: "ustring option \<Rightarrow> ustring" where
  "default_text v = (case v of Some t \<Rightarrow> t | None \<Rightarrow> [])"

definition length_text :: "ustring option \<Rightarrow> ustring" where
  "length_text v = (case v of Some t \<Rightarrow> nat_to_string (length (str_to_bytes t)) | None \<Rightarrow> ustr ''0'')"

definition bad_subst :: "ustring \<Rightarrow> span \<Rightarrow> error" where
  "bad_subst name sp = Runtime (Msg (name @ ustr '': bad substitution'')) sp"

definition not_set :: "ustring \<Rightarrow> span \<Rightarrow> error" where
  "not_set name sp = Runtime (Msg (name @ ustr '': parameter not set'')) sp"

definition unset_message :: "ustring \<Rightarrow> ustring \<Rightarrow> span \<Rightarrow> error" where
  "unset_message name msg sp =
     (if msg = [] then not_set name sp else Runtime (Msg (name @ ustr '': '' @ msg)) sp)"

text \<open>\<^verbatim>\<open>let _ = sh.vars_mut().set_shell(name, value)\<close>: an error is dropped.\<close>

definition assign_var :: "ustring \<Rightarrow> ustring \<Rightarrow> ('z, unit) ex" where
  "assign_var name v =
     (\<lambda>sh. (Inr (), sh\<lparr>sh_vars := or_else (set_shell (sh_vars sh) name v) (sh_vars sh)\<rparr>))"

definition expand_tilde :: "shell_bytes \<Rightarrow> 'z shell_scheme \<Rightarrow> ustring" where
  "expand_tilde user sh =
     (if user = [] then
        (case get_shell (sh_vars sh) (ustr ''HOME'') of Some v \<Rightarrow> v | None \<Rightarrow> ustr ''~'')
      else ustr ''~'' @ to_shell_string user)"

definition eval_arith_ex :: "ustring \<Rightarrow> ('z, ustring) ex" where
  "eval_arith_ex t sh =
     (case eval_arith t (sh_vars sh) (sh_exit_status sh) (sh_pid sh) of
        (Inr v, vs) \<Rightarrow> (Inr (i64_to_string v), sh\<lparr>sh_vars := vs\<rparr>)
      | (Inl e, vs) \<Rightarrow> (Inl (Runtime (ArithmeticError e) \<lparr>offset = 0, line_no = 0, col = 0\<rparr>), sh\<lparr>sh_vars := vs\<rparr>))"

text \<open>The positional parameters as fields of their own: \<^verbatim>\<open>"$@"\<close> and unquoted \<^verbatim>\<open>$@\<close>.\<close>

definition at_fragments :: "bool \<Rightarrow> 'z shell_scheme \<Rightarrow> expanded_word list" where
  "at_fragments esc sh =
     map (\<lambda>(i, a). frag (protect_globs a esc) False (0 < i))
       (number_from 0 (positional_shell_strings (sh_vars sh)))"

definition is_at :: "ustring \<Rightarrow> 'c param_op \<Rightarrow> bool" where
  "is_at name op \<longleftrightarrow> name = ustr ''@'' \<and> op = Normal"

definition is_star :: "ustring \<Rightarrow> 'c param_op \<Rightarrow> bool" where
  "is_star name op \<longleftrightarrow> name = ustr ''*'' \<and> op = Normal"

fun at_part :: "'c word_part \<Rightarrow> bool" where
  "at_part (Param name op sp) = is_at name op"
| "at_part _ = False"

text \<open>The arguments after the parts are \<open>quoted\<close> (\<^verbatim>\<open>quoted_context\<close>), \<open>inw\<close> (\<^verbatim>\<open>in_param_word\<close>) and
  \<open>esc\<close> (\<^verbatim>\<open>escape_quoted_globs\<close>).  \<^verbatim>\<open>expand_word_parts(parts, sh, q)\<close> is \<open>expand_parts\<close> with the last
  two false; \<open>expand_quoted\<close> is the loop over the inside of a double-quoted region.\<close>

function (sequential)
  expand_part :: "('z, 'c) subst \<Rightarrow> 'c word_part \<Rightarrow> bool \<Rightarrow> bool \<Rightarrow> bool \<Rightarrow> ('z, expanded_word list) ex"
  and expand_parts :: "('z, 'c) subst \<Rightarrow> 'c word_part list \<Rightarrow> bool \<Rightarrow> bool \<Rightarrow> bool \<Rightarrow> ('z, expanded_word list) ex"
  and expand_quoted :: "('z, 'c) subst \<Rightarrow> 'c word_part list \<Rightarrow> bool \<Rightarrow> ('z, expanded_word list) ex"
  and expand_param_to_fragments ::
    "('z, 'c) subst \<Rightarrow> ustring \<Rightarrow> 'c param_op \<Rightarrow> span \<Rightarrow> bool \<Rightarrow> bool \<Rightarrow> ('z, expanded_word list) ex"
  and expand_param :: "('z, 'c) subst \<Rightarrow> ustring \<Rightarrow> 'c param_op \<Rightarrow> span \<Rightarrow> ('z, ustring) ex"
  and expand_pattern :: "('z, 'c) subst \<Rightarrow> 'c word_part list \<Rightarrow> ('z, ustring) ex"
where
  "expand_part S p quoted inw esc =
     (case p of
        Literal s \<Rightarrow> ret [frag (to_shell_string s) (inw \<and> \<not> quoted) False]
      | SingleQuoted s \<Rightarrow> ret [frag (protect_globs (to_shell_string s) esc) False False]
      | DoubleQuoted inner \<Rightarrow>
          if inner = [] then ret [frag [] False False] else expand_quoted S inner esc
      | Param name op sp \<Rightarrow>
          if is_at name op \<and> \<not> quoted then asks (at_fragments False)
          else if is_star name op \<and> quoted then
            asks (\<lambda>sh. [frag (positional_join_shell (sh_vars sh) (ifs_separator sh)) False False])
          else if is_star name op \<and> \<not> quoted then
            asks (\<lambda>sh. map (\<lambda>a. frag a True True) (positional_shell_strings (sh_vars sh)))
          else expand_param_to_fragments S name op sp quoted esc
      | Tilde user \<Rightarrow> asks (\<lambda>sh. [frag (protect_globs (expand_tilde user sh) esc) False False])
      | CmdSubst c \<Rightarrow> ebind (S c) (\<lambda>v. ret [frag v (\<not> quoted) False])
      | Backtick c \<Rightarrow> ebind (S c) (\<lambda>v. ret [frag v (\<not> quoted) False])
      | Arith inner \<Rightarrow>
          ebind (expand_parts S inner True False False) (\<lambda>fs.
            ebind (eval_arith_ex (frag_text fs)) (\<lambda>v. ret [frag v (\<not> quoted) False])))"
| "expand_parts S ps quoted inw esc =
     (case ps of
        [] \<Rightarrow> ret []
      | p # ps' \<Rightarrow>
          ebind (expand_part S p quoted inw esc) (\<lambda>fs.
            ebind (expand_parts S ps' quoted inw esc) (\<lambda>gs. ret (fs @ gs))))"
| "expand_quoted S ps esc =
     (case ps of
        [] \<Rightarrow> ret []
      | p # ps' \<Rightarrow>
          ebind (if at_part p then asks (at_fragments esc)
                 else ebind (expand_part S p True False False) (\<lambda>fs.
                        ret [frag (protect_globs (frag_text fs) esc) False False])) (\<lambda>fs.
            ebind (expand_quoted S ps' esc) (\<lambda>gs. ret (fs @ gs))))"
| "expand_param_to_fragments S name op sp quoted esc =
     ebind (asks (raw_value name)) (\<lambda>raw.
     ebind (asks (nounset_error name op)) (\<lambda>unset_err.
       let plain = ret [frag (default_text raw) (\<not> quoted) False]
       in if unset_err then fail (not_set name sp)
          else (case op of
              BadSubst \<Rightarrow> fail (bad_subst name sp)
            | Normal \<Rightarrow> plain
            | Length \<Rightarrow> ret [frag (length_text raw) (\<not> quoted) False]
            | Default colon w \<Rightarrow>
                if is_unset colon raw then expand_parts S w quoted True esc else plain
            | Assign colon w \<Rightarrow>
                if is_unset colon raw then
                  ebind (expand_parts S w True False False) (\<lambda>fs.
                    let v = remove_glob_escapes (frag_text fs)
                    in ebind (assign_var name v) (\<lambda>_. ret [frag v (\<not> quoted) False]))
                else plain
            | Error colon w \<Rightarrow>
                if is_unset colon raw then
                  ebind (expand_parts S w True False False)
                    (\<lambda>fs. fail (unset_message name (frag_text fs) sp))
                else plain
            | Alternative colon w \<Rightarrow>
                if is_unset colon raw then ret [] else expand_parts S w quoted True esc
            | _ \<Rightarrow> ebind (expand_param S name op sp) (\<lambda>v. ret [frag v (\<not> quoted) False]))))"
| "expand_param S name op sp =
     ebind (asks (raw_value name)) (\<lambda>raw.
     ebind (asks (nounset_error name op)) (\<lambda>unset_err.
       if unset_err then fail (not_set name sp)
       else (case op of
           BadSubst \<Rightarrow> fail (bad_subst name sp)
         | Normal \<Rightarrow> ret (default_text raw)
         | Length \<Rightarrow> ret (length_text raw)
         | Default colon w \<Rightarrow>
             if is_unset colon raw then
               ebind (expand_parts S w True False False) (\<lambda>fs. ret (frag_text fs))
             else ret (default_text raw)
         | Assign colon w \<Rightarrow>
             if is_unset colon raw then
               ebind (expand_parts S w True False False) (\<lambda>fs.
                 ebind (assign_var name (frag_text fs)) (\<lambda>_. ret (frag_text fs)))
             else ret (default_text raw)
         | Error colon w \<Rightarrow>
             if is_unset colon raw then
               ebind (expand_parts S w True False False)
                 (\<lambda>fs. fail (unset_message name (frag_text fs) sp))
             else ret (default_text raw)
         | Alternative colon w \<Rightarrow>
             if is_unset colon raw then ret []
             else ebind (expand_parts S w True False False) (\<lambda>fs. ret (frag_text fs))
         | TrimSuffixSmall w \<Rightarrow>
             ebind (expand_pattern S w) (\<lambda>pat. ret (trim_suffix (default_text raw) pat False))
         | TrimSuffixLarge w \<Rightarrow>
             ebind (expand_pattern S w) (\<lambda>pat. ret (trim_suffix (default_text raw) pat True))
         | TrimPrefixSmall w \<Rightarrow>
             ebind (expand_pattern S w) (\<lambda>pat. ret (trim_prefix (default_text raw) pat False))
         | TrimPrefixLarge w \<Rightarrow>
             ebind (expand_pattern S w) (\<lambda>pat. ret (trim_prefix (default_text raw) pat True)))))"
| "expand_pattern S ps =
     (case ps of
        [] \<Rightarrow> ret []
      | p # ps' \<Rightarrow>
          ebind (case p of
              Literal s \<Rightarrow> ret (to_shell_string s)
            | SingleQuoted s \<Rightarrow> ret (quote_pattern (to_shell_string s))
            | DoubleQuoted inner \<Rightarrow>
                ebind (expand_parts S inner True False False) (\<lambda>fs. ret (quote_pattern (frag_text fs)))
            | Param name op sp \<Rightarrow>
                ebind (expand_param S name op sp) (\<lambda>v. ret (quote_pattern v))
            | _ \<Rightarrow> ebind (expand_part S p True False False) (\<lambda>fs. ret (quote_pattern (frag_text fs))))
            (\<lambda>t. ebind (expand_pattern S ps') (\<lambda>u. ret (t @ u))))"
  by pat_completeness auto
termination
  by (relation "measure (\<lambda>a. case a of
        Inl (Inl (S, p, _)) \<Rightarrow> 2 * size p
      | Inl (Inr (Inl (S, ps, _))) \<Rightarrow> 2 * size_list size ps
      | Inl (Inr (Inr (S, ps, _))) \<Rightarrow> 2 * size_list size ps
      | Inr (Inl (S, name, op, _)) \<Rightarrow> 2 * size op + 1
      | Inr (Inr (Inl (S, name, op, _))) \<Rightarrow> 2 * size op
      | Inr (Inr (Inr (S, ps))) \<Rightarrow> 2 * size_list size ps)")
    auto

declare expand_part.simps [simp del] expand_parts.simps [simp del] expand_quoted.simps [simp del]
  expand_param_to_fragments.simps [simp del] expand_param.simps [simp del] expand_pattern.simps [simp del]

definition expand_field :: "filesystem \<Rightarrow> 'z shell_scheme \<Rightarrow> ustring \<Rightarrow> ustring list" where
  "expand_field fs sh field =
     (if \<not> sh_noglob sh \<and> has_glob_chars_shell field then
        (case glob_shell fs field (sh_cwd sh) of
           [] \<Rightarrow> [remove_glob_escapes field]
         | matches \<Rightarrow> matches)
      else [remove_glob_escapes field])"

definition expand_word_to_fields :: "('z shell_scheme \<Rightarrow> filesystem) \<Rightarrow> ('z, 'c) subst \<Rightarrow> 'c word_node \<Rightarrow> ('z, ustring list) ex" where
  "expand_word_to_fields fs S w =
     ebind (expand_parts S (parts w) False False True) (\<lambda>fragments.
       asks (\<lambda>sh. concat (map (expand_field (fs sh) sh) (field_split fragments (ifs (sh_vars sh))))))"

definition expand_word_to_string :: "('z, 'c) subst \<Rightarrow> 'c word_node \<Rightarrow> ('z, ustring) ex" where
  "expand_word_to_string S w =
     ebind (expand_parts S (parts w) True False False) (\<lambda>fs. ret (frag_text fs))"

subsection \<open>The monad\<close>

lemma ex_simps [simp]:
  "ret x sh = (Inr x, sh)" "fail e sh = (Inl e, sh)" "asks f sh = (Inr (f sh), sh)"
  by (simp_all add: ret_def fail_def asks_def)

lemma ebind_Inr [simp]: "m sh = (Inr x, sh') \<Longrightarrow> ebind m k sh = k x sh'"
  by (simp add: ebind_def)

lemma ebind_Inl [simp]: "m sh = (Inl e, sh') \<Longrightarrow> ebind m k sh = (Inl e, sh')"
  by (simp add: ebind_def)

lemma expand_parts_Nil [simp]: "expand_parts S [] q w e sh = (Inr [], sh)"
  by (simp add: expand_parts.simps)

lemma expand_parts_one:
  "expand_part S p q w e sh = (Inr fs, sh') \<Longrightarrow> expand_parts S [p] q w e sh = (Inr fs, sh')"
  by (simp add: expand_parts.simps [of S "[p]"] expand_parts.simps [of S "[]"])

lemma expand_quoted_one:
  "\<not> at_part p \<Longrightarrow> expand_part S p True False False sh = (Inr fs, sh') \<Longrightarrow>
     expand_quoted S [p] esc sh = (Inr [frag (protect_globs (frag_text fs) esc) False False], sh')"
  by (simp add: expand_quoted.simps [of S "[p]"] expand_quoted.simps [of S "[]"])

lemma frag_simps [simp]:
  "frag_value (frag v s b) = v" "split_fields (frag v s b) = s" "word_break (frag v s b) = b"
  "frag_text [] = []" "frag_text (f # fs) = frag_value f @ frag_text fs"
  by (simp_all add: frag_def frag_text_def)

subsection \<open>What expansion may change\<close>

text \<open>A relation between the state before, the error if there is one, and the state after.  When it is
  reflexive and transitive and assignments and command substitution respect it, every expansion
  does.\<close>

type_synonym 'z effect = "'z shell_scheme \<Rightarrow> error option \<Rightarrow> 'z shell_scheme \<Rightarrow> bool"

definition error_of :: "error + 'a \<Rightarrow> error option" where
  "error_of r = (case r of Inl e \<Rightarrow> Some e | Inr _ \<Rightarrow> None)"

lemma error_of_simps [simp]: "error_of (Inl e) = Some e" "error_of (Inr x) = None"
  by (simp_all add: error_of_def)

definition keeps :: "'z effect \<Rightarrow> ('z, 'a) ex \<Rightarrow> bool" where
  "keeps R m \<longleftrightarrow> (\<forall>sh. R sh (error_of (fst (m sh))) (snd (m sh)))"

lemma keepsD: "keeps R m \<Longrightarrow> m sh = (r, sh') \<Longrightarrow> R sh (error_of r) sh'"
  unfolding keeps_def by (metis fst_conv snd_conv)

locale state_relation =
  fixes R :: "'z effect"
  assumes R_refl: "R sh None sh"
    and R_trans: "R a None b \<Longrightarrow> R b e c \<Longrightarrow> R a e c"
    and R_runtime: "R sh (Some (Runtime m sp)) sh"
    and R_assign: "keeps R (assign_var x v)"
    and R_arith: "keeps R (eval_arith_ex t)"
begin

lemma keeps_ret: "keeps R (ret x)" "keeps R (fail (Runtime m sp))" "keeps R (asks f)"
  by (simp_all add: keeps_def R_refl R_runtime)

lemma keeps_errors:
  "keeps R (fail (not_set n sp))" "keeps R (fail (bad_subst n sp))" "keeps R (fail (unset_message n t sp))"
  by (simp_all add: not_set_def bad_subst_def unset_message_def keeps_ret)

lemma keeps_bind:
  assumes "keeps R m" "\<And>x. keeps R (k x)"
  shows "keeps R (ebind m k)"
  unfolding keeps_def
proof
  fix sh
  obtain r sh' where m: "m sh = (r, sh')" by (cases "m sh")
  with assms(1) have "R sh (error_of r) sh'" by (rule keepsD)
  moreover have "R sh' (error_of (fst (k x sh'))) (snd (k x sh'))" for x using assms(2) by (simp add: keeps_def)
  ultimately show "R sh (error_of (fst (ebind m k sh))) (snd (ebind m k sh))"
    by (cases r) (auto simp: ebind_def m intro: R_trans)
qed

lemmas keeps_rules = keeps_ret keeps_errors keeps_bind R_assign R_arith

lemma expand_keeps:
  assumes "\<And>c. keeps R (S c)"
  shows "keeps R (expand_part S p q w e)" "keeps R (expand_parts S ps q w e)"
    "keeps R (expand_quoted S ps e)" "keeps R (expand_param_to_fragments S n op sp q e)"
    "keeps R (expand_param S n op sp)" "keeps R (expand_pattern S ps)"
  using assms
proof (induction S p q w e and S ps q w e and S ps e and S n op sp q e and S n op sp and S ps
    rule: expand_part_expand_parts_expand_quoted_expand_param_to_fragments_expand_param_expand_pattern.induct)
  case (1 S p q w e)
  then show ?case
    by (subst expand_part.simps) (auto split: word_part.splits intro!: keeps_rules)
next
  case (2 S ps q w e)
  then show ?case
    by (subst expand_parts.simps) (auto split: list.splits intro!: keeps_rules)
next
  case (3 S ps e)
  then show ?case
    by (subst expand_quoted.simps) (auto split: list.splits intro!: keeps_rules)
next
  case (4 S n op sp q e)
  then show ?case
    by (subst expand_param_to_fragments.simps)
      (auto simp: Let_def split: param_op.splits intro!: keeps_rules)
next
  case (5 S n op sp)
  then show ?case
    by (subst expand_param.simps) (auto split: param_op.splits intro!: keeps_rules)
next
  case (6 S ps)
  then show ?case
    by (subst expand_pattern.simps) (auto split: list.splits word_part.splits intro!: keeps_rules)
qed

lemma fields_keeps:
  "(\<And>c. keeps R (S c)) \<Longrightarrow> keeps R (expand_word_to_fields fs S w)"
  unfolding expand_word_to_fields_def by (intro keeps_rules expand_keeps)

lemma string_keeps:
  "(\<And>c. keeps R (S c)) \<Longrightarrow> keeps R (expand_word_to_string S w)"
  unfolding expand_word_to_string_def by (intro keeps_rules expand_keeps)

end

lemma sh_vars_arith:
  "\<exists>ops. sh_vars (snd (eval_arith_ex t sh)) = run_ops ops (sh_vars sh) \<and> (\<forall>p \<in> set ops. \<exists>x v. p = OpSetInt x v)"
  using eval_arith_int_sets [of t "sh_vars sh" "sh_exit_status sh" "sh_pid sh"]
  by (auto simp: eval_arith_ex_def split: prod.splits sum.splits)

lemma eval_arith_ex_frame: "snd (eval_arith_ex t sh) = sh\<lparr>sh_vars := sh_vars (snd (eval_arith_ex t sh))\<rparr>"
  by (auto simp: eval_arith_ex_def split: prod.splits sum.splits)

lemma sh_vars_assign: "sh_vars (snd (assign_var x v sh)) = run_ops [OpSet x (from_str_lossless v)] (sh_vars sh)"
  by (simp add: assign_var_def set_shell_def)

definition keeps_readonly :: "'z effect" where
  "keeps_readonly sh e sh' \<longleftrightarrow> (\<forall>x b. locked (sh_vars sh) x b \<longrightarrow> locked (sh_vars sh') x b)"

interpretation ro: state_relation keeps_readonly
proof
  show "keeps keeps_readonly (assign_var x v)" for x v
    unfolding keeps_def keeps_readonly_def sh_vars_assign by (auto intro!: locked_run simp del: run_ops_simps)
  show "keeps keeps_readonly (eval_arith_ex t)" for t
    unfolding keeps_def keeps_readonly_def
  proof (intro allI impI)
    fix sh :: "'z shell_scheme" and x b
    assume l: "locked (sh_vars sh) x b"
    obtain ops where "sh_vars (snd (eval_arith_ex t sh)) = run_ops ops (sh_vars sh)"
      "\<forall>p \<in> set ops. \<exists>x v. p = OpSetInt x v"
      using sh_vars_arith by blast
    with locked_run [OF l, of ops] show "locked (sh_vars (snd (eval_arith_ex t sh))) x b" by fastforce
  qed
qed (auto simp: keeps_readonly_def)

subsection \<open>Positional parameters\<close>

lemma number_from_Cons: "number_from k (a # xs) = (k, a) # number_from (Suc k) xs"
  by (simp add: number_from_def upt_rec)

lemma number_from_Nil [simp]: "number_from k [] = []"
  by (simp add: number_from_def)

text \<open>Fragments that do not split and break at every boundary are the fields themselves.\<close>

lemma fold_breaks:
  "finish (fold (split_fragment i ws nws) (map (\<lambda>(j, a). frag (f a) False (0 < j)) (number_from (Suc k) xs)) (flds, c, True)) =
     flds @ c # map f xs"
  by (induction xs arbitrary: k flds c)
    (auto simp: number_from_Cons split_fragment_def emit_def finish_def)

lemma field_split_breaks:
  "field_split (map (\<lambda>(j, a). frag (f a) False (0 < j)) (number_from 0 xs)) i = map f xs"
proof (cases xs)
  case (Cons a ys)
  then show ?thesis
    using fold_breaks [of i "ifs_ws i" "ifs_nws i" f 0 ys "[]" "f a"]
    by (simp add: number_from_Cons field_split_def finish_def)
      (simp add: split_fragment_def emit_def)
qed (simp add: field_split_def)

lemma expand_field_protected: "expand_field fs sh (protect_globs (bytes_to_str b) True) = [bytes_to_str b]"
  by (simp add: expand_field_def has_glob_protect remove_protect)

lemma field_split_frag: "field_split [frag v False wb] i = [v]"
  unfolding frag_def by (rule field_split_unsplit)

lemma quoted_text_field:
  "expand_word_to_fields fs S (Word [SingleQuoted b] sp) sh = (Inr [bytes_to_str b], sh)"
proof -
  have "expand_parts S [SingleQuoted b] False False True sh =
      (Inr [frag (protect_globs (bytes_to_str b) True) False False], sh)"
    by (rule expand_parts_one) (simp add: expand_part.simps to_shell_string_def)
  then show ?thesis
    by (simp add: expand_word_to_fields_def field_split_frag expand_field_protected)
qed

subsection \<open>Properties\<close>

text \<open>Quoting suppresses splitting and globbing: a single-quoted word is one field, its own
  text, whatever \<^verbatim>\<open>IFS\<close>, the shell's options and the files are.\<close>

theorem single_quoted_field:
  "expand_word_to_fields fs S (Word [SingleQuoted b] sp) sh = (Inr [bytes_to_str b], sh)"
  by (rule quoted_text_field)


definition demo_shell :: "variables \<Rightarrow> shell" where
  "demo_shell vs = \<lparr>sh_vars = vs, sh_exit_status = 0, sh_pid = 1, sh_cwd = [47], sh_flags = [],
     sh_last_bg_pid = None, sh_nounset = False, sh_noglob = False\<rparr>"

definition demo_files :: filesystem where
  "demo_files = \<lparr>symlink_metadata_ok = (\<lambda>_. False), path_is_dir = (\<lambda>_. False), read_dir = (\<lambda>_. None)\<rparr>"

definition demo_span :: span where
  "demo_span = \<lparr>offset = 0, line_no = 1, col = 1\<rparr>"


text \<open>C12. \<^verbatim>\<open>"$@"\<close> gives each positional parameter as a field of its own, byte for byte, and no
  field when there is none.\<close>

theorem at_fields:
  "expand_word_to_fields fs S (Word [DoubleQuoted [Param (ustr ''@'') Normal sp']] sp) sh =
     (Inr (map bytes_to_str (positional (sh_vars sh))), sh)"
proof -
  have "expand_part S (DoubleQuoted [Param (ustr ''@'') Normal sp']) False False True sh =
      (Inr (at_fragments True sh), sh)"
    by (simp add: expand_part.simps expand_quoted.simps [of S "[_]"] expand_quoted.simps [of S "[]"] is_at_def)
  then have "expand_parts S [DoubleQuoted [Param (ustr ''@'') Normal sp']] False False True sh =
      (Inr (at_fragments True sh), sh)"
    by (rule expand_parts_one)
  moreover have "field_split (at_fragments True sh) i =
      map (\<lambda>a. protect_globs a True) (map bytes_to_str (positional (sh_vars sh)))" for i
    unfolding at_fragments_def positional_shell_strings_def to_shell_string_def
    by (rule field_split_breaks)
  ultimately show ?thesis
    by (simp add: expand_word_to_fields_def expand_field_protected comp_def)
qed

text \<open>C39. Expansion cannot change a readonly variable, not by \<^verbatim>\<open>${x=word}\<close> and not by an
  assignment inside an arithmetic expansion, as long as command substitution, which runs in a
  child process, does not change variables of the shell.\<close>

theorem expansion_keeps_readonly:
  assumes "\<And>c sh. sh_vars (snd (S c sh)) = sh_vars sh" and "is_readonly (sh_vars sh) x"
  shows "is_readonly (sh_vars (snd (expand_word_to_fields fs S w sh))) x \<and>
         get_bytes (sh_vars (snd (expand_word_to_fields fs S w sh))) x = get_bytes (sh_vars sh) x"
proof -
  have "keeps keeps_readonly (S c)" for c by (simp add: keeps_def keeps_readonly_def assms(1))
  then have "keeps keeps_readonly (expand_word_to_fields fs S w)" by (rule ro.fields_keeps)
  with assms(2) show ?thesis by (auto simp: keeps_def keeps_readonly_def locked_def)
qed

theorem expansion_keeps_readonly_witness:
  "get_bytes (sh_vars (snd (expand_word_to_fields (\<lambda>_. demo_files) (\<lambda>c :: unit. ret [])
     (Word [Param IFS_NAME (Assign True [SingleQuoted [97]]) demo_span] demo_span)
     (demo_shell (set_readonly new_clean IFS_NAME))))) IFS_NAME =
   get_bytes (set_readonly new_clean IFS_NAME) IFS_NAME"
proof -
  have "is_readonly (sh_vars (demo_shell (set_readonly new_clean IFS_NAME))) IFS_NAME"
    by (simp add: demo_shell_def set_readonly_def is_readonly_put entry_or_new_def new_clean_def
        var_new_def flags_has_def flags_set_def READONLY_def)
  from expansion_keeps_readonly [OF _ this, of "\<lambda>c :: unit. ret []"] show ?thesis
    by (simp add: demo_shell_def)
qed

end
