(* ===== verification/Test_Cmd.thy ===== *)
theory Test_Cmd
  imports Expand
begin

text \<open>
  The \<^verbatim>\<open>test\<close> command (\<^verbatim>\<open>crates/epsh/src/test_cmd.rs\<close>): a recursive descent over the words, and its
  agreement with a grammar of test expressions.  The index into the words is the list of the words
  that are left.  What the file system, the user and the terminals say is the record \<open>test_env\<close>.
\<close>

datatype file_kind = RegularFile | DirectoryFile | Fifo | BlockDevice | CharDevice | Socket

record file_meta =
  meta_kind :: file_kind
  meta_mode :: nat
  meta_uid :: nat
  meta_len :: nat
  meta_modified :: "nat option"
  meta_dev :: nat
  meta_ino :: nat

record test_env =
  test_cwd :: bytes
  metadata :: "bytes \<Rightarrow> file_meta option"
  is_symlink :: "bytes \<Rightarrow> bool"
  own_uid :: nat
  is_terminal :: "int \<Rightarrow> bool"

text \<open>\<^verbatim>\<open>Path::join\<close>\<close>

definition path_join :: "bytes \<Rightarrow> bytes \<Rightarrow> bytes" where
  "path_join d p = (if d = [] \<or> last d = 47 then d @ p else d @ 47 # p)"

definition test_path :: "test_env \<Rightarrow> ustring \<Rightarrow> bytes" where
  "test_path E operand =
     (let path = from_str_lossless operand
      in if path \<noteq> [] \<and> hd path = 47 then path else path_join (test_cwd E) path)"

definition test_meta :: "test_env \<Rightarrow> ustring \<Rightarrow> file_meta option" where
  "test_meta E operand = metadata E (test_path E operand)"

definition test_int :: "ustring \<Rightarrow> int" where
  "test_int t = (case parse_i64 t of Some v \<Rightarrow> sint v | None \<Rightarrow> 0)"

text \<open>\<^verbatim>\<open>Option<SystemTime>\<close> is ordered with \<^verbatim>\<open>None\<close> first.\<close>

fun time_less :: "nat option \<Rightarrow> nat option \<Rightarrow> bool" where
  "time_less None None = False"
| "time_less None (Some _) = True"
| "time_less (Some _) None = False"
| "time_less (Some a) (Some b) = (a < b)"

definition newer_than :: "file_meta option \<Rightarrow> file_meta option \<Rightarrow> bool" where
  "newer_than l r = (case (l, r) of
     (Some l, Some r) \<Rightarrow> time_less (meta_modified r) (meta_modified l)
   | (Some _, None) \<Rightarrow> True
   | _ \<Rightarrow> False)"

definition older_than :: "file_meta option \<Rightarrow> file_meta option \<Rightarrow> bool" where
  "older_than l r = (case (l, r) of
     (Some l, Some r) \<Rightarrow> time_less (meta_modified l) (meta_modified r)
   | (None, Some _) \<Rightarrow> True
   | _ \<Rightarrow> False)"

definition same_file :: "file_meta option \<Rightarrow> file_meta option \<Rightarrow> bool" where
  "same_file l r = (case (l, r) of
     (Some l, Some r) \<Rightarrow> meta_dev l = meta_dev r \<and> meta_ino l = meta_ino r
   | _ \<Rightarrow> False)"

text \<open>The operators between two words; \<open>None\<close> for a word that is none of them.\<close>

definition binary_test :: "test_env \<Rightarrow> ustring \<Rightarrow> ustring \<Rightarrow> ustring \<Rightarrow> bool option" where
  "binary_test E op l r =
     (if op = ustr ''='' \<or> op = ustr ''=='' then Some (l = r)
      else if op = ustr ''!='' then Some (l \<noteq> r)
      else if op = ustr ''<'' then Some (l < r)
      else if op = ustr ''>'' then Some (l > r)
      else if op = ustr ''-eq'' then Some (test_int l = test_int r)
      else if op = ustr ''-ne'' then Some (test_int l \<noteq> test_int r)
      else if op = ustr ''-lt'' then Some (test_int l < test_int r)
      else if op = ustr ''-le'' then Some (test_int l \<le> test_int r)
      else if op = ustr ''-gt'' then Some (test_int l > test_int r)
      else if op = ustr ''-ge'' then Some (test_int l \<ge> test_int r)
      else if op = ustr ''-nt'' then Some (newer_than (test_meta E l) (test_meta E r))
      else if op = ustr ''-ot'' then Some (older_than (test_meta E l) (test_meta E r))
      else if op = ustr ''-ef'' then Some (same_file (test_meta E l) (test_meta E r))
      else None)"

definition has_mode :: "test_env \<Rightarrow> ustring \<Rightarrow> nat \<Rightarrow> bool" where
  "has_mode E x bits = (case test_meta E x of None \<Rightarrow> False | Some m \<Rightarrow> meta_mode m AND bits \<noteq> 0)"

definition permitted :: "test_env \<Rightarrow> ustring \<Rightarrow> nat \<Rightarrow> nat \<Rightarrow> bool" where
  "permitted E x owner_bit other_bit = (case test_meta E x of None \<Rightarrow> False
     | Some m \<Rightarrow> meta_mode m AND (if meta_uid m = own_uid E then owner_bit else other_bit) \<noteq> 0)"

definition has_kind :: "test_env \<Rightarrow> ustring \<Rightarrow> file_kind \<Rightarrow> bool" where
  "has_kind E x k = (case test_meta E x of None \<Rightarrow> False | Some m \<Rightarrow> meta_kind m = k)"

definition unary_test :: "test_env \<Rightarrow> ustring \<Rightarrow> ustring \<Rightarrow> bool option" where
  "unary_test E op x =
     (if op = ustr ''-n'' then Some (x \<noteq> [])
      else if op = ustr ''-z'' then Some (x = [])
      else if op = ustr ''-e'' then Some (test_meta E x \<noteq> None)
      else if op = ustr ''-f'' then Some (has_kind E x RegularFile)
      else if op = ustr ''-d'' then Some (has_kind E x DirectoryFile)
      else if op = ustr ''-L'' \<or> op = ustr ''-h'' then Some (is_symlink E (test_path E x))
      else if op = ustr ''-r'' then Some (permitted E x 0x100 4)
      else if op = ustr ''-w'' then Some (permitted E x 0x80 2)
      else if op = ustr ''-x'' then Some (permitted E x 0x40 1)
      else if op = ustr ''-s'' then Some (case test_meta E x of None \<Rightarrow> False | Some m \<Rightarrow> 0 < meta_len m)
      else if op = ustr ''-t'' then Some (case parse_i32 x of None \<Rightarrow> False | Some fd \<Rightarrow> is_terminal E fd)
      else if op = ustr ''-p'' then Some (has_kind E x Fifo)
      else if op = ustr ''-b'' then Some (has_kind E x BlockDevice)
      else if op = ustr ''-c'' then Some (has_kind E x CharDevice)
      else if op = ustr ''-S'' then Some (has_kind E x Socket)
      else if op = ustr ''-u'' then Some (has_mode E x 0x800)
      else if op = ustr ''-g'' then Some (has_mode E x 0x400)
      else if op = ustr ''-k'' then Some (has_mode E x 0x200)
      else None)"

definition not_operand :: "ustring \<Rightarrow> bool" where
  "not_operand w \<longleftrightarrow> w \<in> set (map ustr
     ['')'', ''-a'', ''-o'', ''='', ''!='', ''-eq'', ''-ne'', ''-lt'', ''-le'', ''-gt'', ''-ge''])"

text \<open>A primary that is not a group.\<close>

definition test_words :: "test_env \<Rightarrow> ustring list \<Rightarrow> bool \<times> ustring list" where
  "test_words E args =
     (let op = hd args;
          right = (if 2 < length args then args ! 2 else []);
          binary = (if 1 < length args then binary_test E (args ! 1) op right else None);
          has_operand = (1 < length args \<and> \<not> not_operand (args ! 1))
      in case binary of
           Some b \<Rightarrow> (b, drop 3 args)
         | None \<Rightarrow>
             (case if has_operand then unary_test E op (args ! 1) else None of
                Some b \<Rightarrow> (b, drop 2 args)
              | None \<Rightarrow> (op \<noteq> [], tl args)))"

lemma test_words_shorter: "args \<noteq> [] \<Longrightarrow> length (snd (test_words E args)) < length args"
  by (cases args) (auto simp: test_words_def Let_def split: option.split)

function (sequential) test_or :: "test_env \<Rightarrow> ustring list \<Rightarrow> bool \<times> ustring list"
  and or_words :: "test_env \<Rightarrow> bool \<Rightarrow> ustring list \<Rightarrow> bool \<times> ustring list"
  and test_and :: "test_env \<Rightarrow> ustring list \<Rightarrow> bool \<times> ustring list"
  and and_words :: "test_env \<Rightarrow> bool \<Rightarrow> ustring list \<Rightarrow> bool \<times> ustring list"
  and test_not :: "test_env \<Rightarrow> ustring list \<Rightarrow> bool \<times> ustring list"
  and test_primary :: "test_env \<Rightarrow> ustring list \<Rightarrow> bool \<times> ustring list"
where
  "test_or E args = or_words E (fst (test_and E args)) (snd (test_and E args))"
| "or_words E result args =
     (if args \<noteq> [] \<and> hd args = ustr ''-o'' then
        or_words E (result \<or> fst (test_and E (tl args))) (snd (test_and E (tl args)))
      else (result, args))"
| "test_and E args = and_words E (fst (test_not E args)) (snd (test_not E args))"
| "and_words E result args =
     (if args \<noteq> [] \<and> hd args = ustr ''-a'' then
        and_words E (result \<and> fst (test_not E (tl args))) (snd (test_not E (tl args)))
      else (result, args))"
| "test_not E args =
     (if args \<noteq> [] \<and> hd args = ustr ''!'' then apfst Not (test_primary E (tl args)) else test_primary E args)"
| "test_primary E args =
     (if args = [] then (False, [])
      else if hd args = ustr ''('' then
        (let (b, rest) = test_or E (tl args)
         in (b, if rest \<noteq> [] \<and> hd rest = ustr '')'' then tl rest else rest))
      else test_words E args)"
  by pat_completeness auto

termination
proof -
  have words_left:
    "test_or_or_words_test_and_and_words_test_not_test_primary_dom (Inl (Inl (E, args))) \<Longrightarrow> length (snd (test_or E args)) \<le> length args"
    "test_or_or_words_test_and_and_words_test_not_test_primary_dom (Inl (Inr (Inl (E, b, args)))) \<Longrightarrow> length (snd (or_words E b args)) \<le> length args"
    "test_or_or_words_test_and_and_words_test_not_test_primary_dom (Inl (Inr (Inr (E, args)))) \<Longrightarrow> length (snd (test_and E args)) \<le> length args"
    "test_or_or_words_test_and_and_words_test_not_test_primary_dom (Inr (Inl (E, b, args))) \<Longrightarrow> length (snd (and_words E b args)) \<le> length args"
    "test_or_or_words_test_and_and_words_test_not_test_primary_dom (Inr (Inr (Inl (E, args)))) \<Longrightarrow> length (snd (test_not E args)) \<le> length args"
    "test_or_or_words_test_and_and_words_test_not_test_primary_dom (Inr (Inr (Inr (E, args)))) \<Longrightarrow> length (snd (test_primary E args)) \<le> length args"
    for E b args
  proof (induction E args and E b args and E args and E b args and E args and E args
      rule: test_or_or_words_test_and_and_words_test_not_test_primary.pinduct)
    case (6 E args)
    then show ?case
      using test_words_shorter [of args E]
      by (auto simp: test_primary.psimps split: prod.splits)
  qed (auto simp: test_or.psimps or_words.psimps test_and.psimps and_words.psimps test_not.psimps)
  show ?thesis
    by (relation "measure (\<lambda>a. case a of
      Inl (Inl (E, args)) \<Rightarrow> 6 * length args + 4
    | Inl (Inr (Inl (E, b, args))) \<Rightarrow> 6 * length args
    | Inl (Inr (Inr (E, args))) \<Rightarrow> 6 * length args + 3
    | Inr (Inl (E, b, args)) \<Rightarrow> 6 * length args
    | Inr (Inr (Inl (E, args))) \<Rightarrow> 6 * length args + 2
    | Inr (Inr (Inr (E, args))) \<Rightarrow> 6 * length args + 1)")
      (auto dest!: words_left simp: neq_Nil_conv split_beta)
qed

declare test_or.simps [simp del] or_words.simps [simp del] test_and.simps [simp del] and_words.simps [simp del]
  test_not.simps [simp del] test_primary.simps [simp del]

definition test_eval :: "test_env \<Rightarrow> ustring list \<Rightarrow> exit_code" where
  "test_eval E args =
     (if args = [] then 1
      else let (result, rest) = test_or E args
           in if rest \<noteq> [] then 2 else if result then 0 else 1)"

subsection \<open>The grammar of test expressions\<close>

datatype test_exp =
    TStr ustring
  | TUnary ustring ustring
  | TBinary ustring ustring ustring
  | TNeg test_exp
  | TBoth test_exp test_exp
  | TEither test_exp test_exp

fun test_value :: "test_env \<Rightarrow> test_exp \<Rightarrow> bool" where
  "test_value E (TStr s) = (s \<noteq> [])"
| "test_value E (TUnary op x) = the (unary_test E op x)"
| "test_value E (TBinary l op r) = the (binary_test E op l r)"
| "test_value E (TNeg e) = (\<not> test_value E e)"
| "test_value E (TBoth a b) = (test_value E a \<and> test_value E b)"
| "test_value E (TEither a b) = (test_value E a \<or> test_value E b)"

definition unary_ops :: "ustring set" where
  "unary_ops = ustr ` {''-n'', ''-z'', ''-e'', ''-f'', ''-d'', ''-L'', ''-h'', ''-r'', ''-w'', ''-x'', ''-s'', ''-t'', ''-p'',
     ''-b'', ''-c'', ''-S'', ''-u'', ''-g'', ''-k''}"

definition binary_ops :: "ustring set" where
  "binary_ops = ustr ` {''='', ''=='', ''!='', ''<'', ''>'', ''-eq'', ''-ne'', ''-lt'', ''-le'', ''-gt'', ''-ge'', ''-nt'', ''-ot'', ''-ef''}"

datatype test_level = LPrimary | LNot | LAnd | LOr

text \<open>A primary does not start with a parenthesis unless it is a group; the operand of a unary
  operator is not an operator itself.\<close>

inductive reads :: "test_level \<Rightarrow> ustring list \<Rightarrow> test_exp \<Rightarrow> bool" where
  str: "s \<noteq> ustr ''('' \<Longrightarrow> reads LPrimary [s] (TStr s)"
| unary: "op \<in> unary_ops \<Longrightarrow> x \<notin> binary_ops \<Longrightarrow> x \<notin> ustr ` {'')'', ''-a'', ''-o''} \<Longrightarrow> reads LPrimary [op, x] (TUnary op x)"
| binary: "l \<noteq> ustr ''('' \<Longrightarrow> op \<in> binary_ops \<Longrightarrow> reads LPrimary [l, op, r] (TBinary l op r)"
| group: "reads LOr ws e \<Longrightarrow> reads LPrimary (ustr ''('' # ws @ [ustr '')'']) e"
| plain: "reads LPrimary ws e \<Longrightarrow> hd ws \<noteq> ustr ''!'' \<Longrightarrow> reads LNot ws e"
| negated: "reads LPrimary ws e \<Longrightarrow> reads LNot (ustr ''!'' # ws) (TNeg e)"
| and_one: "reads LNot ws e \<Longrightarrow> reads LAnd ws e"
| and_more: "reads LAnd s a \<Longrightarrow> reads LNot t b \<Longrightarrow> reads LAnd (s @ ustr ''-a'' # t) (TBoth a b)"
| or_one: "reads LAnd ws e \<Longrightarrow> reads LOr ws e"
| or_more: "reads LOr s a \<Longrightarrow> reads LAnd t b \<Longrightarrow> reads LOr (s @ ustr ''-o'' # t) (TEither a b)"

lemma binary_test_None: "binary_test E op l r = None \<longleftrightarrow> op \<notin> binary_ops"
  by (simp add: binary_test_def binary_ops_def)

lemma unary_test_None: "unary_test E op x = None \<longleftrightarrow> op \<notin> unary_ops"
  by (simp add: unary_test_def unary_ops_def)

lemma not_operand_iff: "not_operand w \<longleftrightarrow> w \<in> ustr ` {'')'', ''-a'', ''-o'', ''='', ''!='', ''-eq'', ''-ne'', ''-lt'', ''-le'', ''-gt'', ''-ge''}"
  by (simp add: not_operand_def)

text \<open>What may follow an expression of each level.\<close>

fun after_level :: "test_level \<Rightarrow> ustring list \<Rightarrow> bool" where
  "after_level LOr ws \<longleftrightarrow> ws = [] \<or> hd ws \<in> ustr ` {'')'', ''-o''}"
| "after_level _ ws \<longleftrightarrow> ws = [] \<or> hd ws \<in> ustr ` {'')'', ''-a'', ''-o''}"

fun level_result :: "test_level \<Rightarrow> test_env \<Rightarrow> bool \<Rightarrow> ustring list \<Rightarrow> bool \<times> ustring list" where
  "level_result LOr E b ws = or_words E b ws"
| "level_result LAnd E b ws = and_words E b ws"
| "level_result _ E b ws = (b, ws)"

fun level_parse :: "test_level \<Rightarrow> test_env \<Rightarrow> ustring list \<Rightarrow> bool \<times> ustring list" where
  "level_parse LOr = test_or"
| "level_parse LAnd = test_and"
| "level_parse LNot = test_not"
| "level_parse LPrimary = test_primary"

lemma words_end:
  "ws = [] \<or> hd ws \<noteq> ustr ''-o'' \<Longrightarrow> or_words E b ws = (b, ws)"
  "ws = [] \<or> hd ws \<noteq> ustr ''-a'' \<Longrightarrow> and_words E b ws = (b, ws)"
  using or_words.simps [of E b ws] and_words.simps [of E b ws] by (auto simp del: ustr_simps)

lemma words_step:
  "or_words E b (ustr ''-o'' # ws) = or_words E (b \<or> fst (test_and E ws)) (snd (test_and E ws))"
  "and_words E b (ustr ''-a'' # ws) = and_words E (b \<and> fst (test_not E ws)) (snd (test_not E ws))"
  using or_words.simps [of E b "ustr ''-o'' # ws"] and_words.simps [of E b "ustr ''-a'' # ws"]
  by (simp_all del: ustr_simps)

lemma closing_no_operator:
  assumes "ws = [] \<or> hd ws \<in> ustr ` {'')'', ''-a'', ''-o''}" "ws \<noteq> []"
  shows "binary_test E (hd ws) l r = None" "not_operand (hd ws)"
  using assms by (auto simp: binary_test_None binary_ops_def not_operand_def)

lemma test_words_primary:
  assumes rest: "after_level LPrimary rest"
  shows "test_words E (s # rest) = (s \<noteq> [], rest)"
    and "op \<in> unary_ops \<Longrightarrow> x \<notin> binary_ops \<Longrightarrow> x \<notin> ustr ` {'')'', ''-a'', ''-o''} \<Longrightarrow>
      test_words E (op # x # rest) = (the (unary_test E op x), rest)"
    and "op \<in> binary_ops \<Longrightarrow> test_words E (l # op # r # rest) = (the (binary_test E op l r), rest)"
proof -
  show "test_words E (s # rest) = (s \<noteq> [], rest)"
    using closing_no_operator [of rest] rest by (cases rest) (auto simp: test_words_def)
  assume "op \<in> binary_ops"
  then obtain b where "binary_test E op l r = Some b" using binary_test_None [of E op l r] by auto
  then show "test_words E (l # op # r # rest) = (the (binary_test E op l r), rest)"
    by (simp add: test_words_def)
next
  assume op: "op \<in> unary_ops" and x: "x \<notin> binary_ops" "x \<notin> ustr ` {'')'', ''-a'', ''-o''}"
  then obtain b where "unary_test E op x = Some b" using unary_test_None [of E op x] by auto
  moreover have "\<not> not_operand x" using x by (auto simp: not_operand_def binary_ops_def)
  moreover have "binary_test E x l r = None" for l r using x by (simp add: binary_test_None)
  ultimately show "test_words E (op # x # rest) = (the (unary_test E op x), rest)"
    by (simp add: test_words_def)
qed

lemma unary_not_group: "op \<in> unary_ops \<Longrightarrow> op \<noteq> ustr ''(''"
  by (auto simp: unary_ops_def)

lemma reads_parse:
  "reads lv ws e \<Longrightarrow> after_level lv rest \<Longrightarrow> level_parse lv E (ws @ rest) = level_result lv E (test_value E e) rest"
proof (induction arbitrary: rest rule: reads.induct)
  case (str s)
  then show ?case using test_words_primary(1) [of rest] by (simp add: test_primary.simps)
next
  case (unary op x)
  then show ?case
    using test_words_primary(2) [of rest] unary_not_group [of op] by (simp add: test_primary.simps)
next
  case (binary l op r)
  then show ?case using test_words_primary(3) [of rest] by (simp add: test_primary.simps)
next
  case (group ws e)
  then have "test_or E (ws @ ustr '')'' # rest) = (test_value E e, ustr '')'' # rest)"
    using words_end(1) [of "ustr '')'' # rest" E] by simp
  then show ?case by (simp add: test_primary.simps)
next
  case (plain ws e)
  moreover have "ws \<noteq> []" using plain.hyps(1) by (cases rule: reads.cases) auto
  ultimately show ?case by (simp add: test_not.simps)
next
  case (negated ws e)
  then show ?case by (simp add: test_not.simps)
next
  case (and_one ws e)
  then show ?case by (simp add: test_and.simps)
next
  case (and_more s a t b)
  have "test_and E (s @ ustr ''-a'' # t @ rest) = and_words E (test_value E a) (ustr ''-a'' # t @ rest)"
    using and_more.IH(1) [of "ustr ''-a'' # t @ rest"] by simp
  with and_more.IH(2) [of rest] and_more.prems show ?case by (simp add: words_step(2) del: ustr_simps)
next
  case (or_one ws e)
  then have "hd rest \<noteq> ustr ''-a'' \<or> rest = []" "after_level LAnd rest" by auto
  with or_one.IH [of rest] words_end(2) [of rest E "test_value E e"] show ?case by (auto simp: test_or.simps)
next
  case (or_more s a t b)
  have "hd rest \<noteq> ustr ''-a'' \<or> rest = []" "after_level LAnd rest" using or_more.prems by auto
  moreover have "test_or E (s @ ustr ''-o'' # t @ rest) = or_words E (test_value E a) (ustr ''-o'' # t @ rest)"
    using or_more.IH(1) [of "ustr ''-o'' # t @ rest"] by simp
  ultimately show ?case
    using or_more.IH(2) [of rest] words_end(2) [of rest E "test_value E b"] by (auto simp: words_step(1) simp del: ustr_simps)
qed

subsection \<open>Property\<close>

text \<open>C34. \<^verbatim>\<open>test\<close> follows its grammar: \<^verbatim>\<open>-o\<close> binds weaker than \<^verbatim>\<open>-a\<close>, \<^verbatim>\<open>!\<close> negates one primary, a group is
  read as a whole; words that are written as an expression give status 0 when its value is true and
  1 when it is false, and all of them are consumed.\<close>

theorem test_eval_correct:
  assumes "reads LOr args e"
  shows "test_eval E args = (if test_value E e then 0 else 1)"
proof -
  have "args \<noteq> []" using assms by (induction rule: reads.induct) auto
  moreover have "test_or E args = (test_value E e, [])"
    using reads_parse [OF assms, of "[]" E] words_end(1) [of "[]" E] by simp
  ultimately show ?thesis by (simp add: test_eval_def)
qed

definition demo_test_env :: test_env where
  "demo_test_env = \<lparr>test_cwd = [47], metadata = (\<lambda>_. None), is_symlink = (\<lambda>_. False), own_uid = 0, is_terminal = (\<lambda>_. False)\<rparr>"

theorem test_eval_correct_witness:
  "test_eval demo_test_env [ustr ''!'', ustr ''-e'', ustr ''x'', ustr ''-a'', ustr ''a'', ustr ''='', ustr ''b''] = 1"
proof -
  let ?e = "TBoth (TNeg (TUnary (ustr ''-e'') (ustr ''x''))) (TBinary (ustr ''a'') (ustr ''='') (ustr ''b''))"
  have u: "reads LPrimary [ustr ''-e'', ustr ''x''] (TUnary (ustr ''-e'') (ustr ''x''))"
    by (rule reads.unary) (auto simp: unary_ops_def binary_ops_def)
  have b: "reads LPrimary [ustr ''a'', ustr ''='', ustr ''b''] (TBinary (ustr ''a'') (ustr ''='') (ustr ''b''))"
    by (rule reads.binary) (auto simp: binary_ops_def)
  have "reads LAnd ((ustr ''!'' # [ustr ''-e'', ustr ''x'']) @ ustr ''-a'' # [ustr ''a'', ustr ''='', ustr ''b'']) ?e"
    by (intro reads.and_more reads.and_one reads.negated reads.plain u b) simp
  then have "reads LOr [ustr ''!'', ustr ''-e'', ustr ''x'', ustr ''-a'', ustr ''a'', ustr ''='', ustr ''b''] ?e"
    by (intro reads.or_one) (simp del: ustr_simps)
  moreover have "ustr ''a'' \<noteq> ustr ''b''" by simp
  ultimately show ?thesis
    using test_eval_correct [of _ ?e demo_test_env] by (simp add: binary_test_def del: ustr_simps)
qed

end
