(* ===== verification/Shell_State.thy ===== *)
theory Shell_State
  imports Expand Test_Cmd
begin

text \<open>
  The state of the shell (\<^verbatim>\<open>struct Shell\<close> of \<^verbatim>\<open>crates/epsh/src/eval.rs\<close>) and the computations on it.

  The state extends the record of expansion.  What leaves the process or its control flow is an
  argument, the record \<open>host\<close>: forked pipelines, subshells, background jobs and substitutions,
  redirections, external commands, the builtins about processes and files, command policies,
  cancellation, the streams.  Each of them may do anything to the state, the field \<open>outside\<close>
  included, and may fail.  Job control of stopped pipelines is not modelled.
\<close>

record 'w evaluator = shell +
  sh_functions :: "ustring \<Rightarrow> command option"
  loop_depth :: nat
  tested :: bool
  ev_exit :: bool
  errexit :: bool
  xtrace :: bool
  noexec :: bool
  pipefail :: bool
  pipeline_depth :: nat
  substitution_count :: u64
  outside :: 'w

type_synonym ('w, 'a) act = "'w evaluator \<Rightarrow> (error + 'a) \<times> 'w evaluator"
type_synonym ('w, 'a) ev = "'w evaluator \<Rightarrow> ((error + 'a) \<times> 'w evaluator) option"

record 'w host =
  files :: "'w \<Rightarrow> filesystem"
  check_cancel :: "('w, unit) act"
  ensure_terminal :: "('w, unit) act"
  run_substitution :: "command \<Rightarrow> ('w, bytes \<times> exit_code) act"
  write_err :: "ustring \<Rightarrow> 'w \<Rightarrow> 'w"
  write_output :: "ustring \<Rightarrow> 'w \<Rightarrow> 'w"
  stdin_bytes :: "'w \<Rightarrow> bytes"
  consume_stdin :: "nat \<Rightarrow> 'w \<Rightarrow> 'w"
  env_order :: "'w evaluator \<Rightarrow> ustring list"
  test_files :: "'w evaluator \<Rightarrow> test_env"
  describe_commands :: "bool \<Rightarrow> ustring list \<Rightarrow> ('w, exit_code) act"
  setup_redirections :: "command redir list \<Rightarrow> ('w, nat) act"
  finish_redirections :: "bool \<Rightarrow> nat \<Rightarrow> error + exit_code \<Rightarrow> ('w, exit_code) act"
  parent_process_refusal :: "ustring list \<Rightarrow> 'w evaluator \<Rightarrow> ustring option"
  check_command_policy :: "ustring list \<Rightarrow> span \<Rightarrow> ('w, unit) act"
  preflight_external :: "ustring list \<Rightarrow> ('w, unit) act"
  preflight_redirects :: "command redir list \<Rightarrow> ('w, unit) act"
  other_builtin :: "ustring \<Rightarrow> ustring list \<Rightarrow> span \<Rightarrow> ('w, exit_code option) act"
  has_external_handler :: "ustring \<Rightarrow> 'w evaluator \<Rightarrow> bool"
  call_external_handler :: "ustring list \<Rightarrow> command assignment list \<Rightarrow> ('w, exit_code) act"
  eval_external :: "ustring list \<Rightarrow> command assignment list \<Rightarrow> span \<Rightarrow> ('w, exit_code) act"
  fork_pipeline :: "command list \<Rightarrow> ('w, exit_code) act"
  eval_in_subshell :: "command \<Rightarrow> command redir list \<Rightarrow> ('w, exit_code) act"
  eval_background :: "command \<Rightarrow> command redir list \<Rightarrow> ('w, exit_code) act"

definition lift_act :: "('w, 'a) act \<Rightarrow> ('w, 'a) ev" where
  "lift_act a st = Some (a st)"

definition vbind :: "('w, 'a) ev \<Rightarrow> ('a \<Rightarrow> ('w, 'b) ev) \<Rightarrow> ('w, 'b) ev" where
  "vbind m k st = (case m st of
     None \<Rightarrow> None
   | Some (Inl e, st') \<Rightarrow> Some (Inl e, st')
   | Some (Inr x, st') \<Rightarrow> k x st')"

definition modify :: "('w evaluator \<Rightarrow> 'w evaluator) \<Rightarrow> ('w, 'a) ev \<Rightarrow> ('w, 'a) ev" where
  "modify f m st = m (f st)"

definition write_out :: "'w host \<Rightarrow> ustring \<Rightarrow> 'w evaluator \<Rightarrow> 'w evaluator" where
  "write_out H t st = st\<lparr>outside := write_output H t (outside st)\<rparr>"

definition err_msg :: "'w host \<Rightarrow> ustring \<Rightarrow> 'w evaluator \<Rightarrow> 'w evaluator" where
  "err_msg H m st =
     (let w = write_err H m (outside st)
      in st\<lparr>outside := (if m \<noteq> [] \<and> last m = 10 then w else write_err H [10] w)\<rparr>)"

end
