(* ===== verification/Builtins.thy ===== *)
theory Builtins
  imports Shell_State
begin

text \<open>
  The builtins of \<^verbatim>\<open>crates/epsh/src/builtins.rs\<close> that work on the state of the shell: control flow,
  variables, options, positional parameters, output, the reading and splitting of a line, \<^verbatim>\<open>command\<close>.
  Those about processes, signals, files and sourced scripts are \<open>other_builtin\<close> of the host.
\<close>

subsection \<open>Control flow\<close>

definition illegal_number :: "ustring \<Rightarrow> ustring \<Rightarrow> ustring" where
  "illegal_number name arg = name @ ustr '': Illegal number: '' @ arg"

definition builtin_status_operand :: "'w host \<Rightarrow> ustring \<Rightarrow> ustring list \<Rightarrow> ('w, exit_code) act" where
  "builtin_status_operand H name args st =
     (if length args \<le> 1 then (Inr (sh_exit_status st), st)
      else case parse_i32 (args ! 1) of
        Some code \<Rightarrow> (Inr (exit_from_i32 code), st)
      | None \<Rightarrow> (Inl (Exit 2), err_msg H (illegal_number name (args ! 1)) st))"

text \<open>\<^verbatim>\<open>break\<close> and \<^verbatim>\<open>continue\<close>: \<open>signal\<close> is the error that leaves the loops.\<close>

definition builtin_loop_control ::
  "'w host \<Rightarrow> (nat \<Rightarrow> error) \<Rightarrow> ustring \<Rightarrow> ustring list \<Rightarrow> ('w, exit_code option) act" where
  "builtin_loop_control H signal name args st =
     (let leave = (\<lambda>n. if loop_depth st = 0 then (Inr (Some 0), st) else (Inl (signal (min n (loop_depth st))), st));
          illegal = (\<lambda>arg. (Inl (Exit 1), err_msg H (illegal_number name arg) st))
      in if length args \<le> 1 then leave 1
         else case parse_usize (args ! 1) of
           Some 0 \<Rightarrow> illegal (args ! 1)
         | Some n \<Rightarrow> leave n
         | None \<Rightarrow> illegal (args ! 1))"

subsection \<open>Output\<close>

fun unescape_echo :: "ustring \<Rightarrow> ustring" where
  "unescape_echo [] = []"
| "unescape_echo [c] = [c]"
| "unescape_echo (c # d # s) =
     (if c = 92 then
        (if d = 110 then [10] else if d = 116 then [9] else if d = 92 then [92] else if d = 97 then [7]
         else if d = 98 then [8] else if d = 102 then [12] else if d = 114 then [13] else if d = 118 then [11]
         else [92, d]) @ unescape_echo s
      else c # unescape_echo (d # s))"

fun echo_options :: "bool \<Rightarrow> bool \<Rightarrow> ustring list \<Rightarrow> bool \<times> bool \<times> ustring list" where
  "echo_options newline escape [] = (newline, escape, [])"
| "echo_options newline escape (a # as) =
     (if a = ustr ''-n'' then echo_options False escape as
      else if a = ustr ''-e'' then echo_options newline True as
      else if a = ustr ''-E'' then echo_options newline False as
      else (newline, escape, a # as))"

definition builtin_echo :: "'w host \<Rightarrow> ustring list \<Rightarrow> 'w evaluator \<Rightarrow> exit_code \<times> 'w evaluator" where
  "builtin_echo H args st =
     (let (newline, escape, words) = echo_options True False (tl args);
          t = join [32] words;
          t = (if escape then unescape_echo t else t)
      in (0, write_out H (if newline then t @ [10] else t) st))"

subsection \<open>Variables\<close>

text \<open>\<^verbatim>\<open>let _ = self.vars.set_shell(..)\<close>\<close>

definition put_var :: "ustring \<Rightarrow> ustring \<Rightarrow> 'w evaluator \<Rightarrow> 'w evaluator" where
  "put_var x v st = st\<lparr>sh_vars := or_else (set_shell (sh_vars st) x v) (sh_vars st)\<rparr>"

text \<open>\<^verbatim>\<open>arg.find('=')\<close> and the two sides.\<close>

definition split_assignment :: "ustring \<Rightarrow> (ustring \<times> ustring) option" where
  "split_assignment arg =
     (if 61 \<in> set arg then Some (takeWhile (\<lambda>c. c \<noteq> 61) arg, tl (dropWhile (\<lambda>c. c \<noteq> 61) arg)) else None)"

text \<open>\<^verbatim>\<open>export\<close> and \<^verbatim>\<open>readonly\<close>: \<open>mark\<close> sets the flag.\<close>

fun mark_variables :: "'w host \<Rightarrow> ustring \<Rightarrow> (variables \<Rightarrow> ustring \<Rightarrow> variables) \<Rightarrow> ustring list \<Rightarrow>
    'w evaluator \<Rightarrow> exit_code \<times> 'w evaluator" where
  "mark_variables H name mark [] st = (0, st)"
| "mark_variables H name mark (arg # as) st =
     (case split_assignment arg of
        Some (x, v) \<Rightarrow>
          (case set_shell (sh_vars st) x v of
             Inl e \<Rightarrow> (1, err_msg H (name @ ustr '': '' @ e) st)
           | Inr vs \<Rightarrow> mark_variables H name mark as (st\<lparr>sh_vars := mark vs x\<rparr>))
      | None \<Rightarrow> mark_variables H name mark as (st\<lparr>sh_vars := mark (sh_vars st) arg\<rparr>))"

definition print_environment :: "'w host \<Rightarrow> (ustring \<times> ustring \<Rightarrow> ustring) \<Rightarrow> 'w evaluator \<Rightarrow> 'w evaluator" where
  "print_environment H line st =
     fold (\<lambda>kv. write_out H (line kv)) (exported_env (env_order H st) (sh_vars st)) st"

definition builtin_export :: "'w host \<Rightarrow> ustring list \<Rightarrow> 'w evaluator \<Rightarrow> exit_code \<times> 'w evaluator" where
  "builtin_export H args st =
     (if length args \<le> 1
      then (0, print_environment H (\<lambda>(k, v). ustr ''export '' @ k @ [61, 34] @ v @ [34, 10]) st)
      else mark_variables H (ustr ''export'') export (tl args) st)"

definition builtin_readonly :: "'w host \<Rightarrow> ustring list \<Rightarrow> 'w evaluator \<Rightarrow> exit_code \<times> 'w evaluator" where
  "builtin_readonly H args st = mark_variables H (ustr ''readonly'') set_readonly (tl args) st"

fun unset_options :: "bool \<Rightarrow> ustring list \<Rightarrow> bool \<times> ustring list" where
  "unset_options funcs [] = (funcs, [])"
| "unset_options funcs (a # as) =
     (if a = ustr ''-v'' then unset_options False as
      else if a = ustr ''-f'' then unset_options True as
      else (funcs, a # as))"

fun unset_names :: "'w host \<Rightarrow> bool \<Rightarrow> ustring list \<Rightarrow> exit_code \<Rightarrow> 'w evaluator \<Rightarrow> exit_code \<times> 'w evaluator" where
  "unset_names H funcs [] status st = (status, st)"
| "unset_names H funcs (x # xs) status st =
     (if funcs then unset_names H funcs xs status (st\<lparr>sh_functions := (sh_functions st)(x := None)\<rparr>)
      else case unset (sh_vars st) x of
        Inl e \<Rightarrow> unset_names H funcs xs 1 (err_msg H (ustr ''unset: '' @ e) st)
      | Inr vs \<Rightarrow> unset_names H funcs xs status (st\<lparr>sh_vars := vs\<rparr>))"

definition builtin_unset :: "'w host \<Rightarrow> ustring list \<Rightarrow> 'w evaluator \<Rightarrow> exit_code \<times> 'w evaluator" where
  "builtin_unset H args st = (let (funcs, names) = unset_options False (tl args) in unset_names H funcs names 0 st)"

fun builtin_local :: "ustring list \<Rightarrow> 'w evaluator \<Rightarrow> exit_code \<times> 'w evaluator" where
  "builtin_local [] st = (0, st)"
| "builtin_local (arg # as) st =
     (case split_assignment arg of
        Some (x, v) \<Rightarrow> builtin_local as (put_var x v (st\<lparr>sh_vars := make_local (sh_vars st) x\<rparr>))
      | None \<Rightarrow> builtin_local as (st\<lparr>sh_vars := make_local (sh_vars st) arg\<rparr>))"

definition set_positional :: "ustring list \<Rightarrow> 'w evaluator \<Rightarrow> 'w evaluator" where
  "set_positional ws st = st\<lparr>sh_vars := (sh_vars st)\<lparr>positional := map from_str_lossless ws\<rparr>\<rparr>"

definition builtin_shift :: "'w host \<Rightarrow> ustring list \<Rightarrow> 'w evaluator \<Rightarrow> exit_code \<times> 'w evaluator" where
  "builtin_shift H args st =
     (let n = (case if 1 < length args then parse_usize (args ! 1) else None of Some n \<Rightarrow> n | None \<Rightarrow> 1)
      in if length (positional (sh_vars st)) < n then (1, err_msg H (ustr ''shift: can't shift that many'') st)
         else (0, st\<lparr>sh_vars := (sh_vars st)\<lparr>positional := drop n (positional (sh_vars st))\<rparr>\<rparr>))"

subsection \<open>Options\<close>

definition set_long_option :: "ustring \<Rightarrow> bool \<Rightarrow> 'w evaluator \<Rightarrow> 'w evaluator option" where
  "set_long_option name enable st =
     (if name = ustr ''pipefail'' then Some (st\<lparr>pipefail := enable\<rparr>)
      else if name = ustr ''errexit'' then Some (st\<lparr>errexit := enable\<rparr>)
      else if name = ustr ''nounset'' then Some (st\<lparr>sh_nounset := enable\<rparr>)
      else if name = ustr ''xtrace'' then Some (st\<lparr>xtrace := enable\<rparr>)
      else if name = ustr ''noglob'' then Some (st\<lparr>sh_noglob := enable\<rparr>)
      else if name = ustr ''noexec'' then Some (st\<lparr>noexec := enable\<rparr>)
      else None)"

definition set_short_option :: "nat \<Rightarrow> bool \<Rightarrow> 'w evaluator \<Rightarrow> 'w evaluator option" where
  "set_short_option ch enable st =
     (if ch = 101 then Some (st\<lparr>errexit := enable\<rparr>)
      else if ch = 117 then Some (st\<lparr>sh_nounset := enable\<rparr>)
      else if ch = 120 then Some (st\<lparr>xtrace := enable\<rparr>)
      else if ch = 102 then Some (st\<lparr>sh_noglob := enable\<rparr>)
      else if ch = 110 then Some (st\<lparr>noexec := enable\<rparr>)
      else None)"

text \<open>The letters of one word: those before an unknown one take effect.\<close>

fun set_letters :: "'w host \<Rightarrow> bool \<Rightarrow> ustring \<Rightarrow> 'w evaluator \<Rightarrow> bool \<times> 'w evaluator" where
  "set_letters H enable [] st = (True, st)"
| "set_letters H enable (ch # chs) st =
     (case set_short_option ch enable st of
        Some st' \<Rightarrow> set_letters H enable chs st'
      | None \<Rightarrow> (False, err_msg H (ustr ''set: unknown option: -'' @ [ch]) st))"

fun set_words :: "'w host \<Rightarrow> ustring list \<Rightarrow> 'w evaluator \<Rightarrow> exit_code \<times> 'w evaluator" where
  "set_words H [] st = (0, st)"
| "set_words H (arg # as) st =
     (if arg = ustr ''--'' then (0, set_positional as st)
      else if arg = ustr ''-'' then set_words H as (st\<lparr>xtrace := False\<rparr>)
      else if (arg = ustr ''-o'' \<or> arg = ustr ''+o'') \<and> as \<noteq> [] then
        (case set_long_option (hd as) (arg = ustr ''-o'') st of
           Some st' \<Rightarrow> set_words H (tl as) st'
         | None \<Rightarrow> (1, err_msg H (ustr ''set: unknown option: '' @ hd as) st))
      else if arg \<noteq> [] \<and> (hd arg = 45 \<or> hd arg = 43) then
        (case set_letters H (hd arg = 45) (tl arg) st of
           (True, st') \<Rightarrow> set_words H as st'
         | (False, st') \<Rightarrow> (1, st'))
      else if is_shell_name_bytes (utf8 arg) \<noteq> None then
        (case set_shell (sh_vars st) arg (join [32] as) of
           Inl e \<Rightarrow> (1, err_msg H (ustr ''set: '' @ e) st)
         | Inr vs \<Rightarrow> (0, st\<lparr>sh_vars := export vs arg\<rparr>))
      else (0, set_positional (arg # as) st))"

definition builtin_set :: "'w host \<Rightarrow> ustring list \<Rightarrow> 'w evaluator \<Rightarrow> exit_code \<times> 'w evaluator" where
  "builtin_set H args st =
     (if length args \<le> 1 then (0, print_environment H (\<lambda>(k, v). k @ [61] @ v @ [10]) st)
      else set_words H (tl args) st)"

definition builtin_test :: "'w host \<Rightarrow> ustring list \<Rightarrow> 'w evaluator \<Rightarrow> exit_code \<times> 'w evaluator" where
  "builtin_test H args st =
     (if hd args = ustr ''['' then
        (if last args \<noteq> ustr '']'' then (2, err_msg H (ustr ''[: missing ]'') st)
         else (test_eval (test_files H st) (butlast (tl args)), st))
      else (test_eval (test_files H st) (tl args), st))"

subsection \<open>Formatted output\<close>

text \<open>\<^verbatim>\<open>{:o}\<close>, \<^verbatim>\<open>{:x}\<close> and \<^verbatim>\<open>{:X}\<close> of a 64-bit integer: the digits of its unsigned reading.\<close>

function radix_digits :: "nat \<Rightarrow> nat \<Rightarrow> nat \<Rightarrow> ustring" where
  "radix_digits a b n =
     (let d = (if n mod b < 10 then 48 + n mod b else a + (n mod b - 10))
      in if n < b \<or> b \<le> 1 then [d] else radix_digits a b (n div b) @ [d])"
  by pat_completeness auto
termination by (relation "measure (\<lambda>(a, b, n). n)") auto

declare radix_digits.simps [simp del]

definition pad_left :: "nat \<Rightarrow> nat \<Rightarrow> ustring \<Rightarrow> ustring" where
  "pad_left fill width t = replicate (width - length t) fill @ t"

definition pad_right :: "nat \<Rightarrow> ustring \<Rightarrow> ustring" where
  "pad_right width t = t @ replicate (width - length t) 32"

definition number_argument :: "ustring list \<Rightarrow> i64" where
  "number_argument as = (case as of [] \<Rightarrow> 0 | a # _ \<Rightarrow> (case parse_i64 a of Some v \<Rightarrow> v | None \<Rightarrow> 0))"

definition text_argument :: "ustring list \<Rightarrow> ustring" where
  "text_argument as = (case as of [] \<Rightarrow> [] | a # _ \<Rightarrow> a)"

definition digits_number :: "ustring \<Rightarrow> nat" where
  "digits_number ds = (case parse_usize ds of Some n \<Rightarrow> n | None \<Rightarrow> 0)"

definition format_text :: "bool \<Rightarrow> nat \<Rightarrow> nat option \<Rightarrow> ustring \<Rightarrow> ustring" where
  "format_text left_align width precision val =
     (let val = (case precision of Some p \<Rightarrow> bytes_to_str (take p (str_to_bytes val)) | None \<Rightarrow> val);
          padding = replicate (width - length (shell_chars val)) 32
      in if left_align then val @ padding else padding @ val)"

definition format_number :: "bool \<Rightarrow> bool \<Rightarrow> nat \<Rightarrow> i64 \<Rightarrow> ustring" where
  "format_number zero_pad left_align width val =
     (if zero_pad then pad_left 48 width (i64_to_string val)
      else if left_align then pad_right width (i64_to_string val)
      else pad_left 32 width (i64_to_string val))"

text \<open>One conversion: its text and whether it takes an argument.\<close>

definition printf_conversion :: "nat \<Rightarrow> ustring \<Rightarrow> nat \<Rightarrow> nat option \<Rightarrow> ustring list \<Rightarrow> ustring \<times> bool" where
  "printf_conversion conv flags width precision as =
     (let left_align = 45 \<in> set flags; zero_pad = (48 \<in> set flags \<and> \<not> left_align)
      in if conv = 115 then (format_text left_align width precision (text_argument as), True)
         else if conv = 100 \<or> conv = 105 then (format_number zero_pad left_align width (number_argument as), True)
         else if conv = 111 then (radix_digits 97 8 (unat (number_argument as)), True)
         else if conv = 120 then (radix_digits 97 16 (unat (number_argument as)), True)
         else if conv = 88 then (radix_digits 65 16 (unat (number_argument as)), True)
         else if conv = 99 then
           ((case shell_chars (text_argument as) of [] \<Rightarrow> [] | u # _ \<Rightarrow> if u = [0] then [] else u), True)
         else if conv = 37 then ([37], False)
         else if conv = 98 then (unescape_echo (text_argument as), True)
         else ([37, conv], False))"

text \<open>The word after \<^verbatim>\<open>%\<close>: flags, width, precision, and what follows.\<close>

definition printf_spec :: "ustring \<Rightarrow> ustring \<times> nat \<times> nat option \<times> ustring" where
  "printf_spec fmt =
     (let flag = (\<lambda>c. c \<in> {45, 43, 32, 48, 35});
          flags = takeWhile flag fmt;
          fmt = dropWhile flag fmt;
          width = digits_number (takeWhile is_ascii_digit fmt);
          fmt = dropWhile is_ascii_digit fmt
      in if fmt \<noteq> [] \<and> hd fmt = 46
         then (flags, width, Some (digits_number (takeWhile is_ascii_digit (tl fmt))), dropWhile is_ascii_digit (tl fmt))
         else (flags, width, None, fmt))"

definition octal_digits :: "ustring \<Rightarrow> ustring" where
  "octal_digits fmt = takeWhile (\<lambda>c. 48 \<le> c \<and> c \<le> 55) (take 3 fmt)"

text \<open>\<^verbatim>\<open>u8::from_str_radix(&oct, 8).unwrap_or(0)\<close>\<close>

definition octal_byte :: "ustring \<Rightarrow> u8" where
  "octal_byte ds = (case parse_nat_radix 8 ds of Some n \<Rightarrow> if n < 256 then of_nat n else 0 | None \<Rightarrow> 0)"

definition printf_escape :: "nat \<Rightarrow> ustring" where
  "printf_escape c =
     (if c = 110 then [10] else if c = 116 then [9] else if c = 114 then [13] else if c = 92 then [92]
      else if c = 34 then [34] else if c = 97 then [7] else if c = 98 then [8] else if c = 102 then [12]
      else if c = 118 then [11] else [92, c])"

lemma printf_spec_length: "printf_spec fmt = (fl, w, p, rest) \<Longrightarrow> length rest \<le> length fmt"
  using length_dropWhile_le [of is_ascii_digit "tl (dropWhile is_ascii_digit (dropWhile (\<lambda>c. c \<in> {45, 43, 32, 48, 35}) fmt))"]
    length_dropWhile_le [of is_ascii_digit "dropWhile (\<lambda>c. c \<in> {45, 43, 32, 48, 35}) fmt"]
    length_dropWhile_le [of "\<lambda>c. c \<in> {45, 43, 32, 48, 35}" fmt]
  by (auto simp: printf_spec_def Let_def split: if_splits)

text \<open>One pass over the format: the output, the arguments that are left, whether one was taken.\<close>

function printf_pass :: "ustring \<Rightarrow> ustring list \<Rightarrow> ustring \<times> ustring list \<times> bool" where
  "printf_pass fmt as =
     (case fmt of
        [] \<Rightarrow> ([], as, False)
      | c # r \<Rightarrow>
          if c = 92 then
            (case r of
               [] \<Rightarrow> ([92], as, False)
             | d # r' \<Rightarrow>
                 let (out, r'') = (if d = 48 then (bytes_to_str [octal_byte (octal_digits r')], drop (length (octal_digits r')) r')
                                   else (printf_escape d, r'));
                     (t, as', used) = printf_pass r'' as
                 in (out @ t, as', used))
          else if c = 37 then
            (if r = [] then ([37], as, False)
             else case printf_spec r of
               (flags, width, precision, []) \<Rightarrow> ([], as, False)
             | (flags, width, precision, conv # r') \<Rightarrow>
                 let (out, takes) = printf_conversion conv flags width precision as;
                     (t, as', used) = printf_pass r' (if takes then drop 1 as else as)
                 in (out @ t, as', takes \<or> used))
          else (let (t, as', used) = printf_pass r as in (c # t, as', used)))"
  by pat_completeness auto
termination
  by (relation "measure (\<lambda>(fmt, as). length fmt)") (auto simp: split: if_splits dest!: printf_spec_length [OF sym])

declare printf_pass.simps [simp del]

lemma printf_pass_Nil [simp]: "printf_pass [] as = ([], as, False)"
  by (simp add: printf_pass.simps)

lemma printf_pass_escape:
  "printf_pass [92] as = ([92], as, False)"
  "printf_pass (92 # d # r) as =
     (if d = 48 then apfst ((@) (bytes_to_str [octal_byte (octal_digits r)])) (printf_pass (drop (length (octal_digits r)) r) as)
      else apfst ((@) (printf_escape d)) (printf_pass r as))"
  by (subst printf_pass.simps, simp split: prod.split)+

lemma printf_pass_percent:
  "printf_pass [37] as = ([37], as, False)"
  "r \<noteq> [] \<Longrightarrow> printf_spec r = (flags, width, precision, []) \<Longrightarrow> printf_pass (37 # r) as = ([], as, False)"
  "r \<noteq> [] \<Longrightarrow> printf_spec r = (flags, width, precision, conv # r') \<Longrightarrow>
     printf_conversion conv flags width precision as = (out, takes) \<Longrightarrow>
     printf_pass (37 # r) as =
       (case printf_pass r' (if takes then drop 1 as else as) of (t, as', used) \<Rightarrow> (out @ t, as', takes \<or> used))"
  by (subst printf_pass.simps, simp split: prod.split)+

lemma printf_pass_plain:
  "c \<noteq> 92 \<Longrightarrow> c \<noteq> 37 \<Longrightarrow> printf_pass (c # r) as = apfst ((#) c) (printf_pass r as)"
  by (subst printf_pass.simps, simp split: prod.split)

lemma printf_pass_left:
  "printf_pass fmt as = (t, as', used) \<Longrightarrow> length as' \<le> length as \<and> (used \<and> as \<noteq> [] \<longrightarrow> length as' < length as)"
proof (induction "length fmt" arbitrary: fmt as t as' used rule: less_induct)
  case less
  note IH = less.hyps
  consider "fmt = []" | "fmt = [92]" | d r where "fmt = 92 # d # r" | r where "fmt = 37 # r"
    | c r where "fmt = c # r" "c \<noteq> 92" "c \<noteq> 37"
    by (metis neq_Nil_conv)
  then show ?case
  proof cases
    case (3 d r)
    have "length (drop k r) < length fmt" "length r < length fmt" for k using 3 by auto
    with IH less.prems 3 show ?thesis
      by (cases "printf_pass (drop (length (octal_digits r)) r) as"; cases "printf_pass r as")
        (fastforce simp: printf_pass_escape split: if_splits)
  next
    case (4 r)
    show ?thesis
    proof (cases "r = []")
      case True
      with 4 less.prems show ?thesis by (simp add: printf_pass_percent)
    next
      case False
      obtain flags width precision rest where sp: "printf_spec r = (flags, width, precision, rest)" by (cases "printf_spec r")
      show ?thesis
      proof (cases rest)
        case Nil
        with 4 False sp less.prems show ?thesis by (simp add: printf_pass_percent)
      next
        case (Cons conv r')
        obtain out takes where cv: "printf_conversion conv flags width precision as = (out, takes)" by fastforce
        obtain t1 as1 used1 where p: "printf_pass r' (if takes then drop 1 as else as) = (t1, as1, used1)"
          by (cases "printf_pass r' (if takes then drop 1 as else as)")
        have "length r' < length fmt" using printf_spec_length [OF sp] 4 Cons by simp
        from IH [OF this p] less.prems printf_pass_percent(3) [OF False sp [unfolded Cons] cv] p 4 show ?thesis
          by (cases as) (auto split: if_splits)
      qed
    qed
  next
    case (5 c r)
    with IH [of r as] less.prems show ?thesis
      by (cases "printf_pass r as") (auto simp: printf_pass_plain)
  qed (use less.prems in \<open>auto simp: printf_pass_escape\<close>)
qed

text \<open>The format is used again while arguments are left and the last pass took one.\<close>

function printf_output :: "ustring \<Rightarrow> ustring list \<Rightarrow> ustring" where
  "printf_output fmt as =
     (case printf_pass fmt as of
        (t, as', used) \<Rightarrow> if \<not> used \<or> as' = [] then t else t @ printf_output fmt as')"
  by pat_completeness auto
termination
  by (relation "measure (\<lambda>(fmt, as). length as)") (auto dest!: printf_pass_left [OF sym])

declare printf_output.simps [simp del]

definition builtin_printf :: "'w host \<Rightarrow> ustring list \<Rightarrow> 'w evaluator \<Rightarrow> exit_code \<times> 'w evaluator" where
  "builtin_printf H args st =
     (if length args < 2 then (1, err_msg H (ustr ''printf: usage: printf format [arguments]'') st)
      else (0, write_out H (printf_output (args ! 1) (drop 2 args)) st))"

subsection \<open>Reading a line\<close>

text \<open>One line from the bytes of the input: the bytes kept, whether the input ended before a line feed,
  and the number of bytes read.\<close>

fun read_line :: "bool \<Rightarrow> bool \<Rightarrow> bytes \<Rightarrow> bytes \<Rightarrow> nat \<Rightarrow> bytes \<times> bool \<times> nat" where
  "read_line raw continued [] line n = (line, True, n)"
| "read_line raw continued (c # r) line n =
     (if c = 10 then
        (if continued then read_line raw False r line (n + 1) else (line, False, n + 1))
      else if c = 92 \<and> \<not> raw then
        (case r of
           [] \<Rightarrow> (line @ [92], True, n + 1)
         | d # r' \<Rightarrow>
             if d = 10 then read_line raw True r' line (n + 2)
             else read_line raw False r' (line @ [d]) (n + 2))
      else read_line raw False r (line @ [c]) (n + 1))"

fun read_options :: "bool \<Rightarrow> ustring list \<Rightarrow> bool \<times> ustring list" where
  "read_options raw [] = (raw, [])"
| "read_options raw (a # as) =
     (if a \<noteq> [] \<and> hd a = 45 then read_options (raw \<or> a = ustr ''-r'') as else (raw, a # as))"

fun set_variables :: "'w host \<Rightarrow> (ustring \<times> ustring) list \<Rightarrow> exit_code \<Rightarrow> 'w evaluator \<Rightarrow> exit_code \<times> 'w evaluator" where
  "set_variables H [] status st = (status, st)"
| "set_variables H ((x, v) # xs) status st =
     (case set_shell (sh_vars st) x v of
        Inl e \<Rightarrow> (1, err_msg H (ustr ''read: '' @ e) st)
      | Inr vs \<Rightarrow> set_variables H xs status (st\<lparr>sh_vars := vs\<rparr>))"

definition trim_end :: "('a \<Rightarrow> bool) \<Rightarrow> 'a list \<Rightarrow> 'a list" where
  "trim_end p xs = rev (dropWhile p (rev xs))"

definition ifs_white :: "ustring list \<Rightarrow> ustring \<Rightarrow> bool" where
  "ifs_white delims u \<longleftrightarrow> u \<in> set delims \<and> list_all is_whitespace u"

text \<open>The fields for so many names: the last one takes the rest.\<close>

fun read_fields :: "ustring list \<Rightarrow> nat \<Rightarrow> ustring list \<Rightarrow> ustring list" where
  "read_fields delims 0 us = []"
| "read_fields delims (Suc 0) us = [concat (trim_end (ifs_white delims) us)]"
| "read_fields delims (Suc (Suc k)) us =
     concat (takeWhile (\<lambda>u. u \<notin> set delims) us) #
     read_fields delims (Suc k) (dropWhile (\<lambda>u. u \<in> set delims) (dropWhile (\<lambda>u. u \<notin> set delims) us))"

definition read_values :: "ustring list \<Rightarrow> nat \<Rightarrow> ustring \<Rightarrow> ustring list" where
  "read_values delims k line =
     (if k = 1 then
        [concat (trim_end (\<lambda>u. u \<in> set delims) (dropWhile (\<lambda>u. u \<in> set delims) (shell_chars line)))]
      else read_fields delims k (dropWhile (ifs_white delims) (shell_chars line)))"

definition builtin_read :: "'w host \<Rightarrow> ustring list \<Rightarrow> 'w evaluator \<Rightarrow> exit_code \<times> 'w evaluator" where
  "builtin_read H args st =
     (let (raw, names) = read_options False (tl args);
          names = (if names = [] then [ustr ''REPLY''] else names);
          (line, hit_eof, n) = read_line raw False (stdin_bytes H (outside st)) [] 0;
          st = st\<lparr>outside := consume_stdin H n (outside st)\<rparr>
      in if hit_eof \<and> line = [] then set_variables H (map (\<lambda>x. (x, [])) names) 1 st
         else set_variables H
           (zip names (read_values (shell_chars (ifs (sh_vars st))) (length names) (bytes_to_str line)))
           (if hit_eof then 1 else 0) st)"

subsection \<open>The command builtin and the dispatch by name\<close>

datatype builtin_command_action = Empty | Describe bool "ustring list" | Execute "ustring list"

fun command_options :: "bool option \<Rightarrow> ustring list \<Rightarrow> bool option \<times> ustring list" where
  "command_options verbose [] = (verbose, [])"
| "command_options verbose (a # as) =
     (if a = ustr ''-v'' then command_options (Some False) as
      else if a = ustr ''-V'' then command_options (Some True) as
      else if a = ustr ''-p'' then command_options verbose as
      else if a = ustr ''--'' then (verbose, as)
      else (verbose, a # as))"

definition command_action :: "ustring list \<Rightarrow> builtin_command_action" where
  "command_action args =
     (case command_options None (tl args) of
        (_, []) \<Rightarrow> Empty
      | (Some verbose, names) \<Rightarrow> Describe verbose names
      | (None, rest) \<Rightarrow> Execute rest)"

lemma command_options_length: "length (snd (command_options m as)) \<le> length as"
  by (induction m as rule: command_options.induct) auto

lemma command_action_shorter: "command_action args = Execute rest \<Longrightarrow> length rest < length args"
  using command_options_length [of None "tl args"]
  by (cases args) (auto simp: command_action_def split: prod.splits list.splits option.splits)

text \<open>A builtin that cannot fail.\<close>

definition plain_builtin :: "('w evaluator \<Rightarrow> exit_code \<times> 'w evaluator) \<Rightarrow> ('w, exit_code option) act" where
  "plain_builtin f st = (let (s, st') = f st in (Inr (Some s), st'))"

function try_builtin :: "'w host \<Rightarrow> ustring \<Rightarrow> ustring list \<Rightarrow> span \<Rightarrow> ('w, exit_code option) act" where
  "try_builtin H name args sp =
     (if name = ustr '':'' \<or> name = ustr ''true'' then ret (Some 0)
      else if name = ustr ''false'' then ret (Some 1)
      else if name = ustr ''echo'' then plain_builtin (builtin_echo H args)
      else if name = ustr ''exit'' then ebind (builtin_status_operand H name args) (\<lambda>code. fail (Exit code))
      else if name = ustr ''return'' then ebind (builtin_status_operand H name args) (\<lambda>code. fail (Return code))
      else if name = ustr ''break'' then builtin_loop_control H Break name args
      else if name = ustr ''continue'' then builtin_loop_control H Continue name args
      else if name = ustr ''export'' then plain_builtin (builtin_export H args)
      else if name = ustr ''readonly'' then plain_builtin (builtin_readonly H args)
      else if name = ustr ''unset'' then plain_builtin (builtin_unset H args)
      else if name = ustr ''set'' then plain_builtin (builtin_set H args)
      else if name = ustr ''shift'' then plain_builtin (builtin_shift H args)
      else if name = ustr ''test'' \<or> name = ustr ''['' then plain_builtin (builtin_test H args)
      else if name = ustr ''read'' then plain_builtin (builtin_read H args)
      else if name = ustr ''local'' then plain_builtin (builtin_local (tl args))
      else if name = ustr ''printf'' then plain_builtin (builtin_printf H args)
      else if name = ustr ''command'' then
        (case command_action args of
           Empty \<Rightarrow> ret (Some 0)
         | Describe verbose names \<Rightarrow> ebind (describe_commands H verbose names) (\<lambda>s. ret (Some s))
         | Execute new \<Rightarrow> (\<lambda>st.
             case parent_process_refusal H new st of
               Some m \<Rightarrow> (Inr (Some 2), err_msg H m st)
             | None \<Rightarrow>
                 ebind (check_command_policy H new sp) (\<lambda>_.
                 ebind (try_builtin H (hd new) new sp) (\<lambda>r st.
                   case r of
                     Some s \<Rightarrow> (Inr (Some s), st)
                   | None \<Rightarrow>
                       ebind (if has_external_handler H (hd new) st then call_external_handler H new []
                              else eval_external H new [] sp) (\<lambda>s. ret (Some s)) st)) st))
      else other_builtin H name args sp)"
  by pat_completeness auto
termination by (relation "measure (\<lambda>(H, name, args, sp). length args)") (auto dest: command_action_shorter)

declare try_builtin.simps [simp del]

end
