(* ===== verification/Eval.thy ===== *)
theory Eval
  imports Builtins
begin

text \<open>
  The evaluator (\<^verbatim>\<open>crates/epsh/src/eval.rs\<close>): lists, conditionals, loops, functions and simple
  commands.

  An evaluation that does not end has the value \<open>None\<close>, whatever fuel it is given; the fuel bounds
  the nesting of calls and the number of rounds of a loop.
\<close>

subsection \<open>Expansion\<close>

definition trim_newlines :: "ustring \<Rightarrow> ustring" where
  "trim_newlines s = rev (dropWhile (\<lambda>c. c = 10) (rev s))"

definition command_subst :: "'w host \<Rightarrow> command \<Rightarrow> ('w, ustring) act" where
  "command_subst H c st =
     (case run_substitution H c st of
        (Inl e, st') \<Rightarrow> (Inl e, st')
      | (Inr (raw, status), st') \<Rightarrow>
          (Inr (trim_newlines (bytes_to_str raw)),
           st'\<lparr>sh_exit_status := status, substitution_count := substitution_count st' + 1\<rparr>))"

definition expand_fields :: "'w host \<Rightarrow> command word_node \<Rightarrow> ('w, ustring list) act" where
  "expand_fields H w = expand_word_to_fields (\<lambda>st. files H (outside st)) (command_subst H) w"

definition expand_string :: "'w host \<Rightarrow> command word_node \<Rightarrow> ('w, ustring) act" where
  "expand_string H w = expand_word_to_string (command_subst H) w"

fun expand_args :: "'w host \<Rightarrow> command word_node list \<Rightarrow> ('w, ustring list) act" where
  "expand_args H [] = ret []"
| "expand_args H (w # ws) = ebind (expand_fields H w) (\<lambda>fs. ebind (expand_args H ws) (\<lambda>gs. ret (fs @ gs)))"

subsection \<open>Simple commands and functions\<close>

function dispatch_args :: "ustring list \<Rightarrow> ustring list" where
  "dispatch_args args =
     (if args \<noteq> [] \<and> hd args = ustr ''command'' then
        (case command_action args of Execute rest \<Rightarrow> dispatch_args rest | _ \<Rightarrow> args)
      else args)"
  by pat_completeness auto
termination by (relation "measure length") (auto dest: command_action_shorter)

declare dispatch_args.simps [simp del]

definition is_exec :: "ustring list \<Rightarrow> bool" where
  "is_exec args \<longleftrightarrow> (case dispatch_args args of [] \<Rightarrow> False | a # _ \<Rightarrow> a = ustr ''exec'')"

definition xtrace_prefix :: "'w evaluator \<Rightarrow> ustring" where
  "xtrace_prefix st = (case get_shell (sh_vars st) (ustr ''PS4'') of Some p \<Rightarrow> p | None \<Rightarrow> ustr ''+ '')"

definition push_trace :: "ustring \<Rightarrow> ustring \<Rightarrow> ustring" where
  "push_trace trace item = (if trace \<noteq> [] \<and> last trace = 32 then trace else trace @ [32]) @ item"

fun run_assigns :: "'w host \<Rightarrow> span \<Rightarrow> command assignment list \<Rightarrow> ustring \<Rightarrow> ('w, ustring) act" where
  "run_assigns H sp [] trace = ret trace"
| "run_assigns H sp (a # as) trace =
     ebind (expand_string H (assign_value a)) (\<lambda>v st.
       let trace = (if xtrace st then push_trace trace (assign_name a @ [61] @ v) else trace)
       in case set_shell (sh_vars st) (assign_name a) v of
            Inl m \<Rightarrow> (Inl (Runtime (Msg m) sp), st)
          | Inr vs \<Rightarrow> run_assigns H sp as trace (st\<lparr>sh_vars := vs\<rparr>))"

definition write_trace :: "'w host \<Rightarrow> ustring \<Rightarrow> 'w evaluator \<Rightarrow> 'w evaluator" where
  "write_trace H trace st = st\<lparr>outside := write_err H (trace @ [10]) (outside st)\<rparr>"

text \<open>A command without command words: its assignments are made in the shell.\<close>

definition eval_assignments ::
  "'w host \<Rightarrow> command assignment list \<Rightarrow> command redir list \<Rightarrow> span \<Rightarrow> u64 \<Rightarrow> ('w, exit_code) act" where
  "eval_assignments H asgs redirs sp before =
     ebind (setup_redirections H redirs) (\<lambda>saved st.
       let (r, st) = ebind (run_assigns H sp asgs (xtrace_prefix st)) (\<lambda>trace st.
             let st = (if xtrace st \<and> asgs \<noteq> [] then write_trace H trace st else st)
             in (Inr (if substitution_count st = before then 0 else sh_exit_status st), st)) st
       in finish_redirections H False saved r st)"

text \<open>The trace of a command expands the values of the assignments once more; an error is dropped.\<close>

fun trace_assigns :: "'w host \<Rightarrow> command assignment list \<Rightarrow> ustring \<Rightarrow> 'w evaluator \<Rightarrow> ustring \<times> 'w evaluator" where
  "trace_assigns H [] trace st = (trace, st)"
| "trace_assigns H (a # as) trace st =
     (case expand_string H (assign_value a) st of
        (Inl _, st) \<Rightarrow> trace_assigns H as trace st
      | (Inr v, st) \<Rightarrow> trace_assigns H as (push_trace trace (assign_name a @ [61] @ v)) st)"

definition trace_command :: "'w host \<Rightarrow> command assignment list \<Rightarrow> ustring list \<Rightarrow> 'w evaluator \<Rightarrow> 'w evaluator" where
  "trace_command H asgs args st =
     (if xtrace st then
        let (trace, st) = trace_assigns H asgs (xtrace_prefix st) st
        in write_trace H (fold (\<lambda>a t. push_trace t a) args trace) st
      else st)"

fun local_assigns :: "'w host \<Rightarrow> command assignment list \<Rightarrow> ('w, unit) act" where
  "local_assigns H [] = ret ()"
| "local_assigns H (a # as) =
     ebind (expand_string H (assign_value a)) (\<lambda>v st.
       let vs = make_local (sh_vars st) (assign_name a)
       in local_assigns H as (st\<lparr>sh_vars := or_else (set_shell vs (assign_name a) v) vs\<rparr>))"

definition catch_return :: "error + exit_code \<Rightarrow> error + exit_code" where
  "catch_return r = (case r of Inl (Return n) \<Rightarrow> Inr n | _ \<Rightarrow> r)"

definition enter_function :: "ustring list \<Rightarrow> 'w evaluator \<Rightarrow> 'w evaluator" where
  "enter_function args st =
     st\<lparr>sh_vars := push_scope ((sh_vars st)\<lparr>positional := map from_str_lossless (tl args)\<rparr>)\<rparr>"

definition leave_function :: "shell_bytes list \<Rightarrow> 'w evaluator \<Rightarrow> 'w evaluator" where
  "leave_function saved st = st\<lparr>sh_vars := (pop_scope (sh_vars st))\<lparr>positional := saved\<rparr>\<rparr>"

definition eval_function :: "'w host \<Rightarrow> (command \<Rightarrow> ('w, exit_code) ev) \<Rightarrow> command \<Rightarrow> ustring list \<Rightarrow>
    command assignment list \<Rightarrow> ('w, exit_code) ev" where
  "eval_function H self body args asgs st =
     (let saved = positional (sh_vars st) in
      vbind (lift_act (local_assigns H asgs)) (\<lambda>_.
      vbind (lift_act (setup_redirections H [])) (\<lambda>saved_fds st.
        case self body st of
          None \<Rightarrow> None
        | Some (r, st) \<Rightarrow>
            (case finish_redirections H False saved_fds (catch_return r) st of
               (r, st) \<Rightarrow> Some (r, leave_function saved st))))
      (enter_function args st))"

definition dispatch :: "'w host \<Rightarrow> (command \<Rightarrow> ('w, exit_code) ev) \<Rightarrow> ustring list \<Rightarrow>
    command assignment list \<Rightarrow> span \<Rightarrow> ('w, exit_code) ev" where
  "dispatch H self args asgs sp st =
     (case try_builtin H (hd args) args sp st of
        (Inl e, st) \<Rightarrow> Some (Inl e, st)
      | (Inr (Some s), st) \<Rightarrow> Some (Inr s, st)
      | (Inr None, st) \<Rightarrow>
          (case sh_functions st (hd args) of
             Some body \<Rightarrow> eval_function H self body args asgs (st\<lparr>ev_exit := False\<rparr>)
           | None \<Rightarrow>
               Some (if has_external_handler H (hd args) st then call_external_handler H args asgs st
                     else eval_external H args asgs sp st)))"

text \<open>A command with command words, after their expansion.\<close>

definition run_command :: "'w host \<Rightarrow> (command \<Rightarrow> ('w, exit_code) ev) \<Rightarrow> command assignment list \<Rightarrow>
    command redir list \<Rightarrow> span \<Rightarrow> ustring list \<Rightarrow> ('w, exit_code) ev" where
  "run_command H self asgs redirs sp args =
     vbind (lift_act (check_command_policy H args sp)) (\<lambda>_.
     vbind (lift_act (preflight_external H args)) (\<lambda>_.
     vbind (lift_act (preflight_redirects H redirs)) (\<lambda>_.
     modify (trace_command H asgs args) (
     vbind (lift_act (setup_redirections H redirs)) (\<lambda>saved st.
       case dispatch H self args asgs sp st of
         None \<Rightarrow> None
       | Some (r, st) \<Rightarrow> Some (finish_redirections H (is_exec args) saved r st))))))"

definition eval_simple :: "'w host \<Rightarrow> (command \<Rightarrow> ('w, exit_code) ev) \<Rightarrow> command assignment list \<Rightarrow>
    command word_node list \<Rightarrow> command redir list \<Rightarrow> span \<Rightarrow> ('w, exit_code) ev" where
  "eval_simple H self asgs args redirs sp st0 =
     vbind (lift_act (expand_args H args)) (\<lambda>args.
       if args = [] then lift_act (eval_assignments H asgs redirs sp (substitution_count st0))
       else (\<lambda>st. case parent_process_refusal H args st of
           Some m \<Rightarrow> Some (Inr 2, err_msg H m st)
         | None \<Rightarrow> run_command H self asgs redirs sp args st)) st0"

subsection \<open>Commands\<close>

text \<open>A condition is evaluated with \<^verbatim>\<open>tested\<close> set; the flag is set back after a result, not after an
  error, which the \<^verbatim>\<open>?\<close> of the code returns at once.\<close>

definition eval_tested :: "(command \<Rightarrow> ('w, exit_code) ev) \<Rightarrow> command \<Rightarrow> ('w, exit_code) ev" where
  "eval_tested self c st =
     vbind (self c) (\<lambda>s st'. Some (Inr s, st'\<lparr>tested := tested st, sh_exit_status := s\<rparr>)) (st\<lparr>tested := True\<rparr>)"

text \<open>What a loop does with the outcome of its body: go on with a status, end, or return an error.\<close>

datatype loop_step = Again "exit_code option" | Leave | Raise error

fun loop_outcome :: "error + exit_code \<Rightarrow> loop_step" where
  "loop_outcome (Inr s) = Again (Some s)"
| "loop_outcome (Inl (Break n)) = (if n = 1 then Leave else if n > 1 then Raise (Break (n - 1)) else Raise (Break n))"
| "loop_outcome (Inl (Continue n)) =
     (if n = 1 then Again None else if n > 1 then Raise (Continue (n - 1)) else Raise (Continue n))"
| "loop_outcome (Inl e) = Raise e"

definition end_loop :: "'w evaluator \<Rightarrow> 'w evaluator" where
  "end_loop st = st\<lparr>loop_depth := loop_depth st - 1\<rparr>"

definition new_status :: "exit_code \<Rightarrow> exit_code option \<Rightarrow> exit_code" where
  "new_status last_status s = (case s of Some s \<Rightarrow> s | None \<Rightarrow> last_status)"

text \<open>The loops of \<^verbatim>\<open>while\<close> (\<open>go_on\<close> is true) and \<^verbatim>\<open>until\<close> (\<open>go_on\<close> is false).\<close>

fun while_loop :: "nat \<Rightarrow> 'w host \<Rightarrow> (command \<Rightarrow> ('w, exit_code) ev) \<Rightarrow> bool \<Rightarrow> command \<Rightarrow> command \<Rightarrow>
    exit_code \<Rightarrow> ('w, exit_code) ev" where
  "while_loop 0 H self go_on cond body last_status st = None"
| "while_loop (Suc n) H self go_on cond body last_status st =
     vbind (lift_act (check_cancel H)) (\<lambda>_.
     vbind (eval_tested self cond) (\<lambda>s st.
       if exit_success s \<noteq> go_on then Some (Inr last_status, end_loop st)
       else case self body st of
         None \<Rightarrow> None
       | Some (r, st) \<Rightarrow>
           (case loop_outcome r of
              Again s \<Rightarrow> while_loop n H self go_on cond body (new_status last_status s) st
            | Leave \<Rightarrow> Some (Inr last_status, end_loop st)
            | Raise e \<Rightarrow> Some (Inl e, end_loop st)))) st"

text \<open>A loop variable that is read-only ends \<^verbatim>\<open>for\<close> at once, with the depth of loops as it is.\<close>

fun for_loop :: "'w host \<Rightarrow> (command \<Rightarrow> ('w, exit_code) ev) \<Rightarrow> ustring \<Rightarrow> command \<Rightarrow> ustring list \<Rightarrow>
    exit_code \<Rightarrow> ('w, exit_code) ev" where
  "for_loop H self var body [] last_status st = Some (Inr last_status, end_loop st)"
| "for_loop H self var body (v # vs) last_status st =
     vbind (lift_act (check_cancel H)) (\<lambda>_ st.
       case set_shell (sh_vars st) var v of
         Inl m \<Rightarrow> Some (Inr 1, err_msg H m st)
       | Inr vars' \<Rightarrow>
           (case self body (st\<lparr>sh_vars := vars'\<rparr>) of
              None \<Rightarrow> None
            | Some (r, st) \<Rightarrow>
                (case loop_outcome r of
                   Again s \<Rightarrow> for_loop H self var body vs (new_status last_status s) st
                 | Leave \<Rightarrow> Some (Inr last_status, end_loop st)
                 | Raise e \<Rightarrow> Some (Inl e, end_loop st)))) st"

definition for_words :: "'w host \<Rightarrow> command word_node list option \<Rightarrow> ('w, ustring list) act" where
  "for_words H ws = (case ws of Some ws \<Rightarrow> expand_args H ws | None \<Rightarrow> asks (\<lambda>st. positional_shell_strings (sh_vars st)))"

fun match_patterns :: "'w host \<Rightarrow> ustring \<Rightarrow> command word_node list \<Rightarrow> ('w, bool) act" where
  "match_patterns H t [] = ret False"
| "match_patterns H t (p # ps) =
     ebind (expand_pattern (command_subst H) (parts p)) (\<lambda>pat.
       if fnmatch_shell pat t then ret True else match_patterns H t ps)"

fun case_arms :: "'w host \<Rightarrow> (command \<Rightarrow> ('w, exit_code) ev) \<Rightarrow> ustring \<Rightarrow> command case_arm list \<Rightarrow> ('w, exit_code) ev" where
  "case_arms H self t [] = lift_act (ret 0)"
| "case_arms H self t (a # as) =
     vbind (lift_act (match_patterns H t (arm_patterns a))) (\<lambda>m.
       if m then (case arm_body a of Some body \<Rightarrow> self body | None \<Rightarrow> lift_act (ret 0))
       else case_arms H self t as)"

definition invert :: "error + exit_code \<Rightarrow> error + exit_code" where
  "invert r = map_sum id exit_inverted r"

definition eval_pipeline :: "'w host \<Rightarrow> (command \<Rightarrow> ('w, exit_code) ev) \<Rightarrow> command list \<Rightarrow> ('w, exit_code) ev" where
  "eval_pipeline H self cs =
     vbind (lift_act (ensure_terminal H)) (\<lambda>_.
       if length cs = 1 then self (hd cs) else lift_act (fork_pipeline H cs))"

definition begin_loop :: "'w evaluator \<Rightarrow> 'w evaluator" where
  "begin_loop st = st\<lparr>loop_depth := loop_depth st + 1\<rparr>"

definition is_simple :: "command \<Rightarrow> bool" where
  "is_simple c \<longleftrightarrow> (case c of Simple _ _ _ _ \<Rightarrow> True | _ \<Rightarrow> False)"

definition eval_command_inner :: "nat \<Rightarrow> 'w host \<Rightarrow> (command \<Rightarrow> ('w, exit_code) ev) \<Rightarrow> command \<Rightarrow> ('w, exit_code) ev" where
  "eval_command_inner fuel H self c =
     modify (\<lambda>st. if is_simple c then st else st\<lparr>ev_exit := False\<rparr>)
     (case c of
        Simple asgs args redirs sp \<Rightarrow> eval_simple H self asgs args redirs sp
      | Pipeline cs bang sp \<Rightarrow> (\<lambda>st.
          let st1 = st\<lparr>tested := tested st \<or> bang,
                pipeline_depth := (if length cs > 1 \<or> \<not> bang then pipeline_depth st + 1 else pipeline_depth st)\<rparr>
          in case eval_pipeline H self cs st1 of
            None \<Rightarrow> None
          | Some (r, st') \<Rightarrow>
              Some (if bang then invert r else r, st'\<lparr>pipeline_depth := pipeline_depth st, tested := tested st\<rparr>))
      | AndList a b \<Rightarrow> vbind (eval_tested self a) (\<lambda>s. if exit_success s then self b else lift_act (ret s))
      | OrList a b \<Rightarrow> vbind (eval_tested self a) (\<lambda>s. if \<not> exit_success s then self b else lift_act (ret s))
      | Sequence a b \<Rightarrow> vbind (self a) (\<lambda>s. modify (\<lambda>st. st\<lparr>sh_exit_status := s\<rparr>) (self b))
      | Subshell body redirs sp \<Rightarrow> lift_act (eval_in_subshell H body redirs)
      | BraceGroup body redirs sp \<Rightarrow>
          vbind (lift_act (setup_redirections H redirs)) (\<lambda>saved st.
            case self body st of None \<Rightarrow> None | Some (r, st) \<Rightarrow> Some (finish_redirections H False saved r st))
      | If cond then_part else_part sp \<Rightarrow>
          vbind (eval_tested self cond) (\<lambda>s.
            if exit_success s then self then_part
            else (case else_part of Some c \<Rightarrow> self c | None \<Rightarrow> lift_act (ret 0)))
      | While cond body sp \<Rightarrow> modify begin_loop (while_loop fuel H self True cond body 0)
      | Until cond body sp \<Rightarrow> modify begin_loop (while_loop fuel H self False cond body 0)
      | For var ws body sp \<Rightarrow>
          vbind (lift_act (for_words H ws)) (\<lambda>vs. modify begin_loop (for_loop H self var body vs 0))
      | Case w arms sp \<Rightarrow>
          vbind (lift_act (expand_string H w)) (\<lambda>t. case_arms H self (remove_glob_escapes t) arms)
      | FuncDef name body sp \<Rightarrow> (\<lambda>st. Some (Inr 0, st\<lparr>sh_functions := (sh_functions st)(name \<mapsto> body)\<rparr>))
      | NotCommand c \<Rightarrow> (\<lambda>st.
          case self c (st\<lparr>tested := True\<rparr>) of
            None \<Rightarrow> None | Some (r, st') \<Rightarrow> Some (invert r, st'\<lparr>tested := tested st\<rparr>))
      | Background c redirs \<Rightarrow> lift_act (eval_background H c redirs))"

fun is_leaf :: "command \<Rightarrow> bool" where
  "is_leaf (Simple _ _ _ _) = True"
| "is_leaf (Pipeline _ _ _) = True"
| "is_leaf (Subshell _ _ _) = True"
| "is_leaf (Background _ _) = True"
| "is_leaf _ = False"

fun is_bang :: "command \<Rightarrow> bool" where
  "is_bang (Pipeline _ bang _) = bang"
| "is_bang _ = False"

fun empty_pipeline :: "command \<Rightarrow> span option" where
  "empty_pipeline (Pipeline [] _ sp) = Some sp"
| "empty_pipeline _ = None"

definition after_command :: "command \<Rightarrow> exit_code \<Rightarrow> ('w, exit_code) ev" where
  "after_command c s st =
     (let st = st\<lparr>sh_exit_status := s\<rparr>
      in Some (if errexit st \<and> is_leaf c \<and> \<not> tested st \<and> \<not> is_bang c \<and> \<not> exit_success s then Inl (Exit s) else Inr s, st))"

definition eval_step :: "nat \<Rightarrow> 'w host \<Rightarrow> (command \<Rightarrow> ('w, exit_code) ev) \<Rightarrow> command \<Rightarrow> ('w, exit_code) ev" where
  "eval_step fuel H self c st =
     (case empty_pipeline c of
        Some sp \<Rightarrow> Some (Inl (Runtime (Msg (ustr ''empty pipeline'')) sp), st)
      | None \<Rightarrow>
          vbind (lift_act (check_cancel H)) (\<lambda>_ st.
            if noexec st then Some (Inr 0, st)
            else vbind (eval_command_inner fuel H self c) (after_command c) st) st)"

fun eval_command :: "nat \<Rightarrow> 'w host \<Rightarrow> command \<Rightarrow> ('w, exit_code) ev" where
  "eval_command 0 H c st = None"
| "eval_command (Suc fuel) H c st = eval_step fuel H (eval_command fuel H) c st"

end
