(* ===== verification/Eval_Laws.thy ===== *)
theory Eval_Laws
  imports Eval
begin

text \<open>
  The laws of the evaluator of \<open>Eval\<close>: the result does not depend on the fuel, the relations
  every command respects, what functions, loops and \<^verbatim>\<open>set -e\<close> do.
\<close>

subsection \<open>More fuel\<close>

text \<open>One computation extends another when it gives the same result wherever the other has one.\<close>

definition extends :: "('w, 'a) ev \<Rightarrow> ('w, 'a) ev \<Rightarrow> bool" where
  "extends f g \<longleftrightarrow> (\<forall>st r. f st = Some r \<longrightarrow> g st = Some r)"

lemma extendsD: "extends f g \<Longrightarrow> f st = Some r \<Longrightarrow> g st = Some r"
  unfolding extends_def by blast

named_theorems extends_rules \<open>how the combinators of the evaluator extend\<close>

lemma extends_refl [extends_rules]: "extends f f"
  by (simp add: extends_def)

lemma extends_vbind [extends_rules]:
  "extends f g \<Longrightarrow> (\<And>x. extends (h x) (k x)) \<Longrightarrow> extends (vbind f h) (vbind g k)"
  unfolding extends_def vbind_def by (fastforce split: option.splits sum.splits)

lemma extends_modify [extends_rules]: "extends f g \<Longrightarrow> extends (modify m f) (modify m g)"
  by (simp add: extends_def modify_def)

lemma extends_after [extends_rules]:
  "extends f g \<Longrightarrow> (\<And>r. extends (h r) (k r)) \<Longrightarrow>
     extends (\<lambda>st. case f (m st) of None \<Rightarrow> None | Some (r, st') \<Rightarrow> h r st')
       (\<lambda>st. case g (m st) of None \<Rightarrow> None | Some (r, st') \<Rightarrow> k r st')"
  unfolding extends_def by (fastforce split: option.splits)

lemma extends_next [extends_rules]:
  "extends f g \<Longrightarrow> (\<And>r. extends (h r) (k r)) \<Longrightarrow>
     extends (\<lambda>st. case f st of None \<Rightarrow> None | Some (r, st') \<Rightarrow> h r st')
       (\<lambda>st. case g st of None \<Rightarrow> None | Some (r, st') \<Rightarrow> k r st')"
  by (rule extends_after [where m = "\<lambda>st. st"])

lemma extends_if [extends_rules]:
  "extends f g \<Longrightarrow> extends f' g' \<Longrightarrow> extends (\<lambda>st. if P st then f st else f' st) (\<lambda>st. if P st then g st else g' st)"
  by (simp add: extends_def)

lemma extends_set [extends_rules]:
  "(\<And>x. extends (f x) (g x)) \<Longrightarrow>
     extends (\<lambda>st. case a st of Inl m \<Rightarrow> h m st | Inr x \<Rightarrow> f x st) (\<lambda>st. case a st of Inl m \<Rightarrow> h m st | Inr x \<Rightarrow> g x st)"
  by (simp add: extends_def split: sum.split)

lemma eval_tested_alt:
  "eval_tested self c = (\<lambda>st. modify (\<lambda>st. st\<lparr>tested := True\<rparr>)
     (vbind (self c) (\<lambda>s st'. Some (Inr s, st'\<lparr>tested := tested st, sh_exit_status := s\<rparr>))) st)"
  by (simp add: fun_eq_iff eval_tested_def modify_def)

lemma extends_pointwise: "(\<And>x. extends (f x) (g x)) \<Longrightarrow> extends (\<lambda>st. f st st) (\<lambda>st. g st st)"
  by (simp add: extends_def)

lemma extends_tested [extends_rules]: "extends (f c) (g c) \<Longrightarrow> extends (eval_tested f c) (eval_tested g c)"
  unfolding eval_tested_alt by (rule extends_pointwise) (intro extends_rules)

lemma extends_outcome:
  "(\<And>s. extends (f s) (g s)) \<Longrightarrow>
     extends (\<lambda>st. case loop_outcome r of Again s \<Rightarrow> f s st | Leave \<Rightarrow> h st | Raise e \<Rightarrow> k e st)
       (\<lambda>st. case loop_outcome r of Again s \<Rightarrow> g s st | Leave \<Rightarrow> h st | Raise e \<Rightarrow> k e st)"
  by (simp add: extends_def split: loop_step.split)

lemma while_loop_Suc:
  "while_loop (Suc n) H self go_on cond body last_status =
     vbind (lift_act (check_cancel H)) (\<lambda>_. vbind (eval_tested self cond) (\<lambda>s st.
       if exit_success s \<noteq> go_on then Some (Inr last_status, end_loop st)
       else case self body st of None \<Rightarrow> None | Some (r, st) \<Rightarrow>
         (case loop_outcome r of
            Again s \<Rightarrow> while_loop n H self go_on cond body (new_status last_status s) st
          | Leave \<Rightarrow> Some (Inr last_status, end_loop st)
          | Raise e \<Rightarrow> Some (Inl e, end_loop st))))"
  by (rule ext) simp

lemma for_loop_Cons:
  "for_loop H self var body (v # vs) last_status =
     vbind (lift_act (check_cancel H)) (\<lambda>_ st.
       case set_shell (sh_vars st) var v of
         Inl m \<Rightarrow> Some (Inr 1, err_msg H m st)
       | Inr vars' \<Rightarrow>
           (case self body (st\<lparr>sh_vars := vars'\<rparr>) of None \<Rightarrow> None | Some (r, st) \<Rightarrow>
              (case loop_outcome r of
                 Again s \<Rightarrow> for_loop H self var body vs (new_status last_status s) st
               | Leave \<Rightarrow> Some (Inr last_status, end_loop st)
               | Raise e \<Rightarrow> Some (Inl e, end_loop st))))"
  by (rule ext) simp

lemma extends_while:
  assumes "\<And>c. extends (f c) (g c)"
  shows "n \<le> m \<Longrightarrow> extends (while_loop n H f go_on cond body s) (while_loop m H g go_on cond body s)"
proof (induction n arbitrary: m s)
  case (Suc n)
  then obtain k where k: "m = Suc k" "n \<le> k" by (cases m) auto
  show ?case
    unfolding k(1) while_loop_Suc by (intro extends_rules extends_outcome assms Suc.IH k(2))
qed (simp add: extends_def)

lemma extends_for:
  assumes "\<And>c. extends (f c) (g c)"
  shows "extends (for_loop H f var body vs s) (for_loop H g var body vs s)"
proof (induction vs arbitrary: s)
  case (Cons v vs)
  then show ?case
    unfolding for_loop_Cons by (intro extends_rules extends_outcome assms)
qed (simp add: extends_def)

lemma extends_arms:
  assumes "\<And>c. extends (f c) (g c)"
  shows "extends (case_arms H f t arms) (case_arms H g t arms)"
  by (induction arms) (auto intro!: extends_rules assms split: option.split)

lemma extends_function:
  assumes "\<And>c. extends (f c) (g c)"
  shows "extends (eval_function H f body args asgs) (eval_function H g body args asgs)"
proof -
  have "f body st = Some r \<Longrightarrow> g body st = Some r" for st r using assms by (rule extendsD)
  then show ?thesis unfolding extends_def eval_function_def Let_def vbind_def lift_act_def
    by (fastforce split: option.splits sum.splits prod.splits)
qed

lemma extends_simple:
  assumes "\<And>c. extends (f c) (g c)"
  shows "extends (eval_simple H f asgs args redirs sp) (eval_simple H g asgs args redirs sp)"
proof -
  have fn: "eval_function H f body args' asgs st = Some r \<Longrightarrow> eval_function H g body args' asgs st = Some r" for body args' st r
    using extends_function [of f g, OF assms] by (rule extendsD)
  have d: "dispatch H f args' asgs sp st = Some r \<Longrightarrow> dispatch H g args' asgs sp st = Some r" for args' st r
    unfolding dispatch_def by (auto intro: fn split: prod.splits sum.splits option.splits)
  have run: "extends (\<lambda>st. case dispatch H f args' asgs sp st of None \<Rightarrow> None
        | Some (r, st) \<Rightarrow> Some (finish_redirections H (is_exec args') saved r st))
      (\<lambda>st. case dispatch H g args' asgs sp st of None \<Rightarrow> None
        | Some (r, st) \<Rightarrow> Some (finish_redirections H (is_exec args') saved r st))" for args' saved
    using d unfolding extends_def by (fastforce split: option.splits)
  have "extends (run_command H f asgs redirs sp args') (run_command H g asgs redirs sp args')" for args'
    unfolding run_command_def by (intro extends_rules run)
  then have "run_command H f asgs redirs sp args' st = Some r \<Longrightarrow> run_command H g asgs redirs sp args' st = Some r" for args' st r
    by (rule extendsD)
  then show ?thesis unfolding extends_def eval_simple_def vbind_def lift_act_def
    by (auto split: option.splits sum.splits prod.splits if_splits)
qed

lemma extends_inner:
  assumes "\<And>c. extends (f c) (g c)" "n \<le> m"
  shows "extends (eval_command_inner n H f c) (eval_command_inner m H g c)"
proof -
  have fg: "f c st = Some r \<Longrightarrow> g c st = Some r" for c st r using assms(1) by (rule extendsD)
  have pipe: "eval_pipeline H f cs st = Some r \<Longrightarrow> eval_pipeline H g cs st = Some r" for cs st r
    unfolding eval_pipeline_def vbind_def lift_act_def by (auto intro: fg split: sum.splits prod.splits if_splits)
  note rules = extends_rules assms(1) extends_while [OF assms] extends_for [OF assms(1)] extends_arms [OF assms(1)]
    extends_simple [OF assms(1)]
  show ?thesis
    unfolding eval_command_inner_def
    by (cases c) (auto intro!: rules split: option.split, auto simp: extends_def Let_def fg pipe split: option.splits)
qed

lemma eval_command_extends: "n \<le> m \<Longrightarrow> extends (eval_command n H c) (eval_command m H c)"
proof (induction n arbitrary: m c)
  case (Suc n)
  then obtain k where k: "m = Suc k" "n \<le> k" by (cases m) auto
  have "extends (eval_command_inner n H (eval_command n H) c) (eval_command_inner k H (eval_command k H) c)"
    using Suc.IH k(2) by (intro extends_inner) auto
  then show ?case
    unfolding extends_def k(1) eval_command.simps eval_step_def vbind_def lift_act_def
    by (fastforce split: option.splits sum.splits prod.splits if_splits)
qed (simp add: extends_def)

subsection \<open>What a command may change\<close>

text \<open>The fields of the state that control flow depends on.\<close>

definition same_control :: "'w evaluator \<Rightarrow> 'w evaluator \<Rightarrow> bool" where
  "same_control a b \<longleftrightarrow> sh_vars a = sh_vars b \<and> sh_functions a = sh_functions b \<and>
     loop_depth a = loop_depth b \<and> tested a = tested b"

lemma same_control_simps [simp]:
  "same_control st (st\<lparr>sh_exit_status := s\<rparr>)" "same_control st (st\<lparr>ev_exit := b\<rparr>)"
  "same_control st (st\<lparr>outside := w\<rparr>)" "same_control st (st\<lparr>pipeline_depth := d\<rparr>)"
  "same_control st (st\<lparr>sh_exit_status := s, substitution_count := k\<rparr>)"
  "same_control st (err_msg H m st)" "same_control st (write_trace H m st)" "same_control st (write_out H m st)"
  "same_control st (st\<lparr>errexit := b\<rparr>)" "same_control st (st\<lparr>sh_nounset := b\<rparr>)" "same_control st (st\<lparr>xtrace := b\<rparr>)"
  "same_control st (st\<lparr>sh_noglob := b\<rparr>)" "same_control st (st\<lparr>noexec := b\<rparr>)" "same_control st (st\<lparr>pipefail := b\<rparr>)"
  by (simp_all add: same_control_def err_msg_def write_trace_def write_out_def Let_def)

text \<open>What the operations of the host are asked to respect.  The end of the redirections takes the
  result of the command and may turn it into an error.\<close>

definition host_keeps :: "('w evaluator \<Rightarrow> error option \<Rightarrow> 'w evaluator \<Rightarrow> bool) \<Rightarrow> 'w host \<Rightarrow> bool" where
  "host_keeps Q H \<longleftrightarrow>
     keeps Q (check_cancel H) \<and> keeps Q (ensure_terminal H) \<and> (\<forall>c. keeps Q (run_substitution H c)) \<and>
     (\<forall>rs. keeps Q (setup_redirections H rs)) \<and>
     (\<forall>b k r st st'. Q st (error_of r) st' \<longrightarrow>
        Q st (error_of (fst (finish_redirections H b k r st'))) (snd (finish_redirections H b k r st'))) \<and>
     (\<forall>as sp. keeps Q (check_command_policy H as sp)) \<and> (\<forall>as. keeps Q (preflight_external H as)) \<and>
     (\<forall>rs. keeps Q (preflight_redirects H rs)) \<and> (\<forall>n as sp. keeps Q (other_builtin H n as sp)) \<and>
     (\<forall>as gs. keeps Q (call_external_handler H as gs)) \<and> (\<forall>as gs sp. keeps Q (eval_external H as gs sp)) \<and>
     (\<forall>v ns. keeps Q (describe_commands H v ns)) \<and> (\<forall>cs. keeps Q (fork_pipeline H cs)) \<and> (\<forall>c rs. keeps Q (eval_in_subshell H c rs)) \<and>
     (\<forall>c rs. keeps Q (eval_background H c rs))"

lemma finish_keeps:
  "host_keeps Q H \<Longrightarrow> Q st (error_of r) st' \<Longrightarrow> finish_redirections H b k r st' = (r', st'') \<Longrightarrow>
     Q st (error_of r') st''"
  unfolding host_keeps_def by (metis fst_conv snd_conv)

definition keeps_ev :: "('w evaluator \<Rightarrow> error option \<Rightarrow> 'w evaluator \<Rightarrow> bool) \<Rightarrow> ('w, 'a) ev \<Rightarrow> bool" where
  "keeps_ev Q m \<longleftrightarrow> (\<forall>st r st'. m st = Some (r, st') \<longrightarrow> Q st (error_of r) st')"

lemma keeps_evD: "keeps_ev Q m \<Longrightarrow> m st = Some (r, st') \<Longrightarrow> Q st (error_of r) st'"
  unfolding keeps_ev_def by blast

lemma keeps_evI: "(\<And>st r st'. m st = Some (r, st') \<Longrightarrow> Q st (error_of r) st') \<Longrightarrow> keeps_ev Q m"
  unfolding keeps_ev_def by blast

text \<open>The commands a command may evaluate itself, function bodies apart.\<close>

fun subcommands :: "command \<Rightarrow> command list" where
  "subcommands (Simple _ _ _ _) = []"
| "subcommands (Pipeline cs _ _) = cs"
| "subcommands (AndList a b) = [a, b]"
| "subcommands (OrList a b) = [a, b]"
| "subcommands (Sequence a b) = [a, b]"
| "subcommands (Subshell _ _ _) = []"
| "subcommands (BraceGroup b _ _) = [b]"
| "subcommands (If c t e _) = c # t # (case e of None \<Rightarrow> [] | Some e \<Rightarrow> [e])"
| "subcommands (While c b _) = [c, b]"
| "subcommands (Until c b _) = [c, b]"
| "subcommands (For _ _ b _) = [b]"
| "subcommands (Case _ arms _) = concat (map (\<lambda>a. case arm_body a of None \<Rightarrow> [] | Some b \<Rightarrow> [b]) arms)"
| "subcommands (FuncDef _ _ _) = []"
| "subcommands (NotCommand c) = [c]"
| "subcommands (Background _ _) = []"

locale command_relation = state_relation Q
  for Q :: "'w evaluator \<Rightarrow> error option \<Rightarrow> 'w evaluator \<Rightarrow> bool" +
  fixes allowed :: "command \<Rightarrow> bool"
  assumes allowed_sub: "allowed cmd \<Longrightarrow> d \<in> set (subcommands cmd) \<Longrightarrow> allowed d"
    and Q_same: "Q st e st' \<Longrightarrow> same_control st' st'' \<Longrightarrow> Q st e st''"
    and Q_exit: "Q st (Some (Exit s)) st"
    and Q_return: "Q st (Some (Return s)) st"
    and Q_leave: "0 < k \<Longrightarrow> k \<le> loop_depth st \<Longrightarrow> Q st (Some (Break k)) st \<and> Q st (Some (Continue k)) st"
    and Q_drop: "Q st e st' \<Longrightarrow> Q st None st'"
    and Q_tested: "tested st \<longrightarrow> t \<Longrightarrow> Q (st\<lparr>tested := t\<rparr>) e st' \<Longrightarrow> Q st e (st'\<lparr>tested := tested st\<rparr>)"
    and Q_tested_error: "Q (st\<lparr>tested := True\<rparr>) (Some err) st' \<Longrightarrow> Q st (Some err) st'"
    and Q_loop: "Q (begin_loop st) (error_of r) st' \<Longrightarrow>
      (case loop_outcome r of Again _ \<Rightarrow> Q (begin_loop st) None st' | Leave \<Rightarrow> Q st None (end_loop st')
       | Raise err \<Rightarrow> Q st (Some err) (end_loop st'))"
    and Q_end_loop: "Q (begin_loop st) None st' \<Longrightarrow> Q st None (end_loop st')"
    and Q_loop_leak: "Q (begin_loop st) e st' \<Longrightarrow> Q st e st'"
    and Q_call: "Q (enter_function args st) e st' \<Longrightarrow> Q st e (leave_function (positional (sh_vars st)) st')"
    and Q_call_error: "Q (enter_function args st) (Some err) st' \<Longrightarrow> Q st (Some err) st'"
    and Q_op: "op \<noteq> OpPush \<Longrightarrow> op \<noteq> OpPop \<Longrightarrow> Q st None (st\<lparr>sh_vars := apply_op op (sh_vars st)\<rparr>)"
    and Q_positional: "Q st None (st\<lparr>sh_vars := (sh_vars st)\<lparr>positional := ps\<rparr>\<rparr>)"
    and Q_unset_function: "Q st None (st\<lparr>sh_functions := (sh_functions st)(f := None)\<rparr>)"
    and Q_funcdef: "allowed (FuncDef f body fsp) \<Longrightarrow> Q st None (st\<lparr>sh_functions := (sh_functions st)(f \<mapsto> body)\<rparr>)"
    and Q_body: "sh_functions st f = Some body \<Longrightarrow> allowed body \<or> Q st e st'"
begin

lemma Q_control: "same_control a b \<Longrightarrow> Q a None b"
  by (rule Q_same [OF R_refl])

lemma Q_status: "Q st None (st\<lparr>sh_exit_status := s\<rparr>)"
  by (rule Q_control) simp

lemma Q_flag: "Q st None (if p then st else st\<lparr>ev_exit := False\<rparr>)"
  using Q_control [of st "st\<lparr>ev_exit := False\<rparr>"] R_refl by simp

lemma Q_set: "set_shell (sh_vars st) x v = Inr vs \<Longrightarrow> Q st None (st\<lparr>sh_vars := vs\<rparr>)"
  using keepsD [OF R_assign, of x v st] by (simp add: assign_var_def)

lemma Q_put: "Q st None (put_var x v st)"
  using keepsD [OF R_assign, of x v st] by (simp add: assign_var_def put_var_def)

lemma Q_make_local: "Q st None (st\<lparr>sh_vars := make_local (sh_vars st) x\<rparr>)"
  using Q_op [of "OpLocal x" st] by simp

lemma Q_local: "Q st None (st\<lparr>sh_vars := or_else (set_shell (make_local (sh_vars st) x) x v) (make_local (sh_vars st) x)\<rparr>)"
  using R_trans [OF Q_make_local Q_put, of st x v x] by (simp add: put_var_def)

lemma keeps_lift: "keeps Q a \<Longrightarrow> keeps_ev Q (lift_act a)"
  unfolding keeps_ev_def lift_act_def using keepsD by blast

lemma keeps_vbind:
  assumes "keeps_ev Q m" "\<And>x. keeps_ev Q (k x)"
  shows "keeps_ev Q (vbind m k)"
proof (rule keeps_evI)
  fix st r st' assume b: "vbind m k st = Some (r, st')"
  then obtain r1 st1 where m: "m st = Some (r1, st1)"
    by (auto simp: vbind_def split: option.splits)
  have q: "Q st (error_of r1) st1" using assms(1) m by (rule keeps_evD)
  show "Q st (error_of r) st'"
  proof (cases r1)
    case (Inl e)
    with b m q show ?thesis by (auto simp: vbind_def)
  next
    case (Inr x)
    with b m have "k x st1 = Some (r, st')" by (simp add: vbind_def)
    with assms(2) have "Q st1 (error_of r) st'" by (rule keeps_evD)
    with q Inr show ?thesis by (auto intro: R_trans)
  qed
qed

lemma keeps_modify:
  "(\<And>st. Q st None (f st)) \<Longrightarrow> keeps_ev Q m \<Longrightarrow> keeps_ev Q (modify f m)"
  unfolding keeps_ev_def modify_def by (meson R_trans)

end

context command_relation
begin

lemma keeps_pair: "keeps Q (Pair (Inr x))"
  by (simp add: keeps_def R_refl)

lemma run_assigns_keeps:
  assumes "\<And>c. keeps Q (command_subst H c)"
  shows "keeps Q (run_assigns H sp as trace)"
proof (induction as arbitrary: trace)
  case (Cons a as)
  show ?case
    unfolding run_assigns.simps
  proof (rule keeps_bind)
    show "keeps Q (expand_string H (assign_value a))"
      unfolding expand_string_def by (rule string_keeps) (rule assms)
    show "keeps Q (\<lambda>st. let trace = if xtrace st then push_trace trace (assign_name a @ [61] @ v) else trace
        in case set_shell (sh_vars st) (assign_name a) v of Inl m \<Rightarrow> (Inl (Runtime (Msg m) sp), st)
           | Inr vs \<Rightarrow> run_assigns H sp as trace (st\<lparr>sh_vars := vs\<rparr>))" for v
      using Cons.IH unfolding keeps_def Let_def
      by (auto simp: R_runtime split: sum.split intro: R_trans [OF Q_set])
  qed
qed (simp add: keeps_pair keeps_ret)

lemma local_assigns_keeps:
  assumes "\<And>c. keeps Q (command_subst H c)"
  shows "keeps Q (local_assigns H as)"
proof (induction as)
  case (Cons a as)
  show ?case
    unfolding local_assigns.simps
  proof (rule keeps_bind)
    show "keeps Q (expand_string H (assign_value a))"
      unfolding expand_string_def by (rule string_keeps) (rule assms)
    show "keeps Q (\<lambda>st. let vs = make_local (sh_vars st) (assign_name a)
        in local_assigns H as (st\<lparr>sh_vars := or_else (set_shell vs (assign_name a) v) vs\<rparr>))" for v
      using Cons.IH unfolding keeps_def Let_def by (auto intro: R_trans [OF Q_local])
  qed
qed (simp add: keeps_pair keeps_ret)

lemma host_rules:
  assumes host: "host_keeps Q H"
  shows
  "keeps Q (check_cancel H)" "keeps Q (ensure_terminal H)" "keeps Q (run_substitution H c)"
  "keeps Q (setup_redirections H rs)" "keeps Q (check_command_policy H as sp)" "keeps Q (preflight_external H as)"
  "keeps Q (preflight_redirects H rs)" "keeps Q (other_builtin H n as sp)" "keeps Q (call_external_handler H as gs)"
  "keeps Q (eval_external H as gs sp)" "keeps Q (fork_pipeline H cs)" "keeps Q (eval_in_subshell H c rs)"
  "keeps Q (eval_background H c rs)" "keeps Q (describe_commands H v ns)"
  by (insert host, simp_all add: host_keeps_def)

lemma command_subst_keeps:
  assumes host: "host_keeps Q H"
  shows "keeps Q (command_subst H c)"
  unfolding keeps_def
proof
  fix st
  obtain r st' where s: "run_substitution H c st = (r, st')" by fastforce
  have "Q st (error_of r) st'" using host_rules(3) [OF host] s by (rule keepsD)
  with s show "Q st (error_of (fst (command_subst H c st))) (snd (command_subst H c st))"
    by (cases r) (auto simp: command_subst_def split: prod.splits intro: Q_same)
qed

lemma expansion_keeps:
  assumes host: "host_keeps Q H"
  shows
  "keeps Q (expand_fields H w)" "keeps Q (expand_string H w)" "keeps Q (expand_pattern (command_subst H) ps)"
  unfolding expand_fields_def expand_string_def
  by (intro fields_keeps string_keeps expand_keeps command_subst_keeps [OF host])+

lemma expand_args_keeps:
  assumes host: "host_keeps Q H"
  shows "keeps Q (expand_args H ws)"
  by (induction ws) (auto intro!: keeps_rules keeps_pair expansion_keeps [OF host])

lemma for_words_keeps:
  assumes host: "host_keeps Q H"
  shows "keeps Q (for_words H ws)"
  unfolding for_words_def by (auto intro!: keeps_rules expand_args_keeps [OF host] split: option.split)

lemma match_patterns_keeps:
  assumes host: "host_keeps Q H"
  shows "keeps Q (match_patterns H t ps)"
  by (induction ps) (auto intro!: keeps_rules keeps_pair expansion_keeps [OF host])

lemma status_operand_keeps: "keeps Q (builtin_status_operand H n as)"
  unfolding keeps_def builtin_status_operand_def
  by (auto intro: R_refl Q_same [OF Q_exit] split: option.split)

lemma loop_control_keeps:
  assumes "sig = Break \<or> sig = Continue"
  shows "keeps Q (builtin_loop_control H sig n as)"
proof -
  have leave: "Q st (Some (sig (min k (loop_depth st)))) st" if "k \<noteq> 0" "loop_depth st \<noteq> 0" for k st
    using that assms Q_leave [of "min k (loop_depth st)" st] by auto
  have one: "Q st (Some (sig (Suc 0))) st" if "0 < loop_depth st" for st
    using leave [of 1 st] that by (simp add: min_def)
  have exit: "Q st (Some (Exit s)) (err_msg H m st)" for s m st
    by (rule Q_same [OF Q_exit]) simp
  show ?thesis
    unfolding keeps_def builtin_loop_control_def Let_def
    by (auto simp: R_refl leave one exit split: option.split nat.split)
qed

text \<open>A builtin that cannot fail, in terms of the state it leaves.\<close>

lemma plain_keeps: "(\<And>st. Q st None (snd (f st))) \<Longrightarrow> keeps Q (plain_builtin f)"
  by (simp add: keeps_def plain_builtin_def split_beta)

lemma Q_err: "Q st None (err_msg H m st)" and Q_out: "Q st None (write_out H m st)"
  by (rule Q_control, simp)+

lemma mark_keeps:
  assumes "\<And>vs x. mark vs x = apply_op (m x) vs" "\<And>x. m x \<noteq> OpPush \<and> m x \<noteq> OpPop"
  shows "Q st None (snd (mark_variables H name mark as st))"
proof -
  have mark: "Q st None (st\<lparr>sh_vars := mark (sh_vars st) x\<rparr>)" for st :: "'w evaluator" and x
    using Q_op [of "m x" st] assms by simp
  show ?thesis
  proof (induction as arbitrary: st)
    case (Cons a as)
    show ?case
    proof (cases "split_assignment a")
      case None
      with R_trans [OF mark Cons.IH] show ?thesis by simp
    next
      case (Some p)
      then obtain x v where p: "split_assignment a = Some (x, v)" by (cases p) auto
      show ?thesis
      proof (cases "set_shell (sh_vars st) x v")
        case (Inr vs)
        have "Q (st\<lparr>sh_vars := vs\<rparr>) None (st\<lparr>sh_vars := mark vs x\<rparr>)"
          using mark [of "st\<lparr>sh_vars := vs\<rparr>" x] by simp
        from R_trans [OF R_trans [OF Q_set [OF Inr] this] Cons.IH] p Inr show ?thesis by simp
      qed (use p Q_err in simp)
    qed
  qed (simp add: R_refl)
qed

lemma unset_keeps: "Q st None (snd (unset_names H fs xs status st))"
proof (induction H fs xs status st rule: unset_names.induct)
  case (2 H fs x xs status st)
  have "Q st None (st\<lparr>sh_vars := vs\<rparr>)" if "unset (sh_vars st) x = Inr vs" for vs
    using Q_op [of "OpUnset x" st] that by simp
  with 2 Q_unset_function [of st x] Q_err [of st H] show ?case
    by (auto split: sum.split intro: R_trans)
qed (simp add: R_refl)

lemma local_keeps: "Q st None (snd (builtin_local as st))"
proof (induction as arbitrary: st)
  case (Cons a as)
  show ?case
    using R_trans [OF R_trans [OF Q_make_local Q_put] Cons.IH] R_trans [OF Q_make_local Cons.IH]
    by (auto split: option.split)
qed (simp add: R_refl)

lemma set_letters_keeps: "Q st None (snd (set_letters H b cs st))"
proof (induction H b cs st rule: set_letters.induct)
  case (2 H b c cs st)
  have "Q st None st'" if "set_short_option c b st = Some st'" for st'
    using that by (auto simp: set_short_option_def split: if_splits intro: Q_control)
  with 2 Q_err [of st H] show ?case by (auto split: option.split intro: R_trans)
qed (simp add: R_refl)


lemma Q_export: "Q st None (st\<lparr>sh_vars := export (sh_vars st) x\<rparr>)"
  using Q_op [of "OpExport x" st] by simp

lemma set_words_keeps: "Q st None (snd (set_words H as st))"
proof (induction H as st rule: set_words.induct)
  case (2 H a as st)
  note IH = this
  have pos: "Q st None (set_positional ws st)" for ws
    unfolding set_positional_def by (rule Q_positional)
  have long: "Q st None st'" if "set_long_option n b st = Some st'" for n b st'
    using that by (auto simp: set_long_option_def split: if_splits intro: Q_control)
  have letters: "Q st None st'" if "set_letters H b cs st = (k, st')" for b cs k st'
    using set_letters_keeps [of st H b cs] that by simp
  have named: "Q st None (st\<lparr>sh_vars := export vs a\<rparr>)" if "set_shell (sh_vars st) a v = Inr vs" for v vs
    using R_trans [OF Q_set [OF that] Q_export, of a] by simp
  have xtrace: "Q st None (st\<lparr>xtrace := False\<rparr>)" by (rule Q_control) simp
  note simps = set_words.simps(2) [of H a as st]
  consider "a = ustr ''--''" | "a \<noteq> ustr ''--''" "a = ustr ''-''"
    | "a \<noteq> ustr ''--''" "a \<noteq> ustr ''-''" "(a = ustr ''-o'' \<or> a = ustr ''+o'') \<and> as \<noteq> []"
    | "a \<noteq> ustr ''--''" "a \<noteq> ustr ''-''" "\<not> ((a = ustr ''-o'' \<or> a = ustr ''+o'') \<and> as \<noteq> [])"
      "a \<noteq> [] \<and> (hd a = 45 \<or> hd a = 43)"
    | "a \<noteq> ustr ''--''" "a \<noteq> ustr ''-''" "\<not> ((a = ustr ''-o'' \<or> a = ustr ''+o'') \<and> as \<noteq> [])"
      "\<not> (a \<noteq> [] \<and> (hd a = 45 \<or> hd a = 43))"
    by blast
  then show ?case
  proof cases
    case 1
    with pos show ?thesis by (simp add: simps del: ustr_simps)
  next
    case 2
    from R_trans [OF xtrace IH(1) [OF 2]] 2 show ?thesis
      unfolding simps by (simp del: ustr_simps set_words.simps)
  next
    case 3
    show ?thesis
    proof (cases "set_long_option (hd as) (a = ustr ''-o'') st")
      case None
      with 3 Q_err show ?thesis by (simp add: simps del: ustr_simps set_words.simps)
    next
      case (Some st')
      from R_trans [OF long [OF Some] IH(2) [OF 3 Some]] 3 Some show ?thesis
        by (simp add: simps del: ustr_simps set_words.simps)
    qed
  next
    case 4
    obtain k st' where l: "set_letters H (hd a = 45) (tl a) st = (k, st')" by fastforce
    from letters [OF l] R_trans [OF letters [OF l]] IH(3) [OF 4 l [symmetric]] 4 l show ?thesis
      by (cases k) (auto simp add: simps simp del: ustr_simps set_words.simps)
  next
    case 5
    with pos Q_err named show ?thesis
      by (auto simp: simps simp del: ustr_simps set_words.simps split: sum.split)
  qed
qed (simp add: R_refl)

lemma print_keeps: "Q st None (print_environment H line st)"
proof -
  have "Q st None (fold (\<lambda>kv. write_out H (line kv)) kvs st)" for kvs
    by (induction kvs arbitrary: st) (auto simp: R_refl intro: R_trans [OF Q_out])
  then show ?thesis by (simp add: print_environment_def)
qed

lemma set_variables_keeps: "Q st None (snd (set_variables H xs s st))"
  by (induction H xs s st rule: set_variables.induct) (auto simp: R_refl Q_err split: sum.split intro: R_trans [OF Q_set])

lemma builtins_keep:
  "Q st None (snd (builtin_echo H args st))" "Q st None (snd (builtin_export H args st))"
  "Q st None (snd (builtin_readonly H args st))" "Q st None (snd (builtin_unset H args st))"
  "Q st None (snd (builtin_set H args st))" "Q st None (snd (builtin_shift H args st))"
  "Q st None (snd (builtin_test H args st))" "Q st None (snd (builtin_printf H args st))"
  using mark_keeps [of export OpExport] mark_keeps [of set_readonly OpReadonly]
  by (auto simp: builtin_echo_def builtin_export_def builtin_readonly_def builtin_unset_def builtin_set_def builtin_shift_def
      builtin_test_def builtin_printf_def Let_def R_refl Q_err Q_out Q_positional print_keeps unset_keeps set_words_keeps
      split: prod.split)

lemma read_keeps: "Q st None (snd (builtin_read H args st))"
proof -
  have "Q st None (snd (set_variables H xs s (st\<lparr>outside := w\<rparr>)))" for xs s w
    by (rule R_trans [OF _ set_variables_keeps]) (rule Q_control, simp)
  then show ?thesis
    by (simp add: builtin_read_def Let_def del: set_variables.simps split: prod.split)
qed

lemma try_builtin_keeps:
  assumes host: "host_keeps Q H"
  shows "keeps Q (try_builtin H n as sp)"
proof (induction as arbitrary: n rule: length_induct)
  case (1 as)
  note IH = this and host = host_rules [OF host]
  have ctl: "keeps Q (fail (Exit s))" "keeps Q (fail (Return s))" for s
    by (simp_all add: keeps_def Q_exit Q_return)
  have run: "keeps Q (\<lambda>st. case parent_process_refusal H new st of
      Some m \<Rightarrow> (Inr (Some 2), err_msg H m st)
    | None \<Rightarrow> ebind (check_command_policy H new sp) (\<lambda>_. ebind (try_builtin H (hd new) new sp) (\<lambda>r st.
        case r of Some s \<Rightarrow> (Inr (Some s), st)
        | None \<Rightarrow> ebind (if has_external_handler H (hd new) st then call_external_handler H new []
            else eval_external H new [] sp) (\<lambda>s. ret (Some s)) st)) st)"
    if "keeps Q (try_builtin H (hd new) new sp)" for new
  proof -
    have ext: "keeps Q (\<lambda>st. ebind (if has_external_handler H (hd new) st then call_external_handler H new []
            else eval_external H new [] sp) (\<lambda>s. ret (Some s)) st)"
      using keeps_bind [OF host(9) [of new "[]"] keeps_ret(1)] keeps_bind [OF host(10) [of new "[]" sp] keeps_ret(1)]
      unfolding keeps_def by (auto split del: if_split split: if_split)
    have "keeps Q (\<lambda>st. case r of Some s \<Rightarrow> (Inr (Some s), st)
        | None \<Rightarrow> ebind (if has_external_handler H (hd new) st then call_external_handler H new []
            else eval_external H new [] sp) (\<lambda>s. ret (Some s)) st)" for r
      using ext by (cases r) (simp_all add: keeps_def R_refl)
    then have "keeps Q (ebind (check_command_policy H new sp) (\<lambda>_. ebind (try_builtin H (hd new) new sp) (\<lambda>r st.
        case r of Some s \<Rightarrow> (Inr (Some s), st)
        | None \<Rightarrow> ebind (if has_external_handler H (hd new) st then call_external_handler H new []
            else eval_external H new [] sp) (\<lambda>s. ret (Some s)) st)))"
      by (intro keeps_bind host that)
    then show ?thesis using Q_err by (auto simp: keeps_def split: option.split)
  qed
  have cmd: "keeps Q (case command_action as of Empty \<Rightarrow> ret (Some 0)
      | Describe v ns \<Rightarrow> ebind (describe_commands H v ns) (\<lambda>s. ret (Some s))
      | Execute new \<Rightarrow> (\<lambda>st. case parent_process_refusal H new st of
            Some m \<Rightarrow> (Inr (Some 2), err_msg H m st)
          | None \<Rightarrow> ebind (check_command_policy H new sp) (\<lambda>_. ebind (try_builtin H (hd new) new sp) (\<lambda>r st.
              case r of Some s \<Rightarrow> (Inr (Some s), st)
              | None \<Rightarrow> ebind (if has_external_handler H (hd new) st then call_external_handler H new []
                  else eval_external H new [] sp) (\<lambda>s. ret (Some s)) st)) st))"
    using IH command_action_shorter [of as] by (auto split: builtin_command_action.split intro!: keeps_bind keeps_ret host run)
  have choose: "keeps Q a \<Longrightarrow> keeps Q b \<Longrightarrow> keeps Q (if p then a else b)" for a b :: "('w, exit_code option) act" and p
    by simp
  show ?case
    unfolding try_builtin.simps [of H n as sp]
    by (intro choose keeps_ret keeps_bind ctl status_operand_keeps loop_control_keeps host plain_keeps builtins_keep
        read_keeps local_keeps cmd disjI1 disjI2 refl)
qed

lemma eval_assignments_keeps:
  assumes host: "host_keeps Q H"
  shows "keeps Q (eval_assignments H asgs rs sp k)"
proof -
  let ?body = "\<lambda>trace st. let st = (if xtrace st \<and> asgs \<noteq> [] then write_trace H trace st else st)
             in (Inr (if substitution_count st = k then 0 else sh_exit_status st), st)"
  have body: "keeps Q (?body trace)" for trace
    unfolding keeps_def Let_def by (auto intro: Q_control R_refl)
  have run: "keeps Q (ebind (run_assigns H sp asgs trace) ?body)" for trace
    by (intro keeps_bind run_assigns_keeps command_subst_keeps [OF host] body)
  have "keeps Q (\<lambda>st. let (r, st) = ebind (run_assigns H sp asgs (xtrace_prefix st)) ?body st
       in finish_redirections H False saved r st)" for saved
    unfolding keeps_def
  proof
    fix st
    obtain r st' where e: "ebind (run_assigns H sp asgs (xtrace_prefix st)) ?body st = (r, st')" by fastforce
    from keepsD [OF run e] have "Q st (error_of r) st'" .
    from finish_keeps [OF host this] show "Q st (error_of (fst (let (r, st) = ebind (run_assigns H sp asgs (xtrace_prefix st)) ?body st
       in finish_redirections H False saved r st))) (snd (let (r, st) = ebind (run_assigns H sp asgs (xtrace_prefix st)) ?body st
       in finish_redirections H False saved r st))"
      unfolding e by (metis case_prod_conv prod.collapse)
  qed
  then show ?thesis
    unfolding eval_assignments_def by (intro keeps_bind host_rules [OF host])
qed

lemma trace_assigns_keeps:
  assumes host: "host_keeps Q H"
  shows "Q st None (snd (trace_assigns H as trace st))"
proof (induction as arbitrary: trace st)
  case (Cons a as)
  obtain r st' where e: "expand_string H (assign_value a) st = (r, st')" by fastforce
  have "Q st None st'" using keepsD [OF expansion_keeps(2) [OF host] e] by (rule Q_drop)
  with Cons.IH show ?case by (cases r) (auto simp: e intro: R_trans)
qed (simp add: R_refl)

lemma trace_command_keeps:
  assumes host: "host_keeps Q H"
  shows "Q st None (trace_command H asgs args st)"
  using trace_assigns_keeps [OF host, of st asgs "xtrace_prefix st"]
  by (auto simp: trace_command_def Let_def R_refl split: prod.splits intro: Q_same)

lemma function_keeps:
  assumes host: "host_keeps Q H" and body: "keeps_ev Q (self body)"
  shows "keeps_ev Q (eval_function H self body args asgs)"
proof (rule keeps_evI)
  fix st r st' assume e: "eval_function H self body args asgs st = Some (r, st')"
  let ?in = "enter_function args st"
  obtain r1 st1 where l: "local_assigns H asgs ?in = (r1, st1)" by fastforce
  have q1: "Q ?in (error_of r1) st1" by (rule keepsD [OF local_assigns_keeps l]) (rule command_subst_keeps [OF host])
  show "Q st (error_of r) st'"
  proof (cases r1)
    case (Inl err)
    with e l q1 show ?thesis
      by (auto simp: eval_function_def Let_def vbind_def lift_act_def intro: Q_call_error)
  next
    case (Inr u)
    obtain r2 st2 where s: "setup_redirections H [] st1 = (r2, st2)" by fastforce
    have "Q st1 (error_of r2) st2" by (rule keepsD [OF host_rules(4) [OF host] s])
    with q1 Inr have q2: "Q ?in (error_of r2) st2" by (auto intro: R_trans)
    show ?thesis
    proof (cases r2)
      case (Inl err)
      with e l \<open>r1 = Inr u\<close> s q2 show ?thesis
        by (auto simp: eval_function_def Let_def vbind_def lift_act_def intro: Q_call_error)
    next
      case (Inr fds)
      with e l \<open>r1 = Inr u\<close> s obtain r3 st3 st4 where b: "self body st2 = Some (r3, st3)"
        and f: "finish_redirections H False fds (catch_return r3) st3 = (r, st4)"
        and st': "st' = leave_function (positional (sh_vars st)) st4"
        by (auto simp: eval_function_def Let_def vbind_def lift_act_def split: option.splits prod.splits)
      have "Q st2 (error_of r3) st3" using body b by (rule keeps_evD)
      with q2 Inr have "Q ?in (error_of r3) st3" by (auto intro: R_trans)
      then have "Q ?in (error_of (catch_return r3)) st3"
        by (auto simp: catch_return_def split: sum.splits shell_error.splits intro: Q_drop)
      from finish_keeps [OF host this f] show ?thesis
        unfolding st' by (rule Q_call)
    qed
  qed
qed

lemma dispatch_keeps:
  assumes host: "host_keeps Q H" and self: "\<And>c. allowed c \<Longrightarrow> keeps_ev Q (self c)"
  shows "keeps_ev Q (dispatch H self args asgs sp)"
proof (rule keeps_evI)
  fix st r st' assume d: "dispatch H self args asgs sp st = Some (r, st')"
  obtain rb st1 where t: "try_builtin H (hd args) args sp st = (rb, st1)" by fastforce
  have q: "Q st (error_of rb) st1" by (rule keepsD [OF try_builtin_keeps [OF host] t])
  show "Q st (error_of r) st'"
  proof (cases "rb = Inr None")
    case False
    with d t q show ?thesis by (auto simp: dispatch_def split: sum.splits option.splits)
  next
    case True
    have "Q st1 (error_of r) st'"
    proof (cases "sh_functions st1 (hd args)")
      case None
      with d t True have "(if has_external_handler H (hd args) st1 then call_external_handler H args asgs st1
           else eval_external H args asgs sp st1) = (r, st')" by (simp add: dispatch_def)
      then show ?thesis by (auto split: if_splits intro: keepsD host_rules [OF host])
    next
      case (Some body)
      let ?st = "st1\<lparr>ev_exit := False\<rparr>"
      from d t True Some have f: "eval_function H self body args asgs ?st = Some (r, st')"
        by (simp add: dispatch_def)
      have "Q st1 None ?st" by (rule Q_control) simp
      moreover have "Q ?st (error_of r) st'"
        using Q_body [of ?st "hd args" body "error_of r" st'] keeps_evD [OF function_keeps [OF host self] f] Some by auto
      ultimately show ?thesis by (rule R_trans)
    qed
    with q True show ?thesis by (auto intro: R_trans)
  qed
qed

lemma then_finish_keeps:
  assumes host: "host_keeps Q H" and m: "keeps_ev Q m"
  shows "keeps_ev Q (\<lambda>st. case m st of None \<Rightarrow> None | Some (r, st) \<Rightarrow> Some (finish_redirections H b k r st))"
  by (auto intro!: keeps_evI split: option.splits) (rule finish_keeps [OF host], erule keeps_evD [OF m])

lemma simple_keeps:
  assumes host: "host_keeps Q H" and self: "\<And>c. allowed c \<Longrightarrow> keeps_ev Q (self c)"
  shows "keeps_ev Q (eval_simple H self asgs args rs sp)"
proof (rule keeps_evI)
  have run: "keeps_ev Q (run_command H self asgs rs sp args)" for args
    unfolding run_command_def
    by (intro keeps_vbind keeps_lift keeps_modify then_finish_keeps [OF host] dispatch_keeps [OF host] host_rules [OF host] self trace_command_keeps [OF host])
  have refuse: "keeps_ev Q (\<lambda>st. case parent_process_refusal H args st of Some m \<Rightarrow> Some (Inr 2, err_msg H m st)
      | None \<Rightarrow> run_command H self asgs rs sp args st)" for args
    using keeps_evD [OF run] by (auto intro!: keeps_evI Q_control split: option.splits)
  have all: "keeps_ev Q (vbind (lift_act (expand_args H args)) (\<lambda>args.
       if args = [] then lift_act (eval_assignments H asgs rs sp k)
       else (\<lambda>st. case parent_process_refusal H args st of
           Some m \<Rightarrow> Some (Inr 2, err_msg H m st)
         | None \<Rightarrow> run_command H self asgs rs sp args st)))" for k
    using refuse by (intro keeps_vbind keeps_lift expand_args_keeps [OF host]) (auto intro: keeps_lift eval_assignments_keeps [OF host])
  fix st r st' assume "eval_simple H self asgs args rs sp st = Some (r, st')"
  then show "Q st (error_of r) st'" unfolding eval_simple_def by (rule keeps_evD [OF all])
qed

lemma tested_keeps:
  assumes "keeps_ev Q (self c)"
  shows "keeps_ev Q (eval_tested self c)"
proof (rule keeps_evI)
  fix st r st' assume e: "eval_tested self c st = Some (r, st')"
  then obtain r1 st1 where s: "self c (st\<lparr>tested := True\<rparr>) = Some (r1, st1)"
    by (auto simp: eval_tested_def vbind_def split: option.splits)
  have q: "Q (st\<lparr>tested := True\<rparr>) (error_of r1) st1" using assms s by (rule keeps_evD)
  show "Q st (error_of r) st'"
  proof (cases r1)
    case (Inl err)
    with e s q show ?thesis by (auto simp: eval_tested_def vbind_def intro: Q_tested_error)
  next
    case (Inr x)
    then have "Q st None (st1\<lparr>tested := tested st\<rparr>)" using Q_tested [of st True None st1] q by simp
    with e s Inr show ?thesis by (auto simp: eval_tested_def vbind_def intro: Q_same)
  qed
qed

text \<open>Inside a loop that was entered in \<open>st0\<close>: an error of the condition leaves the loop at once, the
  outcome of the body by \<open>loop_outcome\<close>.\<close>

lemma loop_error: "Q (begin_loop st0) None st \<Longrightarrow> Q st (Some e) st' \<Longrightarrow> Q st0 (Some e) st'"
  by (rule Q_loop_leak) (rule R_trans)

lemma loop_round:
  assumes q: "Q (begin_loop st0) None st" and f: "keeps_ev Q f"
    and e: "(case f st of None \<Rightarrow> None | Some (r1, st1) \<Rightarrow>
      (case loop_outcome r1 of Again s \<Rightarrow> k s st1 | Leave \<Rightarrow> Some (Inr l, end_loop st1)
       | Raise e \<Rightarrow> Some (Inl e, end_loop st1))) = Some (r, st')"
    and k: "\<And>s st1. Q (begin_loop st0) None st1 \<Longrightarrow> k s st1 = Some (r, st') \<Longrightarrow> Q st0 (error_of r) st'"
  shows "Q st0 (error_of r) st'"
proof -
  obtain r1 st1 where s: "f st = Some (r1, st1)" using e by (auto split: option.splits)
  have "Q (begin_loop st0) (error_of r1) st1" by (rule R_trans [OF q keeps_evD [OF f s]])
  note outcome = Q_loop [OF this]
  show ?thesis
  proof (cases "loop_outcome r1")
    case (Again x)
    with e s have "k x st1 = Some (r, st')" by simp
    with outcome Again show ?thesis by (intro k) simp_all
  qed (use e s outcome in auto)
qed

lemma while_keeps:
  assumes host: "host_keeps Q H" and cond: "keeps_ev Q (self cond)" and body: "keeps_ev Q (self body)"
  shows "Q (begin_loop st0) None st \<Longrightarrow> while_loop n H self go_on cond body s st = Some (r, st') \<Longrightarrow>
    Q st0 (error_of r) st'"
proof (induction n arbitrary: s st)
  case (Suc n)
  obtain rc st1 where c: "check_cancel H st = (rc, st1)" by fastforce
  have qc: "Q st (error_of rc) st1" by (rule keepsD [OF host_rules(1) [OF host] c])
  show ?case
  proof (cases rc)
    case (Inl e)
    with Suc.prems c qc show ?thesis by (auto simp: vbind_def lift_act_def intro: loop_error)
  next
    case (Inr u)
    with qc Suc.prems(1) have q1: "Q (begin_loop st0) None st1" by (auto intro: R_trans)
    with Inr Suc.prems c obtain rt st2 where t: "eval_tested self cond st1 = Some (rt, st2)"
      by (auto simp: vbind_def lift_act_def split: option.splits)
    have qt: "Q st1 (error_of rt) st2" by (rule keeps_evD [OF tested_keeps t]) (rule cond)
    show ?thesis
    proof (cases rt)
      case (Inl e)
      with Suc.prems c t \<open>rc = Inr u\<close> qt q1 show ?thesis by (auto simp: vbind_def lift_act_def intro: loop_error)
    next
      case (Inr x)
      with qt q1 have q2: "Q (begin_loop st0) None st2" by (auto intro: R_trans)
      from Suc.prems(2) c t \<open>rc = Inr u\<close> Inr have
        "(if exit_success x \<noteq> go_on then Some (Inr s, end_loop st2)
          else case self body st2 of None \<Rightarrow> None | Some (r, st) \<Rightarrow>
            (case loop_outcome r of Again s' \<Rightarrow> while_loop n H self go_on cond body (new_status s s') st
             | Leave \<Rightarrow> Some (Inr s, end_loop st) | Raise e \<Rightarrow> Some (Inl e, end_loop st))) = Some (r, st')"
        by (simp add: vbind_def lift_act_def)
      then show ?thesis
        using Q_end_loop [OF q2] loop_round [OF q2 body _ Suc.IH]
        by (auto split: if_splits)
    qed
  qed
qed simp

lemma for_keeps:
  assumes host: "host_keeps Q H" and body: "keeps_ev Q (self body)"
  shows "Q (begin_loop st0) None st \<Longrightarrow> for_loop H self var body vs s st = Some (r, st') \<Longrightarrow> Q st0 (error_of r) st'"
proof (induction vs arbitrary: s st)
  case Nil
  then show ?case by (auto intro: Q_end_loop)
next
  case (Cons v vs)
  obtain rc st1 where c: "check_cancel H st = (rc, st1)" by fastforce
  have qc: "Q st (error_of rc) st1" by (rule keepsD [OF host_rules(1) [OF host] c])
  show ?case
  proof (cases rc)
    case (Inl e)
    with Cons.prems c qc show ?thesis by (auto simp: vbind_def lift_act_def intro: loop_error)
  next
    case (Inr u)
    with qc Cons.prems(1) have q1: "Q (begin_loop st0) None st1" by (auto intro: R_trans)
    show ?thesis
    proof (cases "set_shell (sh_vars st1) var v")
      case (Inl m)
      have "Q st0 None (err_msg H m st1)" by (rule Q_same [OF Q_loop_leak [OF q1]]) simp
      with Cons.prems c \<open>rc = Inr u\<close> Inl show ?thesis by (auto simp: vbind_def lift_act_def)
    next
      case (Inr vs')
      have q2: "Q (begin_loop st0) None (st1\<lparr>sh_vars := vs'\<rparr>)" by (rule R_trans [OF q1 Q_set [OF Inr]])
      from Cons.prems(2) c \<open>rc = Inr u\<close> Inr show ?thesis
        by (intro loop_round [OF q2 body _ Cons.IH]) (simp_all add: vbind_def lift_act_def)
    qed
  qed
qed

lemma return_keeps: "keeps_ev Q (lift_act (ret x))"
  by (intro keeps_lift keeps_rules)

lemma arms_keeps:
  assumes host: "host_keeps Q H" and arms: "\<And>a b. a \<in> set arms \<Longrightarrow> arm_body a = Some b \<Longrightarrow> keeps_ev Q (self b)"
  shows "keeps_ev Q (case_arms H self t arms)"
  using arms
proof (induction arms)
  case (Cons a arms)
  have "keeps_ev Q (case arm_body a of Some b \<Rightarrow> self b | None \<Rightarrow> lift_act (ret 0))"
    using Cons.prems [of a] by (auto split: option.split intro: return_keeps)
  moreover have "keeps_ev Q (case_arms H self t arms)" using Cons.prems by (intro Cons.IH) auto
  ultimately show ?case by (auto intro!: keeps_vbind keeps_lift match_patterns_keeps [OF host])
qed (simp add: return_keeps)

lemma pipeline_keeps:
  assumes host: "host_keeps Q H" and "\<And>c. c \<in> set cs \<Longrightarrow> keeps_ev Q (self c)" "cs \<noteq> []"
  shows "keeps_ev Q (eval_pipeline H self cs)"
proof -
  have "keeps_ev Q (if length cs = 1 then self (hd cs) else lift_act (fork_pipeline H cs))"
    using assms by (auto intro: keeps_lift host_rules [OF host])
  then show ?thesis unfolding eval_pipeline_def by (intro keeps_vbind keeps_lift host_rules [OF host])
qed

text \<open>A flag set for a command and set back after it.\<close>

lemma flag_keeps:
  assumes "keeps_ev Q m" "tested st \<longrightarrow> t"
    and "m (st\<lparr>tested := t, pipeline_depth := d\<rparr>) = Some (r, st')"
  shows "Q st (error_of r) (st'\<lparr>pipeline_depth := d', tested := tested st\<rparr>)"
proof -
  have "Q (st\<lparr>tested := t\<rparr>) None (st\<lparr>tested := t, pipeline_depth := d\<rparr>)" by (rule Q_control) simp
  then have "Q (st\<lparr>tested := t\<rparr>) (error_of r) st'" using keeps_evD [OF assms(1,3)] by (rule R_trans)
  from Q_same [OF Q_tested [OF assms(2) this], of "st'\<lparr>pipeline_depth := d', tested := tested st\<rparr>"]
  show ?thesis by (simp add: same_control_def)
qed

lemma error_of_invert [simp]: "error_of (invert r) = error_of r"
  by (cases r) (simp_all add: invert_def)

lemma simple_forms_keep:
  assumes host: "host_keeps Q H" and sub: "\<And>d. d \<in> set (subcommands c) \<Longrightarrow> keeps_ev Q (self d)"
  shows "c = AndList a b \<or> c = OrList a b \<or> c = Sequence a b \<or> c = BraceGroup a rs sp \<or> c = If a b e sp \<Longrightarrow>
    keeps_ev Q (eval_command_inner n H self c)"
proof -
  have "keeps_ev Q (eval_tested self d)" if "d \<in> set (subcommands c)" for d
    using that by (intro tested_keeps sub)
  note rules = keeps_modify keeps_vbind keeps_lift return_keeps then_finish_keeps [OF host] host_rules [OF host] this sub
  show "c = AndList a b \<or> c = OrList a b \<or> c = Sequence a b \<or> c = BraceGroup a rs sp \<or> c = If a b e sp \<Longrightarrow> ?thesis"
    unfolding eval_command_inner_def by (elim disjE) (auto intro!: rules Q_flag Q_status split: option.split)
qed

lemma loops_keep:
  assumes host: "host_keeps Q H" and sub: "\<And>d. d \<in> set (subcommands c) \<Longrightarrow> keeps_ev Q (self d)"
  shows "c = While a b sp \<or> c = Until a b sp \<or> c = For x ws b sp \<Longrightarrow>
    keeps_ev Q (eval_command_inner n H self c)"
proof -
  have w: "keeps_ev Q (modify begin_loop (while_loop n H self g a b 0))"
    if "a \<in> set (subcommands c)" "b \<in> set (subcommands c)" for g
    using while_keeps [OF host sub sub R_refl] that by (auto intro!: keeps_evI simp: modify_def)
  have f: "keeps_ev Q (modify begin_loop (for_loop H self x b vs 0))" if "b \<in> set (subcommands c)" for vs
    using for_keeps [OF host sub R_refl] that by (auto intro!: keeps_evI simp: modify_def)
  show "c = While a b sp \<or> c = Until a b sp \<or> c = For x ws b sp \<Longrightarrow> ?thesis"
    unfolding eval_command_inner_def
    by (elim disjE) (auto intro!: keeps_modify [OF Q_flag] keeps_vbind keeps_lift for_words_keeps [OF host] w f)
qed

lemma inner_keeps:
  assumes host: "host_keeps Q H" and self: "\<And>d. allowed d \<Longrightarrow> keeps_ev Q (self d)" and c: "allowed c" "empty_pipeline c = None"
  shows "keeps_ev Q (eval_command_inner n H self c)"
proof -
  have sub: "keeps_ev Q (self d)" if "d \<in> set (subcommands c)" for d
    using self allowed_sub [OF c(1) that] .
  note rules = keeps_modify [OF Q_flag] keeps_vbind keeps_lift host_rules [OF host] expansion_keeps [OF host] arms_keeps [OF host]
  note forms = simple_forms_keep [OF host, where self = self and c = c, OF sub] loops_keep [OF host, where self = self and c = c, OF sub]
  have leaves: "keeps_ev Q (eval_command_inner n H self c)" if "c = Subshell b rs sp \<or> c = Background b rs" for b rs sp
    using that unfolding eval_command_inner_def by (auto intro!: rules)
  show ?thesis
  proof (cases c)
    case (Simple as ws rs sp)
    then show ?thesis unfolding eval_command_inner_def by (auto intro!: rules simple_keeps [OF host] self)
  next
    case (Pipeline cs bang sp)
    then have "keeps_ev Q (eval_pipeline H self cs)" using sub c(2) by (intro pipeline_keeps [OF host]) auto
    note flag = flag_keeps [OF this]
    show ?thesis
      unfolding eval_command_inner_def Pipeline command.case
      by (rule keeps_modify [OF Q_flag], rule keeps_evI, auto simp: Let_def split: option.splits)
        (rule flag [rotated], assumption, simp)+
  next
    case (NotCommand d)
    then have "keeps_ev Q (self d)" by (intro sub) simp
    from Q_tested [of _ True, OF _ keeps_evD [OF this]] show ?thesis
      unfolding eval_command_inner_def NotCommand
      by (intro keeps_modify [OF Q_flag]) (auto intro!: keeps_evI split: option.splits)
  next
    case (FuncDef f b sp)
    show ?thesis
      using Q_funcdef [of f b sp] c(1) unfolding eval_command_inner_def FuncDef command.case
      by (intro keeps_modify [OF Q_flag]) (auto intro!: keeps_evI)
  next
    case (Case w arms sp)
    have "keeps_ev Q (self b)" if "a \<in> set arms" "arm_body a = Some b" for a b
      using that Case by (intro sub) (auto intro!: bexI [of _ a])
    with Case show ?thesis unfolding eval_command_inner_def by (auto intro!: rules)
  qed (use forms leaves in blast)+
qed

lemma eval_command_keeps:
  assumes host: "host_keeps Q H"
  shows "allowed c \<Longrightarrow> keeps_ev Q (eval_command n H c)"
proof (induction n arbitrary: c)
  case (Suc n)
  have after: "keeps_ev Q (after_command c s)" for s
    unfolding after_command_def Let_def
    by (auto intro!: keeps_evI intro: R_trans [OF Q_status Q_exit] Q_status)
  have inner: "keeps_ev Q (vbind (eval_command_inner n H (eval_command n H) c) (after_command c))" if "empty_pipeline c = None"
    using inner_keeps [OF host Suc.IH Suc.prems that] after by (intro keeps_vbind)
  have "keeps_ev Q (vbind (lift_act (check_cancel H)) (\<lambda>_ st. if noexec st then Some (Inr 0, st)
       else vbind (eval_command_inner n H (eval_command n H) c) (after_command c) st))" if "empty_pipeline c = None"
    using keeps_evD [OF inner [OF that]]
    by (intro keeps_vbind keeps_lift host_rules [OF host]) (auto intro!: keeps_evI R_refl split: if_splits)
  then show ?case
    using R_runtime keeps_evD by (fastforce intro!: keeps_evI simp: eval_step_def split: option.splits)
qed (simp add: keeps_ev_def)

end

subsection \<open>The relations that hold of every command\<close>

text \<open>Loops: the depth never falls below where it was, and \<^verbatim>\<open>break\<close> and \<^verbatim>\<open>continue\<close> count loops that
  are open.\<close>

definition loop_effect :: "'w evaluator \<Rightarrow> error option \<Rightarrow> 'w evaluator \<Rightarrow> bool" where
  "loop_effect st e st' \<longleftrightarrow> loop_depth st \<le> loop_depth st' \<and>
     (\<forall>k. e = Some (Break k) \<or> e = Some (Continue k) \<longrightarrow> 0 < k \<and> k \<le> loop_depth st')"

lemma loop_outcome_cases:
  "(\<exists>s. r = Inr s \<and> loop_outcome r = Again (Some s)) \<or> (\<exists>e. r = Inl e \<and> (
     (e = Break 1 \<and> loop_outcome r = Leave) \<or> (e = Continue 1 \<and> loop_outcome r = Again None) \<or>
     (\<exists>k > 1. e = Break k \<and> loop_outcome r = Raise (Break (k - 1))) \<or>
     (\<exists>k > 1. e = Continue k \<and> loop_outcome r = Raise (Continue (k - 1))) \<or>
     (e \<in> {Break 0, Continue 0} \<union> - (range Break \<union> range Continue) \<and> loop_outcome r = Raise e)))"
proof (cases r)
  case (Inl e)
  then show ?thesis by (cases e) auto
qed simp

lemma arith_frame:
  "loop_depth (snd (eval_arith_ex t st)) = loop_depth st" "tested (snd (eval_arith_ex t st)) = tested st"
  "sh_functions (snd (eval_arith_ex t st)) = sh_functions st"
  by (subst eval_arith_ex_frame, simp)+

lemma assign_frame:
  "loop_depth (snd (assign_var x v st)) = loop_depth st" "tested (snd (assign_var x v st)) = tested st"
  "sh_functions (snd (assign_var x v st)) = sh_functions st" "fst (assign_var x v st) = Inr ()"
  by (simp_all add: assign_var_def)

lemma arith_error: "error_of (fst (eval_arith_ex t st)) = None \<or> (\<exists>m sp. error_of (fst (eval_arith_ex t st)) = Some (Runtime m sp))"
  by (auto simp: eval_arith_ex_def split: prod.splits sum.splits)

interpretation loops: command_relation loop_effect "\<lambda>_. True"
proof
  show "keeps loop_effect (assign_var x v)" for x v
    by (simp add: keeps_def loop_effect_def assign_frame)
  show "keeps loop_effect (eval_arith_ex t)" for t
    unfolding keeps_def
  proof
    fix sh :: "'w evaluator"
    from arith_error [of t sh] show "loop_effect sh (error_of (fst (eval_arith_ex t sh))) (snd (eval_arith_ex t sh))"
      by (auto simp: loop_effect_def arith_frame)
  qed
  show "loop_effect (begin_loop st) (error_of r) st' \<Longrightarrow>
      (case loop_outcome r of Again _ \<Rightarrow> loop_effect (begin_loop st) None st' | Leave \<Rightarrow> loop_effect st None (end_loop st')
       | Raise e \<Rightarrow> loop_effect st (Some e) (end_loop st'))" for st r and st' :: "'w evaluator"
    using loop_outcome_cases [of r] by (auto simp: loop_effect_def begin_loop_def end_loop_def)
qed (auto simp: loop_effect_def same_control_def begin_loop_def end_loop_def enter_function_def leave_function_def)

text \<open>The flag \<^verbatim>\<open>tested\<close> is never lost, also by an error.\<close>

definition tested_effect :: "'w evaluator \<Rightarrow> error option \<Rightarrow> 'w evaluator \<Rightarrow> bool" where
  "tested_effect st e st' \<longleftrightarrow> (tested st \<longrightarrow> tested st')"

interpretation tests: command_relation tested_effect "\<lambda>_. True"
proof
  show "keeps tested_effect (assign_var x v)" for x v
    by (simp add: keeps_def tested_effect_def assign_frame)
  show "keeps tested_effect (eval_arith_ex t)" for t
    by (simp add: keeps_def tested_effect_def arith_frame)
qed (auto simp: tested_effect_def same_control_def begin_loop_def end_loop_def enter_function_def leave_function_def
    split: loop_step.splits)

text \<open>Variables: the integer caches stay coherent and no scope that was open is closed.\<close>

definition vars_effect :: "'w evaluator \<Rightarrow> error option \<Rightarrow> 'w evaluator \<Rightarrow> bool" where
  "vars_effect st e st' \<longleftrightarrow> (vars_ok (sh_vars st) \<longrightarrow> vars_ok (sh_vars st')) \<and>
     length (scopes (sh_vars st)) \<le> length (scopes (sh_vars st'))"

lemma scopes_set_int: "scopes (apply_op (OpSetInt x v) s) = scopes s" "scopes (apply_op (OpSet x b) s) = scopes s"
  by (auto simp: or_else_def set_int_def set_bytes_def put_def split: sum.splits option.splits)

lemma scopes_run_ints: "\<forall>p \<in> set ops. \<exists>x v. p = OpSetInt x v \<Longrightarrow> scopes (run_ops ops s) = scopes s"
proof (induction ops arbitrary: s)
  case (Cons p ops)
  then obtain x v where "p = OpSetInt x v" by auto
  with Cons scopes_set_int(1) [of x v s] show ?case by simp
qed simp

lemma vars_ok_same: "vars_ok (s\<lparr>positional := ps\<rparr>) = vars_ok s"
  by (simp add: vars_ok_def)

lemma vars_ok_push: "vars_ok s \<Longrightarrow> vars_ok (push_scope (s\<lparr>positional := ps\<rparr>))"
  by (auto simp: vars_ok_def push_scope_def)

lemma scopes_push_pop:
  "length (scopes (push_scope s)) = Suc (length (scopes s))" "length (scopes (pop_scope s)) = length (scopes s) - 1"
  "length (scopes (make_local s x)) = length (scopes s)"
  by (simp_all add: push_scope_def pop_scope_def make_local_def)

lemma scopes_op: "op \<noteq> OpPush \<Longrightarrow> op \<noteq> OpPop \<Longrightarrow> length (scopes (apply_op op s)) = length (scopes s)"
  by (cases op) (auto simp: var_op_defs or_else_def entry_or_new_def split: sum.splits option.splits if_splits)

interpretation stores: command_relation vars_effect "\<lambda>_. True"
proof
  show "keeps vars_effect (assign_var x v)" for x v
    unfolding keeps_def vars_effect_def sh_vars_assign
    using vars_ok_apply scopes_set_int(2) [of x "from_str_lossless v"] by (auto simp del: apply_op.simps)
  show "keeps vars_effect (eval_arith_ex t)" for t
    unfolding keeps_def vars_effect_def using sh_vars_arith vars_ok_run scopes_run_ints by (metis order_refl)
  show "op \<noteq> OpPush \<Longrightarrow> op \<noteq> OpPop \<Longrightarrow> vars_effect st None (st\<lparr>sh_vars := apply_op op (sh_vars st)\<rparr>)"
    for st :: "'w evaluator" and op
    by (auto simp: vars_effect_def scopes_op intro: vars_ok_apply simp del: apply_op.simps)
  show "vars_effect st None (st\<lparr>sh_vars := (sh_vars st)\<lparr>positional := ps\<rparr>\<rparr>)" for st :: "'w evaluator" and ps
    by (simp add: vars_effect_def vars_ok_same)
  show "vars_effect (enter_function args st) e st' \<Longrightarrow> vars_effect st e (leave_function (positional (sh_vars st)) st')"
    "vars_effect (enter_function args st) (Some err) st' \<Longrightarrow> vars_effect st (Some err) st'"
    for args e err and st st' :: "'w evaluator"
    using vars_ok_push [of "sh_vars st"] vars_ok_pop [of "sh_vars st'"]
    by (auto simp: vars_effect_def enter_function_def leave_function_def scopes_push_pop vars_ok_same)
qed (auto simp: vars_effect_def same_control_def begin_loop_def end_loop_def split: loop_step.splits)

subsection \<open>Commands that end\<close>

lemma subcommand_size: "d \<in> set (subcommands c) \<Longrightarrow> size d < size c"
proof (cases c)
  case (Case w arms sp)
  assume "d \<in> set (subcommands c)"
  with Case obtain a where a: "a \<in> set arms" "arm_body a = Some d" by (auto split: option.splits)
  from a(2) have "size d < size_case_arm size a" by (cases a) auto
  also have "\<dots> \<le> size_list (size_case_arm size) arms" using a(1) by (rule size_list_estimation') simp
  finally show ?thesis by (simp add: Case)
qed (auto split: option.splits simp: less_Suc_eq_le dest: size_list_estimation' [OF _ order_refl])

text \<open>Commands without \<^verbatim>\<open>while\<close>, \<^verbatim>\<open>until\<close> and function definitions.\<close>

function bounded_command :: "command \<Rightarrow> bool" where
  "bounded_command c \<longleftrightarrow>
     (case c of While _ _ _ \<Rightarrow> False | Until _ _ _ \<Rightarrow> False | FuncDef _ _ _ \<Rightarrow> False | _ \<Rightarrow> True) \<and>
     (\<forall>d \<in> set (subcommands c). bounded_command d)"
  by pat_completeness auto
termination by (relation "measure size") (auto dest: subcommand_size)

declare bounded_command.simps [simp del]

lemma bounded_sub: "bounded_command c \<Longrightarrow> d \<in> set (subcommands c) \<Longrightarrow> bounded_command d"
  by (subst (asm) bounded_command.simps) simp

definition functions_effect :: "'w evaluator \<Rightarrow> error option \<Rightarrow> 'w evaluator \<Rightarrow> bool" where
  "functions_effect st e st' \<longleftrightarrow> (sh_functions st = Map.empty \<longrightarrow> sh_functions st' = Map.empty)"

interpretation closed: command_relation functions_effect bounded_command
proof
  show "keeps functions_effect (assign_var x v)" for x v
    by (simp add: keeps_def functions_effect_def assign_frame)
  show "keeps functions_effect (eval_arith_ex t)" for t
    by (simp add: keeps_def functions_effect_def arith_frame)
  show "bounded_command (FuncDef f body sp) \<Longrightarrow> functions_effect st None (st\<lparr>sh_functions := (sh_functions st)(f \<mapsto> body)\<rparr>)"
    for f body sp and st :: "'w evaluator"
    by (simp add: bounded_command.simps [of "FuncDef f body sp"])
qed (auto simp: functions_effect_def same_control_def begin_loop_def end_loop_def enter_function_def leave_function_def
    split: loop_step.splits intro: bounded_sub)

definition ends :: "('w, 'a) ev \<Rightarrow> bool" where
  "ends m \<longleftrightarrow> (\<forall>st. sh_functions st = Map.empty \<longrightarrow> m st \<noteq> None)"

named_theorems ends_rules \<open>computations that return\<close>

lemma ends_lift [ends_rules]: "ends (lift_act a)"
  by (simp add: ends_def lift_act_def)

lemma ends_vbind:
  assumes "ends m" "keeps_ev functions_effect m" "\<And>x. ends (k x)"
  shows "ends (vbind m k)"
  unfolding ends_def
proof (intro allI impI)
  fix st :: "'a evaluator" assume st: "sh_functions st = Map.empty"
  with assms(1) obtain r st' where m: "m st = Some (r, st')" unfolding ends_def by fastforce
  with keeps_evD [OF assms(2) m] st have "sh_functions st' = Map.empty" by (simp add: functions_effect_def)
  with assms(3) m show "vbind m k st \<noteq> None" by (cases r) (simp_all add: vbind_def ends_def)
qed

lemma ends_act [ends_rules]: "keeps functions_effect a \<Longrightarrow> (\<And>x. ends (k x)) \<Longrightarrow> ends (vbind (lift_act a) k)"
  by (intro ends_vbind ends_rules closed.keeps_lift)

lemma ends_modify [ends_rules]:
  "(\<And>st. functions_effect st None (f st)) \<Longrightarrow> ends m \<Longrightarrow> ends (modify f m)"
  by (simp add: ends_def modify_def functions_effect_def)

lemma ends_after [ends_rules]: "ends m \<Longrightarrow> ends (\<lambda>st. case m st of None \<Rightarrow> None | Some (r, st) \<Rightarrow> Some (f r st))"
  by (auto simp: ends_def split: option.splits)

lemma endsD: "ends m \<Longrightarrow> sh_functions st = Map.empty \<Longrightarrow> \<exists>r st'. m st = Some (r, st')"
  by (auto simp: ends_def)

lemma ends_tested [ends_rules]:
  assumes "ends (self c)"
  shows "ends (eval_tested self c)"
  unfolding ends_def
proof (intro allI impI)
  fix st :: "'a evaluator" assume "sh_functions st = Map.empty"
  then obtain r st' where "self c (st\<lparr>tested := True\<rparr>) = Some (r, st')"
    using endsD [OF assms, of "st\<lparr>tested := True\<rparr>"] by auto
  then show "eval_tested self c st \<noteq> None" by (cases r) (simp_all add: eval_tested_def vbind_def)
qed

lemma ends_case_arms:
  assumes host: "host_keeps functions_effect H"
    and arms: "\<And>a b. a \<in> set arms \<Longrightarrow> arm_body a = Some b \<Longrightarrow> ends (self b)"
  shows "ends (case_arms H self t arms)"
  using arms
proof (induction arms)
  case (Cons a arms)
  have "ends (case arm_body a of Some b \<Rightarrow> self b | None \<Rightarrow> lift_act (ret 0))"
    using Cons.prems [of a] by (auto split: option.split intro: ends_rules)
  moreover have "ends (case_arms H self t arms)" using Cons.prems by (intro Cons.IH) auto
  ultimately show ?case by (auto intro!: ends_act closed.match_patterns_keeps [OF host])
qed (simp add: ends_lift)

lemma ends_simple:
  assumes host: "host_keeps functions_effect H"
  shows "ends (eval_simple H self asgs args rs sp)"
proof -
  note rules = ends_act ends_modify ends_after closed.host_rules [OF host] closed.trace_command_keeps [OF host]
  have "ends (dispatch H self args asgs sp)" for args
    unfolding ends_def
  proof (intro allI impI)
    fix st :: "'a evaluator" assume st: "sh_functions st = Map.empty"
    obtain r st' where t: "try_builtin H (hd args) args sp st = (r, st')" by fastforce
    from keepsD [OF closed.try_builtin_keeps [OF host] t] st have "sh_functions st' = Map.empty"
      by (simp add: functions_effect_def)
    with t show "dispatch H self args asgs sp st \<noteq> None"
      by (auto simp: dispatch_def split: sum.split option.split)
  qed
  then have run: "ends (run_command H self asgs rs sp args)" for args
    unfolding run_command_def by (intro rules)
  have refuse: "ends (\<lambda>st. case parent_process_refusal H args st of Some m \<Rightarrow> Some (Inr 2, err_msg H m st)
      | None \<Rightarrow> run_command H self asgs rs sp args st)" for args
    using run by (auto simp: ends_def split: option.split)
  have "ends (vbind (lift_act (expand_args H args)) (\<lambda>args.
       if args = [] then lift_act (eval_assignments H asgs rs sp k)
       else (\<lambda>st. case parent_process_refusal H args st of
           Some m \<Rightarrow> Some (Inr 2, err_msg H m st)
         | None \<Rightarrow> run_command H self asgs rs sp args st)))" for k
    using refuse by (intro ends_act closed.expand_args_keeps [OF host]) (auto intro: ends_lift)
  then show ?thesis by (simp add: ends_def eval_simple_def)
qed

lemma ends_round:
  assumes "ends f" "keeps_ev functions_effect f" "\<And>s. ends (k s)"
  shows "ends (\<lambda>st. case f st of None \<Rightarrow> None | Some (r, st) \<Rightarrow>
    (case loop_outcome r of Again s \<Rightarrow> k s st | Leave \<Rightarrow> Some (Inr l, end_loop st) | Raise e \<Rightarrow> Some (Inl e, end_loop st)))"
  unfolding ends_def
proof (intro allI impI)
  fix st :: "'a evaluator" assume st: "sh_functions st = Map.empty"
  obtain r st' where f: "f st = Some (r, st')" using endsD [OF assms(1) st] by blast
  from keeps_evD [OF assms(2) f] st have "sh_functions st' = Map.empty" by (simp add: functions_effect_def)
  with assms(3) f show "(case f st of None \<Rightarrow> None | Some (r, st) \<Rightarrow>
    (case loop_outcome r of Again s \<Rightarrow> k s st | Leave \<Rightarrow> Some (Inr l, end_loop st) | Raise e \<Rightarrow> Some (Inl e, end_loop st))) \<noteq> None"
    by (auto simp: ends_def split: loop_step.split)
qed

lemma ends_for:
  assumes host: "host_keeps functions_effect H" and body: "ends (self body)" "keeps_ev functions_effect (self body)"
  shows "ends (for_loop H self var body vs s)"
proof (induction vs arbitrary: s)
  case (Cons v vs)
  let ?next = "\<lambda>st. case self body st of None \<Rightarrow> None | Some (r, st) \<Rightarrow>
    (case loop_outcome r of Again s' \<Rightarrow> for_loop H self var body vs (new_status s s') st
     | Leave \<Rightarrow> Some (Inr s, end_loop st) | Raise e \<Rightarrow> Some (Inl e, end_loop st))"
  have "ends ?next" by (rule ends_round [OF body Cons.IH])
  from endsD [OF this] have "sh_functions st = Map.empty \<Longrightarrow> ?next (st\<lparr>sh_vars := w\<rparr>) \<noteq> None" for st w
    by fastforce
  then have "ends (\<lambda>st. case set_shell (sh_vars st) var v of
      Inl m \<Rightarrow> Some (Inr 1, err_msg H m st) | Inr w \<Rightarrow> ?next (st\<lparr>sh_vars := w\<rparr>))"
    unfolding ends_def by (auto split: sum.split)
  then show ?case unfolding for_loop_Cons by (intro ends_act closed.host_rules [OF host])
qed (simp add: ends_def)

text \<open>A computation run with flags set and then set back.\<close>

lemma ends_flags:
  fixes m :: "('w, 'a) ev" and f :: "'w evaluator \<Rightarrow> 'w evaluator"
  assumes "ends m" "\<And>st. sh_functions (f st) = sh_functions st"
  shows "ends (\<lambda>st. case m (f st) of None \<Rightarrow> None | Some (r, st') \<Rightarrow> Some (g r st, h st st'))"
  unfolding ends_def
proof (intro allI impI)
  fix st :: "'w evaluator" assume "sh_functions st = Map.empty"
  with assms(2) have "sh_functions (f st) = Map.empty" by simp
  with endsD [OF assms(1)] show "(case m (f st) of None \<Rightarrow> None | Some (r, st') \<Rightarrow> Some (g r st, h st st')) \<noteq> None"
    by fastforce
qed

lemma ends_inner:
  assumes host: "host_keeps functions_effect H" and c: "bounded_command c" "empty_pipeline c = None"
    and sub: "\<And>d. d \<in> set (subcommands c) \<Longrightarrow> ends (self d) \<and> keeps_ev functions_effect (self d)"
  shows "ends (eval_command_inner n H self c)"
proof -
  note rules = ends_rules ends_vbind ends_simple [OF host] ends_case_arms [OF host] ends_for [OF host]
    closed.host_rules [OF host] closed.expansion_keeps [OF host] closed.for_words_keeps [OF host] closed.tested_keeps
  have flag: "functions_effect st None (if p then st else st\<lparr>ev_exit := False\<rparr>)"
    "functions_effect st None (begin_loop st)" "functions_effect st None (st\<lparr>sh_exit_status := s\<rparr>)" for st p s
    by (simp_all add: functions_effect_def begin_loop_def)
  show ?thesis
  proof (cases c)
    case (Pipeline cs bang sp)
    then have "ends (eval_pipeline H self cs)"
      using sub c(2) unfolding eval_pipeline_def by (cases cs) (auto intro!: rules)
    then show ?thesis
      unfolding eval_command_inner_def Pipeline command.case Let_def
      by (intro ends_modify [OF flag(1)] ends_flags) simp_all
  next
    case (NotCommand d)
    with sub show ?thesis
      unfolding eval_command_inner_def NotCommand command.case by (intro ends_modify [OF flag(1)] ends_flags) auto
  next
    case (Case w arms sp)
    have "ends (self b)" if "a \<in> set arms" "arm_body a = Some b" for a b
      using that sub [of b] Case by (force split: option.split)
    then show ?thesis unfolding eval_command_inner_def Case command.case by (intro rules flag)
  next
    case (FuncDef f b sp)
    with c(1) show ?thesis by (simp add: bounded_command.simps [of "FuncDef f b sp"])
  next
    case (While a b sp)
    with c(1) show ?thesis by (simp add: bounded_command.simps [of "While a b sp"])
  next
    case (Until a b sp)
    with c(1) show ?thesis by (simp add: bounded_command.simps [of "Until a b sp"])
  qed (use sub in \<open>auto simp: eval_command_inner_def split: option.split intro!: rules flag\<close>)
qed

lemma eval_command_ends:
  assumes host: "host_keeps functions_effect H"
  shows "bounded_command c \<Longrightarrow> size c < n \<Longrightarrow> ends (eval_command n H c)"
proof (induction n arbitrary: c)
  case (Suc n)
  have sub: "ends (eval_command n H d) \<and> keeps_ev functions_effect (eval_command n H d)"
    if d: "d \<in> set (subcommands c)" for d
    using Suc.IH [of d] closed.eval_command_keeps [OF host] bounded_sub [OF Suc.prems(1) d] subcommand_size [OF d] Suc.prems(2)
    by auto
  show ?case
  proof (cases "empty_pipeline c")
    case None
    have "ends (after_command c s)" for s by (simp add: ends_def after_command_def Let_def)
    then have "ends (vbind (eval_command_inner n H (eval_command n H) c) (after_command c))"
      using closed.inner_keeps [OF host _ Suc.prems(1) None] closed.eval_command_keeps [OF host]
      by (intro ends_vbind ends_inner [OF host Suc.prems(1) None sub]) auto
    then have "ends (vbind (lift_act (check_cancel H)) (\<lambda>_ st. if noexec st then Some (Inr 0, st)
        else vbind (eval_command_inner n H (eval_command n H) c) (after_command c) st))"
      by (intro ends_act closed.host_rules [OF host]) (auto simp: ends_def)
    with None show ?thesis by (simp add: ends_def eval_step_def)
  qed (simp add: ends_def eval_step_def)
qed simp

subsection \<open>A host that does nothing\<close>

text \<open>No redirections, no external commands, no other builtins: what is left is control flow.\<close>

definition quiet_host :: "unit host" where
  "quiet_host = \<lparr>files = (\<lambda>_. demo_files), check_cancel = ret (), ensure_terminal = ret (),
     run_substitution = (\<lambda>_. ret ([], 0)), write_err = (\<lambda>_ w. w), write_output = (\<lambda>_ w. w),
     stdin_bytes = (\<lambda>_. []), consume_stdin = (\<lambda>_ w. w), env_order = (\<lambda>_. []), test_files = (\<lambda>_. demo_test_env),
     describe_commands = (\<lambda>_ _. ret 0), setup_redirections = (\<lambda>_. ret 0),
     finish_redirections = (\<lambda>_ _ r st. (r, st)), parent_process_refusal = (\<lambda>_ _. None),
     check_command_policy = (\<lambda>_ _. ret ()), preflight_external = (\<lambda>_. ret ()), preflight_redirects = (\<lambda>_. ret ()),
     other_builtin = (\<lambda>_ _ _. ret None), has_external_handler = (\<lambda>_ _. False),
     call_external_handler = (\<lambda>_ _. ret 127), eval_external = (\<lambda>_ _ _. ret 127),
     fork_pipeline = (\<lambda>_. ret 0), eval_in_subshell = (\<lambda>_ _. ret 0), eval_background = (\<lambda>_ _. ret 0)\<rparr>"

definition demo_state :: "unit evaluator" where
  "demo_state = \<lparr>sh_vars = new_clean, sh_exit_status = 0, sh_pid = 1, sh_cwd = [47], sh_flags = [],
     sh_last_bg_pid = None, sh_nounset = False, sh_noglob = False, sh_functions = Map.empty, loop_depth = 0,
     tested = False, ev_exit = False, errexit = False, xtrace = False, noexec = False, pipefail = False, pipeline_depth = 0,
     substitution_count = 0, outside = ()\<rparr>"

definition cmd :: "string list \<Rightarrow> command" where
  "cmd ws = Simple [] (map (\<lambda>w. Word [SingleQuoted (utf8 (ustr w))] demo_span) ws) [] demo_span"

lemma quiet_host_keeps: "(\<And>st. Q st None st) \<Longrightarrow> host_keeps Q quiet_host"
  by (simp add: host_keeps_def quiet_host_def keeps_def)

lemma bytes_to_str_ascii: "list_all (\<lambda>c. c < 128) t \<Longrightarrow> bytes_to_str (utf8 t) = t"
proof -
  assume t: "list_all (\<lambda>c. c < 128) t"
  then have "wf_str t" by (auto simp: list_all_iff is_scalar_def)
  from units_utf8 [OF this, of "[]"] have "bytes_to_str (utf8 t) = concat (map (enc_unit \<circ> Scalar) t)"
    by (simp add: bytes_to_str_units)
  moreover from t have "concat (map (enc_unit \<circ> Scalar) t) = t"
    by (induction t) (auto simp: special_def is_pua_byte_def encoding_consts)
  ultimately show ?thesis by simp
qed

lemma expand_quoted_words:
  "list_all (list_all (\<lambda>c. c < 128)) ts \<Longrightarrow>
     expand_args H (map (\<lambda>t. Word [SingleQuoted (utf8 t)] demo_span) ts) st = (Inr ts, st)"
  by (induction ts) (simp_all add: ebind_def expand_fields_def quoted_text_field bytes_to_str_ascii)

lemma quiet_simple:
  assumes "list_all (list_all (\<lambda>c. c < 128)) (map ustr ws)" "ws \<noteq> []" "\<not> xtrace st"
  shows "eval_command_inner n quiet_host self (cmd ws) st = dispatch quiet_host self (map ustr ws) [] demo_span st"
proof -
  have "expand_args H (map (\<lambda>w. Word [SingleQuoted (utf8 (ustr w))] demo_span) ws) st = (Inr (map ustr ws), st)" for H
    using expand_quoted_words [OF assms(1), of H st] by (simp add: comp_def)
  with assms(2,3) show ?thesis
    by (auto simp: eval_command_inner_def cmd_def modify_def is_simple_def eval_simple_def vbind_def lift_act_def run_command_def
        trace_command_def quiet_host_def split: option.split)
qed

lemma quiet_true [simp]:
  "\<not> xtrace st \<Longrightarrow> eval_command_inner n quiet_host self (cmd [''true'']) st = Some (Inr 0, st)"
  by (subst quiet_simple) (simp_all add: dispatch_def try_builtin.simps)

lemma quiet_false [simp]:
  "\<not> xtrace st \<Longrightarrow> eval_command_inner n quiet_host self (cmd [''false'']) st = Some (Inr 1, st)"
  by (subst quiet_simple) (simp_all add: dispatch_def try_builtin.simps)

lemma quiet_break [simp]:
  "\<not> xtrace st \<Longrightarrow> loop_depth st \<noteq> 0 \<Longrightarrow> eval_command_inner n quiet_host self (cmd [''break'']) st = Some (Inl (Break 1), st)"
  by (subst quiet_simple) (simp_all add: dispatch_def try_builtin.simps builtin_loop_control_def)

lemma quiet_return [simp]:
  "\<not> xtrace st \<Longrightarrow> eval_command_inner n quiet_host self (cmd [''return'']) st = Some (Inl (Return (sh_exit_status st)), st)"
  by (subst quiet_simple) (simp_all add: dispatch_def try_builtin.simps builtin_status_operand_def)

lemma cmd_simps [simp]: "empty_pipeline (cmd ws) = None" "is_leaf (cmd ws)" "\<not> is_bang (cmd ws)"
  by (simp_all add: cmd_def)

lemma quiet_step [simp]:
  "empty_pipeline c = None \<Longrightarrow> \<not> noexec st \<Longrightarrow>
     eval_step n quiet_host self c st = vbind (eval_command_inner n quiet_host self c) (after_command c) st"
  by (simp add: eval_step_def vbind_def lift_act_def quiet_host_def)

lemma quiet_simps [simp]:
  "check_cancel quiet_host = ret ()" "setup_redirections quiet_host rs = ret 0"
  "finish_redirections quiet_host b k r = Pair r" "err_msg quiet_host m st = st"
  by (simp_all add: quiet_host_def err_msg_def fun_eq_iff Let_def)

lemma demo_state_simps [simp]:
  "\<not> xtrace demo_state" "\<not> noexec demo_state" "\<not> tested demo_state" "\<not> errexit demo_state" "loop_depth demo_state = 0"
  "sh_functions demo_state = Map.empty" "sh_exit_status demo_state = 0"
  by (simp_all add: demo_state_def)

lemma eval_numeral:
  "eval_command (numeral k) H c st = eval_step (pred_numeral k) H (eval_command (pred_numeral k) H) c st"
  "eval_command 1 H c st = eval_step 0 H (eval_command 0 H) c st"
  by (simp_all add: numeral_eq_Suc)

lemma while_numeral:
  "while_loop (numeral k) H self g a b s = while_loop (Suc (pred_numeral k)) H self g a b s"
  by (simp add: numeral_eq_Suc)

lemma inner_forms:
  "eval_command_inner n H self (While a b sp) st = while_loop n H self True a b 0 (begin_loop (st\<lparr>ev_exit := False\<rparr>))"
  "eval_command_inner n H self (AndList a b) st =
     vbind (eval_tested self a) (\<lambda>s. if exit_success s then self b else lift_act (ret s)) (st\<lparr>ev_exit := False\<rparr>)"
  "eval_command_inner n H self (Sequence a b) st =
     vbind (self a) (\<lambda>s. modify (\<lambda>st. st\<lparr>sh_exit_status := s\<rparr>) (self b)) (st\<lparr>ev_exit := False\<rparr>)"
  "eval_command_inner n H self (FuncDef f b sp) st =
     Some (Inr 0, st\<lparr>ev_exit := False, sh_functions := (sh_functions st)(f \<mapsto> b)\<rparr>)"
  "eval_command_inner n H self (For x ws b sp) st =
     vbind (lift_act (for_words H ws)) (\<lambda>vs. modify begin_loop (for_loop H self x b vs 0)) (st\<lparr>ev_exit := False\<rparr>)"
  by (simp_all add: eval_command_inner_def modify_def is_simple_def)

lemmas run_defs = vbind_def after_command_def inner_forms modify_def eval_tested_def
  begin_loop_def end_loop_def lift_act_def Let_def exit_success_def eval_numeral while_numeral

text \<open>The condition of a loop is evaluated inside of the loop, but the loop does not take up its
  \<^verbatim>\<open>break\<close>: the error leaves the loop with its count, and the depth stays one too high.\<close>

lemma break_in_condition:
  "eval_command 3 quiet_host (While (cmd [''break'']) (cmd [''true'']) demo_span) demo_state =
     Some (Inl (Break 1), demo_state\<lparr>ev_exit := False, loop_depth := 1, tested := True\<rparr>)"
  by (simp add: run_defs)

text \<open>An error leaves the flag \<^verbatim>\<open>tested\<close> set: after the function \<^verbatim>\<open>f() { return && true; }\<close> has been
  called, \<^verbatim>\<open>set -e\<close> no longer stops at a command that fails.\<close>

lemma quiet_call:
  "\<not> xtrace st \<Longrightarrow> sh_functions st (ustr ''f'') = Some body \<Longrightarrow>
     eval_command_inner n quiet_host self (cmd [''f'']) st =
       eval_function quiet_host self body [ustr ''f''] [] (st\<lparr>ev_exit := False\<rparr>)"
  by (subst quiet_simple) (simp_all add: dispatch_def try_builtin.simps, simp add: quiet_host_def)

lemma errexit_disabled:
  "\<exists>st. eval_command 6 quiet_host
     (Sequence (FuncDef (ustr ''f'') (AndList (cmd [''return'']) (cmd [''true''])) demo_span)
        (Sequence (cmd [''f'']) (cmd [''false'']))) (demo_state\<lparr>errexit := True\<rparr>) = Some (Inr 1, st) \<and>
     errexit st \<and> tested st \<and> \<not> tested demo_state"
  by (simp add: run_defs quiet_call eval_function_def catch_return_def enter_function_def leave_function_def)

text \<open>A read-only loop variable ends \<^verbatim>\<open>for\<close> with the depth one too high.\<close>

lemma quiet_for_words [simp]:
  "for_words quiet_host (Some [Word [SingleQuoted (utf8 (ustr ''a''))] demo_span]) st = (Inr [ustr ''a''], st)"
  using expand_quoted_words [of "[ustr ''a'']" quiet_host st] by (simp add: for_words_def)

lemma readonly_for_variable:
  "\<exists>st. eval_command 2 quiet_host
     (For IFS_NAME (Some [Word [SingleQuoted (utf8 (ustr ''a''))] demo_span]) (cmd [''true'']) demo_span)
     (demo_state\<lparr>sh_vars := set_readonly new_clean IFS_NAME\<rparr>) = Some (Inr 1, st) \<and> loop_depth st = 1"
proof -
  have "is_readonly (set_readonly new_clean IFS_NAME) IFS_NAME"
    by (simp add: set_readonly_def is_readonly_put entry_or_new_def new_clean_def var_new_def flags_has_def
        flags_set_def READONLY_def)
  then show ?thesis
    by (simp add: run_defs set_shell_def set_bytes_def del: ustr_simps)
qed

text \<open>An error in an assignment before a function call leaves the arguments of the call and its
  scope in place: \<^verbatim>\<open>x=${y?} f\<close> with \<^verbatim>\<open>y\<close> unset.\<close>

lemma function_scope_leaks:
  assumes "get_shell (sh_vars st) (ustr ''y'') = None" "\<not> sh_nounset st"
  shows "eval_function quiet_host self body [ustr ''f'', ustr ''a'']
      [Assignment (ustr ''x'') (Word [Param (ustr ''y'') (Error False []) demo_span] demo_span) demo_span] st =
    Some (Inl (not_set (ustr ''y'') demo_span), enter_function [ustr ''f'', ustr ''a''] st)"
proof -
  have raw: "raw_value (ustr ''y'') (enter_function args st) = None" "\<not> sh_nounset (enter_function args st)" for args
    using assms by (simp_all add: raw_value_def is_special_param_def enter_function_def push_scope_def get_shell_def get_bytes_def
        is_ascii_digit_def)
  then show ?thesis
    by (simp add: eval_function_def vbind_def lift_act_def ebind_def expand_string_def expand_word_to_string_def
        expand_parts.simps [of _ "[_]"] expand_part.simps expand_param_to_fragments.simps is_at_def is_star_def
        nounset_error_def is_unset_def unset_message_def)
qed

subsection \<open>Properties\<close>






lemma run_false: "eval_command 1 quiet_host (cmd [''false'']) demo_state = Some (Inr 1, demo_state\<lparr>sh_exit_status := 1\<rparr>)"
  by (simp add: run_defs)







lemma bounded_cmd: "bounded_command (cmd ws)"
  by (subst bounded_command.simps) (simp add: cmd_def)

lemma bounded_and: "bounded_command (AndList a b) \<longleftrightarrow> bounded_command a \<and> bounded_command b"
  by (subst bounded_command.simps) simp


end
