(* ===== verification/Lexer_Text.thy ===== *)
theory Lexer_Text
  imports Ast Num_Text
begin

text \<open>
  The lexer (\<^verbatim>\<open>crates/epsh/src/lexer.rs\<close>), first part: characters, operators and the text of nested
  substitutions.  The source text and the position in it are the list of
  characters that are still to be read, \<open>rest\<close>; everything else of the struct \<^verbatim>\<open>Lexer\<close> is a field of
  the record.  A function that fails with a syntax error stops with \<open>Fail\<close>, a panic is \<open>Panicked\<close>; the
  text of a message is kept as data.  The guard of the nesting depth lives as long as the call that made it, so that the
  depth is an argument, \<open>d\<close>.

  Command substitutions are parsed by the parser, which calls the lexer.  The functions here take the
  parser of a nested command as an argument; \<open>Parser\<close> closes the circle.  Functions that call each
  other recursively count the calls in a fuel argument and stop with \<open>OutOfFuel\<close>.
\<close>

subsection \<open>Tokens\<close>

datatype token =
    TkWord "command word_part list" bool
  | TkAssignment ustring "command word_part list"
  | TkNewline | TkSemi | TkAmp | TkPipe | TkAnd | TkOr | TkSemiSemi
  | TkLess | TkGreat | TkDLess | TkDGreat | TkLessAnd | TkGreatAnd | TkLessGreat | TkDLessDash
  | TkClobber | TkLParen | TkRParen
  | TkIf | TkThen | TkElse | TkElif | TkFi | TkDo | TkDone | TkCase | TkEsac | TkWhile | TkUntil
  | TkFor | TkIn | TkLbrace | TkRbrace | TkBang
  | TkEof

text \<open>Tokens are compared by their constructors.\<close>

definition token_eq :: "token \<Rightarrow> token \<Rightarrow> bool" where
  "token_eq a b =
     (case (a, b) of
        (TkWord _ _, TkWord _ _) \<Rightarrow> True
      | (TkAssignment _ _, TkAssignment _ _) \<Rightarrow> True
      | _ \<Rightarrow> a = b)"

fun is_redir :: "token \<Rightarrow> bool" where
  "is_redir TkLess = True"
| "is_redir TkGreat = True"
| "is_redir TkDLess = True"
| "is_redir TkDGreat = True"
| "is_redir TkLessAnd = True"
| "is_redir TkGreatAnd = True"
| "is_redir TkLessGreat = True"
| "is_redir TkDLessDash = True"
| "is_redir TkClobber = True"
| "is_redir _ = False"

record pending_here_doc =
  delimiter :: shell_bytes
  strip_tabs :: bool
  here_quoted :: bool

datatype word_ctx = WordCtx | BraceCtx

record lexer =
  rest :: ustring
  source_offset :: nat
  encoding_prefix :: bool
  lex_line :: nat
  lex_col :: nat
  pushback :: "(token \<times> span) option"
  recognize_reserved :: bool
  pending_heredocs :: "pending_here_doc list"

datatype syntax_msg =
    NestingTooDeep
  | UnexpectedCharacter
  | UnterminatedBrace
  | UnterminatedSingle
  | UnterminatedDouble
  | UnterminatedSubst
  | UnterminatedSingleInSubst
  | UnterminatedArith
  | UnterminatedBacktick
  | UnterminatedInnerDouble
  | UnbalancedArith
  | Expected token token
  | UnexpectedToken token
  | ExpectedDelimiter token
  | ExpectedFilename token
  | ExpectedBranch token
  | ExpectedForName token
  | ExpectedCaseWord token
  | ExpectedPattern token

datatype stop = OutOfFuel | Panicked | Fail syntax_msg span

type_synonym ('s, 'a) lx = "'s \<Rightarrow> stop + 'a \<times> 's"

definition lret :: "'a \<Rightarrow> ('s, 'a) lx" where
  "lret x = (\<lambda>s. Inr (x, s))"

definition lbind :: "('s, 'a) lx \<Rightarrow> ('a \<Rightarrow> ('s, 'b) lx) \<Rightarrow> ('s, 'b) lx" where
  "lbind m k = (\<lambda>s. case m s of Inl e \<Rightarrow> Inl e | Inr (x, s') \<Rightarrow> k x s')"

definition lseq :: "('s, 'a) lx \<Rightarrow> ('s, 'b) lx \<Rightarrow> ('s, 'b) lx" where
  "lseq m k = lbind m (\<lambda>_. k)"

definition lfail :: "syntax_msg \<Rightarrow> span \<Rightarrow> ('s, 'a) lx" where
  "lfail msg sp = (\<lambda>s. Inl (Fail msg sp))"

definition lstop :: "('s, 'a) lx" where
  "lstop = (\<lambda>s. Inl OutOfFuel)"

definition lmodify :: "('s \<Rightarrow> 's) \<Rightarrow> ('s, unit) lx" where
  "lmodify f = (\<lambda>s. Inr ((), f s))"

text \<open>A result computed beside the state.\<close>

definition lift_result :: "stop + 'a \<Rightarrow> ('s, 'a) lx" where
  "lift_result r = (\<lambda>s. case r of Inl e \<Rightarrow> Inl e | Inr x \<Rightarrow> Inr (x, s))"

definition span_default :: span where
  "span_default = \<lparr>offset = 0, line_no = 0, col = 0\<rparr>"

definition MAX_NESTING_DEPTH :: nat where "MAX_NESTING_DEPTH = 32"

text \<open>\<^verbatim>\<open>NestingGuard::enter\<close>: the body runs one level deeper.\<close>

definition nested :: "nat \<Rightarrow> span \<Rightarrow> (nat \<Rightarrow> ('s, 'a) lx) \<Rightarrow> ('s, 'a) lx" where
  "nested d sp body = (if MAX_NESTING_DEPTH \<le> d then lfail NestingTooDeep sp else body (Suc d))"

subsection \<open>Characters\<close>

abbreviation SP :: cp where "SP \<equiv> 32"
abbreviation TAB :: cp where "TAB \<equiv> 9"
abbreviation NL :: cp where "NL \<equiv> 10"
abbreviation DQUOTE :: cp where "DQUOTE \<equiv> 34"
abbreviation SQUOTE :: cp where "SQUOTE \<equiv> 39"
abbreviation BACKTICK :: cp where "BACKTICK \<equiv> 96"
abbreviation BACKSLASH :: cp where "BACKSLASH \<equiv> 92"
abbreviation DOLLAR :: cp where "DOLLAR \<equiv> 36"
abbreviation HASH :: cp where "HASH \<equiv> 35"
abbreviation LBRACE :: cp where "LBRACE \<equiv> 123"
abbreviation RBRACE :: cp where "RBRACE \<equiv> 125"
abbreviation LPAREN :: cp where "LPAREN \<equiv> 40"
abbreviation RPAREN :: cp where "RPAREN \<equiv> 41"
abbreviation SEMI :: cp where "SEMI \<equiv> 59"
abbreviation AMP :: cp where "AMP \<equiv> 38"
abbreviation BAR :: cp where "BAR \<equiv> 124"
abbreviation LESS :: cp where "LESS \<equiv> 60"
abbreviation GREAT :: cp where "GREAT \<equiv> 62"
abbreviation TILDE :: cp where "TILDE \<equiv> 126"
abbreviation COLON :: cp where "COLON \<equiv> 58"
abbreviation SLASH :: cp where "SLASH \<equiv> 47"
abbreviation EQUALS :: cp where "EQUALS \<equiv> 61"
abbreviation QUESTION :: cp where "QUESTION \<equiv> 63"
abbreviation PLUS :: cp where "PLUS \<equiv> 43"
abbreviation MINUS :: cp where "MINUS \<equiv> 45"
abbreviation PERCENT :: cp where "PERCENT \<equiv> 37"

text \<open>The parameters with a name of one special character.\<close>

definition special_param :: "cp \<Rightarrow> bool" where
  "special_param c \<longleftrightarrow> c \<in> set (ustr ''@*#?-$!'')"

definition name_start :: "cp \<Rightarrow> bool" where
  "name_start c \<longleftrightarrow> c = 95 \<or> is_ascii_alphabetic c"

definition name_char :: "cp \<Rightarrow> bool" where
  "name_char c \<longleftrightarrow> c = 95 \<or> is_ascii_alphanumeric c"

definition from_shell_string :: "ustring \<Rightarrow> lexer" where
  "from_shell_string source = \<lparr>rest = source, source_offset = 0, encoding_prefix = False, lex_line = 1,
     lex_col = 1, pushback = None, recognize_reserved = True, pending_heredocs = []\<rparr>"

definition lexer_new_bytes :: "bytes \<Rightarrow> lexer" where
  "lexer_new_bytes source = from_shell_string (bytes_to_str source)"

definition lexer_span :: "'z lexer_scheme \<Rightarrow> span" where
  "lexer_span lx = \<lparr>offset = source_offset lx, line_no = lex_line lx, col = lex_col lx\<rparr>"

definition push_back :: "token \<Rightarrow> span \<Rightarrow> 'z lexer_scheme \<Rightarrow> 'z lexer_scheme" where
  "push_back tok sp lx = lx\<lparr>pushback := Some (tok, sp)\<rparr>"

definition peek_raw :: "'z lexer_scheme \<Rightarrow> cp option" where
  "peek_raw lx = (case rest lx of [] \<Rightarrow> None | c # _ \<Rightarrow> Some c)"

definition advance_raw :: "'z lexer_scheme \<Rightarrow> cp option \<times> 'z lexer_scheme" where
  "advance_raw lx =
     (case rest lx of
        [] \<Rightarrow> (None, lx)
      | ch # cs \<Rightarrow>
          let lx = lx\<lparr>rest := cs\<rparr> in
          if ch = ESCAPE \<and> \<not> encoding_prefix lx then (Some ch, lx\<lparr>encoding_prefix := True\<rparr>)
          else
            let lx = lx\<lparr>encoding_prefix := False, source_offset := source_offset lx + 1\<rparr> in
            (Some ch,
             if ch = NL then lx\<lparr>lex_line := lex_line lx + 1, lex_col := 1\<rparr>
             else lx\<lparr>lex_col := lex_col lx + 1\<rparr>))"

lemma rest_advance_raw [simp]: "rest (snd (advance_raw lx)) = tl (rest lx)"
  by (cases "rest lx") (simp_all add: advance_raw_def Let_def)

lemma advance_raw_char [simp]: "fst (advance_raw lx) = peek_raw lx"
  by (cases "rest lx") (simp_all add: advance_raw_def peek_raw_def Let_def)

text \<open>A backslash before a newline is not seen.\<close>

function peek :: "'z lexer_scheme \<Rightarrow> cp option \<times> 'z lexer_scheme" where
  "peek lx =
     (case rest lx of
        [] \<Rightarrow> (None, lx)
      | ch # cs \<Rightarrow>
          if ch = BACKSLASH \<and> cs \<noteq> [] \<and> hd cs = NL then peek (snd (advance_raw (snd (advance_raw lx))))
          else (Some ch, lx))"
  by pat_completeness auto
termination by (relation "measure (\<lambda>lx. length (rest lx))") auto

declare peek.simps [simp del]

definition advance :: "'z lexer_scheme \<Rightarrow> cp option \<times> 'z lexer_scheme" where
  "advance lx =
     (case peek lx of
        (None, lx) \<Rightarrow> (None, lx)
      | (Some _, lx) \<Rightarrow> advance_raw lx)"

text \<open>What is left after the joined lines.\<close>

fun joined :: "ustring \<Rightarrow> ustring" where
  "joined [] = []"
| "joined (c # cs) = (if c = BACKSLASH \<and> cs \<noteq> [] \<and> hd cs = NL then joined (tl cs) else c # cs)"

lemma joined_length [len_simps]: "length (joined s) \<le> length s"
  by (induction s rule: joined.induct) (auto simp: le_SucI)

lemma joined_joined [simp]: "joined (joined s) = joined s"
  by (induction s rule: joined.induct) auto

lemma rest_peek [simp]: "rest (snd (peek lx)) = joined (rest lx)"
proof (induction lx rule: peek.induct)
  case (1 lx)
  then show ?case by (cases "rest lx") (simp_all add: peek.simps [of lx])
qed

lemma peek_char: "fst (peek lx) = (case joined (rest lx) of [] \<Rightarrow> None | c # _ \<Rightarrow> Some c)"
proof (induction lx rule: peek.induct)
  case (1 lx)
  then show ?case by (cases "rest lx") (simp_all add: peek.simps [of lx])
qed

lemma peek_cases:
  obtains (end_of_text) lx' where "peek lx = (None, lx')" "joined (rest lx) = []" "rest lx' = []"
  | (char) c cs lx' where "peek lx = (Some c, lx')" "joined (rest lx) = c # cs" "rest lx' = c # cs"
  using rest_peek [of lx] peek_char [of lx]
  by (cases "peek lx"; cases "joined (rest lx)") auto

lemma rest_advance [simp]: "rest (snd (advance lx)) = tl (joined (rest lx))"
  by (cases lx rule: peek_cases) (simp_all add: advance_def)

lemma advance_char [simp]: "fst (advance lx) = fst (peek lx)"
  by (cases lx rule: peek_cases) (simp_all add: advance_def peek_raw_def)

lemma peek_Some: "peek lx = (Some c, lx') \<Longrightarrow> joined (rest lx) = c # tl (rest lx') \<and> rest lx' = joined (rest lx)"
  using rest_peek [of lx] peek_char [of lx] by (auto split: list.splits)

lemma peek_None: "peek lx = (None, lx') \<Longrightarrow> joined (rest lx) = [] \<and> rest lx' = []"
  using rest_peek [of lx] peek_char [of lx] by (auto split: list.splits)

lemma advance_Some: "advance lx = (Some c, lx') \<Longrightarrow> joined (rest lx) = c # rest lx'"
  using rest_advance [of lx] advance_char [of lx] peek_char [of lx] by (auto split: list.splits)

lemma advance_shorter: "advance lx = (Some c, lx') \<Longrightarrow> length (rest lx') < length (rest lx)"
  using advance_Some [of lx c lx'] joined_length [of "rest lx"] by simp

lemma peek_advance_shorter: "peek lx = (Some c, lx') \<Longrightarrow> length (rest (snd (advance lx'))) < length (rest lx)"
  using joined_length [of "rest lx"] joined_joined [of "rest lx"]
  by (cases lx rule: peek_cases) auto

lemma advance_raw_shorter: "advance_raw lx = (Some c, lx') \<Longrightarrow> length (rest lx') < length (rest lx)"
  using rest_advance_raw [of lx] advance_raw_char [of lx]
  by (auto simp: peek_raw_def split: list.splits)

lemma advance_raw_None: "advance_raw lx = (None, lx') \<Longrightarrow> lx' = lx \<and> rest lx = []"
  by (auto simp: advance_raw_def Let_def split: list.splits if_splits)

function skip_comment :: "'z lexer_scheme \<Rightarrow> 'z lexer_scheme" where
  "skip_comment lx =
     (case peek_raw lx of
        None \<Rightarrow> lx
      | Some c \<Rightarrow> if c = NL then lx else skip_comment (snd (advance_raw lx)))"
  by pat_completeness auto
termination by (relation "measure (\<lambda>lx. length (rest lx))") (auto simp: peek_raw_def split: list.splits)

declare skip_comment.simps [simp del]

lemma rest_skip_comment [simp]: "rest (skip_comment lx) = dropWhile (\<lambda>c. c \<noteq> NL) (rest lx)"
proof (induction lx rule: skip_comment.induct)
  case (1 lx)
  then show ?case by (cases "rest lx") (simp_all add: skip_comment.simps [of lx] peek_raw_def)
qed

function skip_blanks :: "'z lexer_scheme \<Rightarrow> 'z lexer_scheme" where
  "skip_blanks lx =
     (case peek lx of
        (None, lx1) \<Rightarrow> lx1
      | (Some ch, lx1) \<Rightarrow>
          if ch = SP \<or> ch = TAB then skip_blanks (snd (advance lx1))
          else if ch = HASH then skip_blanks (skip_comment lx1)
          else lx1)"
  by pat_completeness auto
termination
proof (relation "measure (\<lambda>lx. length (rest lx))", goal_cases)
  case (3 lx p)
  then show ?case
    using joined_length [of "rest lx"] dropWhile_length_le [of "\<lambda>c. c \<noteq> NL"]
    by (cases lx rule: peek_cases) (auto simp: Suc_le_eq intro: le_less_trans)
qed (auto dest: peek_advance_shorter [OF sym])

declare skip_blanks.simps [simp del]

text \<open>The loops that read characters of one kind.\<close>

function read_while :: "(cp \<Rightarrow> bool) \<Rightarrow> 'z lexer_scheme \<Rightarrow> ustring \<times> 'z lexer_scheme" where
  "read_while P lx =
     (case peek lx of
        (None, lx1) \<Rightarrow> ([], lx1)
      | (Some c, lx1) \<Rightarrow>
          if P c then let (s, lx2) = read_while P (snd (advance lx1)) in (c # s, lx2) else ([], lx1))"
  by pat_completeness auto
termination by (relation "measure (\<lambda>(P, lx). length (rest lx))") (auto dest: peek_advance_shorter [OF sym])

declare read_while.simps [simp del]

lemma read_while_length: "length (rest (snd (read_while P lx))) \<le> length (rest lx)"
proof (induction P lx rule: read_while.induct)
  case (1 P lx)
  then show ?case
    using joined_length [of "rest lx"] joined_joined [of "rest lx"]
    by (cases lx rule: peek_cases) (auto simp: read_while.simps [of P lx] split: prod.split)
qed

text \<open>The loops that read up to a closing character.\<close>

function skip_to_close_brace :: "span \<Rightarrow> ('z lexer_scheme, unit) lx" where
  "skip_to_close_brace sp lx =
     (case advance lx of
        (None, lx1) \<Rightarrow> Inl (Fail UnterminatedBrace sp)
      | (Some c, lx1) \<Rightarrow> if c = RBRACE then Inr ((), lx1) else skip_to_close_brace sp lx1)"
  by pat_completeness auto
termination by (relation "measure (\<lambda>(sp, lx). length (rest lx))") (auto dest: advance_shorter [OF sym])

function single_quoted :: "span \<Rightarrow> ustring \<Rightarrow> ('z lexer_scheme, ustring) lx" where
  "single_quoted sp content lx =
     (case advance_raw lx of
        (None, lx1) \<Rightarrow> Inl (Fail UnterminatedSingle sp)
      | (Some c, lx1) \<Rightarrow> if c = SQUOTE then Inr (content, lx1) else single_quoted sp (content @ [c]) lx1)"
  by pat_completeness auto
termination by (relation "measure (\<lambda>(sp, content, lx). length (rest lx))") (auto dest: advance_raw_shorter [OF sym])

function single_quoted_raw :: "span \<Rightarrow> ustring \<Rightarrow> ('z lexer_scheme, ustring) lx" where
  "single_quoted_raw sp content lx =
     (case advance lx of
        (None, lx1) \<Rightarrow> Inl (Fail UnterminatedSingleInSubst sp)
      | (Some c, lx1) \<Rightarrow>
          if c = SQUOTE then Inr (content @ [c], lx1) else single_quoted_raw sp (content @ [c]) lx1)"
  by pat_completeness auto
termination by (relation "measure (\<lambda>(sp, content, lx). length (rest lx))") (auto dest: advance_shorter [OF sym])

text \<open>A character after a backslash, if there is one.\<close>

definition escaped_raw :: "ustring \<Rightarrow> 'z lexer_scheme \<Rightarrow> ustring \<times> 'z lexer_scheme" where
  "escaped_raw word lx =
     (case advance lx of (None, lx1) \<Rightarrow> (word, lx1) | (Some c, lx1) \<Rightarrow> (word @ [c], lx1))"

lemma escaped_raw_length: "length (rest (snd (escaped_raw word lx))) \<le> length (rest lx)"
  using joined_length [of "rest lx"] rest_advance [of lx]
  by (cases "advance lx"; cases "fst (advance lx)") (auto simp: escaped_raw_def intro: order_trans [OF diff_le_self])

lemma escaped_raw_shorter: "escaped_raw word lx = (w, lx') \<Longrightarrow> length (rest lx') \<le> length (rest lx)"
  using escaped_raw_length [of word lx] by simp

function read_backtick_raw :: "ustring \<Rightarrow> span \<Rightarrow> ('z lexer_scheme, ustring) lx" where
  "read_backtick_raw word sp lx =
     (case advance lx of
        (None, lx1) \<Rightarrow> Inl (Fail UnterminatedBacktick sp)
      | (Some c, lx1) \<Rightarrow>
          if c = BACKTICK then Inr (word, lx1)
          else if c = BACKSLASH then
            (case escaped_raw (word @ [c]) lx1 of (word1, lx2) \<Rightarrow> read_backtick_raw word1 sp lx2)
          else read_backtick_raw (word @ [c]) sp lx1)"
  by pat_completeness auto
termination
  by (relation "measure (\<lambda>(word, sp, lx). length (rest lx))")
    (auto dest!: advance_shorter [OF sym] escaped_raw_shorter [OF sym])

declare skip_to_close_brace.simps [simp del] single_quoted.simps [simp del]
  single_quoted_raw.simps [simp del] read_backtick_raw.simps [simp del]

function backtick_content :: "ustring \<Rightarrow> span \<Rightarrow> ('z lexer_scheme, ustring) lx" where
  "backtick_content content sp lx =
     (case advance lx of
        (None, lx1) \<Rightarrow> Inl (Fail UnterminatedBacktick sp)
      | (Some c, lx1) \<Rightarrow>
          if c = BACKTICK then Inr (content, lx1)
          else if c = BACKSLASH then
            (case advance lx1 of
               (None, lx2) \<Rightarrow> Inl (Fail UnterminatedBacktick sp)
             | (Some c2, lx2) \<Rightarrow>
                 backtick_content
                   (if c2 = DOLLAR \<or> c2 = BACKTICK \<or> c2 = BACKSLASH \<or> c2 = DQUOTE then content @ [c2]
                    else content @ [BACKSLASH, c2]) sp lx2)
          else backtick_content (content @ [c]) sp lx1)"
  by pat_completeness auto
termination
  by (relation "measure (\<lambda>(content, sp, lx). length (rest lx))") (auto dest!: advance_shorter [OF sym])

declare backtick_content.simps [simp del]

definition lpeek :: "('z lexer_scheme, cp option) lx" where "lpeek lx = Inr (peek lx)"
definition ladvance :: "('z lexer_scheme, cp option) lx" where "ladvance lx = Inr (advance lx)"
definition ladvance_raw :: "('z lexer_scheme, cp option) lx" where "ladvance_raw lx = Inr (advance_raw lx)"
definition lread_while :: "(cp \<Rightarrow> bool) \<Rightarrow> ('z lexer_scheme, ustring) lx" where "lread_while P lx = Inr (read_while P lx)"
definition lescaped_raw :: "ustring \<Rightarrow> ('z lexer_scheme, ustring) lx" where "lescaped_raw word lx = Inr (escaped_raw word lx)"
definition lget_span :: "('z lexer_scheme, span) lx" where "lget_span lx = Inr (lexer_span lx, lx)"

subsection \<open>Operators\<close>

text \<open>The operator that has been read is longer if the character follows.\<close>

definition if_follows :: "cp \<Rightarrow> token \<Rightarrow> token \<Rightarrow> ('z lexer_scheme, token) lx" where
  "if_follows c longer shorter =
     lbind lpeek (\<lambda>ch. if ch = Some c then lseq ladvance (lret longer) else lret shorter)"

definition less_operator :: "('z lexer_scheme, token) lx" where
  "less_operator =
     lbind lpeek (\<lambda>ch.
       if ch = Some LESS then lseq ladvance (if_follows MINUS TkDLessDash TkDLess)
       else if ch = Some AMP then lseq ladvance (lret TkLessAnd)
       else if ch = Some GREAT then lseq ladvance (lret TkLessGreat)
       else lret TkLess)"

definition great_operator :: "('z lexer_scheme, token) lx" where
  "great_operator =
     lbind lpeek (\<lambda>ch.
       if ch = Some GREAT then lseq ladvance (lret TkDGreat)
       else if ch = Some AMP then lseq ladvance (lret TkGreatAnd)
       else if ch = Some BAR then lseq ladvance (lret TkClobber)
       else lret TkGreat)"

definition try_operator :: "span \<Rightarrow> ('z lexer_scheme, (token \<times> span) option) lx" where
  "try_operator sp =
     lbind lpeek (\<lambda>ch.
       let found = (\<lambda>m. lseq ladvance (lbind m (\<lambda>tok. lret (Some (tok, sp))))) in
       if ch = Some SEMI then found (if_follows SEMI TkSemiSemi TkSemi)
       else if ch = Some AMP then found (if_follows AMP TkAnd TkAmp)
       else if ch = Some BAR then found (if_follows BAR TkOr TkPipe)
       else if ch = Some LPAREN then found (lret TkLParen)
       else if ch = Some RPAREN then found (lret TkRParen)
       else if ch = Some LESS then found less_operator
       else if ch = Some GREAT then found great_operator
       else lret None)"

subsection \<open>Text of nested commands\<close>

definition unbalanced_arith_close :: "nat \<Rightarrow> span \<Rightarrow> stop + nat" where
  "unbalanced_arith_close depth sp = (if depth = 0 then Inl (Fail UnbalancedArith sp) else Inr (depth - 1))"

text \<open>The functions that copy the text of a substitution inside another one to \<open>word\<close> call each other.
  Each takes the functions that it calls as an argument, indexed by the kind of text; \<open>read_raw\<close> closes
  the recursion.  \<open>d\<close> is the nesting depth, \<open>depth\<close> counts the open brackets.\<close>

datatype raw_text = DollarText | BraceText nat | SubstText nat | ArithText nat | QuotedText

type_synonym 's raw_reader = "raw_text \<Rightarrow> nat \<Rightarrow> ustring \<Rightarrow> span \<Rightarrow> ('s, ustring) lx"

definition read_dollar_raw :: "'z lexer_scheme raw_reader \<Rightarrow> nat \<Rightarrow> ustring \<Rightarrow> span \<Rightarrow> ('z lexer_scheme, ustring) lx" where
  "read_dollar_raw raw d word sp = nested d sp (\<lambda>d.
     lbind lpeek (\<lambda>ch. case ch of
       None \<Rightarrow> lret word
     | Some c \<Rightarrow>
         if c = LBRACE then
           lseq ladvance (lbind (raw (BraceText 1) d (word @ [LBRACE]) sp) (\<lambda>word. lret (word @ [RBRACE])))
         else if c = LPAREN then
           lseq ladvance (lbind lpeek (\<lambda>ch2.
             if ch2 = Some LPAREN then
               lseq ladvance (lbind (raw (ArithText 1) d (word @ [LPAREN, LPAREN]) sp) (\<lambda>word.
                 lret (word @ [RPAREN, RPAREN])))
             else lbind (raw (SubstText 1) d (word @ [LPAREN]) sp) (\<lambda>word. lret (word @ [RPAREN]))))
         else if special_param c \<or> is_ascii_digit c then lseq ladvance (lret (word @ [c]))
         else if name_start c then
           lseq ladvance (lbind (lread_while name_char) (\<lambda>s. lret (word @ [c] @ s)))
         else lret word))"

definition read_brace_param_raw ::
  "'z lexer_scheme raw_reader \<Rightarrow> nat \<Rightarrow> nat \<Rightarrow> ustring \<Rightarrow> span \<Rightarrow> ('z lexer_scheme, ustring) lx" where
  "read_brace_param_raw raw depth d word sp =
     lbind ladvance (\<lambda>ch. case ch of
       None \<Rightarrow> lfail UnterminatedBrace sp
     | Some c \<Rightarrow>
         if c = RBRACE then
           (if depth - 1 = 0 then lret word else raw (BraceText (depth - 1)) d (word @ [RBRACE]) sp)
         else if c = DOLLAR then
           lbind (raw DollarText d (word @ [DOLLAR]) sp) (\<lambda>word. raw (BraceText depth) d word sp)
         else if c = DQUOTE then
           lbind (raw QuotedText d (word @ [DQUOTE]) sp) (\<lambda>word. raw (BraceText depth) d (word @ [DQUOTE]) sp)
         else if c = BACKSLASH then
           lbind (lescaped_raw (word @ [BACKSLASH])) (\<lambda>word. raw (BraceText depth) d word sp)
         else if c = BACKTICK then
           lbind (read_backtick_raw (word @ [BACKTICK]) sp) (\<lambda>word. raw (BraceText depth) d (word @ [BACKTICK]) sp)
         else raw (BraceText depth) d (word @ [c]) sp)"

definition read_cmd_subst_nested_raw ::
  "'z lexer_scheme raw_reader \<Rightarrow> nat \<Rightarrow> nat \<Rightarrow> ustring \<Rightarrow> span \<Rightarrow> ('z lexer_scheme, ustring) lx" where
  "read_cmd_subst_nested_raw raw depth d word sp =
     lbind ladvance (\<lambda>ch. case ch of
       None \<Rightarrow> lfail UnterminatedSubst sp
     | Some c \<Rightarrow>
         if c = RPAREN then
           (if depth - 1 = 0 then lret word else raw (SubstText (depth - 1)) d (word @ [RPAREN]) sp)
         else if c = LPAREN then raw (SubstText (depth + 1)) d (word @ [LPAREN]) sp
         else if c = SQUOTE then
           lbind (single_quoted_raw sp (word @ [SQUOTE])) (\<lambda>word. raw (SubstText depth) d word sp)
         else if c = DQUOTE then
           lbind (raw QuotedText d (word @ [DQUOTE]) sp) (\<lambda>word. raw (SubstText depth) d (word @ [DQUOTE]) sp)
         else if c = BACKSLASH then
           lbind (lescaped_raw (word @ [BACKSLASH])) (\<lambda>word. raw (SubstText depth) d word sp)
         else if c = DOLLAR then
           lbind (raw DollarText d (word @ [DOLLAR]) sp) (\<lambda>word. raw (SubstText depth) d word sp)
         else if c = BACKTICK then
           lbind (read_backtick_raw (word @ [BACKTICK]) sp) (\<lambda>word. raw (SubstText depth) d (word @ [BACKTICK]) sp)
         else if c = HASH then
           lbind (lread_while (\<lambda>c. c \<noteq> NL)) (\<lambda>s. raw (SubstText depth) d (word @ [HASH] @ s) sp)
         else raw (SubstText depth) d (word @ [c]) sp)"

definition read_arith_raw ::
  "'z lexer_scheme raw_reader \<Rightarrow> nat \<Rightarrow> nat \<Rightarrow> ustring \<Rightarrow> span \<Rightarrow> ('z lexer_scheme, ustring) lx" where
  "read_arith_raw raw depth d word sp =
     lbind ladvance (\<lambda>ch. case ch of
       None \<Rightarrow> lfail UnterminatedArith sp
     | Some c \<Rightarrow>
         if c = RPAREN then
           lbind lpeek (\<lambda>ch2.
             if ch2 = Some RPAREN \<and> depth = 1 then lseq ladvance (lret word)
             else lbind (lift_result (unbalanced_arith_close depth sp)) (\<lambda>depth.
               raw (ArithText depth) d (word @ [RPAREN]) sp))
         else if c = LPAREN then raw (ArithText (depth + 1)) d (word @ [LPAREN]) sp
         else if c = DOLLAR then
           lbind (raw DollarText d (word @ [DOLLAR]) sp) (\<lambda>word. raw (ArithText depth) d word sp)
         else raw (ArithText depth) d (word @ [c]) sp)"

definition read_double_quoted_raw ::
  "'z lexer_scheme raw_reader \<Rightarrow> nat \<Rightarrow> ustring \<Rightarrow> span \<Rightarrow> ('z lexer_scheme, ustring) lx" where
  "read_double_quoted_raw raw d word sp =
     lbind ladvance (\<lambda>ch. case ch of
       None \<Rightarrow> lfail UnterminatedDouble sp
     | Some c \<Rightarrow>
         if c = DQUOTE then lret word
         else if c = BACKSLASH then
           lbind (lescaped_raw (word @ [BACKSLASH])) (\<lambda>word. raw QuotedText d word sp)
         else if c = DOLLAR then
           lbind (raw DollarText d (word @ [DOLLAR]) sp) (\<lambda>word. raw QuotedText d word sp)
         else if c = BACKTICK then
           lbind (read_backtick_raw (word @ [BACKTICK]) sp) (\<lambda>word. raw QuotedText d (word @ [BACKTICK]) sp)
         else raw QuotedText d (word @ [c]) sp)"

primrec read_raw :: "nat \<Rightarrow> 'z lexer_scheme raw_reader" where
  "read_raw 0 = (\<lambda>kind d word sp. lstop)"
| "read_raw (Suc n) = (\<lambda>kind.
     case kind of
       DollarText \<Rightarrow> read_dollar_raw (read_raw n)
     | BraceText depth \<Rightarrow> read_brace_param_raw (read_raw n) depth
     | SubstText depth \<Rightarrow> read_cmd_subst_nested_raw (read_raw n) depth
     | ArithText depth \<Rightarrow> read_arith_raw (read_raw n) depth
     | QuotedText \<Rightarrow> read_double_quoted_raw (read_raw n))"

text \<open>The text of a command substitution; the comment inside it is copied without joining lines.\<close>

definition comment_text :: "'z lexer_scheme \<Rightarrow> ustring" where
  "comment_text lx = takeWhile (\<lambda>c. c \<noteq> NL) (rest lx)"

primrec read_cmd_subst_raw :: "nat \<Rightarrow> nat \<Rightarrow> nat \<Rightarrow> ustring \<Rightarrow> span \<Rightarrow> ('z lexer_scheme, ustring) lx" where
  "read_cmd_subst_raw 0 d depth content sp = lstop"
| "read_cmd_subst_raw (Suc n) d depth content sp =
     lbind ladvance (\<lambda>ch. case ch of
       None \<Rightarrow> lfail UnterminatedSubst sp
     | Some c \<Rightarrow>
         if c = RPAREN then
           (if depth - 1 = 0 then lret content else read_cmd_subst_raw n d (depth - 1) (content @ [RPAREN]) sp)
         else if c = LPAREN then read_cmd_subst_raw n d (depth + 1) (content @ [LPAREN]) sp
         else if c = SQUOTE then
           lbind (single_quoted_raw sp (content @ [SQUOTE])) (\<lambda>content. read_cmd_subst_raw n d depth content sp)
         else if c = DQUOTE then
           lbind (read_raw n QuotedText d (content @ [DQUOTE]) sp) (\<lambda>content.
             read_cmd_subst_raw n d depth (content @ [DQUOTE]) sp)
         else if c = BACKSLASH then
           lbind (lescaped_raw (content @ [BACKSLASH])) (\<lambda>content. read_cmd_subst_raw n d depth content sp)
         else if c = DOLLAR then
           lbind (read_raw n DollarText d (content @ [DOLLAR]) sp) (\<lambda>content. read_cmd_subst_raw n d depth content sp)
         else if c = BACKTICK then
           lbind (read_backtick_raw (content @ [BACKTICK]) sp) (\<lambda>content.
             read_cmd_subst_raw n d depth (content @ [BACKTICK]) sp)
         else if c = HASH then
           (\<lambda>lx. lseq (lmodify skip_comment)
              (read_cmd_subst_raw n d depth (content @ [HASH] @ comment_text lx) sp) lx)
         else read_cmd_subst_raw n d depth (content @ [c]) sp)"

primrec arith_text :: "nat \<Rightarrow> nat \<Rightarrow> nat \<Rightarrow> ustring \<Rightarrow> span \<Rightarrow> ('z lexer_scheme, ustring) lx" where
  "arith_text 0 d depth content sp = lstop"
| "arith_text (Suc n) d depth content sp =
     lbind ladvance (\<lambda>ch. case ch of
       None \<Rightarrow> lfail UnterminatedArith sp
     | Some c \<Rightarrow>
         if c = RPAREN then
           lbind lpeek (\<lambda>ch2.
             if ch2 = Some RPAREN \<and> depth = 1 then lseq ladvance (lret content)
             else lbind (lift_result (unbalanced_arith_close depth sp)) (\<lambda>depth.
               arith_text n d depth (content @ [RPAREN]) sp))
         else if c = LPAREN then arith_text n d (depth + 1) (content @ [LPAREN]) sp
         else if c = DOLLAR then
           lbind (read_raw n DollarText d (content @ [DOLLAR]) sp) (\<lambda>content. arith_text n d depth content sp)
         else arith_text n d depth (content @ [c]) sp)"

end
