(* ===== verification/Word_Parts.thy ===== *)
theory Word_Parts
  imports Lexer_Text
begin

text \<open>
  The parser of a word that is already a string: the inside of an arithmetic expansion and the body of
  a here-document (\<^verbatim>\<open>crates/epsh/src/parser.rs\<close>, the functions behind \<^verbatim>\<open>parse_word_parts_shell\<close> and
  \<^verbatim>\<open>make_heredoc_body\<close>).  An index into the characters is the list of the characters from there on.
  The parser of a nested command is the argument \<open>cmd\<close>.
\<close>

datatype nested_command_errors = Propagate | LegacyEmptyCommand

definition empty_command_substitution :: command where
  "empty_command_substitution = Simple [] [] [] span_default"

definition parse_nested_command_substitution ::
  "(ustring \<Rightarrow> stop + command) \<Rightarrow> nested_command_errors \<Rightarrow> ustring \<Rightarrow> stop + command" where
  "parse_nested_command_substitution cmd nested_errors content =
     (case cmd content of
        Inl (Fail msg sp) \<Rightarrow>
          if nested_errors = LegacyEmptyCommand then Inr empty_command_substitution else Inl (Fail msg sp)
      | r \<Rightarrow> r)"

fun coalesce :: "'c word_part list \<Rightarrow> 'c word_part list \<Rightarrow> 'c word_part list" where
  "coalesce result [] = result"
| "coalesce result (part # ps) =
     coalesce
       (case part of
          Literal s \<Rightarrow>
            (if result \<noteq> [] then
               (case last result of
                  Literal prev \<Rightarrow> butlast result @ [Literal (prev @ s)]
                | _ \<Rightarrow> result @ [part])
             else result @ [part])
        | _ \<Rightarrow> result @ [part]) ps"

definition coalesce_literals :: "'c word_part list \<Rightarrow> 'c word_part list" where
  "coalesce_literals ps = coalesce [] ps"

text \<open>A literal part is only made of a text that is not empty.\<close>

definition push_literal :: "'c word_part list \<Rightarrow> ustring \<Rightarrow> 'c word_part list" where
  "push_literal ps literal = (if literal = [] then ps else ps @ [Literal (from_str_lossless literal)])"

text \<open>The text up to a backtick.  A backslash that ends the text moves the index behind the end, so
  that taking the slice panics.\<close>

fun backtick_chars :: "ustring \<Rightarrow> (ustring \<times> ustring) option" where
  "backtick_chars [] = Some ([], [])"
| "backtick_chars (c # cs) =
     (if c = BACKTICK then Some ([], cs)
      else if c = BACKSLASH then
        (case cs of [] \<Rightarrow> None | c2 # cs2 \<Rightarrow> map_option (apfst (\<lambda>s. c # c2 # s)) (backtick_chars cs2))
      else map_option (apfst ((#) c)) (backtick_chars cs))"

definition backtick_part ::
  "(ustring \<Rightarrow> stop + command) \<Rightarrow> nested_command_errors \<Rightarrow> (ustring, command word_part) lx" where
  "backtick_part cmd nested_errors cs =
     (case backtick_chars cs of
        None \<Rightarrow> Inl Panicked
      | Some (content, cs1) \<Rightarrow>
          (case parse_nested_command_substitution cmd nested_errors content of
             Inl e \<Rightarrow> Inl e
           | Inr c \<Rightarrow> Inr (Backtick c, cs1)))"

fun arith_chars :: "nat \<Rightarrow> ustring \<Rightarrow> (ustring, ustring) lx" where
  "arith_chars depth content [] = Inr (content, [])"
| "arith_chars depth content (c # cs) =
     (if c = RPAREN \<and> cs \<noteq> [] \<and> hd cs = RPAREN \<and> depth = 1 then Inr (content, tl cs)
      else if c = LPAREN then arith_chars (depth + 1) (content @ [c]) cs
      else if c = RPAREN then
        (case unbalanced_arith_close depth span_default of
           Inl e \<Rightarrow> Inl e
         | Inr depth \<Rightarrow> arith_chars depth (content @ [c]) cs)
      else arith_chars depth (content @ [c]) cs)"

text \<open>The text of single quotes with its closing quote, if there is one.\<close>

definition quoted_chars :: "ustring \<Rightarrow> ustring \<times> ustring" where
  "quoted_chars cs =
     (let s = takeWhile (\<lambda>c. c \<noteq> SQUOTE) cs; r = dropWhile (\<lambda>c. c \<noteq> SQUOTE) cs
      in if r = [] then (s, []) else (s @ [SQUOTE], tl r))"

lemma quoted_chars_shorter: "quoted_chars cs = (s, r) \<Longrightarrow> length r \<le> length cs"
  using dropWhile_length_le [of "\<lambda>c. c \<noteq> SQUOTE" cs] by (auto simp: quoted_chars_def Let_def split: if_splits)

function subst_chars :: "nat \<Rightarrow> ustring \<Rightarrow> ustring \<Rightarrow> ustring \<times> ustring" where
  "subst_chars depth content [] = (content, [])"
| "subst_chars depth content (c # cs) =
     (if c = RPAREN then
        (if depth - 1 = 0 then (content, cs) else subst_chars (depth - 1) (content @ [c]) cs)
      else if c = LPAREN then subst_chars (depth + 1) (content @ [c]) cs
      else if c = SQUOTE then
        (case quoted_chars cs of (s, r) \<Rightarrow> subst_chars depth (content @ [c] @ s) r)
      else subst_chars depth (content @ [c]) cs)"
  by pat_completeness auto
termination
  by (relation "measure (\<lambda>(depth, content, cs). length cs)")
    (auto dest: quoted_chars_shorter [OF sym] simp: less_Suc_eq_le)

declare subst_chars.simps [simp del]

function brace_chars :: "nat \<Rightarrow> bool \<Rightarrow> ustring \<Rightarrow> ustring \<Rightarrow> ustring \<times> ustring" where
  "brace_chars depth in_dquote raw [] = (raw, [])"
| "brace_chars depth in_dquote raw (c # cs) =
     (if c = RBRACE then
        (if depth - 1 = 0 then (raw, cs) else brace_chars (depth - 1) in_dquote (raw @ [c]) cs)
      else if c = DOLLAR \<and> cs \<noteq> [] \<and> hd cs = LBRACE then
        brace_chars (depth + 1) in_dquote (raw @ [DOLLAR, LBRACE]) (tl cs)
      else if c = SQUOTE \<and> \<not> in_dquote then
        (case quoted_chars cs of (s, r) \<Rightarrow> brace_chars depth in_dquote (raw @ [c] @ s) r)
      else if c = BACKSLASH \<and> cs \<noteq> [] then
        brace_chars depth in_dquote (raw @ [c, hd cs]) (tl cs)
      else brace_chars depth in_dquote (raw @ [c]) cs)"
  by pat_completeness auto
termination
  by (relation "measure (\<lambda>(depth, in_dquote, raw, cs). length cs)")
    (auto dest: quoted_chars_shorter [OF sym] simp: less_Suc_eq_le)

declare brace_chars.simps [simp del]

text \<open>Recursive calls for the text inside are made through \<open>word\<close>.\<close>

type_synonym word_reader = "bool \<Rightarrow> ustring \<Rightarrow> stop + command word_part list"

definition read_brace_word :: "word_reader \<Rightarrow> bool \<Rightarrow> (ustring, command word_part list) lx" where
  "read_brace_word word in_dquote cs =
     (case brace_chars 1 in_dquote [] cs of
        (raw, cs1) \<Rightarrow> (case word in_dquote raw of Inl e \<Rightarrow> Inl e | Inr ps \<Rightarrow> Inr (ps, cs1)))"

definition after_brace :: "ustring \<Rightarrow> ustring" where
  "after_brace cs = drop 1 (dropWhile (\<lambda>c. c \<noteq> RBRACE) cs)"

definition param_name :: "ustring \<Rightarrow> ustring" where
  "param_name cs =
     (case cs of
        [] \<Rightarrow> []
      | c # _ \<Rightarrow>
          if special_param c then [c]
          else if is_ascii_digit c then takeWhile is_ascii_digit cs
          else takeWhile name_char cs)"

definition brace_operator :: "cp \<Rightarrow> bool" where
  "brace_operator c \<longleftrightarrow> c \<in> set (ustr '':-=?+%#'')"

text \<open>The operators with a colon, and without one.\<close>

definition colon_operator :: "bool \<Rightarrow> cp \<Rightarrow> 'c word_part list \<Rightarrow> 'c param_op" where
  "colon_operator colon c word =
     (if c = MINUS then Default colon word
      else if c = EQUALS then Assign colon word
      else if c = QUESTION then Error colon word
      else if c = PLUS then Alternative colon word
      else Normal)"

definition brace_op :: "word_reader \<Rightarrow> bool \<Rightarrow> cp \<Rightarrow> (ustring, command param_op) lx" where
  "brace_op word in_dquote op_char cs =
     (if op_char = COLON \<and> cs \<noteq> [] then
        lbind (read_brace_word word in_dquote) (\<lambda>w. lret (colon_operator True (hd cs) w)) (tl cs)
      else if op_char = MINUS \<or> op_char = EQUALS \<or> op_char = QUESTION \<or> op_char = PLUS then
        lbind (read_brace_word word in_dquote) (\<lambda>w. lret (colon_operator False op_char w)) cs
      else if op_char = PERCENT then
        (if cs \<noteq> [] \<and> hd cs = PERCENT
         then lbind (read_brace_word word False) (\<lambda>w. lret (TrimSuffixLarge w)) (tl cs)
         else lbind (read_brace_word word False) (\<lambda>w. lret (TrimSuffixSmall w)) cs)
      else if op_char = HASH then
        (if cs \<noteq> [] \<and> hd cs = HASH
         then lbind (read_brace_word word False) (\<lambda>w. lret (TrimPrefixLarge w)) (tl cs)
         else lbind (read_brace_word word False) (\<lambda>w. lret (TrimPrefixSmall w)) cs)
      else Inr (Normal, after_brace cs))"

definition parse_brace_param :: "word_reader \<Rightarrow> bool \<Rightarrow> (ustring, command word_part) lx" where
  "parse_brace_param word in_dquote cs =
     (if cs = [] then Inr (Literal (shell_bytes_from (ustr ''${'')), [])
      else
        let is_length = (hd cs = HASH \<and> tl cs \<noteq> [] \<and> hd (tl cs) \<noteq> RBRACE);
            cs1 = (if is_length then tl cs else cs);
            name = param_name cs1;
            cs2 = drop (length name) cs1
        in if is_length then Inr (Param name Length span_default, after_brace cs2)
           else if cs2 = [] \<or> hd cs2 = RBRACE then Inr (Param name Normal span_default, tl cs2)
           else if \<not> brace_operator (hd cs2) then
             Inr (Param (name @ [hd cs2]) BadSubst span_default, after_brace cs2)
           else lbind (brace_op word in_dquote (hd cs2)) (\<lambda>op. lret (Param name op span_default)) (tl cs2))"

definition parse_dollar ::
  "word_reader \<Rightarrow> (ustring \<Rightarrow> stop + command) \<Rightarrow> nested_command_errors \<Rightarrow> bool
     \<Rightarrow> (ustring, command word_part option) lx" where
  "parse_dollar word cmd nested_errors in_dquote cs =
     (case cs of
        [] \<Rightarrow> Inr (None, [])
      | c # cs1 \<Rightarrow>
          if c = LBRACE then lbind (parse_brace_param word in_dquote) (\<lambda>p. lret (Some p)) cs1
          else if c = LPAREN then
            (if cs1 \<noteq> [] \<and> hd cs1 = LPAREN then
               lbind (arith_chars 1 []) (\<lambda>content.
                 lbind (lift_result (word False content)) (\<lambda>inner. lret (Some (Arith inner)))) (tl cs1)
             else
               case subst_chars 1 [] cs1 of
                 (content, cs2) \<Rightarrow>
                   lbind (lift_result (parse_nested_command_substitution cmd nested_errors content)) (\<lambda>c.
                     lret (Some (CmdSubst c))) cs2)
          else if special_param c \<or> is_ascii_digit c then Inr (Some (Param [c] Normal span_default), cs1)
          else if name_start c then
            Inr (Some (Param (takeWhile name_char cs) Normal span_default), dropWhile name_char cs)
          else Inr (None, cs))"

primrec parse_double_quoted_parts ::
  "nat \<Rightarrow> word_reader \<Rightarrow> (ustring \<Rightarrow> stop + command) \<Rightarrow> nested_command_errors
     \<Rightarrow> command word_part list \<Rightarrow> ustring \<Rightarrow> (ustring, command word_part list) lx" where
  "parse_double_quoted_parts 0 word cmd nested_errors ps literal = lstop"
| "parse_double_quoted_parts (Suc n) word cmd nested_errors ps literal = (\<lambda>cs.
     case cs of
       [] \<Rightarrow> Inr (push_literal ps literal, [])
     | c # cs1 \<Rightarrow>
         if c = DQUOTE then Inr (push_literal ps literal, cs)
         else if c = DOLLAR then
           lbind (parse_dollar word cmd nested_errors True) (\<lambda>p. case p of
             Some part \<Rightarrow> parse_double_quoted_parts n word cmd nested_errors (push_literal ps literal @ [part]) []
           | None \<Rightarrow> parse_double_quoted_parts n word cmd nested_errors (push_literal ps literal) [DOLLAR]) cs1
         else if c = BACKTICK then
           lbind (backtick_part cmd nested_errors) (\<lambda>part.
             parse_double_quoted_parts n word cmd nested_errors (push_literal ps literal @ [part]) []) cs1
         else if c = BACKSLASH then
           (case cs1 of
              [] \<Rightarrow> parse_double_quoted_parts n word cmd nested_errors ps literal []
            | c2 # cs2 \<Rightarrow>
                parse_double_quoted_parts n word cmd nested_errors ps
                  (if c2 = DOLLAR \<or> c2 = BACKTICK \<or> c2 = DQUOTE \<or> c2 = BACKSLASH then literal @ [c2]
                   else if c2 = NL then literal
                   else literal @ [BACKSLASH, c2]) cs2)
         else parse_double_quoted_parts n word cmd nested_errors ps (literal @ [c]) cs1)"

text \<open>A backslash outside of quotes: the part it makes and the characters after it.  \<open>active\<close> are the
  characters that lose the backslash.\<close>

definition backslash_part :: "ustring \<Rightarrow> ustring \<Rightarrow> command word_part list \<times> ustring" where
  "backslash_part active cs =
     (case cs of
        [] \<Rightarrow> ([], [])
      | c # cs1 \<Rightarrow>
          if c = NL then ([], cs1)
          else if c \<in> set active then ([Literal (from_str_lossless [c])], cs1)
          else
            let n = (if c = ESCAPE \<and> cs1 \<noteq> [] then 2 else 1)
            in ([Literal (from_str_lossless (BACKSLASH # take n cs))], drop n cs))"

text \<open>\<open>whole\<close> is the length of the text: the index is zero where \<open>whole\<close> characters are left.\<close>

definition plain_run :: "bool \<Rightarrow> nat \<Rightarrow> ustring \<Rightarrow> ustring" where
  "plain_run in_dquote whole cs =
     (if length cs = whole \<and> cs \<noteq> [] \<and> hd cs = TILDE then []
      else takeWhile (\<lambda>c. \<not> (c = DOLLAR \<or> c = BACKTICK \<or> c = BACKSLASH) \<and> c \<noteq> DQUOTE \<and> (in_dquote \<or> c \<noteq> SQUOTE)) cs)"

primrec impl_loop ::
  "nat \<Rightarrow> word_reader \<Rightarrow> (ustring \<Rightarrow> stop + command) \<Rightarrow> nested_command_errors \<Rightarrow> bool \<Rightarrow> nat
     \<Rightarrow> command word_part list \<Rightarrow> ustring \<Rightarrow> stop + command word_part list" where
  "impl_loop 0 word cmd nested_errors in_dquote whole ps cs = Inl OutOfFuel"
| "impl_loop (Suc n) word cmd nested_errors in_dquote whole ps cs =
     (let go = (\<lambda>r. case r of
          Inl e \<Rightarrow> Inl e
        | Inr (new, cs1) \<Rightarrow> impl_loop n word cmd nested_errors in_dquote whole (ps @ new) cs1)
      in case cs of
        [] \<Rightarrow> Inr (coalesce_literals ps)
      | c # cs1 \<Rightarrow>
          if c = SQUOTE \<and> \<not> in_dquote then
            go (Inr ([SingleQuoted (from_str_lossless (takeWhile (\<lambda>c. c \<noteq> SQUOTE) cs1))],
                     drop 1 (dropWhile (\<lambda>c. c \<noteq> SQUOTE) cs1)))
          else if c = DQUOTE then
            go (lbind (parse_double_quoted_parts n word cmd nested_errors [] []) (\<lambda>inner cs2.
              Inr ([DoubleQuoted inner], if cs2 \<noteq> [] \<and> hd cs2 = DQUOTE then tl cs2 else cs2)) cs1)
          else if c = DOLLAR then
            go (lbind (parse_dollar word cmd nested_errors in_dquote) (\<lambda>p.
              lret (case p of Some part \<Rightarrow> [part] | None \<Rightarrow> [Literal (shell_bytes_from [DOLLAR])])) cs1)
          else if c = BACKTICK then
            go (lbind (backtick_part cmd nested_errors) (\<lambda>part. lret [part]) cs1)
          else if c = BACKSLASH then go (Inr (backslash_part [DOLLAR, BACKTICK, DQUOTE, BACKSLASH] cs1))
          else if c = TILDE \<and> ps = [] then
            (let stops = (\<lambda>c. c = SLASH \<or> c = COLON \<or> is_whitespace c)
             in go (Inr ([Tilde (from_str_lossless (takeWhile (\<lambda>c. \<not> stops c) cs1))],
                         dropWhile (\<lambda>c. \<not> stops c) cs1)))
          else
            (let run = plain_run in_dquote whole cs
             in go (Inr (if run = [] then [] else [Literal (from_str_lossless run)], drop (length run) cs))))"

text \<open>\<^verbatim>\<open>parse_word_parts_impl\<close>; a text inside another one is shorter, so that as much fuel as there
  are characters is enough for the recursion and for each loop.\<close>

primrec parse_word_parts_impl ::
  "nat \<Rightarrow> (ustring \<Rightarrow> stop + command) \<Rightarrow> nested_command_errors \<Rightarrow> word_reader" where
  "parse_word_parts_impl 0 cmd nested_errors in_dquote raw = Inl OutOfFuel"
| "parse_word_parts_impl (Suc n) cmd nested_errors in_dquote raw =
     impl_loop (Suc (length raw)) (parse_word_parts_impl n cmd nested_errors) cmd nested_errors in_dquote (length raw) [] raw"

definition parse_word_parts_shell :: "(ustring \<Rightarrow> stop + command) \<Rightarrow> ustring \<Rightarrow> stop + command word_part list" where
  "parse_word_parts_shell cmd raw = parse_word_parts_impl (Suc (length raw)) cmd Propagate False raw"

definition parse_word_parts_legacy :: "(ustring \<Rightarrow> stop + command) \<Rightarrow> ustring \<Rightarrow> stop + command word_part list" where
  "parse_word_parts_legacy cmd raw =
     (case parse_word_parts_impl (Suc (length raw)) cmd LegacyEmptyCommand False raw of
        Inl (Fail _ _) \<Rightarrow> Inl Panicked
      | r \<Rightarrow> r)"

subsection \<open>Here-documents\<close>

primrec heredoc_loop ::
  "nat \<Rightarrow> word_reader \<Rightarrow> (ustring \<Rightarrow> stop + command) \<Rightarrow> nested_command_errors
     \<Rightarrow> command word_part list \<Rightarrow> ustring \<Rightarrow> stop + command word_part list" where
  "heredoc_loop 0 word cmd nested_errors ps cs = Inl OutOfFuel"
| "heredoc_loop (Suc n) word cmd nested_errors ps cs =
     (let go = (\<lambda>r. case r of
          Inl e \<Rightarrow> Inl e
        | Inr (new, cs1) \<Rightarrow> heredoc_loop n word cmd nested_errors (ps @ new) cs1)
      in case cs of
        [] \<Rightarrow> Inr (coalesce_literals ps)
      | c # cs1 \<Rightarrow>
          if c = DOLLAR then
            go (lbind (parse_dollar word cmd nested_errors True) (\<lambda>p.
              lret (case p of Some part \<Rightarrow> [part] | None \<Rightarrow> [Literal (shell_bytes_from [DOLLAR])])) cs1)
          else if c = BACKTICK then
            go (lbind (backtick_part cmd nested_errors) (\<lambda>part. lret [part]) cs1)
          else if c = BACKSLASH then go (Inr (backslash_part [DOLLAR, BACKTICK, BACKSLASH] cs1))
          else
            (let run = takeWhile (\<lambda>c. \<not> (c = DOLLAR \<or> c = BACKTICK \<or> c = BACKSLASH)) cs
             in go (Inr ([Literal (from_str_lossless run)], drop (length run) cs))))"

definition parse_word_parts_heredoc ::
  "nat \<Rightarrow> (nat \<Rightarrow> ustring \<Rightarrow> stop + command) \<Rightarrow> nested_command_errors \<Rightarrow> ustring \<Rightarrow> stop + command word_part list" where
  "parse_word_parts_heredoc d cmd nested_errors raw =
     (if MAX_NESTING_DEPTH \<le> d then Inl (Fail NestingTooDeep span_default)
      else heredoc_loop (Suc (length raw)) (parse_word_parts_impl (length raw) (cmd (Suc d)) nested_errors)
             (cmd (Suc d)) nested_errors [] raw)"

definition make_heredoc_body ::
  "nat \<Rightarrow> (nat \<Rightarrow> ustring \<Rightarrow> stop + command) \<Rightarrow> ustring \<Rightarrow> bool \<Rightarrow> stop + command here_doc_body" where
  "make_heredoc_body d cmd raw quoted =
     (if quoted then Inr (HereLiteral (from_str_lossless raw))
      else map_sum id HereParsed (parse_word_parts_heredoc d cmd Propagate raw))"

end
