(* ===== verification/Lexer.thy ===== *)
theory Lexer
  imports Word_Parts
begin

text \<open>
  The lexer, second part: words, tokens and the bodies of here-documents.  \<open>cmd d\<close> parses the text of a
  nested command at nesting depth \<open>d\<close>; the functions that read the words inside of a word take the
  reader of words as the argument \<open>words\<close>.
\<close>

type_synonym command_reader = "nat \<Rightarrow> ustring \<Rightarrow> stop + command"

type_synonym 's words_reader =
  "nat \<Rightarrow> word_ctx \<Rightarrow> bool \<Rightarrow> span \<Rightarrow> ('s, command word_part list \<times> bool) lx"

subsection \<open>Substitutions\<close>

definition rebase_nested_parse_error :: "span \<Rightarrow> stop \<Rightarrow> stop" where
  "rebase_nested_parse_error base e =
     (case e of
        Fail msg sp \<Rightarrow>
          let sp = sp\<lparr>offset := offset sp + offset base\<rparr> in
          if line_no sp = 0 then Fail msg (sp\<lparr>line_no := line_no base, col := col base\<rparr>)
          else
            let sp = sp\<lparr>line_no := line_no sp + (line_no base - 1)\<rparr> in
            Fail msg (if line_no sp = line_no base then sp\<lparr>col := col sp + (col base - 1)\<rparr> else sp)
      | _ \<Rightarrow> e)"

definition rebased :: "span \<Rightarrow> stop + 'a \<Rightarrow> ('s, 'a) lx" where
  "rebased base r = lift_result (map_sum (rebase_nested_parse_error base) id r)"

definition read_cmd_subst :: "command_reader \<Rightarrow> nat \<Rightarrow> span \<Rightarrow> ('z lexer_scheme, command word_part) lx" where
  "read_cmd_subst cmd d sp =
     lbind lget_span (\<lambda>content_span.
     lbind (\<lambda>lx. read_cmd_subst_raw (Suc (length (rest lx))) d 1 [] sp lx) (\<lambda>content.
     lbind (rebased content_span (cmd d content)) (\<lambda>c. lret (CmdSubst c))))"

definition read_arith_expansion :: "command_reader \<Rightarrow> nat \<Rightarrow> span \<Rightarrow> ('z lexer_scheme, command word_part) lx" where
  "read_arith_expansion cmd d sp = nested d sp (\<lambda>d.
     lbind lget_span (\<lambda>content_span.
     lbind (\<lambda>lx. arith_text (Suc (length (rest lx))) d 1 [] sp lx) (\<lambda>content.
     lbind (rebased content_span (parse_word_parts_shell (cmd d) content)) (\<lambda>inner. lret (Arith inner)))))"

definition read_backtick_part :: "command_reader \<Rightarrow> nat \<Rightarrow> span \<Rightarrow> ('z lexer_scheme, command word_part) lx" where
  "read_backtick_part cmd d sp =
     lbind lget_span (\<lambda>content_span.
     lbind (backtick_content [] sp) (\<lambda>content.
     lbind (rebased content_span (cmd d content)) (\<lambda>c. lret (Backtick c))))"

definition read_dquote_parts ::
  "'z lexer_scheme words_reader \<Rightarrow> nat \<Rightarrow> span \<Rightarrow> ('z lexer_scheme, command word_part list) lx" where
  "read_dquote_parts words d sp =
     lbind (words d WordCtx True sp) (\<lambda>(ps, _).
     lbind lpeek (\<lambda>ch.
       if ch = Some DQUOTE then lseq ladvance (lret ps) else lfail UnterminatedDouble sp))"

definition read_param_name :: "('z lexer_scheme, ustring) lx" where
  "read_param_name =
     lbind lpeek (\<lambda>ch. case ch of
       None \<Rightarrow> lread_while name_char
     | Some c \<Rightarrow>
         if special_param c then lseq ladvance (lret [c])
         else if is_ascii_digit c then lread_while is_ascii_digit
         else lread_while name_char)"

text \<open>Whether the \<^verbatim>\<open>#\<close> after \<^verbatim>\<open>${\<close> asks for the length: the code looks at one or two characters
  behind it.\<close>

definition is_length_param :: "ustring \<Rightarrow> bool" where
  "is_length_param cs =
     (case cs of
        c # n # r \<Rightarrow>
          c = HASH \<and>
          (if name_start n then True
           else if n = RBRACE then False
           else if special_param n then r \<noteq> [] \<and> hd r = RBRACE
           else is_ascii_digit n)
      | _ \<Rightarrow> False)"

definition brace_word ::
  "'z lexer_scheme words_reader \<Rightarrow> nat \<Rightarrow> bool \<Rightarrow> span \<Rightarrow> (command word_part list \<Rightarrow> command param_op)
     \<Rightarrow> ('z lexer_scheme, command param_op) lx" where
  "brace_word words d in_dquote sp op = lbind (words d BraceCtx in_dquote sp) (\<lambda>(w, _). lret (op w))"

definition read_brace_op ::
  "'z lexer_scheme words_reader \<Rightarrow> nat \<Rightarrow> bool \<Rightarrow> span \<Rightarrow> cp \<Rightarrow> ('z lexer_scheme, command param_op) lx" where
  "read_brace_op words d in_dquote sp op_char =
     (if op_char = COLON then
        lbind lpeek (\<lambda>ch. case ch of
          None \<Rightarrow> lseq (skip_to_close_brace sp) (lret Normal)
        | Some op2 \<Rightarrow>
            if op2 = MINUS \<or> op2 = EQUALS \<or> op2 = QUESTION \<or> op2 = PLUS then
              lseq ladvance (brace_word words d in_dquote sp (colon_operator True op2))
            else lseq (skip_to_close_brace sp) (lret Normal))
      else if op_char = PERCENT then
        lbind lpeek (\<lambda>ch.
          if ch = Some PERCENT then lseq ladvance (brace_word words d False sp TrimSuffixLarge)
          else brace_word words d False sp TrimSuffixSmall)
      else if op_char = HASH then
        lbind lpeek (\<lambda>ch.
          if ch = Some HASH then lseq ladvance (brace_word words d False sp TrimPrefixLarge)
          else brace_word words d False sp TrimPrefixSmall)
      else brace_word words d in_dquote sp (colon_operator False op_char))"

definition read_brace_param ::
  "'z lexer_scheme words_reader \<Rightarrow> nat \<Rightarrow> bool \<Rightarrow> span \<Rightarrow> ('z lexer_scheme, command word_part) lx" where
  "read_brace_param words d in_dquote sp = nested d sp (\<lambda>d.
     lbind lpeek (\<lambda>_ lx.
       if is_length_param (rest lx) then
         lseq ladvance (lbind read_param_name (\<lambda>name.
           lseq (skip_to_close_brace sp) (lret (Param name Length span_default)))) lx
       else
         lbind read_param_name (\<lambda>name.
         lbind lpeek (\<lambda>ch. case ch of
           None \<Rightarrow> lfail UnterminatedBrace sp
         | Some op_char \<Rightarrow>
             if op_char = RBRACE then lseq ladvance (lret (Param name Normal span_default))
             else if \<not> brace_operator op_char then
               lseq ladvance (lseq (skip_to_close_brace sp) (lret (Param (name @ [op_char]) BadSubst span_default)))
             else
               lseq ladvance (lbind (read_brace_op words d in_dquote sp op_char) (\<lambda>op.
                 lret (Param name op span_default))))) lx))"

definition read_dollar ::
  "command_reader \<Rightarrow> 'z lexer_scheme words_reader \<Rightarrow> nat \<Rightarrow> bool \<Rightarrow> span
     \<Rightarrow> ('z lexer_scheme, command word_part option) lx" where
  "read_dollar cmd words d in_dquote sp =
     lbind lpeek (\<lambda>ch. case ch of
       None \<Rightarrow> lret None
     | Some c \<Rightarrow>
         if c = LBRACE then
           lseq ladvance (lbind (read_brace_param words d in_dquote sp) (\<lambda>part. lret (Some part)))
         else if c = LPAREN then
           lseq ladvance (lbind lpeek (\<lambda>ch2.
             if ch2 = Some LPAREN
             then lseq ladvance (lbind (read_arith_expansion cmd d sp) (\<lambda>part. lret (Some part)))
             else lbind (read_cmd_subst cmd d sp) (\<lambda>part. lret (Some part))))
         else if special_param c \<or> is_ascii_digit c then
           lseq ladvance (lret (Some (Param [c] Normal span_default)))
         else if name_start c then
           lseq ladvance (lbind (lread_while name_char) (\<lambda>s. lret (Some (Param (c # s) Normal span_default))))
         else lret None)"

text \<open>Double quotes inside of \<^verbatim>\<open>"${x:-...}"\<close> suspend the quotes around it.\<close>

primrec toggle_loop ::
  "nat \<Rightarrow> command_reader \<Rightarrow> 'z lexer_scheme words_reader \<Rightarrow> nat \<Rightarrow> span \<Rightarrow> command word_part list \<Rightarrow> ustring
     \<Rightarrow> ('z lexer_scheme, command word_part list) lx" where
  "toggle_loop 0 cmd words d sp ps literal = lstop"
| "toggle_loop (Suc n) cmd words d sp ps literal =
     lbind lpeek (\<lambda>ch. case ch of
       None \<Rightarrow> lfail UnterminatedInnerDouble sp
     | Some c \<Rightarrow>
         lseq ladvance
           (if c = DQUOTE then lret (push_literal ps literal)
            else if c = DOLLAR then
              lbind (read_dollar cmd words d False sp) (\<lambda>p. case p of
                Some part \<Rightarrow> toggle_loop n cmd words d sp (push_literal ps literal @ [part]) []
              | None \<Rightarrow> toggle_loop n cmd words d sp (push_literal ps literal) [DOLLAR])
            else if c = BACKSLASH then
              lbind ladvance (\<lambda>ch2.
                toggle_loop n cmd words d sp ps (case ch2 of Some c2 \<Rightarrow> literal @ [c2] | None \<Rightarrow> literal))
            else if c = BACKTICK then
              lbind (read_backtick_part cmd d sp) (\<lambda>part.
                toggle_loop n cmd words d sp (push_literal ps literal @ [part]) [])
            else toggle_loop n cmd words d sp ps (literal @ [c])))"

definition read_brace_dquote_toggle_parts ::
  "command_reader \<Rightarrow> 'z lexer_scheme words_reader \<Rightarrow> nat \<Rightarrow> span \<Rightarrow> ('z lexer_scheme, command word_part list) lx" where
  "read_brace_dquote_toggle_parts cmd words d sp =
     (\<lambda>lx. toggle_loop (Suc (length (rest lx))) cmd words d sp [] [] lx)"

subsection \<open>Words\<close>

text \<open>A character that ends a word outside of quotes.\<close>

definition word_end :: "cp \<Rightarrow> bool" where
  "word_end c \<longleftrightarrow> c = SP \<or> c = TAB \<or> c = NL \<or> c = SEMI \<or> c = AMP \<or> c = LPAREN \<or> c = RPAREN \<or> c = BAR \<or> c = LESS \<or> c = GREAT"

definition tilde_char :: "cp \<Rightarrow> bool" where
  "tilde_char c \<longleftrightarrow> \<not> (c = SLASH \<or> c = COLON \<or> is_whitespace c \<or> c = SEMI \<or> c = AMP \<or> c = BAR \<or> c = LESS \<or> c = GREAT
     \<or> c = LPAREN \<or> c = RPAREN)"

text \<open>A backslash inside of double quotes, and outside of them; the latter in a word makes a quoted part
  of its own.\<close>

definition dquote_escape :: "word_ctx \<Rightarrow> ustring \<Rightarrow> cp \<Rightarrow> ustring" where
  "dquote_escape ctx literal c =
     (if ctx = BraceCtx \<and> c = RBRACE then literal @ [c]
      else if c = DOLLAR \<or> c = BACKTICK \<or> c = DQUOTE \<or> c = BACKSLASH \<or> c = NL
      then (if c \<noteq> NL then literal @ [c] else literal)
      else literal @ [BACKSLASH, c])"

definition escaped_text :: "cp \<Rightarrow> ('z lexer_scheme, ustring) lx" where
  "escaped_text escaped =
     (if escaped = ESCAPE then lbind ladvance (\<lambda>ch. lret (case ch of Some c \<Rightarrow> [escaped, c] | None \<Rightarrow> [escaped]))
      else lret [escaped])"

primrec word_loop ::
  "nat \<Rightarrow> command_reader \<Rightarrow> 'z lexer_scheme words_reader \<Rightarrow> nat \<Rightarrow> word_ctx \<Rightarrow> bool \<Rightarrow> span
     \<Rightarrow> command word_part list \<Rightarrow> ustring \<Rightarrow> bool \<Rightarrow> nat \<Rightarrow> ('z lexer_scheme, command word_part list \<times> bool) lx" where
  "word_loop 0 cmd words d ctx in_dquote sp ps literal had_quoting brace_depth = lstop"
| "word_loop (Suc n) cmd words d ctx in_dquote sp ps literal had_quoting brace_depth =
     (let loop = word_loop n cmd words d ctx in_dquote sp;
          finish = lret (coalesce_literals (push_literal ps literal), had_quoting)
      in lbind lpeek (\<lambda>ch. case ch of
       None \<Rightarrow> if ctx = BraceCtx then lfail UnterminatedBrace sp else finish
     | Some ch \<Rightarrow>
         if ctx = WordCtx \<and> \<not> in_dquote \<and> (word_end ch \<or> (ch = HASH \<and> ps = [] \<and> literal = [])) then finish
         else if ctx = WordCtx \<and> in_dquote \<and> ch = DQUOTE then finish
         else if ctx = BraceCtx \<and> ch = RBRACE then
           (if brace_depth - 1 = 0 then lseq ladvance finish
            else lseq ladvance (loop ps (literal @ [RBRACE]) had_quoting (brace_depth - 1)))
         else if ch = DQUOTE \<and> \<not> in_dquote then
           lseq ladvance (lbind (read_dquote_parts words d sp) (\<lambda>inner.
             loop (push_literal ps literal @ [DoubleQuoted inner]) [] True brace_depth))
         else if ch = DQUOTE \<and> in_dquote \<and> ctx = BraceCtx then
           lseq ladvance (lbind (read_brace_dquote_toggle_parts cmd words d sp) (\<lambda>inner.
             loop (push_literal ps literal @ inner) [] had_quoting brace_depth))
         else if ch = SQUOTE \<and> \<not> in_dquote then
           lseq ladvance_raw (lbind (single_quoted sp []) (\<lambda>content.
             loop (push_literal ps literal @ [SingleQuoted (from_str_lossless content)]) [] True brace_depth))
         else if ch = BACKSLASH \<and> in_dquote then
           lseq ladvance (lbind ladvance (\<lambda>e.
             loop ps (case e of Some c \<Rightarrow> dquote_escape ctx literal c | None \<Rightarrow> literal) True brace_depth))
         else if ch = BACKSLASH then
           lseq ladvance (lbind ladvance (\<lambda>e. case e of
             None \<Rightarrow> loop ps literal True brace_depth
           | Some escaped \<Rightarrow>
               if ctx = WordCtx then
                 lbind (escaped_text escaped) (\<lambda>s.
                   loop (push_literal ps literal @ [DoubleQuoted [Literal (from_str_lossless s)]]) [] True brace_depth)
               else loop ps (literal @ [escaped]) True brace_depth))
         else if ch = DOLLAR then
           lseq ladvance (lbind (read_dollar cmd words d in_dquote sp) (\<lambda>p. case p of
             Some part \<Rightarrow> loop (push_literal ps literal @ [part]) [] had_quoting brace_depth
           | None \<Rightarrow> loop (push_literal ps literal) [DOLLAR] had_quoting brace_depth))
         else if ch = BACKTICK then
           lseq ladvance (lbind (read_backtick_part cmd d sp) (\<lambda>part.
             loop (push_literal ps literal @ [part]) [] had_quoting brace_depth))
         else if ch = TILDE \<and> ctx = WordCtx \<and> \<not> in_dquote \<and> ps = [] \<and> literal = [] then
           lseq ladvance (lbind (lread_while tilde_char) (\<lambda>user.
             loop (ps @ [Tilde (from_str_lossless user)]) [] had_quoting brace_depth))
         else lseq ladvance (loop ps (literal @ [ch]) had_quoting brace_depth)))"

primrec read_words :: "nat \<Rightarrow> command_reader \<Rightarrow> 'z lexer_scheme words_reader" where
  "read_words 0 cmd = (\<lambda>d ctx in_dquote sp. lstop)"
| "read_words (Suc n) cmd = (\<lambda>d ctx in_dquote sp lx.
     word_loop (Suc (length (rest lx))) cmd (read_words n cmd) d ctx in_dquote sp [] [] in_dquote 1 lx)"

definition read_word_parts :: "command_reader \<Rightarrow> 'z lexer_scheme words_reader" where
  "read_word_parts cmd d ctx in_dquote sp lx = read_words (Suc (length (rest lx))) cmd d ctx in_dquote sp lx"

subsection \<open>Tokens\<close>

definition reserved_words :: "(ustring \<times> token) list" where
  "reserved_words =
     [(ustr ''if'', TkIf), (ustr ''then'', TkThen), (ustr ''else'', TkElse), (ustr ''elif'', TkElif),
      (ustr ''fi'', TkFi), (ustr ''do'', TkDo), (ustr ''done'', TkDone), (ustr ''case'', TkCase),
      (ustr ''esac'', TkEsac), (ustr ''while'', TkWhile), (ustr ''until'', TkUntil), (ustr ''for'', TkFor),
      (ustr ''in'', TkIn), (ustr ''{'', TkLbrace), (ustr ''}'', TkRbrace), (ustr ''!'', TkBang)]"

definition reserved_word :: "ustring \<Rightarrow> token option" where
  "reserved_word word = map_of reserved_words word"

definition is_name :: "ustring \<Rightarrow> bool" where
  "is_name s = (case s of [] \<Rightarrow> False | c # cs \<Rightarrow> name_start c \<and> list_all name_char cs)"

definition single_literal_text :: "'c word_part list \<Rightarrow> ustring option" where
  "single_literal_text ps = (case ps of [Literal s] \<Rightarrow> as_utf8_str s | _ \<Rightarrow> None)"

definition try_split_assignment :: "'c word_part list \<Rightarrow> (ustring \<times> 'c word_part list) option" where
  "try_split_assignment ps =
     (case ps of
        Literal first # others \<Rightarrow>
          let front = takeWhile (\<lambda>b. b \<noteq> byte 61) first;
              from_eq = dropWhile (\<lambda>b. b \<noteq> byte 61) first
          in if from_eq = [] then None
             else (case from_utf8 front of
                     Inl _ \<Rightarrow> None
                   | Inr name \<Rightarrow>
                       if name \<noteq> [] \<and> is_name name
                       then Some (name, (if tl from_eq = [] then [] else [Literal (tl from_eq)]) @ others)
                       else None)
      | _ \<Rightarrow> None)"

definition read_word :: "command_reader \<Rightarrow> nat \<Rightarrow> span \<Rightarrow> ('z lexer_scheme, token \<times> span) lx" where
  "read_word cmd d sp =
     lbind (read_word_parts cmd d WordCtx False sp) (\<lambda>(ps, had_quoting) lx.
       if ps = [] then Inl (Fail UnexpectedCharacter sp)
       else
         let reserved = (if recognize_reserved lx then Option.bind (single_literal_text ps) reserved_word else None)
         in case reserved of
              Some tok \<Rightarrow> Inr ((tok, sp), lx)
            | None \<Rightarrow>
                (case try_split_assignment ps of
                   Some (name, value_parts) \<Rightarrow> Inr ((TkAssignment name value_parts, sp), lx)
                 | None \<Rightarrow> Inr ((TkWord ps had_quoting, sp), lx)))"

definition next_token :: "command_reader \<Rightarrow> nat \<Rightarrow> ('z lexer_scheme, token \<times> span) lx" where
  "next_token cmd d lx =
     (case pushback lx of
        Some ts \<Rightarrow> Inr (ts, lx\<lparr>pushback := None\<rparr>)
      | None \<Rightarrow>
          let lx = skip_blanks lx; sp = lexer_span lx in
          lbind lpeek (\<lambda>ch. case ch of
            None \<Rightarrow> lret (TkEof, sp)
          | Some c \<Rightarrow>
              if c = NL then lseq ladvance (lret (TkNewline, sp))
              else lbind (try_operator sp) (\<lambda>tok. case tok of
                Some t \<Rightarrow> lret t
              | None \<Rightarrow> read_word cmd d sp)) lx)"

subsection \<open>Bodies of here-documents\<close>

function skip_tabs :: "'z lexer_scheme \<Rightarrow> 'z lexer_scheme" where
  "skip_tabs lx = (if peek_raw lx = Some TAB then skip_tabs (snd (advance_raw lx)) else lx)"
  by pat_completeness auto
termination by (relation "measure (\<lambda>lx. length (rest lx))") (auto simp: peek_raw_def split: list.splits)

declare skip_tabs.simps [simp del]

text \<open>The characters up to the end of the line, and whether there was an end of line.\<close>

function raw_line :: "ustring \<Rightarrow> 'z lexer_scheme \<Rightarrow> (ustring \<times> bool) \<times> 'z lexer_scheme" where
  "raw_line line lx =
     (case advance_raw lx of
        (None, lx1) \<Rightarrow> ((line, False), lx1)
      | (Some c, lx1) \<Rightarrow> if c = NL then ((line, True), lx1) else raw_line (line @ [c]) lx1)"
  by pat_completeness auto
termination by (relation "measure (\<lambda>(line, lx). length (rest lx))") (auto dest: advance_raw_shorter [OF sym])

declare raw_line.simps [simp del]

definition ends_escaped :: "ustring \<Rightarrow> bool" where
  "ends_escaped line = odd (length (takeWhile (\<lambda>c. c = BACKSLASH) (rev line)))"

definition tabs_skipped :: "pending_here_doc \<Rightarrow> 'z lexer_scheme \<Rightarrow> 'z lexer_scheme" where
  "tabs_skipped h lx = (if strip_tabs h then skip_tabs lx else lx)"

lemma rest_skip_tabs: "length (rest (skip_tabs lx)) \<le> length (rest lx)"
  by (induction lx rule: skip_tabs.induct) (subst skip_tabs.simps, auto intro: order_trans)

lemma rest_tabs_skipped: "length (rest (tabs_skipped h lx)) \<le> length (rest lx)"
  by (simp add: tabs_skipped_def rest_skip_tabs)

lemma raw_line_shorter:
  "raw_line line lx = ((s, b), lx') \<Longrightarrow> length (rest lx') \<le> length (rest lx) \<and> (b \<longrightarrow> length (rest lx') < length (rest lx))"
proof (induction line lx rule: raw_line.induct)
  case (1 line lx)
  obtain ch lx1 where adv: "advance_raw lx = (ch, lx1)" by fastforce
  show ?case
  proof (cases ch)
    case None
    then show ?thesis using adv 1(2) advance_raw_None [of lx lx1] by (auto simp: raw_line.simps [of line lx])
  next
    case (Some c)
    then show ?thesis
      using adv 1(2) advance_raw_shorter [of lx c lx1] 1(1) [of _ lx1 c]
      by (auto simp: raw_line.simps [of line lx] split: if_splits)
  qed
qed

lemma raw_line_tabs_shorter:
  assumes "raw_line line (tabs_skipped h lx) = ((s, b), lx')"
  shows "length (rest lx') \<le> length (rest lx) \<and> (b \<longrightarrow> length (rest lx') < length (rest lx))"
  using raw_line_shorter [OF assms] rest_tabs_skipped [of h lx] by auto

function here_body :: "pending_here_doc \<Rightarrow> ustring \<Rightarrow> 'z lexer_scheme \<Rightarrow> ustring \<times> 'z lexer_scheme" where
  "here_body h body lx =
     (case raw_line [] (tabs_skipped h lx) of
        ((line, False), lx1) \<Rightarrow>
          (if from_str_lossless line = delimiter h then (body, lx1) else (body @ line, lx1))
      | ((line, True), lx1) \<Rightarrow>
          if \<not> here_quoted h \<and> ends_escaped line then
            (case raw_line (butlast line) (tabs_skipped h lx1) of
               ((line2, _), lx2) \<Rightarrow>
                 if ends_escaped line2 then here_body h (body @ butlast line2) lx2
                 else if from_str_lossless line2 = delimiter h then (body, lx2)
                 else here_body h (body @ line2 @ [NL]) lx2)
          else if from_str_lossless line = delimiter h then (body, lx1)
          else here_body h (body @ line @ [NL]) lx1)"
  by pat_completeness auto
termination
  by (relation "measure (\<lambda>(h, body, lx). length (rest lx))")
    (auto dest!: raw_line_tabs_shorter [OF sym])

declare here_body.simps [simp del]

definition read_heredoc_body :: "pending_here_doc \<Rightarrow> ('z lexer_scheme, ustring) lx" where
  "read_heredoc_body h lx = Inr (here_body h [] lx)"

subsection \<open>Plain text of words\<close>

fun parts_to_text :: "'c word_part list \<Rightarrow> ustring"
  and part_to_text :: "'c word_part \<Rightarrow> ustring" where
  "parts_to_text [] = []"
| "parts_to_text (p # ps) = part_to_text p @ parts_to_text ps"
| "part_to_text (Literal t) = to_shell_string t"
| "part_to_text (SingleQuoted t) = to_shell_string t"
| "part_to_text (DoubleQuoted inner) = parts_to_text inner"
| "part_to_text (Param name op sp) = DOLLAR # name"
| "part_to_text (Tilde user) = TILDE # to_shell_string user"
| "part_to_text (CmdSubst c) = []"
| "part_to_text (Backtick c) = []"
| "part_to_text (Arith inner) = []"

definition parts_have_quoting :: "'c word_part list \<Rightarrow> bool" where
  "parts_have_quoting ps =
     list_ex (\<lambda>p. case p of Literal s \<Rightarrow> BACKSLASH \<in> set (to_shell_string s) | _ \<Rightarrow> True) ps"

end
