(* ===== verification/Parser.thy ===== *)
theory Parser
  imports Lexer
begin

text \<open>
  The recursive-descent parser (\<^verbatim>\<open>crates/epsh/src/parser.rs\<close>).  The struct \<^verbatim>\<open>Parser\<close> is the record of
  the lexer with one more field.  Functions that are called by the commands inside a command take the
  parser of commands as the argument \<open>pc\<close>; \<open>parse_command\<close> closes the recursion over commands and
  \<open>parse_nested\<close> the one over command substitutions.  A loop over tokens has as much fuel as there are
  characters left, and two more.
\<close>

record parser = lexer +
  heredoc_bodies :: "command here_doc_body list"

type_synonym 'a px = "(parser, 'a) lx"
type_synonym command_parser = "nat \<Rightarrow> command px"

definition parser_of :: "lexer \<Rightarrow> parser" where
  "parser_of lx = lexer.extend lx \<lparr>heredoc_bodies = []\<rparr>"

definition parser_from_shell_string :: "ustring \<Rightarrow> parser" where
  "parser_from_shell_string source = parser_of (from_shell_string source)"

definition parser_new_bytes :: "bytes \<Rightarrow> parser" where
  "parser_new_bytes source = parser_of (lexer_new_bytes source)"

definition with_fuel :: "(nat \<Rightarrow> 'a px) \<Rightarrow> 'a px" where
  "with_fuel f = (\<lambda>ps. f (length (rest ps) + 2) ps)"

definition ppeek :: "command_reader \<Rightarrow> nat \<Rightarrow> (token \<times> span) px" where
  "ppeek cmd d = lbind (next_token cmd d) (\<lambda>(tok, sp). lseq (lmodify (push_back tok sp)) (lret (tok, sp)))"

definition pnext :: "command_reader \<Rightarrow> nat \<Rightarrow> (token \<times> span) px" where
  "pnext cmd d = next_token cmd d"

definition expect :: "command_reader \<Rightarrow> nat \<Rightarrow> token \<Rightarrow> span px" where
  "expect cmd d expected =
     lbind (pnext cmd d) (\<lambda>(tok, sp). if token_eq tok expected then lret sp else lfail (Expected expected tok) sp)"

text \<open>The next token where reserved words are not recognised.\<close>

definition pnext_plain :: "command_reader \<Rightarrow> nat \<Rightarrow> (token \<times> span) px" where
  "pnext_plain cmd d =
     lseq (lmodify (\<lambda>ps. ps\<lparr>recognize_reserved := False\<rparr>))
       (lbind (pnext cmd d) (\<lambda>ts. lseq (lmodify (\<lambda>ps. ps\<lparr>recognize_reserved := True\<rparr>)) (lret ts)))"

subsection \<open>Here-documents\<close>

primrec read_here_bodies :: "command_reader \<Rightarrow> nat \<Rightarrow> pending_here_doc list \<Rightarrow> command here_doc_body list px" where
  "read_here_bodies cmd d [] = lret []"
| "read_here_bodies cmd d (h # hs) =
     lbind (read_heredoc_body h) (\<lambda>raw.
     lbind (lift_result (make_heredoc_body d cmd raw (here_quoted h))) (\<lambda>b.
     lbind (read_here_bodies cmd d hs) (\<lambda>bs. lret (b # bs))))"

definition collect_heredocs :: "command_reader \<Rightarrow> nat \<Rightarrow> unit px" where
  "collect_heredocs cmd d = (\<lambda>ps.
     if pending_heredocs ps = [] then Inr ((), ps)
     else
       lbind (read_here_bodies cmd d (pending_heredocs ps)) (\<lambda>bs.
         lmodify (\<lambda>ps. ps\<lparr>heredoc_bodies := heredoc_bodies ps @ bs\<rparr>)) (ps\<lparr>pending_heredocs := []\<rparr>))"

primrec skip_newlines_loop :: "nat \<Rightarrow> command_reader \<Rightarrow> nat \<Rightarrow> unit px" where
  "skip_newlines_loop 0 cmd d = lstop"
| "skip_newlines_loop (Suc n) cmd d =
     lbind (pnext cmd d) (\<lambda>(tok, sp).
       if tok = TkNewline then lseq (collect_heredocs cmd d) (skip_newlines_loop n cmd d)
       else lmodify (push_back tok sp))"

definition skip_newlines :: "command_reader \<Rightarrow> nat \<Rightarrow> unit px" where
  "skip_newlines cmd d = with_fuel (\<lambda>n. skip_newlines_loop n cmd d)"

text \<open>The bodies that are still to be placed are passed along with the command.\<close>

fun patch_heredoc_redirs ::
  "'c redir list \<Rightarrow> 'c here_doc_body list \<Rightarrow> 'c redir list \<times> 'c here_doc_body list" where
  "patch_heredoc_redirs [] bodies = ([], bodies)"
| "patch_heredoc_redirs (r # rs) bodies =
     (let (r', bodies') =
        (case bodies of
           [] \<Rightarrow> (r, bodies)
         | b # bs \<Rightarrow>
             (case redir_kind r of
                HereDoc (HereLiteral s) \<Rightarrow>
                  if s = [] then (Redir (redir_fd r) (HereDoc b) (redir_span r), bs) else (r, bodies)
              | HereDocStrip (HereLiteral s) \<Rightarrow>
                  if s = [] then (Redir (redir_fd r) (HereDocStrip b) (redir_span r), bs) else (r, bodies)
              | _ \<Rightarrow> (r, bodies)))
      in apfst ((#) r') (patch_heredoc_redirs rs bodies'))"

fun thread :: "('b \<Rightarrow> 'a \<times> 'b) list \<Rightarrow> 'b \<Rightarrow> 'a list \<times> 'b" where
  "thread [] b = ([], b)"
| "thread (f # fs) b = (let (x, b) = f b; (xs, b) = thread fs b in (x # xs, b))"

fun thread_arms ::
  "'c case_arm list \<Rightarrow> ('b \<Rightarrow> 'c \<times> 'b) option list \<Rightarrow> 'b \<Rightarrow> 'c case_arm list \<times> 'b" where
  "thread_arms (CaseArm pats body sp # arms) (f # fs) b =
     (let (body, b) = (case f of None \<Rightarrow> (body, b) | Some f \<Rightarrow> apfst Some (f b)); (arms, b) = thread_arms arms fs b
      in (CaseArm pats body sp # arms, b))"
| "thread_arms arms fs b = (arms, b)"

primrec patch_heredocs_inner :: "command \<Rightarrow> command here_doc_body list \<Rightarrow> command \<times> command here_doc_body list" where
  "patch_heredocs_inner (Simple as ws redirs sp) = (\<lambda>bs.
     apfst (\<lambda>redirs. Simple as ws redirs sp) (patch_heredoc_redirs redirs bs))"
| "patch_heredocs_inner (Pipeline commands bang sp) = (\<lambda>bs.
     apfst (\<lambda>commands. Pipeline commands bang sp) (thread (map patch_heredocs_inner commands) bs))"
| "patch_heredocs_inner (AndList l r) = (\<lambda>bs.
     let (l, bs) = patch_heredocs_inner l bs; (r, bs) = patch_heredocs_inner r bs in (AndList l r, bs))"
| "patch_heredocs_inner (OrList l r) = (\<lambda>bs.
     let (l, bs) = patch_heredocs_inner l bs; (r, bs) = patch_heredocs_inner r bs in (OrList l r, bs))"
| "patch_heredocs_inner (Sequence l r) = (\<lambda>bs.
     let (l, bs) = patch_heredocs_inner l bs; (r, bs) = patch_heredocs_inner r bs in (Sequence l r, bs))"
| "patch_heredocs_inner (Subshell body redirs sp) = (\<lambda>bs.
     let (body, bs) = patch_heredocs_inner body bs; (redirs, bs) = patch_heredoc_redirs redirs bs
     in (Subshell body redirs sp, bs))"
| "patch_heredocs_inner (BraceGroup body redirs sp) = (\<lambda>bs.
     let (body, bs) = patch_heredocs_inner body bs; (redirs, bs) = patch_heredoc_redirs redirs bs
     in (BraceGroup body redirs sp, bs))"
| "patch_heredocs_inner (If cond then_part else_part sp) = (\<lambda>bs.
     let (cond, bs) = patch_heredocs_inner cond bs; (then_part, bs) = patch_heredocs_inner then_part bs;
         (else_part, bs) =
           (case map_option patch_heredocs_inner else_part of None \<Rightarrow> (None, bs) | Some f \<Rightarrow> apfst Some (f bs))
     in (If cond then_part else_part sp, bs))"
| "patch_heredocs_inner (While cond body sp) = (\<lambda>bs.
     let (cond, bs) = patch_heredocs_inner cond bs; (body, bs) = patch_heredocs_inner body bs
     in (While cond body sp, bs))"
| "patch_heredocs_inner (Until cond body sp) = (\<lambda>bs.
     let (cond, bs) = patch_heredocs_inner cond bs; (body, bs) = patch_heredocs_inner body bs
     in (Until cond body sp, bs))"
| "patch_heredocs_inner (For var ws body sp) = (\<lambda>bs.
     let (body, bs) = patch_heredocs_inner body bs in (For var ws body sp, bs))"
| "patch_heredocs_inner (Case w arms sp) = (\<lambda>bs.
     apfst (\<lambda>arms. Case w arms sp)
       (thread_arms arms (map arm_body (map (map_case_arm patch_heredocs_inner) arms)) bs))"
| "patch_heredocs_inner (FuncDef name body sp) = (\<lambda>bs.
     let (body, bs) = patch_heredocs_inner body bs in (FuncDef name body sp, bs))"
| "patch_heredocs_inner (NotCommand inner) = (\<lambda>bs. apfst NotCommand (patch_heredocs_inner inner bs))"
| "patch_heredocs_inner (Background c redirs) = (\<lambda>bs.
     let (c, bs) = patch_heredocs_inner c bs; (redirs, bs) = patch_heredoc_redirs redirs bs
     in (Background c redirs, bs))"

definition patch_heredocs :: "command \<Rightarrow> command here_doc_body list \<Rightarrow> command" where
  "patch_heredocs c bodies = fst (patch_heredocs_inner c bodies)"

definition read_pending_heredocs :: "command_reader \<Rightarrow> nat \<Rightarrow> command \<Rightarrow> command px" where
  "read_pending_heredocs cmd d c =
     lbind (\<lambda>ps.
       if pending_heredocs ps = [] then Inr (c, ps)
       else
         lbind (read_here_bodies cmd d (pending_heredocs ps)) (\<lambda>bs. lret (patch_heredocs c bs))
           (ps\<lparr>pending_heredocs := []\<rparr>)) (\<lambda>c ps.
       if heredoc_bodies ps = [] then Inr (c, ps)
       else Inr (patch_heredocs c (heredoc_bodies ps), ps\<lparr>heredoc_bodies := []\<rparr>))"

subsection \<open>Lists and pipelines\<close>

fun is_command_start :: "token \<Rightarrow> bool" where
  "is_command_start (TkWord _ _) = True"
| "is_command_start (TkAssignment _ _) = True"
| "is_command_start TkIf = True"
| "is_command_start TkWhile = True"
| "is_command_start TkUntil = True"
| "is_command_start TkFor = True"
| "is_command_start TkCase = True"
| "is_command_start TkLParen = True"
| "is_command_start TkLbrace = True"
| "is_command_start TkBang = True"
| "is_command_start _ = False"

primrec pipe_loop :: "nat \<Rightarrow> command_reader \<Rightarrow> command_parser \<Rightarrow> nat \<Rightarrow> command list \<Rightarrow> command list px" where
  "pipe_loop 0 cmd pc d commands = lstop"
| "pipe_loop (Suc n) cmd pc d commands =
     lbind (ppeek cmd d) (\<lambda>(tok, _).
       if tok = TkPipe then
         lseq (pnext cmd d) (lseq (skip_newlines cmd d) (lbind (pc d) (\<lambda>c.
           pipe_loop n cmd pc d (commands @ [c]))))
       else lret commands)"

definition parse_pipeline :: "command_reader \<Rightarrow> command_parser \<Rightarrow> nat \<Rightarrow> command px" where
  "parse_pipeline cmd pc d =
     lbind (ppeek cmd d) (\<lambda>(tok, sp).
       let bang = (tok = TkBang) in
       lseq (if bang then lseq (pnext cmd d) (lret ()) else lret ())
         (lbind (pc d) (\<lambda>first.
          lbind (with_fuel (\<lambda>n. pipe_loop n cmd pc d [first])) (\<lambda>commands.
            lret (if length commands = 1 \<and> \<not> bang then hd commands else Pipeline commands bang sp)))))"

primrec and_or_loop :: "nat \<Rightarrow> command_reader \<Rightarrow> command_parser \<Rightarrow> nat \<Rightarrow> command \<Rightarrow> command px" where
  "and_or_loop 0 cmd pc d left = lstop"
| "and_or_loop (Suc n) cmd pc d left =
     lbind (ppeek cmd d) (\<lambda>(tok, _).
       if tok = TkAnd \<or> tok = TkOr then
         lseq (pnext cmd d) (lseq (skip_newlines cmd d) (lbind (parse_pipeline cmd pc d) (\<lambda>right.
           and_or_loop n cmd pc d (if tok = TkAnd then AndList left right else OrList left right))))
       else lret left)"

definition parse_and_or :: "command_reader \<Rightarrow> command_parser \<Rightarrow> nat \<Rightarrow> command px" where
  "parse_and_or cmd pc d =
     lbind (parse_pipeline cmd pc d) (\<lambda>left. with_fuel (\<lambda>n. and_or_loop n cmd pc d left))"

text \<open>After a separator: one more command, if one starts here.\<close>

definition next_in_list :: "command_reader \<Rightarrow> command_parser \<Rightarrow> nat \<Rightarrow> command \<Rightarrow> command px" where
  "next_in_list cmd pc d c =
     lbind (ppeek cmd d) (\<lambda>(tok, _).
       if is_command_start tok then lbind (parse_and_or cmd pc d) (\<lambda>right. lret (Sequence c right)) else lret c)"

primrec list_loop :: "nat \<Rightarrow> command_reader \<Rightarrow> command_parser \<Rightarrow> nat \<Rightarrow> bool \<Rightarrow> command \<Rightarrow> command px" where
  "list_loop 0 cmd pc d allow_newline_sep c = lstop"
| "list_loop (Suc n) cmd pc d allow_newline_sep c =
     lbind (ppeek cmd d) (\<lambda>(tok, _).
       if tok = TkSemi then
         lseq (pnext cmd d) (lseq (skip_newlines cmd d) (lbind (next_in_list cmd pc d c) (\<lambda>c.
           list_loop n cmd pc d allow_newline_sep c)))
       else if tok = TkNewline \<and> allow_newline_sep then
         lseq (pnext cmd d) (lseq (collect_heredocs cmd d) (lseq (skip_newlines cmd d)
           (lbind (next_in_list cmd pc d c) (\<lambda>c. list_loop n cmd pc d allow_newline_sep c))))
       else if tok = TkAmp then
         lseq (pnext cmd d) (lseq (if allow_newline_sep then skip_newlines cmd d else lret ())
           (lbind (next_in_list cmd pc d (Background c [])) (\<lambda>c. list_loop n cmd pc d allow_newline_sep c)))
       else lret c)"

definition parse_command_list :: "command_reader \<Rightarrow> command_parser \<Rightarrow> nat \<Rightarrow> bool \<Rightarrow> command px" where
  "parse_command_list cmd pc d allow_newline_sep =
     lbind (parse_and_or cmd pc d) (\<lambda>c. with_fuel (\<lambda>n. list_loop n cmd pc d allow_newline_sep c))"

definition parse_compound_list :: "command_reader \<Rightarrow> command_parser \<Rightarrow> nat \<Rightarrow> command px" where
  "parse_compound_list cmd pc d =
     lbind (ppeek cmd d) (\<lambda>(_, sp). nested d sp (\<lambda>d. parse_command_list cmd pc d True))"

subsection \<open>Redirections\<close>

fun reserved_word_text :: "token \<Rightarrow> ustring" where
  "reserved_word_text TkIf = ustr ''if''"
| "reserved_word_text TkThen = ustr ''then''"
| "reserved_word_text TkElse = ustr ''else''"
| "reserved_word_text TkElif = ustr ''elif''"
| "reserved_word_text TkFi = ustr ''fi''"
| "reserved_word_text TkDo = ustr ''do''"
| "reserved_word_text TkDone = ustr ''done''"
| "reserved_word_text TkCase = ustr ''case''"
| "reserved_word_text TkEsac = ustr ''esac''"
| "reserved_word_text TkWhile = ustr ''while''"
| "reserved_word_text TkUntil = ustr ''until''"
| "reserved_word_text TkFor = ustr ''for''"
| "reserved_word_text TkIn = ustr ''in''"
| "reserved_word_text TkLbrace = ustr ''{''"
| "reserved_word_text TkRbrace = ustr ''}''"
| "reserved_word_text TkBang = ustr ''!''"
| "reserved_word_text _ = []"

definition reserved_text_word :: "token \<Rightarrow> span \<Rightarrow> command word_node" where
  "reserved_text_word tok sp = Word [Literal (shell_bytes_from (reserved_word_text tok))] sp"

definition default_fd :: "token \<Rightarrow> int" where
  "default_fd op = (if op \<in> {TkLess, TkDLess, TkDLessDash, TkLessAnd, TkLessGreat} then 0 else 1)"

fun redir_kind_of :: "token \<Rightarrow> command word_node \<Rightarrow> command redir_kind" where
  "redir_kind_of TkLess w = Input w"
| "redir_kind_of TkGreat w = Output w"
| "redir_kind_of TkDGreat w = Append w"
| "redir_kind_of TkClobber w = Clobber w"
| "redir_kind_of TkLessGreat w = ReadWrite w"
| "redir_kind_of TkLessAnd w = DupInput w"
| "redir_kind_of _ w = DupOutput w"

text \<open>A word, or a reserved word that was read before as such, in the place of a file name or a pattern.\<close>

definition word_or_reserved :: "(token \<Rightarrow> syntax_msg) \<Rightarrow> token \<times> span \<Rightarrow> command word_node px" where
  "word_or_reserved msg ts =
     (case ts of
        (TkWord ps _, sp) \<Rightarrow> lret (Word ps sp)
      | (tok, sp) \<Rightarrow> if reserved_word_text tok = [] then lfail (msg tok) sp else lret (reserved_text_word tok sp))"

definition parse_redir_after_op :: "command_reader \<Rightarrow> nat \<Rightarrow> token \<Rightarrow> span \<Rightarrow> command redir px" where
  "parse_redir_after_op cmd d op sp =
     (if op = TkDLess \<or> op = TkDLessDash then
        lbind (pnext_plain cmd d) (\<lambda>(tok, delim_span). case tok of
          TkWord ps had_quoting \<Rightarrow>
            (let strip = (op = TkDLessDash);
                 h = \<lparr>delimiter = from_str_lossless (parts_to_text ps), strip_tabs = strip,
                      here_quoted = (had_quoting \<or> parts_have_quoting ps)\<rparr>
             in lseq (lmodify (\<lambda>s. s\<lparr>pending_heredocs := pending_heredocs s @ [h]\<rparr>))
                  (lret (Redir (default_fd op)
                     (if strip then HereDocStrip (HereLiteral []) else HereDoc (HereLiteral [])) sp)))
        | _ \<Rightarrow> lfail (ExpectedDelimiter tok) delim_span)
      else
        lbind (pnext_plain cmd d) (\<lambda>ts.
        lbind (word_or_reserved ExpectedFilename ts) (\<lambda>w.
          lret (Redir (default_fd op) (redir_kind_of op w) sp))))"

text \<open>The number of a descriptor before an operator.\<close>

definition fd_text :: "command word_part list \<Rightarrow> bool \<Rightarrow> bool" where
  "fd_text ps had_quoting =
     (let s = parts_to_text ps in \<not> had_quoting \<and> s \<noteq> [] \<and> length s \<le> 9 \<and> list_all is_ascii_digit s)"

definition fd_number :: "command word_part list \<Rightarrow> int" where
  "fd_number ps = (case parse_i32 (parts_to_text ps) of Some n \<Rightarrow> n | None \<Rightarrow> - 1)"

definition set_redir_fd :: "int \<Rightarrow> 'c redir \<Rightarrow> 'c redir" where
  "set_redir_fd fd r = Redir fd (redir_kind r) (redir_span r)"

primrec redirections_loop :: "nat \<Rightarrow> command_reader \<Rightarrow> nat \<Rightarrow> command redir list \<Rightarrow> command redir list px" where
  "redirections_loop 0 cmd d redirs = lstop"
| "redirections_loop (Suc n) cmd d redirs =
     lbind (ppeek cmd d) (\<lambda>(tok, sp).
       if is_redir tok then
         lseq (pnext cmd d) (lbind (parse_redir_after_op cmd d tok sp) (\<lambda>r.
           redirections_loop n cmd d (redirs @ [r])))
       else case tok of
         TkWord ps False \<Rightarrow>
           if fd_text ps False then
             lseq (pnext cmd d) (lbind (ppeek cmd d) (\<lambda>(tok2, sp2).
               if is_redir tok2 then
                 lseq (pnext cmd d) (lbind (parse_redir_after_op cmd d tok2 sp2) (\<lambda>r.
                   redirections_loop n cmd d (redirs @ [set_redir_fd (fd_number ps) r])))
               else lseq (lmodify (push_back (TkWord ps False) sp)) (lret redirs)))
           else lret redirs
       | _ \<Rightarrow> lret redirs)"

definition parse_redirections :: "command_reader \<Rightarrow> nat \<Rightarrow> command redir list px" where
  "parse_redirections cmd d = with_fuel (\<lambda>n. redirections_loop n cmd d [])"

definition grouped :: "command \<Rightarrow> command redir list \<Rightarrow> span \<Rightarrow> command" where
  "grouped c redirs sp = (if redirs = [] then c else BraceGroup c redirs sp)"

subsection \<open>Simple commands and function definitions\<close>

primrec assigns_loop :: "nat \<Rightarrow> command_reader \<Rightarrow> nat \<Rightarrow> command assignment list \<Rightarrow> command assignment list px" where
  "assigns_loop 0 cmd d as = lstop"
| "assigns_loop (Suc n) cmd d as =
     lbind (ppeek cmd d) (\<lambda>(tok, sp). case tok of
       TkAssignment name w \<Rightarrow> lseq (pnext cmd d) (assigns_loop n cmd d (as @ [Assignment name (Word w sp) sp]))
     | _ \<Rightarrow> lret as)"

text \<open>The rest of a function definition, if a parenthesis follows the name.\<close>

definition func_def :: "command_reader \<Rightarrow> command_parser \<Rightarrow> nat \<Rightarrow> bool \<Rightarrow> ustring \<Rightarrow> span \<Rightarrow> command option px" where
  "func_def cmd pc d first name sp =
     (if first then
        lbind (ppeek cmd d) (\<lambda>(tok, _).
          if tok = TkLParen then
            lseq (pnext cmd d) (lseq (expect cmd d TkRParen) (lseq (skip_newlines cmd d)
              (lbind (pc d) (\<lambda>body. lret (Some (FuncDef name body sp))))))
          else lret None)
      else lret None)"

text \<open>The loop returns a function definition, or the words and redirections of the command.\<close>

primrec args_loop ::
  "nat \<Rightarrow> command_reader \<Rightarrow> command_parser \<Rightarrow> nat \<Rightarrow> bool \<Rightarrow> command word_node list \<Rightarrow> command redir list
     \<Rightarrow> (command + command word_node list \<times> command redir list) px" where
  "args_loop 0 cmd pc d no_assigns args redirs = lstop"
| "args_loop (Suc n) cmd pc d no_assigns args redirs =
     lbind (ppeek cmd d) (\<lambda>(tok, sp).
       let done = lret (Inr (args, redirs));
           after_word = (\<lambda>ps. lbind (func_def cmd pc d (args = [] \<and> no_assigns) (parts_to_text ps) sp) (\<lambda>f. case f of
             Some c \<Rightarrow> lret (Inl c)
           | None \<Rightarrow> args_loop n cmd pc d no_assigns (args @ [Word ps sp]) redirs));
           redirection =
             lseq (pnext cmd d) (lbind (parse_redir_after_op cmd d tok sp) (\<lambda>r.
               args_loop n cmd pc d no_assigns args (redirs @ [r])))
       in case tok of
         TkWord ps had_q \<Rightarrow>
           if fd_text ps had_q then
             lseq (pnext cmd d) (lbind (ppeek cmd d) (\<lambda>(tok2, sp2).
               if is_redir tok2 then
                 lseq (pnext cmd d) (lbind (parse_redir_after_op cmd d tok2 sp2) (\<lambda>r.
                   args_loop n cmd pc d no_assigns args (redirs @ [set_redir_fd (fd_number ps) r])))
               else after_word ps))
           else lseq (pnext cmd d) (after_word ps)
       | TkAssignment name w \<Rightarrow>
           if args \<noteq> [] then
             lseq (pnext cmd d) (args_loop n cmd pc d no_assigns
               (args @ [Word (Literal (shell_bytes_from (name @ [EQUALS])) # w) sp]) redirs)
           else done
       | _ \<Rightarrow>
           if args = [] \<and> \<not> is_redir tok then done
           else if reserved_word_text tok \<noteq> [] \<and> args \<noteq> [] then
             lseq (pnext cmd d) (args_loop n cmd pc d no_assigns (args @ [reserved_text_word tok sp]) redirs)
           else if is_redir tok then redirection
           else done)"

definition parse_simple_command_or_func :: "command_reader \<Rightarrow> command_parser \<Rightarrow> nat \<Rightarrow> command px" where
  "parse_simple_command_or_func cmd pc d =
     lbind lget_span (\<lambda>sp.
     lbind (with_fuel (\<lambda>n. assigns_loop n cmd d [])) (\<lambda>as.
     lbind (with_fuel (\<lambda>n. args_loop n cmd pc d (as = []) [] [])) (\<lambda>r. case r of
       Inl f \<Rightarrow> lret f
     | Inr (args, redirs) \<Rightarrow>
         if as = [] \<and> args = [] \<and> redirs = [] then
           lbind (pnext cmd d) (\<lambda>(tok, sp). lfail (UnexpectedToken tok) sp)
         else lret (Simple as args redirs sp))))"

subsection \<open>Compound commands\<close>

text \<open>The list between two words of a compound command, with the newlines around it.\<close>

definition inner_list :: "command_reader \<Rightarrow> command_parser \<Rightarrow> nat \<Rightarrow> command px" where
  "inner_list cmd pc d =
     lseq (skip_newlines cmd d) (lbind (parse_compound_list cmd pc d) (\<lambda>c. lseq (skip_newlines cmd d) (lret c)))"

definition parse_subshell :: "command_reader \<Rightarrow> command_parser \<Rightarrow> nat \<Rightarrow> command px" where
  "parse_subshell cmd pc d =
     lbind (expect cmd d TkLParen) (\<lambda>sp. lbind (inner_list cmd pc d) (\<lambda>body.
     lseq (expect cmd d TkRParen) (lbind (parse_redirections cmd d) (\<lambda>redirs. lret (Subshell body redirs sp)))))"

definition parse_brace_group :: "command_reader \<Rightarrow> command_parser \<Rightarrow> nat \<Rightarrow> command px" where
  "parse_brace_group cmd pc d =
     lbind (expect cmd d TkLbrace) (\<lambda>sp. lbind (inner_list cmd pc d) (\<lambda>body.
     lseq (expect cmd d TkRbrace) (lbind (parse_redirections cmd d) (\<lambda>redirs. lret (BraceGroup body redirs sp)))))"

text \<open>The part of an \<^verbatim>\<open>if\<close> after the list of \<^verbatim>\<open>then\<close>; \<open>elif\<close> parses the next branch.\<close>

definition else_part :: "command_reader \<Rightarrow> command_parser \<Rightarrow> nat \<Rightarrow> command px \<Rightarrow> command option px" where
  "else_part cmd pc d elif =
     lbind (ppeek cmd d) (\<lambda>(tok, _).
       if tok = TkElif then lbind elif (\<lambda>c. lret (Some c))
       else if tok = TkElse then
         lseq (pnext cmd d) (lbind (inner_list cmd pc d) (\<lambda>body. lseq (expect cmd d TkFi) (lret (Some body))))
       else if tok = TkFi then lseq (pnext cmd d) (lret None)
       else lbind (pnext cmd d) (\<lambda>(tok, sp). lfail (ExpectedBranch tok) sp))"

primrec parse_elif :: "nat \<Rightarrow> command_reader \<Rightarrow> command_parser \<Rightarrow> nat \<Rightarrow> command px" where
  "parse_elif 0 cmd pc d = lstop"
| "parse_elif (Suc n) cmd pc d =
     lbind (expect cmd d TkElif) (\<lambda>sp. lbind (inner_list cmd pc d) (\<lambda>cond.
     lseq (expect cmd d TkThen) (lbind (inner_list cmd pc d) (\<lambda>then_part.
     lbind (else_part cmd pc d (parse_elif n cmd pc d)) (\<lambda>els. lret (If cond then_part els sp))))))"

definition parse_if :: "command_reader \<Rightarrow> command_parser \<Rightarrow> nat \<Rightarrow> command px" where
  "parse_if cmd pc d =
     lbind (expect cmd d TkIf) (\<lambda>sp. lbind (inner_list cmd pc d) (\<lambda>cond.
     lseq (expect cmd d TkThen) (lbind (inner_list cmd pc d) (\<lambda>then_part.
     lbind (else_part cmd pc d (with_fuel (\<lambda>n. parse_elif n cmd pc d))) (\<lambda>els.
     lbind (parse_redirections cmd d) (\<lambda>redirs. lret (grouped (If cond then_part els sp) redirs sp)))))))"

text \<open>The body between \<^verbatim>\<open>do\<close> and \<^verbatim>\<open>done\<close> and the redirections after it.\<close>

definition do_group :: "command_reader \<Rightarrow> command_parser \<Rightarrow> nat \<Rightarrow> (command \<times> command redir list) px" where
  "do_group cmd pc d =
     lseq (expect cmd d TkDo) (lbind (inner_list cmd pc d) (\<lambda>body.
     lseq (expect cmd d TkDone) (lbind (parse_redirections cmd d) (\<lambda>redirs. lret (body, redirs)))))"

definition parse_while :: "command_reader \<Rightarrow> command_parser \<Rightarrow> nat \<Rightarrow> command px" where
  "parse_while cmd pc d =
     lbind (expect cmd d TkWhile) (\<lambda>sp. lbind (inner_list cmd pc d) (\<lambda>cond.
     lbind (do_group cmd pc d) (\<lambda>(body, redirs). lret (grouped (While cond body sp) redirs sp))))"

definition parse_until :: "command_reader \<Rightarrow> command_parser \<Rightarrow> nat \<Rightarrow> command px" where
  "parse_until cmd pc d =
     lbind (expect cmd d TkUntil) (\<lambda>sp. lbind (inner_list cmd pc d) (\<lambda>cond.
     lbind (do_group cmd pc d) (\<lambda>(body, redirs). lret (grouped (Until cond body sp) redirs sp))))"

primrec for_words :: "nat \<Rightarrow> command_reader \<Rightarrow> nat \<Rightarrow> command word_node list \<Rightarrow> command word_node list px" where
  "for_words 0 cmd d ws = lstop"
| "for_words (Suc n) cmd d ws =
     lbind (ppeek cmd d) (\<lambda>(tok, sp). case tok of
       TkWord ps _ \<Rightarrow> lseq (pnext cmd d) (for_words n cmd d (ws @ [Word ps sp]))
     | _ \<Rightarrow> if tok = TkSemi \<or> tok = TkNewline then lseq (pnext cmd d) (lret ws) else lret ws)"

definition parse_for :: "command_reader \<Rightarrow> command_parser \<Rightarrow> nat \<Rightarrow> command px" where
  "parse_for cmd pc d =
     lbind (expect cmd d TkFor) (\<lambda>sp.
     lbind (pnext_plain cmd d) (\<lambda>(name_tok, name_span). case name_tok of
       TkWord ps _ \<Rightarrow>
         lseq (skip_newlines cmd d)
           (lbind (ppeek cmd d) (\<lambda>(tok, _).
            lbind
              (if tok = TkIn then
                 lseq (pnext cmd d) (lbind (with_fuel (\<lambda>n. for_words n cmd d [])) (\<lambda>ws. lret (Some ws)))
               else
                 lbind (ppeek cmd d) (\<lambda>(tok, _).
                   if tok = TkSemi then lseq (pnext cmd d) (lret None) else lret None)) (\<lambda>ws.
            lseq (skip_newlines cmd d)
              (lbind (do_group cmd pc d) (\<lambda>(body, redirs).
                lret (grouped (For (parts_to_text ps) ws body sp) redirs sp))))))
     | _ \<Rightarrow> lfail (ExpectedForName name_tok) name_span))"

primrec patterns_loop :: "nat \<Rightarrow> command_reader \<Rightarrow> nat \<Rightarrow> command word_node list \<Rightarrow> command word_node list px" where
  "patterns_loop 0 cmd d pats = lstop"
| "patterns_loop (Suc n) cmd d pats =
     lbind (pnext_plain cmd d) (\<lambda>ts.
     lbind (word_or_reserved ExpectedPattern ts) (\<lambda>pat.
     lbind (ppeek cmd d) (\<lambda>(tok, _).
       if tok = TkPipe then lseq (pnext cmd d) (patterns_loop n cmd d (pats @ [pat]))
       else lret (pats @ [pat]))))"

definition parse_case_arm :: "command_reader \<Rightarrow> command_parser \<Rightarrow> nat \<Rightarrow> command case_arm px" where
  "parse_case_arm cmd pc d =
     lbind lget_span (\<lambda>sp.
     lbind (ppeek cmd d) (\<lambda>(tok, _).
     lseq (if tok = TkLParen then lseq (pnext cmd d) (lret ()) else lret ())
       (lbind (with_fuel (\<lambda>n. patterns_loop n cmd d [])) (\<lambda>pats.
        lseq (expect cmd d TkRParen) (lseq (skip_newlines cmd d)
          (lbind (ppeek cmd d) (\<lambda>(tok, _).
           lbind (if tok = TkSemiSemi \<or> tok = TkEsac then lret None
                  else lbind (parse_compound_list cmd pc d) (\<lambda>c. lret (Some c))) (\<lambda>body.
           lbind (ppeek cmd d) (\<lambda>(tok, _).
           lseq (if tok = TkSemiSemi then lseq (pnext cmd d) (skip_newlines cmd d) else lret ())
             (lret (CaseArm pats body sp)))))))))))"

primrec arms_loop ::
  "nat \<Rightarrow> command_reader \<Rightarrow> command_parser \<Rightarrow> nat \<Rightarrow> command case_arm list \<Rightarrow> command case_arm list px" where
  "arms_loop 0 cmd pc d arms = lstop"
| "arms_loop (Suc n) cmd pc d arms =
     lbind (ppeek cmd d) (\<lambda>(tok, _).
       if tok = TkEsac then lseq (pnext cmd d) (lret arms)
       else
         lbind (parse_case_arm cmd pc d) (\<lambda>arm.
         lseq (skip_newlines cmd d) (arms_loop n cmd pc d (arms @ [arm]))))"

definition parse_case :: "command_reader \<Rightarrow> command_parser \<Rightarrow> nat \<Rightarrow> command px" where
  "parse_case cmd pc d =
     lbind (expect cmd d TkCase) (\<lambda>sp.
     lbind (pnext_plain cmd d) (\<lambda>(word_tok, wsp). case word_tok of
       TkWord ps _ \<Rightarrow>
         lseq (skip_newlines cmd d) (lseq (expect cmd d TkIn) (lseq (skip_newlines cmd d)
           (lbind (with_fuel (\<lambda>n. arms_loop n cmd pc d [])) (\<lambda>arms.
            lbind (parse_redirections cmd d) (\<lambda>redirs. lret (grouped (Case (Word ps wsp) arms sp) redirs sp))))))
     | _ \<Rightarrow> lfail (ExpectedCaseWord word_tok) wsp))"

subsection \<open>Commands and programs\<close>

definition command_step :: "command_reader \<Rightarrow> command_parser \<Rightarrow> nat \<Rightarrow> command px" where
  "command_step cmd pc d =
     lbind (ppeek cmd d) (\<lambda>(tok, _). case tok of
       TkLParen \<Rightarrow> parse_subshell cmd pc d
     | TkLbrace \<Rightarrow> parse_brace_group cmd pc d
     | TkIf \<Rightarrow> parse_if cmd pc d
     | TkWhile \<Rightarrow> parse_while cmd pc d
     | TkUntil \<Rightarrow> parse_until cmd pc d
     | TkFor \<Rightarrow> parse_for cmd pc d
     | TkCase \<Rightarrow> parse_case cmd pc d
     | _ \<Rightarrow> parse_simple_command_or_func cmd pc d)"

primrec parse_command :: "nat \<Rightarrow> command_reader \<Rightarrow> command_parser" where
  "parse_command 0 cmd = (\<lambda>d. lstop)"
| "parse_command (Suc n) cmd = (\<lambda>d. command_step cmd (parse_command n cmd) d)"

definition parse_complete_command :: "command_reader \<Rightarrow> nat \<Rightarrow> command px" where
  "parse_complete_command cmd d = with_fuel (\<lambda>n. parse_command_list cmd (parse_command n cmd) d False)"

primrec program_loop :: "nat \<Rightarrow> command_reader \<Rightarrow> nat \<Rightarrow> command list \<Rightarrow> command list px" where
  "program_loop 0 cmd d commands = lstop"
| "program_loop (Suc n) cmd d commands =
     lbind (ppeek cmd d) (\<lambda>(tok, _).
       if tok = TkEof then lret commands
       else
         lbind (parse_complete_command cmd d) (\<lambda>c.
         lbind (read_pending_heredocs cmd d c) (\<lambda>c.
         lseq (skip_newlines cmd d) (program_loop n cmd d (commands @ [c])))))"

definition parse_program :: "command_reader \<Rightarrow> nat \<Rightarrow> command list px" where
  "parse_program cmd d = lseq (skip_newlines cmd d) (with_fuel (\<lambda>n. program_loop n cmd d []))"

definition run_parser :: "'a px \<Rightarrow> parser \<Rightarrow> stop + 'a" where
  "run_parser m ps = map_sum id fst (m ps)"

text \<open>\<^verbatim>\<open>parse_cmdsubst_content\<close>: the commands of a substitution are one sequence.  The nesting depth
  grows with every level, so that as many levels as the depth allows are never used up.\<close>

fun sequence_of :: "command list \<Rightarrow> command" where
  "sequence_of [] = empty_command_substitution"
| "sequence_of (c # cs) = foldl Sequence c cs"

primrec parse_nested :: "nat \<Rightarrow> command_reader" where
  "parse_nested 0 = (\<lambda>d content.
     Inl (if MAX_NESTING_DEPTH \<le> d then Fail NestingTooDeep span_default else OutOfFuel))"
| "parse_nested (Suc k) = (\<lambda>d content.
     if MAX_NESTING_DEPTH \<le> d then Inl (Fail NestingTooDeep span_default)
     else map_sum id sequence_of
            (run_parser (parse_program (parse_nested k) (Suc d)) (parser_from_shell_string content)))"

definition parse_cmdsubst_content :: command_reader where
  "parse_cmdsubst_content = parse_nested MAX_NESTING_DEPTH"

text \<open>\<^verbatim>\<open>Parser::new_bytes(source).parse()\<close>\<close>

definition parse_source :: "bytes \<Rightarrow> stop + command list" where
  "parse_source source = run_parser (parse_program parse_cmdsubst_content 0) (parser_new_bytes source)"

end
