(* ===== verification/Parser_Laws.thy ===== *)
theory Parser_Laws
  imports Parser
begin

text \<open>
  The laws of the lexer and the parser.  First, they return on every text: no loop runs out of the fuel
  that the definitions give it.
\<close>

declare impl_loop.simps(2) [simp del] heredoc_loop.simps(2) [simp del] parse_double_quoted_parts.simps(2) [simp del]
  word_loop.simps(2) [simp del] toggle_loop.simps(2) [simp del] read_cmd_subst_raw.simps(2) [simp del]
  arith_text.simps(2) [simp del]

subsection \<open>Progress\<close>

text \<open>A computation on a state that has a size: it does not run out of fuel where the size is below
  \<open>n\<close>, does not grow the state, shrinks it by \<open>a\<close> and keeps what \<open>kept\<close> relates.\<close>

locale progress =
  fixes M :: "'s \<Rightarrow> nat" and kept :: "'s \<Rightarrow> 's \<Rightarrow> bool"
  assumes kept_refl: "kept s s" and kept_trans: "kept s t \<Longrightarrow> kept t u \<Longrightarrow> kept s u"
begin

definition ok :: "'s \<Rightarrow> nat \<Rightarrow> stop + 'a \<times> 's \<Rightarrow> bool" where
  "ok s a r \<longleftrightarrow> (case r of Inl e \<Rightarrow> e \<noteq> OutOfFuel | Inr (x, s') \<Rightarrow> M s' + a \<le> M s \<and> kept s s')"

definition safe :: "('s \<Rightarrow> bool) \<Rightarrow> nat \<Rightarrow> ('s, 'a) lx \<Rightarrow> nat \<Rightarrow> bool" where
  "safe P n m a \<longleftrightarrow> (\<forall>s. P s \<and> M s < n \<longrightarrow> ok s a (m s))"

lemmas safe_unfold = safe_def ok_def

abbreviation anywhere :: "'s \<Rightarrow> bool" where "anywhere \<equiv> \<lambda>_. True"

lemma safeI:
  assumes "\<And>s e. P s \<Longrightarrow> M s < n \<Longrightarrow> m s = Inl e \<Longrightarrow> e \<noteq> OutOfFuel"
    and "\<And>s x s'. P s \<Longrightarrow> M s < n \<Longrightarrow> m s = Inr (x, s') \<Longrightarrow> M s' + a \<le> M s \<and> kept s s'"
  shows "safe P n m a"
  using assms by (fastforce simp: safe_unfold split: sum.split)

lemma safe_Inl: "safe P n m a \<Longrightarrow> P s \<Longrightarrow> M s < n \<Longrightarrow> m s = Inl e \<Longrightarrow> e \<noteq> OutOfFuel"
  by (force simp: safe_unfold)

lemma safe_Inr: "safe P n m a \<Longrightarrow> P s \<Longrightarrow> M s < n \<Longrightarrow> m s = Inr (x, s') \<Longrightarrow> M s' + a \<le> M s \<and> kept s s'"
  by (force simp: safe_unfold)

lemma ok_pair: "M (snd p) + a \<le> M s \<Longrightarrow> kept s (snd p) \<Longrightarrow> ok s a (Inr p)"
  by (cases p) (simp add: ok_def)

lemma ok_Inr: "M t + a \<le> M s \<Longrightarrow> kept s t \<Longrightarrow> ok s a (Inr (x, t))"
  by (simp add: ok_def)

lemma ok_if: "(b \<Longrightarrow> ok s a x) \<Longrightarrow> (\<not> b \<Longrightarrow> ok s a y) \<Longrightarrow> ok s a (if b then x else y)"
  by simp

lemma ok_map: "ok s a (m t) \<Longrightarrow> ok s a (lbind m (\<lambda>x. lret (f x)) t)"
  by (auto simp: ok_def lbind_def lret_def split: sum.splits)

lemma ok_Inl: "e \<noteq> OutOfFuel \<Longrightarrow> ok s a (Inl e)"
  by (simp add: ok_def)

lemma ok_step:
  assumes "safe anywhere n m 0" "M t < n" "M t + a \<le> M s" "kept s t"
  shows "ok s a (m t)"
proof (cases "m t")
  case (Inl e)
  then show ?thesis using safe_Inl [OF assms(1) _ assms(2)] by (simp add: ok_def)
next
  case (Inr p)
  then show ?thesis
    using safe_Inr [OF assms(1) _ assms(2), of "fst p" "snd p"] assms(3,4) kept_trans
    by (cases p) (auto simp: ok_def)
qed

lemma safe_okD: "safe P n m a \<Longrightarrow> P s \<Longrightarrow> M s < n \<Longrightarrow> ok s a (m s)"
  by (simp add: safe_def)

lemma safe_weaken: "safe anywhere n m a \<Longrightarrow> safe P n m a"
  by (simp add: safe_unfold)

lemma safe_mono: "safe P n m a \<Longrightarrow> n' \<le> n \<Longrightarrow> b \<le> a \<Longrightarrow> safe P n' m b"
  by (fastforce simp: safe_unfold split: sum.split)

lemma safe_lret: "safe P n (lret x) 0"
  by (simp add: safe_unfold lret_def kept_refl)

lemma safe_lfail: "safe P n (lfail msg sp) a"
  by (simp add: safe_unfold lfail_def)

lemma safe_lift: "r \<noteq> Inl OutOfFuel \<Longrightarrow> safe P n (lift_result r) 0"
  by (auto simp: safe_unfold lift_result_def kept_refl split: sum.split)

lemma safe_modify: "(\<And>s. M (f s) \<le> M s) \<Longrightarrow> (\<And>s. kept s (f s)) \<Longrightarrow> safe P n (lmodify f) 0"
  by (simp add: safe_unfold lmodify_def)

lemma safe_0: "safe P 0 m a"
  by (simp add: safe_unfold)

lemma safe_bind_at:
  assumes "\<And>s e. P s \<Longrightarrow> M s < n \<Longrightarrow> m s = Inl e \<Longrightarrow> e \<noteq> OutOfFuel"
    and "\<And>s x t. P s \<Longrightarrow> M s < n \<Longrightarrow> m s = Inr (x, t) \<Longrightarrow>
      \<exists>a Q. M t + a \<le> M s \<and> kept s t \<and> Q t \<and> safe Q (n - a) (k x) (b - a)"
  shows "safe P n (lbind m k) b"
proof (rule safeI)
  fix s e
  assume s: "P s" "M s < n" "lbind m k s = Inl e"
  show "e \<noteq> OutOfFuel"
  proof (cases "m s")
    case (Inl e')
    then show ?thesis using s assms(1) by (auto simp: lbind_def)
  next
    case (Inr p)
    then obtain x t where t: "m s = Inr (x, t)" "k x t = Inl e" using s(3) by (cases p) (auto simp: lbind_def)
    then obtain a Q where "M t + a \<le> M s" "Q t" "safe Q (n - a) (k x) (b - a)" using assms(2) s by blast
    then show ?thesis using safe_Inl [of Q "n - a" "k x" "b - a" t e] t(2) s(2) by linarith
  qed
next
  fix s y u
  assume s: "P s" "M s < n" "lbind m k s = Inr (y, u)"
  then obtain x t where t: "m s = Inr (x, t)" "k x t = Inr (y, u)"
    by (auto simp: lbind_def split: sum.splits)
  then obtain a Q where a: "M t + a \<le> M s" "kept s t" "Q t" "safe Q (n - a) (k x) (b - a)" using assms(2) s by blast
  then have "M u + (b - a) \<le> M t \<and> kept t u" using safe_Inr [OF a(4,3) _ t(2)] s(2) by linarith
  then show "M u + b \<le> M s \<and> kept s u" using a kept_trans [of s t u] by auto
qed

lemma safe_bind:
  assumes "safe P n m a" and "\<And>x. safe anywhere (n - a) (k x) (b - a)"
  shows "safe P n (lbind m k) b"
proof (rule safe_bind_at)
  fix s x t
  assume "P s" "M s < n" "m s = Inr (x, t)"
  then show "\<exists>a Q. M t + a \<le> M s \<and> kept s t \<and> Q t \<and> safe Q (n - a) (k x) (b - a)"
    using safe_Inr [OF assms(1)] assms(2) by (intro exI [of _ a] exI [of _ anywhere]) auto
qed (use safe_Inl [OF assms(1)] in blast)

lemma safe_seq: "safe P n m a \<Longrightarrow> safe anywhere (n - a) k (b - a) \<Longrightarrow> safe P n (lseq m k) b"
  by (simp add: lseq_def safe_bind)

lemma safe_nested: "(Suc d \<le> MAX_NESTING_DEPTH \<Longrightarrow> safe P n (body (Suc d)) a) \<Longrightarrow> safe P n (nested d sp body) a"
  by (simp add: nested_def safe_lfail)

lemma safe_here: "(\<And>s. safe P n (f s) a) \<Longrightarrow> safe P n (\<lambda>s. f s s) a"
  by (simp add: safe_unfold)

lemma safe_fuel: "(\<And>k. safe P k (f k) a) \<Longrightarrow> (\<And>s. M s < g s) \<Longrightarrow> safe P n (\<lambda>s. f (g s) s) a"
  by (simp add: safe_unfold)

lemma safe_fuel_below:
  "(\<And>k. k \<le> N \<Longrightarrow> safe P k (f k) a) \<Longrightarrow> (\<And>s. M s < n \<Longrightarrow> M s < g s \<and> g s \<le> N) \<Longrightarrow> safe P n (\<lambda>s. f (g s) s) a"
  by (simp add: safe_def)

lemma safe_prod: "safe P n (f x y) a \<Longrightarrow> safe P n (case (x, y) of (u, v) \<Rightarrow> f u v) a"
  by simp

lemma safe_if_state: "safe P n f a \<Longrightarrow> safe P n g a \<Longrightarrow> safe P n (\<lambda>s. if b s then f s else g s) a"
  by (simp add: safe_def)

lemma safe_case_option:
  "(x = None \<Longrightarrow> safe P n f a) \<Longrightarrow> (\<And>y. x = Some y \<Longrightarrow> safe P n (g y) a) \<Longrightarrow> safe P n (case x of None \<Rightarrow> f | Some y \<Rightarrow> g y) a"
  by (cases x) simp_all

lemma safe_if: "(b \<Longrightarrow> safe P n f a) \<Longrightarrow> (\<not> b \<Longrightarrow> safe P n g a) \<Longrightarrow> safe P n (if b then f else g) a"
  by simp

text \<open>What a computation returns has been paid for: \<open>w\<close> weighs the result and \<open>c\<close> is what was paid
  before.\<close>

definition paid :: "('s \<Rightarrow> bool) \<Rightarrow> nat \<Rightarrow> ('s, 'a) lx \<Rightarrow> nat \<Rightarrow> ('a \<Rightarrow> nat) \<Rightarrow> bool" where
  "paid P n m c w \<longleftrightarrow> (\<forall>s x t. P s \<and> M s < n \<and> m s = Inr (x, t) \<longrightarrow> M t + w x \<le> M s + c)"

lemma paidI: "(\<And>s x t. P s \<Longrightarrow> M s < n \<Longrightarrow> m s = Inr (x, t) \<Longrightarrow> M t + w x \<le> M s + c) \<Longrightarrow> paid P n m c w"
  by (simp add: paid_def)

lemma paidD: "paid P n m c w \<Longrightarrow> P s \<Longrightarrow> M s < n \<Longrightarrow> m s = Inr (x, t) \<Longrightarrow> M t + w x \<le> M s + c"
  by (simp add: paid_def)

lemma paid_lret: "w x \<le> c \<Longrightarrow> paid P n (lret x) c w"
  by (simp add: paid_def lret_def)

lemma paid_bind:
  assumes "safe P n m a" and "\<And>x. paid anywhere (n - a) (k x) (c + a) w"
  shows "paid P n (lbind m k) c w"
proof (rule paidI)
  fix s y u
  assume s: "P s" "M s < n" "lbind m k s = Inr (y, u)"
  then obtain x t where t: "m s = Inr (x, t)" "k x t = Inr (y, u)" by (auto simp: lbind_def split: sum.splits)
  then have "M t + a \<le> M s" using safe_Inr [OF assms(1)] s by blast
  then show "M u + w y \<le> M s + c" using paidD [OF assms(2) _ _ t(2)] s(2) by fastforce
qed

lemma paid_prod: "paid P n (f x y) c w \<Longrightarrow> paid P n (case (x, y) of (u, v) \<Rightarrow> f u v) c w"
  by simp

lemma paid_if: "(b \<Longrightarrow> paid P n f c w) \<Longrightarrow> (\<not> b \<Longrightarrow> paid P n g c w) \<Longrightarrow> paid P n (if b then f else g) c w"
  by simp

lemma paid_lfail: "paid P n (lfail msg sp) c w"
  by (simp add: paid_def lfail_def)

lemma paid_mono: "paid P n m c w \<Longrightarrow> n' \<le> n \<Longrightarrow> c \<le> c' \<Longrightarrow> paid P n' m c' w"
  by (fastforce simp: paid_def)

lemma safe_paid: "safe P n m a \<Longrightarrow> (\<And>x. w x \<le> c + a) \<Longrightarrow> paid P n m c w"
proof (rule paidI)
  fix s x t
  assume m: "safe P n m a" "\<And>x. w x \<le> c + a" "P s" "M s < n" "m s = Inr (x, t)"
  have "M t + a \<le> M s" using safe_Inr [OF m(1,3,4,5)] by simp
  then show "M t + w x \<le> M s + c" using m(2) [of x] by linarith
qed

lemma paid_safe:
  "safe P n m 0 \<Longrightarrow> paid P n m 0 w \<Longrightarrow> (\<And>s x t. P s \<Longrightarrow> m s = Inr (x, t) \<Longrightarrow> a \<le> w x) \<Longrightarrow> safe P n m a"
  by (fastforce simp: safe_unfold paid_def split: sum.splits)

end

text \<open>The lexer reads characters and leaves the token that was pushed back.\<close>

interpretation lex: progress "\<lambda>lx :: 'z lexer_scheme. length (rest lx)" "\<lambda>s s'. pushback s' = pushback s"
  by unfold_locales auto

definition more_text :: "'z lexer_scheme \<Rightarrow> bool" where
  "more_text lx \<longleftrightarrow> joined (rest lx) \<noteq> []"

lemma pushback_advance_raw [simp]: "pushback (snd (advance_raw lx)) = pushback lx"
  by (simp add: advance_raw_def Let_def split: list.split)

lemma pushback_peek [simp]: "pushback (snd (peek lx)) = pushback lx"
  by (induction lx rule: peek.induct) (subst peek.simps, auto split: list.split)

lemma pushback_advance [simp]: "pushback (snd (advance lx)) = pushback lx"
  using pushback_peek [of lx] by (auto simp: advance_def split: prod.split option.split simp del: pushback_peek)

lemma more_text_peek: "more_text lx \<longleftrightarrow> (\<exists>c. fst (peek lx) = Some c)"
  by (simp add: more_text_def peek_char split: list.split)

named_theorems lex_safe \<open>computations of the lexer end and do not grow the text\<close>

lemma lpeek_bind [lex_safe]:
  assumes "lex.safe lex.anywhere n (k None) b" and "\<And>c. lex.safe more_text n (k (Some c)) b"
  shows "lex.safe P n (lbind lpeek k) b"
proof (rule lex.safe_bind_at)
  fix s :: "'a lexer_scheme" and ch t
  assume "lpeek s = Inr (ch, t)"
  then have t: "peek s = (ch, t)" by (simp add: lpeek_def)
  then have "length (rest t) + 0 \<le> length (rest s)" "pushback t = pushback s"
    using rest_peek [of s] pushback_peek [of s] joined_length [of "rest s"] by auto
  moreover have "ch \<noteq> None \<Longrightarrow> more_text t"
    using t rest_peek [of s] peek_char [of s] by (auto simp: more_text_def split: list.splits)
  ultimately show "\<exists>a Q. length (rest t) + a \<le> length (rest s) \<and> pushback t = pushback s \<and> Q t \<and> lex.safe Q (n - a) (k ch) (b - a)"
    using assms by (intro exI [of _ 0] exI [of _ "if ch = None then lex.anywhere else more_text"]) auto
qed (simp add: lpeek_def)

lemma lpeek_bind_char:
  assumes "\<And>c. Q c \<Longrightarrow> lex.safe more_text n (k (Some c)) b"
  shows "lex.safe (\<lambda>s. \<exists>c. fst (peek s) = Some c \<and> Q c) n (lbind lpeek k) b"
proof (rule lex.safe_bind_at)
  fix s :: "'a lexer_scheme" and ch t
  assume "\<exists>c. fst (peek s) = Some c \<and> Q c" "lpeek s = Inr (ch, t)"
  then obtain c where t: "peek s = (Some c, t)" "ch = Some c" "Q c" by (auto simp: lpeek_def)
  then have "length (rest t) + 0 \<le> length (rest s)" "pushback t = pushback s" "more_text t"
    using rest_peek [of s] pushback_peek [of s] joined_length [of "rest s"] peek_char [of s]
    by (auto simp: more_text_def split: list.splits)
  then show "\<exists>a Q. length (rest t) + a \<le> length (rest s) \<and> pushback t = pushback s \<and> Q t \<and> lex.safe Q (n - a) (k ch) (b - a)"
    using assms [OF t(3)] t(2) by (intro exI [of _ 0] exI [of _ more_text]) auto
qed (simp add: lpeek_def)

lemma safe_consume:
  assumes "lex.safe lex.anywhere (n - 1) k (b - 1)"
    and "\<And>s. P s \<Longrightarrow> m s = Inr (f s)"
    and "\<And>s. P s \<Longrightarrow> length (rest (snd (f s))) < length (rest s) \<and> pushback (snd (f s)) = pushback s"
  shows "lex.safe P n (lseq m k) b"
  unfolding lseq_def
proof (rule lex.safe_bind_at)
  fix s :: "'a lexer_scheme" and c t
  assume "P s" "m s = Inr (c, t)"
  then show "\<exists>a Q. length (rest t) + a \<le> length (rest s) \<and> pushback t = pushback s \<and> Q t \<and> lex.safe Q (n - a) k (b - a)"
    using assms(1) assms(2,3) [of s] by (intro exI [of _ 1] exI [of _ lex.anywhere]) auto
next
  fix s :: "'a lexer_scheme" and e
  assume "P s" "m s = Inl e"
  then show "e \<noteq> OutOfFuel" using assms(2) by simp
qed

lemma more_text_consumes:
  assumes "more_text s"
  shows "length (rest (snd (advance s))) < length (rest s)" "length (rest (snd (advance_raw s))) < length (rest s)"
proof -
  have "rest s \<noteq> []" using assms by (auto simp: more_text_def)
  then show "length (rest (snd (advance_raw s))) < length (rest s)" by simp
  show "length (rest (snd (advance s))) < length (rest s)"
    using assms joined_length [of "rest s"] by (cases "joined (rest s)") (auto simp: more_text_def)
qed

lemma ladvance_seq [lex_safe]:
  assumes "lex.safe lex.anywhere (n - 1) k (b - 1)"
  shows "lex.safe more_text n (lseq ladvance k) b" "lex.safe more_text n (lseq ladvance_raw k) b"
  using safe_consume [OF assms, of more_text ladvance advance] safe_consume [OF assms, of more_text ladvance_raw advance_raw]
  by (simp_all add: more_text_consumes ladvance_def ladvance_raw_def del: rest_advance rest_advance_raw)

lemma ladvance_bind [lex_safe]:
  assumes "lex.safe lex.anywhere n (k None) b" and "\<And>c. lex.safe lex.anywhere (n - 1) (k (Some c)) (b - 1)"
  shows "lex.safe P n (lbind ladvance k) b"
proof (rule lex.safe_bind_at)
  fix s :: "'a lexer_scheme" and ch t
  assume "ladvance s = Inr (ch, t)"
  then have t: "advance s = (ch, t)" by (simp add: ladvance_def)
  then have "length (rest t) \<le> length (rest s)" "pushback t = pushback s"
    using rest_advance [of s] pushback_advance [of s] joined_length [of "rest s"] by auto
  moreover have "ch \<noteq> None \<Longrightarrow> length (rest t) < length (rest s)" using t advance_shorter by blast
  ultimately show "\<exists>a Q. length (rest t) + a \<le> length (rest s) \<and> pushback t = pushback s \<and> Q t \<and> lex.safe Q (n - a) (k ch) (b - a)"
    using assms by (intro exI [of _ "if ch = None then 0 else 1"] exI [of _ lex.anywhere]) auto
qed (simp add: ladvance_def)

text \<open>The loops over characters.\<close>

definition lex_step :: "'z lexer_scheme \<Rightarrow> 'z lexer_scheme \<Rightarrow> bool" where
  "lex_step s t \<longleftrightarrow> length (rest t) \<le> length (rest s) \<and> pushback t = pushback s"

lemma lex_step_refl [simp]: "lex_step s s"
  by (simp add: lex_step_def)

lemma lex_step_trans: "lex_step s t \<Longrightarrow> lex_step t u \<Longrightarrow> lex_step s u"
  by (simp add: lex_step_def)

lemma lex_step_peek: "peek s = (c, t) \<Longrightarrow> lex_step s t"
  using rest_peek [of s] pushback_peek [of s] joined_length [of "rest s"] by (auto simp: lex_step_def)

lemma lex_step_advance: "advance s = (c, t) \<Longrightarrow> lex_step s t"
  using rest_advance [of s] pushback_advance [of s] joined_length [of "rest s"] by (auto simp: lex_step_def)

lemma lex_step_advance_snd: "lex_step s (snd (advance s))"
  by (rule lex_step_advance) (rule prod.collapse [symmetric])

lemma lex_step_advance_raw: "advance_raw s = (c, t) \<Longrightarrow> lex_step s t"
  using rest_advance_raw [of s] pushback_advance_raw [of s] by (auto simp: lex_step_def)

lemmas lex_steps = lex_step_trans [OF lex_step_advance] lex_step_trans [OF lex_step_advance_raw] lex_step_advance
  lex_step_advance_raw lex_step_peek lex_step_trans [OF lex_step_peek]

lemma safe_of_step:
  "(\<And>s. m s \<noteq> Inl OutOfFuel) \<Longrightarrow> (\<And>s x t. m s = Inr (x, t) \<Longrightarrow> lex_step s t) \<Longrightarrow> lex.safe P n m 0"
  by (rule lex.safeI) (auto simp: lex_step_def)

lemma read_while_step: "read_while p s = (x, t) \<Longrightarrow> lex_step s t"
proof (induction p s arbitrary: x t rule: read_while.induct)
  case (1 p s)
  obtain ch u where u: "peek s = (ch, u)" by fastforce
  with 1(2) show ?case
    using 1(1) [OF u [symmetric]] lex_step_peek [OF u]
    by (auto simp: read_while.simps [of p s] split: option.splits if_splits prod.splits)
      (meson lex_step_trans lex_step_advance_snd)
qed

lemma skip_to_close_brace_step:
  "skip_to_close_brace sp s \<noteq> Inl OutOfFuel \<and> (skip_to_close_brace sp s = Inr (x, t) \<longrightarrow> lex_step s t)"
proof (induction sp s rule: skip_to_close_brace.induct)
  case (1 sp s)
  obtain ch u where u: "advance s = (ch, u)" by fastforce
  with 1 [OF u [symmetric]] show ?case
    by (auto simp: skip_to_close_brace.simps [of sp s] split: option.split intro: lex_steps)
qed

lemma single_quoted_step:
  "single_quoted sp content s \<noteq> Inl OutOfFuel \<and> (single_quoted sp content s = Inr (x, t) \<longrightarrow> lex_step s t)"
proof (induction sp content s rule: single_quoted.induct)
  case (1 sp content s)
  obtain ch u where u: "advance_raw s = (ch, u)" by fastforce
  with 1 [OF u [symmetric]] show ?case
    by (auto simp: single_quoted.simps [of sp content s] split: option.split intro: lex_steps)
qed

lemma single_quoted_raw_step:
  "single_quoted_raw sp content s \<noteq> Inl OutOfFuel \<and> (single_quoted_raw sp content s = Inr (x, t) \<longrightarrow> lex_step s t)"
proof (induction sp content s rule: single_quoted_raw.induct)
  case (1 sp content s)
  obtain ch u where u: "advance s = (ch, u)" by fastforce
  with 1 [OF u [symmetric]] show ?case
    by (auto simp: single_quoted_raw.simps [of sp content s] split: option.split intro: lex_steps)
qed

lemma escaped_raw_step: "escaped_raw word s = (x, t) \<Longrightarrow> lex_step s t"
  by (auto simp: escaped_raw_def split: prod.splits option.splits intro: lex_steps)

lemma read_backtick_raw_step:
  "read_backtick_raw word sp s \<noteq> Inl OutOfFuel \<and> (read_backtick_raw word sp s = Inr (x, t) \<longrightarrow> lex_step s t)"
proof (induction word sp s rule: read_backtick_raw.induct)
  case (1 word sp s)
  obtain ch u where u: "advance s = (ch, u)" by fastforce
  obtain w v where v: "escaped_raw (word @ [BACKSLASH]) u = (w, v)" by fastforce
  show ?case
    using 1(1) [OF u [symmetric], of BACKSLASH w v] 1(2) [OF u [symmetric]] u v
      lex_step_trans [OF lex_step_advance [OF u] lex_step_trans [OF escaped_raw_step [OF v]]]
    by (auto simp: read_backtick_raw.simps [of word sp s] split: option.split intro: lex_steps)
qed

lemma backtick_content_step:
  "backtick_content content sp s \<noteq> Inl OutOfFuel \<and> (backtick_content content sp s = Inr (x, t) \<longrightarrow> lex_step s t)"
proof (induction content sp s rule: backtick_content.induct)
  case (1 content sp s)
  obtain ch u where u: "advance s = (ch, u)" by fastforce
  obtain ch2 v where v: "advance u = (ch2, v)" by fastforce
  show ?case
    using 1(1) [OF u [symmetric], of BACKSLASH ch2 v] 1(2) [OF u [symmetric]] u v
      lex_step_trans [OF lex_step_advance [OF u] lex_step_trans [OF lex_step_advance [OF v]]]
    by (auto simp: backtick_content.simps [of content sp s] split: option.split intro: lex_steps)
qed

lemma skip_comment_step: "lex_step s (skip_comment s)"
proof (induction s rule: skip_comment.induct)
  case (1 s)
  then show ?case
    using lex_step_trans [OF lex_step_advance_raw [OF prod.collapse [symmetric]]]
    by (auto simp: skip_comment.simps [of s] split: option.split)
qed

lemma lexer_loops_safe:
  "lex.safe P n (lread_while p) 0" "lex.safe P n (lescaped_raw w) 0" "lex.safe P n lget_span 0"
  "lex.safe P n (skip_to_close_brace sp) 0" "lex.safe P n (single_quoted sp w) 0"
  "lex.safe P n (single_quoted_raw sp w) 0" "lex.safe P n (read_backtick_raw w sp) 0"
  "lex.safe P n (backtick_content w sp) 0" "lex.safe P n (lmodify skip_comment) 0"
  using read_while_step escaped_raw_step skip_to_close_brace_step single_quoted_step single_quoted_raw_step
    read_backtick_raw_step backtick_content_step skip_comment_step
  by (fastforce intro!: safe_of_step simp: lread_while_def lescaped_raw_def lget_span_def lmodify_def)+

lemma loops_rules:
  assumes m: "\<And>Q. lex.safe Q n m 0"
  shows "b = 0 \<Longrightarrow> lex.safe P n m b"
    and "(\<And>x. lex.safe lex.anywhere n (k x) b) \<Longrightarrow> lex.safe P n (lbind m k) b"
    and "lex.safe lex.anywhere n l b \<Longrightarrow> lex.safe P n (lseq m l) b"
  using lex.safe_bind [OF m, where k = k and b = b] lex.safe_seq [OF m, where k = l and b = b] m by simp_all

lemma fuel_rules:
  assumes m: "\<And>Q. lex.safe Q N m 0" and n: "n \<le> N"
  shows "b = 0 \<Longrightarrow> lex.safe P n m b"
    and "(\<And>x. lex.safe lex.anywhere n (k x) b) \<Longrightarrow> lex.safe P n (lbind m k) b"
    and "lex.safe lex.anywhere n l b \<Longrightarrow> lex.safe P n (lseq m l) b"
proof -
  have m': "lex.safe Q n m 0" for Q using lex.safe_mono [OF m n] by simp
  show "b = 0 \<Longrightarrow> lex.safe P n m b"
    and "(\<And>x. lex.safe lex.anywhere n (k x) b) \<Longrightarrow> lex.safe P n (lbind m k) b"
    and "lex.safe lex.anywhere n l b \<Longrightarrow> lex.safe P n (lseq m l) b"
    using loops_rules [OF m'] by blast+
qed

lemmas lex_rules = lpeek_bind ladvance_seq ladvance_bind loops_rules(1) [OF lex.safe_lret] lex.safe_lfail lex.safe_if
  lex.safe_case_option lex.safe_nested
  loops_rules [OF lexer_loops_safe(1)] loops_rules [OF lexer_loops_safe(2)] loops_rules [OF lexer_loops_safe(3)]
  loops_rules [OF lexer_loops_safe(4)] loops_rules [OF lexer_loops_safe(5)] loops_rules [OF lexer_loops_safe(6)]
  loops_rules [OF lexer_loops_safe(7)] loops_rules [OF lexer_loops_safe(8)] loops_rules [OF lexer_loops_safe(9)]

lemma ladvance_safe: "lex.safe P n ladvance 0"
  by (rule safe_of_step) (auto simp: ladvance_def intro: lex_step_advance)

text \<open>The text of nested substitutions: the functions that call each other, then the loops that use
  them.\<close>

definition raw_safe :: "nat \<Rightarrow> 'z lexer_scheme raw_reader \<Rightarrow> bool" where
  "raw_safe n raw \<longleftrightarrow> (\<forall>P kind d word sp. lex.safe P n (raw kind d word sp) 0)"

lemma raw_safeD: "raw_safe n raw \<Longrightarrow> lex.safe P n (raw kind d word sp) 0"
  by (simp add: raw_safe_def)

lemma unbalanced_safe: "lex.safe P n (lift_result (unbalanced_arith_close depth sp)) 0"
  by (rule lex.safe_lift) (simp add: unbalanced_arith_close_def)

lemmas raw_rules = lex_rules loops_rules [OF unbalanced_safe]

lemma raw_readers_safe:
  assumes "raw_safe n raw"
  shows "lex.safe P (Suc n) (read_dollar_raw raw d word sp) 0"
    and "lex.safe P (Suc n) (read_brace_param_raw raw depth d word sp) 0"
    and "lex.safe P (Suc n) (read_cmd_subst_nested_raw raw depth d word sp) 0"
    and "lex.safe P (Suc n) (read_arith_raw raw depth d word sp) 0"
    and "lex.safe P (Suc n) (read_double_quoted_raw raw d word sp) 0"
  unfolding read_dollar_raw_def read_brace_param_raw_def read_cmd_subst_nested_raw_def read_arith_raw_def
    read_double_quoted_raw_def
  by (intro raw_rules fuel_rules [OF raw_safeD [OF assms]]; simp)+

lemma read_raw_safe: "raw_safe n (read_raw n)"
proof (induction n)
  case 0
  then show ?case by (simp add: raw_safe_def lex.safe_0)
next
  case (Suc n)
  then show ?case
    using raw_readers_safe [OF Suc] by (auto simp: raw_safe_def split: raw_text.split)
qed

lemma read_cmd_subst_raw_safe:
  fixes P :: "'z lexer_scheme \<Rightarrow> bool"
  shows "lex.safe P n (read_cmd_subst_raw n d depth content sp) 0"
proof (induction n arbitrary: P depth content)
  case 0
  show ?case by (rule lex.safe_0)
next
  case (Suc n)
  have comment: "lex.safe Q m (\<lambda>lx. lseq (lmodify skip_comment) (read_cmd_subst_raw n d depth (f lx) sp) lx) 0"
    if "m \<le> n" for Q :: "'z lexer_scheme \<Rightarrow> bool" and m f
    by (rule lex.safe_here [where f = "\<lambda>lx. lseq (lmodify skip_comment) (read_cmd_subst_raw n d depth (f lx) sp)"],
        rule loops_rules(3) [OF lexer_loops_safe(9)], rule lex.safe_mono [OF Suc that order_refl])
  show ?case
    unfolding read_cmd_subst_raw.simps
    by (intro raw_rules fuel_rules [OF raw_safeD [OF read_raw_safe]] fuel_rules [OF Suc]; simp add: comment)
qed

lemma arith_text_safe: "lex.safe P n (arith_text n d depth content sp) 0"
proof (induction n arbitrary: P depth content)
  case 0
  show ?case by (rule lex.safe_0)
next
  case (Suc n)
  show ?case
    unfolding arith_text.simps
    by (intro raw_rules fuel_rules [OF raw_safeD [OF read_raw_safe]] fuel_rules [OF Suc]; simp)
qed

subsection \<open>Words that are strings\<close>

interpretation chars: progress "length :: ustring \<Rightarrow> nat" "\<lambda>_ _. True"
  by unfold_locales auto

definition total_command :: "(ustring \<Rightarrow> stop + command) \<Rightarrow> bool" where
  "total_command cmd \<longleftrightarrow> (\<forall>content. cmd content \<noteq> Inl OutOfFuel)"

text \<open>A reader of the words inside is only called on a shorter text.\<close>

definition word_ok :: "nat \<Rightarrow> word_reader \<Rightarrow> bool" where
  "word_ok n word \<longleftrightarrow> (\<forall>dq raw. length raw < n \<longrightarrow> word dq raw \<noteq> Inl OutOfFuel)"

lemma nested_total: "total_command cmd \<Longrightarrow> parse_nested_command_substitution cmd ne content \<noteq> Inl OutOfFuel"
  by (auto simp: total_command_def parse_nested_command_substitution_def split: sum.split stop.split)

lemma backtick_chars_length: "backtick_chars cs = Some (s, r) \<Longrightarrow> length r \<le> length cs"
  by (induction cs arbitrary: s r rule: backtick_chars.induct)
    (fastforce split: if_splits list.splits option.splits)+

lemma arith_chars_length:
  "arith_chars depth content cs \<noteq> Inl OutOfFuel \<and>
   (arith_chars depth content cs = Inr (s, r) \<longrightarrow> length s + length r \<le> length content + length cs)"
  by (induction depth content cs rule: arith_chars.induct)
    (auto simp: unbalanced_arith_close_def neq_Nil_conv)

lemma quoted_chars_length: "quoted_chars cs = (s, r) \<Longrightarrow> length s + length r = length cs"
  using takeWhile_dropWhile_length [of "\<lambda>c. c \<noteq> SQUOTE" cs]
  by (cases "dropWhile (\<lambda>c. c \<noteq> SQUOTE) cs") (auto simp: quoted_chars_def Let_def simp del: dropWhile_eq_Nil_conv)

lemma subst_chars_length: "subst_chars depth content cs = (s, r) \<Longrightarrow> length s + length r \<le> length content + length cs"
  by (induction depth content cs arbitrary: s r rule: subst_chars.induct)
    (fastforce simp: subst_chars.simps split: if_splits prod.splits dest: quoted_chars_length)+

lemma brace_chars_length: "brace_chars depth dq raw cs = (s, r) \<Longrightarrow> length s + length r \<le> length raw + length cs"
  by (induction depth dq raw cs arbitrary: s r rule: brace_chars.induct)
    (fastforce simp: brace_chars.simps neq_Nil_conv split: if_splits prod.splits dest: quoted_chars_length)+

lemma read_brace_word_safe: "word_ok n word \<Longrightarrow> chars.safe P n (read_brace_word word dq) 0"
  by (fastforce simp: chars.safe_unfold read_brace_word_def word_ok_def split: prod.split sum.split dest: brace_chars_length)

lemma backtick_part_safe: "total_command cmd \<Longrightarrow> chars.safe P n (backtick_part cmd ne) 0"
  using nested_total [of cmd ne]
  by (fastforce simp: chars.safe_unfold backtick_part_def split: prod.split sum.split option.split dest: backtick_chars_length)

lemma after_brace_length: "length (after_brace cs) \<le> length cs"
  using dropWhile_length_le [of "\<lambda>c. c \<noteq> RBRACE" cs] by (simp add: after_brace_def)

lemma chars_bind_at:
  assumes "\<And>P. chars.safe P n m 0" "length t < n" "length t + a \<le> length s"
    and "\<And>x. chars.safe chars.anywhere n (k x) 0"
  shows "chars.ok s a (lbind m k t)"
  using chars.safe_bind [OF assms(1), of k 0] assms(2-4) by (intro chars.ok_step [of n "lbind m k"]) auto

lemma brace_op_safe:
  assumes word: "word_ok n word"
  shows "chars.safe P n (brace_op word dq c) 0"
  unfolding chars.safe_def brace_op_def
  by (auto intro!: chars_bind_at [OF read_brace_word_safe [OF word]] chars.safe_lret chars.ok_Inr after_brace_length
      simp: less_imp_diff_less after_brace_def [of "[]"])

lemma parse_brace_param_safe:
  assumes word: "word_ok n word"
  shows "chars.safe P n (parse_brace_param word dq) 0"
  unfolding chars.safe_def parse_brace_param_def Let_def
  by (auto intro!: chars_bind_at [OF brace_op_safe [OF word]] chars.safe_lret chars.ok_Inr order_trans [OF after_brace_length]
      simp: less_imp_diff_less)

lemma parse_dollar_safe:
  assumes word: "word_ok n word" and cmd: "total_command cmd"
  shows "chars.safe P n (parse_dollar word cmd ne dq) 0"
  unfolding chars.safe_def
proof (intro allI impI)
  fix cs :: ustring
  assume cs: "P cs \<and> length cs < n"
  show "chars.ok cs 0 (parse_dollar word cmd ne dq cs)"
  proof (cases cs)
    case (Cons c cs1)
    have arith: "chars.ok cs 0 (lbind (arith_chars 1 []) (\<lambda>content.
        lbind (lift_result (word False content)) (\<lambda>inner. lret (Some (Arith inner)))) (tl cs1))"
    proof (cases "arith_chars 1 [] (tl cs1)")
      case (Inr p)
      then have "length (fst p) + length (snd p) < length cs"
        using arith_chars_length [of 1 "[]" "tl cs1" "fst p" "snd p"] Cons by (cases p) auto
      moreover from this have "word False (fst p) \<noteq> Inl OutOfFuel" using word cs by (simp add: word_ok_def)
      ultimately show ?thesis
        using Inr by (cases p) (auto simp: lbind_def lift_result_def lret_def chars.ok_def split: sum.split)
    next
      case (Inl e)
      then show ?thesis using arith_chars_length [of 1 "[]" "tl cs1"] by (auto simp: lbind_def chars.ok_def)
    qed
    have subst: "chars.ok cs 0 (case subst_chars 1 [] cs1 of (content, cs2) \<Rightarrow>
        lbind (lift_result (parse_nested_command_substitution cmd ne content)) (\<lambda>c. lret (Some (CmdSubst c))) cs2)"
      using subst_chars_length [of 1 "[]" cs1] nested_total [OF cmd, of ne] Cons
      by (auto simp: lbind_def lift_result_def lret_def chars.ok_def split: sum.split prod.split)
    show ?thesis
      unfolding parse_dollar_def Cons list.case
      by (intro chars.ok_if arith [unfolded Cons] subst [unfolded Cons]
          chars_bind_at [OF parse_brace_param_safe [OF word]] chars.safe_lret chars.ok_Inr)
        (use cs Cons in \<open>auto simp: length_dropWhile_le le_SucI\<close>)
  qed (simp add: parse_dollar_def chars.ok_def)
qed

lemma word_ok_mono: "word_ok n word \<Longrightarrow> m \<le> n \<Longrightarrow> word_ok m word"
  by (simp add: word_ok_def)

lemma parse_double_quoted_parts_safe:
  assumes word: "word_ok N word" and cmd: "total_command cmd" and "n \<le> N"
  shows "chars.safe P n (parse_double_quoted_parts n word cmd ne ps literal) 0"
  using assms(3)
proof (induction n arbitrary: P ps literal)
  case 0
  show ?case by (rule chars.safe_0)
next
  case (Suc n)
  have IH: "chars.safe Q n (parse_double_quoted_parts n word cmd ne ps literal) 0" for Q ps literal
    using Suc by simp
  have here: "chars.ok (c # cs1) 0 (parse_double_quoted_parts n word cmd ne ps literal t)"
    if "length t \<le> length cs1" "length cs1 < n" for c cs1 t ps literal
    using that by (intro chars.ok_step [OF IH]) auto
  have dollar: "chars.safe Q n (parse_dollar word cmd ne True) 0" for Q
    using parse_dollar_safe [OF word_ok_mono [OF word] cmd] Suc.prems by simp
  show ?case
    unfolding chars.safe_def parse_double_quoted_parts.simps
    by (auto split: list.split option.split intro!: chars.ok_Inr here chars.safe_case_option IH
        chars_bind_at [OF dollar] chars_bind_at [where n = n, OF backtick_part_safe [OF cmd]])
qed

lemma neq_if: "(b \<Longrightarrow> x \<noteq> z) \<Longrightarrow> (\<not> b \<Longrightarrow> y \<noteq> z) \<Longrightarrow> (if b then x else y) \<noteq> z"
  by simp

lemma closing_quote_safe:
  "chars.safe P n (\<lambda>cs. Inr (x, if cs \<noteq> [] \<and> hd cs = DQUOTE then tl cs else cs)) 0"
  by (simp add: chars.safe_unfold)

lemma backslash_part_length: "length (snd (backslash_part active cs)) \<le> length cs"
  by (auto simp: backslash_part_def Let_def split: list.split)

lemma impl_loop_total:
  assumes word: "word_ok whole word" and cmd: "total_command cmd"
  shows "length cs < n \<Longrightarrow> n \<le> Suc whole \<Longrightarrow> length cs \<le> whole \<Longrightarrow> (length cs = whole \<longrightarrow> ps = []) \<Longrightarrow>
    impl_loop n word cmd ne dq whole ps cs \<noteq> Inl OutOfFuel"
proof (induction n arbitrary: ps cs)
  case (Suc n)
  have go: "(case r of Inl e \<Rightarrow> Inl e | Inr (new, cs1) \<Rightarrow> impl_loop n word cmd ne dq whole (ps @ new) cs1) \<noteq> Inl OutOfFuel"
    if "chars.ok cs 1 r" for r
    using that Suc.prems Suc.IH by (cases r) (fastforce simp: chars.ok_def)+
  show ?case
  proof (cases cs)
    case (Cons c cs1)
    have n: "length cs1 < n" "length cs1 < whole" using Suc.prems Cons by auto
    have quoted: "chars.safe Q n (parse_double_quoted_parts n word cmd ne [] []) 0" for Q
      using parse_double_quoted_parts_safe [OF word cmd] Suc.prems by simp
    have dollar: "chars.safe Q whole (parse_dollar word cmd ne dq) 0" for Q
      by (rule parse_dollar_safe [OF word cmd])
    have run: "chars.ok (c # cs1) 1 (Inr (x, drop (length (plain_run dq whole (c # cs1))) (c # cs1)))"
      if "\<not> (c = SQUOTE \<and> \<not> dq)" "c \<noteq> DQUOTE" "c \<noteq> DOLLAR" "c \<noteq> BACKTICK" "c \<noteq> BACKSLASH" "\<not> (c = TILDE \<and> ps = [])" for x
      using that Suc.prems Cons by (intro chars.ok_Inr) (auto simp: plain_run_def)
    show ?thesis
      unfolding impl_loop.simps Let_def Cons list.case
      by (intro neq_if go [unfolded Cons] run chars_bind_at [OF quoted] chars_bind_at [OF dollar] closing_quote_safe
          chars_bind_at [where n = n, OF backtick_part_safe [OF cmd]] chars.safe_lret chars.ok_pair)
        (use n in \<open>auto simp: backslash_part_length le_diff_conv length_dropWhile_le le_SucI\<close>)
  qed (simp add: impl_loop.simps)
qed simp

lemma parse_word_parts_impl_total:
  assumes "total_command cmd"
  shows "length raw < n \<Longrightarrow> parse_word_parts_impl n cmd ne dq raw \<noteq> Inl OutOfFuel"
proof (induction n arbitrary: dq raw)
  case (Suc n)
  have "word_ok (length raw) (parse_word_parts_impl n cmd ne)" using Suc by (auto simp: word_ok_def)
  then show ?case using impl_loop_total [OF _ assms, of "length raw" _ raw "Suc (length raw)" "[]"] by simp
qed simp

lemma parse_word_parts_shell_total: "total_command cmd \<Longrightarrow> parse_word_parts_shell cmd raw \<noteq> Inl OutOfFuel"
  by (simp only: parse_word_parts_shell_def parse_word_parts_impl_total lessI not_False_eq_True simp_thms)

lemma heredoc_loop_total:
  assumes word: "word_ok N word" and cmd: "total_command cmd"
  shows "length cs < n \<Longrightarrow> length cs \<le> N \<Longrightarrow> heredoc_loop n word cmd ne ps cs \<noteq> Inl OutOfFuel"
proof (induction n arbitrary: ps cs)
  case (Suc n)
  have go: "(case r of Inl e \<Rightarrow> Inl e | Inr (new, cs1) \<Rightarrow> heredoc_loop n word cmd ne (ps @ new) cs1) \<noteq> Inl OutOfFuel"
    if "chars.ok cs 1 r" for r
    using that Suc.prems Suc.IH by (cases r) (fastforce simp: chars.ok_def)+
  show ?case
  proof (cases cs)
    case (Cons c cs1)
    have n: "length cs1 < n" "length cs1 < N" using Suc.prems Cons by auto
    have dollar: "chars.safe Q N (parse_dollar word cmd ne True) 0" for Q
      by (rule parse_dollar_safe [OF word cmd])
    show ?thesis
      unfolding heredoc_loop.simps Let_def Cons list.case
      by (intro neq_if go [unfolded Cons] chars_bind_at [OF dollar]
          chars_bind_at [where n = n, OF backtick_part_safe [OF cmd]] chars.safe_lret chars.ok_pair)
        (use n in \<open>auto simp: backslash_part_length\<close>)
  qed (simp add: heredoc_loop.simps)
qed simp

lemma make_heredoc_body_total:
  assumes "\<And>d' s. d \<le> d' \<Longrightarrow> cmd d' s \<noteq> Inl OutOfFuel"
  shows "make_heredoc_body d cmd raw q \<noteq> Inl OutOfFuel"
proof -
  have cmd: "total_command (cmd (Suc d))" using assms by (simp add: total_command_def)
  have "word_ok (length raw) (parse_word_parts_impl (length raw) (cmd (Suc d)) Propagate)"
    using parse_word_parts_impl_total [OF cmd] by (simp add: word_ok_def)
  then have "parse_word_parts_heredoc d cmd Propagate raw \<noteq> Inl OutOfFuel"
    using heredoc_loop_total [OF _ cmd, of "length raw"] by (simp add: parse_word_parts_heredoc_def)
  then show ?thesis by (cases "parse_word_parts_heredoc d cmd Propagate raw") (auto simp: make_heredoc_body_def)
qed

subsection \<open>Words and tokens\<close>

text \<open>What the lexer asks of the parser of nested commands: it returns, at every depth from \<open>d0\<close> on.\<close>

locale nested_parser =
  fixes cmd :: command_reader and d0 :: nat
  assumes cmd_total: "d0 \<le> d \<Longrightarrow> cmd d s \<noteq> Inl OutOfFuel"
begin

lemma total_cmd: "d0 \<le> d \<Longrightarrow> total_command (cmd d)"
  by (simp add: total_command_def cmd_total)

lemma rebased_safe: "r \<noteq> Inl OutOfFuel \<Longrightarrow> lex.safe P n (rebased base r) 0"
  unfolding rebased_def
  by (rule lex.safe_lift) (cases r; auto simp: rebase_nested_parse_error_def Let_def split: stop.splits)

lemma read_cmd_subst_safe: "d0 \<le> d \<Longrightarrow> lex.safe P n (read_cmd_subst cmd d sp) 0"
  unfolding read_cmd_subst_def
  by (intro lex_rules loops_rules [OF lex.safe_fuel [OF read_cmd_subst_raw_safe]] loops_rules [OF rebased_safe])
    (simp_all add: cmd_total)

lemma read_arith_expansion_safe: "d0 \<le> d \<Longrightarrow> lex.safe P n (read_arith_expansion cmd d sp) 0"
  unfolding read_arith_expansion_def
  by (intro lex_rules loops_rules [OF lex.safe_fuel [OF arith_text_safe]] loops_rules [OF rebased_safe])
    (simp_all add: parse_word_parts_shell_total total_cmd)

lemma read_backtick_part_safe: "d0 \<le> d \<Longrightarrow> lex.safe P n (read_backtick_part cmd d sp) 0"
  unfolding read_backtick_part_def
  by (intro lex_rules loops_rules [OF rebased_safe]) (simp_all add: cmd_total)

text \<open>The readers that call each other through \<open>words\<close>.\<close>

definition words_safe :: "nat \<Rightarrow> 'z lexer_scheme words_reader \<Rightarrow> bool" where
  "words_safe n words \<longleftrightarrow> (\<forall>P d ctx dq sp. d0 \<le> d \<longrightarrow> lex.safe P n (words d ctx dq sp) 0)"

lemma words_safeD: "words_safe n words \<Longrightarrow> d0 \<le> d \<Longrightarrow> lex.safe P n (words d ctx dq sp) 0"
  by (simp add: words_safe_def)

lemma read_dquote_parts_safe:
  "words_safe n words \<Longrightarrow> d0 \<le> d \<Longrightarrow> m \<le> n \<Longrightarrow> lex.safe P m (read_dquote_parts words d sp) 0"
  unfolding read_dquote_parts_def split_beta
  by (intro lex_rules fuel_rules [OF words_safeD [of n words d]]) simp_all

lemma read_param_name_safe: "lex.safe P n read_param_name 0"
  unfolding read_param_name_def by (intro lex_rules) simp_all

lemma brace_word_safe:
  "words_safe n words \<Longrightarrow> d0 \<le> d \<Longrightarrow> m \<le> n \<Longrightarrow> lex.safe P m (brace_word words d dq sp op) 0"
  unfolding brace_word_def split_beta
  by (intro lex_rules fuel_rules [OF words_safeD [of n words d]]) simp_all

lemma read_brace_op_safe:
  assumes "words_safe n words" "d0 \<le> d"
  shows "m \<le> n \<Longrightarrow> lex.safe P m (read_brace_op words d dq sp c) 0"
  unfolding read_brace_op_def
  by (intro lex_rules fuel_rules [OF brace_word_safe [OF assms order_refl]]) simp_all

lemma read_brace_param_safe:
  assumes "words_safe n words" "d0 \<le> d" "m \<le> n"
  shows "lex.safe P m (read_brace_param words d dq sp) 0"
  unfolding read_brace_param_def
  by (intro lex_rules lex.safe_if_state loops_rules [OF read_param_name_safe] loops_rules(3) [OF ladvance_safe]
      fuel_rules [OF read_brace_op_safe [OF assms(1) _ order_refl]])
    (use assms in simp_all)

lemma read_dollar_safe:
  assumes "words_safe n words" "d0 \<le> d" "m \<le> n"
  shows "lex.safe P m (read_dollar cmd words d dq sp) 0"
  unfolding read_dollar_def
  by (intro lex_rules fuel_rules [OF read_brace_param_safe [OF assms(1,2) order_refl]]
      loops_rules [OF read_arith_expansion_safe] loops_rules [OF read_cmd_subst_safe])
    (use assms in simp_all)

lemma toggle_loop_safe:
  assumes words: "words_safe N words" and d: "d0 \<le> d" and "n \<le> Suc N"
  shows "lex.safe P n (toggle_loop n cmd words d sp ps literal) 0"
  using assms(3)
proof (induction n arbitrary: P ps literal)
  case (Suc n)
  have IH: "lex.safe Q n (toggle_loop n cmd words d sp ps literal) 0" for Q ps literal using Suc by simp
  show ?case
    unfolding toggle_loop.simps
    by (intro lex_rules fuel_rules [OF IH] fuel_rules [OF read_dollar_safe [OF words d order_refl]]
        loops_rules [OF read_backtick_part_safe])
      (use Suc.prems d in simp_all)
qed (rule lex.safe_0)

lemma read_brace_dquote_toggle_parts_safe:
  assumes words: "words_safe n words" and d: "d0 \<le> d" and "m \<le> n"
  shows "lex.safe P m (read_brace_dquote_toggle_parts cmd words d sp) 0"
  unfolding read_brace_dquote_toggle_parts_def
  by (rule lex.safe_fuel_below [where N = "Suc n"], erule toggle_loop_safe [OF words d]) (use assms(3) in auto)

lemma escaped_text_safe: "lex.safe P n (escaped_text c) 0"
  unfolding escaped_text_def by (intro lex_rules) simp_all

lemma word_loop_safe:
  assumes words: "words_safe N words" and d: "d0 \<le> d" and "n \<le> Suc N"
  shows "lex.safe P n (word_loop n cmd words d ctx dq sp ps literal hq bd) 0"
  using assms(3)
proof (induction n arbitrary: P ps literal hq bd)
  case (Suc n)
  have IH: "lex.safe Q n (word_loop n cmd words d ctx dq sp ps literal hq bd) 0" for Q ps literal hq bd using Suc by simp
  show ?case
    unfolding word_loop.simps Let_def
    by (intro lex_rules fuel_rules [OF IH] fuel_rules [OF read_dollar_safe [OF words d order_refl]]
        fuel_rules [OF read_dquote_parts_safe [OF words d order_refl]]
        fuel_rules [OF read_brace_dquote_toggle_parts_safe [OF words d order_refl]]
        loops_rules [OF read_backtick_part_safe] loops_rules [OF escaped_text_safe])
      (use Suc.prems d in simp_all)
qed (rule lex.safe_0)

lemma read_words_safe: "words_safe n (read_words n cmd :: 'z lexer_scheme words_reader)"
proof (induction n)
  case 0
  show ?case by (simp add: words_safe_def lex.safe_0)
next
  case (Suc n)
  have "lex.safe P (Suc n) (\<lambda>lx. word_loop (Suc (length (rest lx))) cmd (read_words n cmd) d ctx dq sp [] [] dq 1 lx) 0"
    if "d0 \<le> d" for P :: "'z lexer_scheme \<Rightarrow> bool" and d ctx dq sp
    by (rule lex.safe_fuel_below [where N = "Suc n"], erule word_loop_safe [OF Suc that]) auto
  then show ?case by (simp add: words_safe_def)
qed

lemma read_word_parts_safe: "d0 \<le> d \<Longrightarrow> lex.safe P n (read_word_parts cmd d ctx dq sp) 0"
  unfolding read_word_parts_def
  by (rule lex.safe_fuel, rule words_safeD [OF read_words_safe]) auto

text \<open>A word that starts with a character of a word takes at least this character.\<close>

lemma word_loop_takes:
  assumes words: "words_safe n words" and d: "d0 \<le> d"
  shows "lex.safe (\<lambda>s. \<exists>c. fst (peek s) = Some c \<and> \<not> word_end c \<and> c \<noteq> HASH) (Suc n)
    (word_loop (Suc n) cmd words d WordCtx False sp [] [] hq bd) 1"
  unfolding word_loop.simps Let_def
  by (intro lpeek_bind_char lex_rules fuel_rules [OF word_loop_safe [OF words d le_SucI [OF order_refl]]]
      fuel_rules [OF read_dollar_safe [OF words d order_refl]]
      fuel_rules [OF read_dquote_parts_safe [OF words d order_refl]]
      fuel_rules [OF read_brace_dquote_toggle_parts_safe [OF words d order_refl]]
      loops_rules [OF read_backtick_part_safe] loops_rules [OF escaped_text_safe])
    (use d in simp_all)

lemma read_word_takes:
  assumes d: "d0 \<le> d" and c: "fst (peek s) = Some c" "\<not> word_end c" "c \<noteq> HASH"
  shows "lex.ok s 1 (read_word cmd d sp s)"
proof -
  let ?n = "length (rest s)"
  have "lex.ok s 1 (read_word_parts cmd d WordCtx False sp s)"
    using word_loop_takes [OF read_words_safe d, of ?n sp False 1] c
    by (auto simp: read_word_parts_def lex.safe_def)
  then show ?thesis
    by (auto simp: read_word_def lbind_def lex.ok_def Let_def split: sum.splits option.split)
qed

end

lemma skip_blanks_step: "lex_step s (skip_blanks s)"
proof (induction s rule: skip_blanks.induct)
  case (1 s)
  obtain ch t where t: "peek s = (ch, t)" by fastforce
  show ?case
    using 1 [OF t [symmetric]] lex_step_peek [OF t] lex_step_advance_snd [of t] skip_comment_step [of t] t
    by (auto simp: skip_blanks.simps [of s] split: option.split intro: lex_step_trans)
qed

lemma skip_blanks_char: "fst (peek (skip_blanks s)) = Some c \<Longrightarrow> c \<noteq> SP \<and> c \<noteq> TAB \<and> c \<noteq> HASH"
proof (induction s rule: skip_blanks.induct)
  case (1 s)
  obtain ch t where t: "peek s = (ch, t)" by fastforce
  then have "fst (peek t) = ch" using peek_char [of s] peek_char [of t] rest_peek [of s] by simp
  then show ?case
    using 1(1,2) [OF t [symmetric]] 1(3) t
    by (auto simp: skip_blanks.simps [of s] split: option.splits if_splits)
qed

lemma joined_head: "joined s = c # cs \<Longrightarrow> \<not> (c = BACKSLASH \<and> cs \<noteq> [] \<and> hd cs = NL)"
  by (induction s rule: joined.induct) (auto split: if_splits)

lemma peek_again: "peek s = (ch, t) \<Longrightarrow> peek t = (ch, t)"
  using joined_head [of "rest s"]
  by (cases s rule: peek_cases) (auto simp: peek.simps [of t])

definition operator_char :: "cp \<Rightarrow> bool" where
  "operator_char c \<longleftrightarrow> c = SEMI \<or> c = AMP \<or> c = BAR \<or> c = LPAREN \<or> c = RPAREN \<or> c = LESS \<or> c = GREAT"

lemma operators_safe:
  "lex.safe P n (if_follows c t u) 0" "lex.safe P n less_operator 0" "lex.safe P n great_operator 0"
  unfolding if_follows_def less_operator_def great_operator_def
  by (intro lex_rules; simp)+

lemma try_operator_takes:
  "lex.safe (\<lambda>s. \<exists>c. fst (peek s) = Some c \<and> operator_char c) n (try_operator sp) 1"
  unfolding try_operator_def Let_def
  by (intro lpeek_bind_char lex_rules loops_rules [OF operators_safe(1)] loops_rules [OF operators_safe(2)]
      loops_rules [OF operators_safe(3)] loops_rules [OF lex.safe_lret]) (auto simp: operator_char_def)

lemma try_operator_none:
  "peek s = (Some c, t) \<Longrightarrow> \<not> operator_char c \<Longrightarrow> try_operator sp s = Inr (None, t)"
  by (simp add: try_operator_def operator_char_def lbind_def lpeek_def lret_def Let_def)

lemma try_operator_some:
  "peek s = (Some c, t) \<Longrightarrow> operator_char c \<Longrightarrow> try_operator sp s = Inr (x, u) \<Longrightarrow> x \<noteq> None"
  by (auto simp: try_operator_def operator_char_def lbind_def lpeek_def lret_def Let_def lseq_def split: sum.splits)

subsection \<open>The parser\<close>

text \<open>The size of the parser's state: the characters that are left, and a token that was pushed back.
  The end of the text is pushed back for nothing.\<close>

definition tokens_left :: "'z lexer_scheme \<Rightarrow> nat" where
  "tokens_left s = length (rest s) + (case pushback s of Some (tok, _) \<Rightarrow> if tok = TkEof then 0 else 1 | None \<Rightarrow> 0)"

interpretation par: progress "tokens_left :: parser \<Rightarrow> nat" "\<lambda>_ _. True"
  by unfold_locales auto

definition peeked :: "token \<Rightarrow> parser \<Rightarrow> bool" where
  "peeked tok s \<longleftrightarrow> (\<exists>sp. pushback s = Some (tok, sp))"

context nested_parser
begin

lemma next_token_step:
  assumes d: "d0 \<le> d"
  shows "next_token cmd d s \<noteq> Inl OutOfFuel"
    and "next_token cmd d s = Inr ((tok, sp), t) \<Longrightarrow>
      pushback t = None \<and> tokens_left t + (if tok = TkEof then 0 else 1) \<le> tokens_left s"
proof -
  define u where "u = skip_blanks s"
  obtain ch v where v: "peek u = (ch, v)" by fastforce
  have len: "length (rest v) \<le> length (rest s)" and pb: "pushback v = pushback s"
    using skip_blanks_step [of s] lex_step_peek [OF v] by (auto simp: u_def lex_step_def)
  have again: "peek v = (ch, v)" using peek_again [OF v] .
  have word: "lex.ok v 1 (read_word cmd d sp v)" if "ch = Some c" "\<not> operator_char c" "c \<noteq> NL" for c sp
    using read_word_takes [OF d, of v c sp] skip_blanks_char [of s c] again v that
    by (auto simp: u_def word_end_def operator_char_def)
  have op: "lex.ok v 1 (try_operator sp v)" if "ch = Some c" "operator_char c" for c sp
    by (rule lex.safe_okD [OF try_operator_takes _ lessI]) (use again that in simp)
  have newline: "lex.ok v 1 (lseq ladvance (lret x) v)" if "ch = Some c" for c and x :: "token \<times> span"
    by (rule lex.safe_okD [OF ladvance_seq(1) _ lessI]) (use again that in \<open>simp_all add: lex.safe_lret more_text_peek\<close>)
  have eq: "next_token cmd d s =
    (case ch of None \<Rightarrow> Inr ((TkEof, lexer_span u), v)
     | Some c \<Rightarrow>
         if c = NL then lseq ladvance (lret (TkNewline, lexer_span u)) v
         else if operator_char c then lbind (try_operator (lexer_span u)) (\<lambda>tok. lret (the tok)) v
         else read_word cmd d (lexer_span u) v)" if "pushback s = None"
    using that again v try_operator_some [of v "the ch" v] try_operator_none [of v "the ch" v]
    by (cases ch; fastforce simp: next_token_def Let_def u_def [symmetric] lbind_def lpeek_def lret_def split: option.split sum.split)
  have taken: "lex.ok v 1 (next_token cmd d s)" if "pushback s = None" "ch = Some c" for c
    using eq [OF that(1)] that(2) newline [OF that(2)] lex.ok_map [of v 1 "try_operator (lexer_span u)" v the, OF op [OF that(2)]] word [OF that(2)] by simp
  have "next_token cmd d s \<noteq> Inl OutOfFuel \<and> (next_token cmd d s = Inr ((tok, sp), t) \<longrightarrow>
      pushback t = None \<and> tokens_left t + (if tok = TkEof then 0 else 1) \<le> tokens_left s)"
  proof (cases "pushback s")
    case None
    then show ?thesis
      using eq taken len pb by (cases ch) (auto simp: tokens_left_def lex.ok_def split: sum.splits)
  qed (auto simp: next_token_def tokens_left_def)
  then show "next_token cmd d s \<noteq> Inl OutOfFuel" and "next_token cmd d s = Inr ((tok, sp), t) \<Longrightarrow>
      pushback t = None \<and> tokens_left t + (if tok = TkEof then 0 else 1) \<le> tokens_left s" by auto
qed

lemma pnext_bind:
  assumes d: "d0 \<le> d" and eof: "\<And>sp. par.safe par.anywhere n (k (TkEof, sp)) b"
    and tok: "\<And>tok sp. tok \<noteq> TkEof \<Longrightarrow> par.safe par.anywhere (n - 1) (k (tok, sp)) (b - 1)"
  shows "par.safe P n (lbind (pnext cmd d) k) b"
proof (rule par.safe_bind_at)
  fix s :: parser and x t
  assume "pnext cmd d s = Inr (x, t)"
  moreover obtain tok sp where x: "x = (tok, sp)" by fastforce
  ultimately have "tokens_left t + (if tok = TkEof then 0 else 1) \<le> tokens_left s"
    using next_token_step(2) [OF d, of s tok sp t] by (simp add: pnext_def)
  then show "\<exists>a Q. tokens_left t + a \<le> tokens_left s \<and> True \<and> Q t \<and> par.safe Q (n - a) (k x) (b - a)"
    using eof [of sp] tok [of tok sp] x
    by (intro exI [of _ "if tok = TkEof then 0 else 1"] exI [of _ par.anywhere]) auto
qed (use next_token_step(1) [OF d] in \<open>auto simp: pnext_def\<close>)

lemma ppeek_bind:
  assumes d: "d0 \<le> d" and k: "\<And>tok sp. par.safe (peeked tok) n (k (tok, sp)) b"
  shows "par.safe P n (lbind (ppeek cmd d) k) b"
proof (rule par.safe_bind_at)
  fix s :: parser and x t
  assume "ppeek cmd d s = Inr (x, t)"
  then obtain u tok sp where "next_token cmd d s = Inr ((tok, sp), u)" "t = push_back tok sp u" and x: "x = (tok, sp)"
    by (auto simp: ppeek_def lbind_def lseq_def lmodify_def lret_def split: sum.splits prod.splits)
  then have "tokens_left t \<le> tokens_left s" "peeked tok t"
    using next_token_step(2) [OF d, of s tok sp u]
    by (auto simp: push_back_def tokens_left_def peeked_def split: if_splits)
  then show "\<exists>a Q. tokens_left t + a \<le> tokens_left s \<and> True \<and> Q t \<and> par.safe Q (n - a) (k x) (b - a)"
    using k [of tok sp] x by (intro exI [of _ 0] exI [of _ "peeked tok"]) auto
next
  fix s :: parser and e
  assume "ppeek cmd d s = Inl e"
  then show "e \<noteq> OutOfFuel"
    using next_token_step(1) [OF d, of s]
    by (auto simp: ppeek_def lbind_def lseq_def lmodify_def lret_def split: sum.splits prod.splits)
qed

lemma pnext_seq:
  assumes "tok \<noteq> TkEof" "par.safe par.anywhere (n - 1) k (b - 1)"
  shows "par.safe (peeked tok) n (lseq (pnext cmd d) k) b"
  unfolding lseq_def
proof (rule par.safe_bind_at)
  fix s :: parser and x t
  assume "peeked tok s" "pnext cmd d s = Inr (x, t)"
  then have "tokens_left t + 1 \<le> tokens_left s"
    using assms(1) by (auto simp: pnext_def next_token_def peeked_def tokens_left_def)
  then show "\<exists>a Q. tokens_left t + a \<le> tokens_left s \<and> True \<and> Q t \<and> par.safe Q (n - a) k (b - a)"
    using assms(2) by (intro exI [of _ 1] exI [of _ par.anywhere]) auto
qed (auto simp: pnext_def next_token_def peeked_def)

lemma lbind_lret: "lbind m lret = m"
  by (rule ext) (auto simp: lbind_def lret_def split: sum.split)

lemma pnext_any: "d0 \<le> d \<Longrightarrow> par.safe P n (pnext cmd d) 0"
  using pnext_bind [of d n lret 0 P] by (simp add: lbind_lret par.safe_lret)

lemma par_rules:
  assumes m: "\<And>Q. par.safe Q N m 0" and n: "n \<le> N"
  shows "b = 0 \<Longrightarrow> par.safe P n m b"
    and "(\<And>x. par.safe par.anywhere n (k x) b) \<Longrightarrow> par.safe P n (lbind m k) b"
    and "par.safe par.anywhere n l b \<Longrightarrow> par.safe P n (lseq m l) b"
proof -
  have m': "par.safe Q n m 0" for Q using par.safe_mono [OF m n] by simp
  show "b = 0 \<Longrightarrow> par.safe P n m b"
    and "(\<And>x. par.safe par.anywhere n (k x) b) \<Longrightarrow> par.safe P n (lbind m k) b"
    and "par.safe par.anywhere n l b \<Longrightarrow> par.safe P n (lseq m l) b"
    using par.safe_bind [OF m', where k = k and b = b] par.safe_seq [OF m', where k = l and b = b] m' by simp_all
qed

lemmas par_any = par_rules [OF _ order_refl]

lemma par_takes:
  assumes m: "\<And>Q N. par.safe Q N m 1"
  shows "b \<le> 1 \<Longrightarrow> par.safe P n m b"
    and "(\<And>x. par.safe par.anywhere (n - 1) (k x) (b - 1)) \<Longrightarrow> par.safe P n (lbind m k) b"
    and "par.safe par.anywhere (n - 1) l (b - 1) \<Longrightarrow> par.safe P n (lseq m l) b"
  using par.safe_mono [OF m order_refl] par.safe_bind [OF m, where k = k and b = b]
    par.safe_seq [OF m, where k = l and b = b] by simp_all

lemma expect_safe: "d0 \<le> d \<Longrightarrow> tok \<noteq> TkEof \<Longrightarrow> par.safe P n (expect cmd d tok) 1"
  unfolding expect_def split_beta
  by (intro pnext_bind par.safe_if par.safe_lfail par_any(1) [OF par.safe_lret])
    (auto simp: token_eq_def split: token.splits)

lemma pnext_plain_bind:
  assumes d: "d0 \<le> d" and eof: "\<And>sp. par.safe par.anywhere n (k (TkEof, sp)) b"
    and tok: "\<And>tok sp. tok \<noteq> TkEof \<Longrightarrow> par.safe par.anywhere (n - 1) (k (tok, sp)) (b - 1)"
  shows "par.safe P n (lbind (pnext_plain cmd d) k) b"
proof -
  have assoc: "lbind (pnext_plain cmd d) k = lseq (lmodify (\<lambda>ps. ps\<lparr>recognize_reserved := False\<rparr>))
      (lbind (pnext cmd d) (\<lambda>ts. lseq (lmodify (\<lambda>ps. ps\<lparr>recognize_reserved := True\<rparr>)) (k ts)))"
    by (rule ext) (auto simp: pnext_plain_def lbind_def lseq_def lmodify_def lret_def split: sum.split)
  have modify: "par.safe Q m (lmodify (\<lambda>ps. ps\<lparr>recognize_reserved := r\<rparr>)) 0" for Q m r
    by (rule par.safe_modify) (simp_all add: tokens_left_def)
  show ?thesis
    unfolding assoc by (intro par_any(3) [OF modify] pnext_bind d eof tok) simp_all
qed

subsubsection \<open>Here-documents and newlines\<close>

lemma raw_line_step: "raw_line line s = (x, t) \<Longrightarrow> lex_step s t"
proof (induction line s rule: raw_line.induct)
  case (1 line s)
  obtain ch u where u: "advance_raw s = (ch, u)" by fastforce
  show ?case
    using 1(1) [OF u [symmetric]] 1(2) lex_step_advance_raw [OF u] u
    by (auto simp: raw_line.simps [of line s] split: option.splits if_splits intro: lex_step_trans)
qed

lemma skip_tabs_step: "lex_step s (skip_tabs s)"
proof (induction s rule: skip_tabs.induct)
  case (1 s)
  then show ?case
    using lex_step_trans [OF lex_step_advance_raw [OF prod.collapse [symmetric]]]
    by (subst skip_tabs.simps) auto
qed

lemma tabs_skipped_step: "lex_step s (tabs_skipped h s)"
  by (simp add: tabs_skipped_def skip_tabs_step)

lemma here_body_step: "lex_step s (snd (here_body h body s))"
proof (induction h body s rule: here_body.induct)
  case (1 h body s)
  obtain line b t where t: "raw_line [] (tabs_skipped h s) = ((line, b), t)" by (metis surj_pair)
  obtain line2 b2 u where u: "raw_line (butlast line) (tabs_skipped h t) = ((line2, b2), u)" by (metis surj_pair)
  have st: "lex_step s t" and tu: "lex_step t u"
    using lex_step_trans [OF tabs_skipped_step raw_line_step] t u by blast+
  have su: "lex_step s u" by (rule lex_step_trans [OF st tu])
  show ?case
    using 1(1) [OF t [symmetric] refl] 1 t u lex_step_trans [OF su] lex_step_trans [OF st] su st
    by (auto simp: here_body.simps [of h body s] split: bool.splits)
qed

lemma step_tokens: "lex_step s t \<Longrightarrow> tokens_left t \<le> tokens_left s"
  by (simp add: lex_step_def tokens_left_def)

lemma read_heredoc_body_safe: "par.safe P n (read_heredoc_body h) 0"
  unfolding par.safe_def read_heredoc_body_def
  by (auto intro!: par.ok_pair step_tokens [OF here_body_step])

lemma with_fuel_safe: "(\<And>k. par.safe P k (f k) a) \<Longrightarrow> par.safe P n (with_fuel f) a"
  unfolding with_fuel_def
  by (rule par.safe_fuel) (auto simp: tokens_left_def split: option.split)

lemma with_fuel_below:
  "(\<And>k. k \<le> Suc n \<Longrightarrow> par.safe P k (f k) a) \<Longrightarrow> par.safe P n (with_fuel f) a"
  unfolding with_fuel_def
  by (rule par.safe_fuel_below [where N = "Suc n"]) (auto simp: tokens_left_def split: option.splits if_splits)

lemma with_fuel_both:
  assumes "\<And>k m. m \<le> k \<Longrightarrow> m \<le> n \<Longrightarrow> par.safe P m (f k) a"
  shows "par.safe P n (with_fuel f) a"
  unfolding par.safe_def with_fuel_def
proof (intro allI impI)
  fix s
  assume "P s \<and> tokens_left s < n"
  then show "par.ok s a (f (length (rest s) + 2) s)"
    using par.safe_okD [OF assms [of "Suc (tokens_left s)" "length (rest s) + 2"], of s]
    by (auto simp: tokens_left_def split: option.splits if_splits)
qed

lemma with_fuel_paid:
  assumes "\<And>k m. m \<le> k \<Longrightarrow> m \<le> n \<Longrightarrow> par.paid P m (f k) c w"
  shows "par.paid P n (with_fuel f) c w"
proof (rule par.paidI)
  fix s x t
  assume "P s" "tokens_left s < n" "with_fuel f s = Inr (x, t)"
  then show "tokens_left t + w x \<le> tokens_left s + c"
    using par.paidD [OF assms [of "Suc (tokens_left s)" "length (rest s) + 2"], of s x t]
    by (auto simp: with_fuel_def tokens_left_def [of s] split: option.splits if_splits)
qed

lemma read_here_bodies_safe: "d0 \<le> d \<Longrightarrow> par.safe P n (read_here_bodies cmd d hs) 0"
proof (induction hs arbitrary: P)
  case (Cons h hs)
  have body: "make_heredoc_body d cmd raw q \<noteq> Inl OutOfFuel" for raw q
    using make_heredoc_body_total [of d cmd raw q] cmd_total Cons.prems by simp
  show ?case
    by (simp, intro par_any(2) [OF read_heredoc_body_safe] par_any(2) [OF par.safe_lift [OF body]]
        par_any(2) [OF Cons.IH] par.safe_lret) (use Cons.prems in simp)
qed (simp add: par.safe_lret)

lemma pending_cleared: "tokens_left (s\<lparr>pending_heredocs := hs\<rparr>) = tokens_left s"
  by (simp add: tokens_left_def)

lemma bodies_bind:
  assumes "d0 \<le> d" "\<And>x. par.safe par.anywhere (Suc (tokens_left s)) (k x) 0"
  shows "par.ok s 0 (lbind (read_here_bodies cmd d hs) k (s\<lparr>pending_heredocs := []\<rparr>))"
  by (rule par.ok_step [where n = "Suc (tokens_left s)"], intro par_any(2) [OF read_here_bodies_safe] assms)
    (simp_all add: pending_cleared)

lemma collect_heredocs_safe: "d0 \<le> d \<Longrightarrow> par.safe P n (collect_heredocs cmd d) 0"
  unfolding collect_heredocs_def par.safe_def
  by (auto intro!: par.ok_Inr bodies_bind par.safe_modify simp: tokens_left_def)

lemma pushback_same: "pushback s = None \<Longrightarrow> s\<lparr>pushback := None\<rparr> = s"
  by (cases s) simp

lemma pnext_or_push:
  assumes d: "d0 \<le> d"
  shows "lbind (pnext cmd d) (\<lambda>(tok, sp). if c tok then m else lmodify (push_back tok sp)) =
    lbind (ppeek cmd d) (\<lambda>(tok, sp). if c tok then lseq (pnext cmd d) m else lret ())"
proof
  fix s
  show "lbind (pnext cmd d) (\<lambda>(tok, sp). if c tok then m else lmodify (push_back tok sp)) s =
    lbind (ppeek cmd d) (\<lambda>(tok, sp). if c tok then lseq (pnext cmd d) m else lret ()) s"
  proof (cases "next_token cmd d s")
    case (Inr r)
    then obtain tok sp t where r: "next_token cmd d s = Inr ((tok, sp), t)" by (cases r) auto
    then have "t\<lparr>pushback := None\<rparr> = t" using next_token_step(2) [OF d r] pushback_same by blast
    then show ?thesis
      using r by (simp add: lbind_def pnext_def ppeek_def lseq_def lmodify_def lret_def push_back_def next_token_def [of _ _ "_\<lparr>pushback := Some _\<rparr>"])
  qed (simp add: lbind_def pnext_def ppeek_def)
qed

lemma skip_newlines_loop_safe:
  assumes d: "d0 \<le> d"
  shows "par.safe P n (skip_newlines_loop n cmd d) 0"
proof (induction n arbitrary: P)
  case (Suc n)
  show ?case
    unfolding skip_newlines_loop.simps pnext_or_push [OF d]
    by (intro ppeek_bind par.safe_prod par.safe_if pnext_seq par_any(3) [OF collect_heredocs_safe [OF d]]
        par_rules(1) [OF Suc] par.safe_lret d) simp_all
qed (rule par.safe_0)

lemma skip_newlines_safe: "d0 \<le> d \<Longrightarrow> par.safe P n (skip_newlines cmd d) 0"
  unfolding skip_newlines_def by (intro with_fuel_safe skip_newlines_loop_safe)

lemma read_pending_heredocs_safe: "d0 \<le> d \<Longrightarrow> par.safe P n (read_pending_heredocs cmd d c) 0"
  unfolding read_pending_heredocs_def
  by (rule par_any(2); simp add: par.safe_def)
    (auto intro!: par.ok_Inr bodies_bind par.safe_lret simp: tokens_left_def)

lemmas base_rules = ppeek_bind pnext_seq pnext_bind pnext_plain_bind par.safe_prod par.safe_if par.safe_lfail
  par.safe_case_option par_any(1) [OF par.safe_lret] par_any [OF skip_newlines_safe]
  par_any [OF collect_heredocs_safe] par_takes [OF expect_safe]

lemma case_word_safe:
  "(\<And>ps q. tok = TkWord ps q \<Longrightarrow> par.safe P n (f ps q) a) \<Longrightarrow> par.safe P n g a \<Longrightarrow>
   par.safe P n (case tok of TkWord ps q \<Rightarrow> f ps q | _ \<Rightarrow> g) a"
  by (cases tok) simp_all

lemma case_assignment_safe:
  "(\<And>name w. tok = TkAssignment name w \<Longrightarrow> par.safe P n (f name w) a) \<Longrightarrow> par.safe P n g a \<Longrightarrow>
   par.safe P n (case tok of TkAssignment name w \<Rightarrow> f name w | _ \<Rightarrow> g) a"
  by (cases tok) simp_all

lemma case_word_assignment_safe:
  "(\<And>ps q. tok = TkWord ps q \<Longrightarrow> par.safe P n (f ps q) a) \<Longrightarrow>
   (\<And>name w. tok = TkAssignment name w \<Longrightarrow> par.safe P n (h name w) a) \<Longrightarrow> par.safe P n g a \<Longrightarrow>
   par.safe P n (case tok of TkWord ps q \<Rightarrow> f ps q | TkAssignment name w \<Rightarrow> h name w | _ \<Rightarrow> g) a"
  by (cases tok) simp_all

lemma word_or_reserved_safe: "par.safe P n (word_or_reserved msg ts) 0"
  unfolding word_or_reserved_def
  by (cases ts; cases "fst ts"; simp add: par.safe_lret par.safe_lfail)

lemma pending_pushed_safe: "par.safe P n (lmodify (\<lambda>s. s\<lparr>pending_heredocs := pending_heredocs s @ [h]\<rparr>)) 0"
  by (rule par.safe_modify) (simp_all add: tokens_left_def)

lemma parse_redir_after_op_safe:
  assumes d: "d0 \<le> d"
  shows "par.safe P n (parse_redir_after_op cmd d op sp) 0"
  unfolding parse_redir_after_op_def Let_def
  by (intro base_rules case_word_safe par_any [OF pending_pushed_safe] par_any [OF word_or_reserved_safe] d) simp_all

lemma redir_not_eof: "is_redir tok \<Longrightarrow> tok \<noteq> TkEof"
  by auto

text \<open>The word before something that is no redirection is pushed back over the token behind it.\<close>

lemma word_pushed_back_safe:
  assumes d: "d0 \<le> d" and k: "\<And>tok2 sp2. is_redir tok2 \<Longrightarrow> par.safe (peeked tok2) (n - 1) (k tok2 sp2) 0"
  shows "par.safe (peeked (TkWord ps q)) n
    (lseq (pnext cmd d) (lbind (ppeek cmd d) (\<lambda>(tok2, sp2).
       if is_redir tok2 then k tok2 sp2 else lseq (lmodify (push_back (TkWord ps q) sp)) (lret x)))) 0"
  unfolding par.safe_def
proof (intro allI impI)
  fix s
  assume s: "peeked (TkWord ps q) s \<and> tokens_left s < n"
  then obtain x0 t where t: "pnext cmd d s = Inr (x0, t)" "tokens_left t + 1 \<le> tokens_left s" "tokens_left t < n - 1"
    by (auto simp: pnext_def next_token_def peeked_def tokens_left_def)
  have "par.safe par.anywhere (n - 1) (ppeek cmd d) 0"
    using ppeek_bind [OF d, of "n - 1" lret 0] by (simp add: lbind_lret par.safe_lret)
  note peek = par.safe_Inl [OF this _ t(3)] par.safe_Inr [OF this _ t(3)]
  have "par.safe par.anywhere (n - 1) (lbind (ppeek cmd d) (\<lambda>(tok2, sp2).
       if is_redir tok2 then k tok2 sp2 else lret x)) 0"
    by (intro ppeek_bind d par.safe_prod par.safe_if k par.safe_lret)
  note rest = par.safe_Inl [OF this _ t(3)] par.safe_Inr [OF this _ t(3)]
  show "par.ok s 0 (lseq (pnext cmd d) (lbind (ppeek cmd d) (\<lambda>(tok2, sp2).
       if is_redir tok2 then k tok2 sp2 else lseq (lmodify (push_back (TkWord ps q) sp)) (lret x))) s)"
  proof (cases "ppeek cmd d t")
    case (Inl e)
    then show ?thesis using t peek(1) by (simp add: lseq_def lbind_def par.ok_def)
  next
    case (Inr r)
    then obtain tok2 sp2 u where u: "ppeek cmd d t = Inr ((tok2, sp2), u)" by (cases r) auto
    then have "tokens_left u \<le> tokens_left t" using peek(2) [OF _ u] by simp
    then have "length (rest u) + 1 \<le> tokens_left s" using t(2) by (simp add: tokens_left_def)
    then show ?thesis
      using t u rest [unfolded lbind_def]
      by (auto simp: lseq_def lbind_def par.ok_def lmodify_def lret_def push_back_def tokens_left_def [of "_\<lparr>pushback := _\<rparr>"]
          split: sum.split)
  qed
qed

lemma redirections_loop_safe:
  assumes d: "d0 \<le> d"
  shows "par.safe P n (redirections_loop n cmd d redirs) 0"
proof (induction n arbitrary: P redirs)
  case (Suc n)
  have pushed: "par.safe (peeked (TkWord ps False)) (Suc n)
    (lseq (pnext cmd d) (lbind (ppeek cmd d) (\<lambda>(tok2, sp2).
       if is_redir tok2 then
         lseq (pnext cmd d) (lbind (parse_redir_after_op cmd d tok2 sp2) (\<lambda>r.
           redirections_loop n cmd d (redirs @ [set_redir_fd (fd_number ps) r])))
       else lseq (lmodify (push_back (TkWord ps False) sp)) (lret redirs)))) 0" for ps sp redirs
    by (rule word_pushed_back_safe [OF d], intro pnext_seq par_any(2) [OF parse_redir_after_op_safe [OF d]]
        par_rules(1) [OF Suc]) (auto dest: redir_not_eof)
  have word: "par.safe (peeked tok) (Suc n) (case tok of
      TkWord ps False \<Rightarrow> if fd_text ps False then
        lseq (pnext cmd d) (lbind (ppeek cmd d) (\<lambda>(tok2, sp2).
          if is_redir tok2 then
            lseq (pnext cmd d) (lbind (parse_redir_after_op cmd d tok2 sp2) (\<lambda>r.
              redirections_loop n cmd d (redirs @ [set_redir_fd (fd_number ps) r])))
          else lseq (lmodify (push_back (TkWord ps False) sp)) (lret redirs)))
        else lret redirs
    | _ \<Rightarrow> lret redirs) 0" for tok sp redirs
    using pushed by (cases tok) (auto split: bool.split simp: par.safe_lret)
  show ?case
    unfolding redirections_loop.simps
    by (intro ppeek_bind par.safe_prod par.safe_if pnext_seq par_any(2) [OF parse_redir_after_op_safe]
        par_rules(1) [OF Suc] word d) (auto dest: redir_not_eof)
qed (rule par.safe_0)

lemma parse_redirections_safe: "d0 \<le> d \<Longrightarrow> par.safe P n (parse_redirections cmd d) 0"
  unfolding parse_redirections_def by (intro with_fuel_safe redirections_loop_safe)

subsubsection \<open>Commands\<close>

text \<open>The parser of the commands inside: with fuel \<open>N\<close> it takes at least one token.\<close>

definition commands_safe :: "nat \<Rightarrow> command_parser \<Rightarrow> bool" where
  "commands_safe N pc \<longleftrightarrow> (\<forall>P d. d0 \<le> d \<longrightarrow> par.safe P N (pc d) 1)"

lemma commands_rules:
  assumes pc: "commands_safe N pc" and d: "d0 \<le> d" and n: "n \<le> N"
  shows "b \<le> 1 \<Longrightarrow> par.safe P n (pc d) b"
    and "(\<And>x. par.safe par.anywhere (n - 1) (k x) (b - 1)) \<Longrightarrow> par.safe P n (lbind (pc d) k) b"
proof -
  have m: "par.safe Q n (pc d) 1" for Q
    by (rule par.safe_mono [OF _ n order_refl]) (use pc d in \<open>simp add: commands_safe_def\<close>)
  show "b \<le> 1 \<Longrightarrow> par.safe P n (pc d) b" by (rule par.safe_mono [OF m order_refl])
  show "par.safe P n (lbind (pc d) k) b" if "\<And>x. par.safe par.anywhere (n - 1) (k x) (b - 1)"
    by (rule par.safe_bind [OF m that])
qed

lemma takes_rules:
  assumes m: "\<And>Q n. n \<le> N \<Longrightarrow> par.safe Q n m 1" and n: "n \<le> N"
  shows "b \<le> 1 \<Longrightarrow> par.safe P n m b"
    and "(\<And>x. par.safe par.anywhere (n - 1) (k x) (b - 1)) \<Longrightarrow> par.safe P n (lbind m k) b"
  using par.safe_mono [OF m [OF n] order_refl] par.safe_bind [OF m [OF n], where k = k and b = b] by simp_all

lemma pipe_loop_safe:
  assumes pc: "commands_safe N pc" and d: "d0 \<le> d"
  shows "n \<le> Suc N \<Longrightarrow> par.safe P n (pipe_loop n cmd pc d commands) 0"
proof (induction n arbitrary: P commands)
  case (Suc n)
  have IH: "par.safe Q n (pipe_loop n cmd pc d commands) 0" for Q commands using Suc by simp
  show ?case
    unfolding pipe_loop.simps
    by (intro base_rules commands_rules(2) [OF pc] par_rules(1) [OF IH] d) (use Suc.prems in simp_all)
qed (rule par.safe_0)

lemma parse_pipeline_safe:
  assumes pc: "commands_safe N pc" and d: "d0 \<le> d"
  shows "n \<le> N \<Longrightarrow> par.safe P n (parse_pipeline cmd pc d) 1"
proof -
  assume n: "n \<le> N"
  have bang: "par.safe Q m (if b then lseq (pnext cmd d) (lret ()) else lret ()) 0" for Q m b
    by (intro par.safe_if par_any(3) [OF pnext_any [OF d]] par.safe_lret)
  show ?thesis
    unfolding parse_pipeline_def Let_def
    by (intro ppeek_bind par.safe_prod par_any(3) [OF bang] commands_rules(2) [OF pc] d
        par_any(2) [OF with_fuel_below [OF pipe_loop_safe [OF pc d]]] par_any(1) [OF par.safe_lret])
      (use n in simp_all)
qed

lemma and_or_loop_safe:
  assumes pc: "commands_safe N pc" and d: "d0 \<le> d"
  shows "n \<le> Suc N \<Longrightarrow> par.safe P n (and_or_loop n cmd pc d left) 0"
proof (induction n arbitrary: P left)
  case (Suc n)
  have IH: "par.safe Q n (and_or_loop n cmd pc d left) 0" for Q left using Suc by simp
  show ?case
    unfolding and_or_loop.simps
    by (intro base_rules takes_rules(2) [OF parse_pipeline_safe [OF pc d]] par_rules(1) [OF IH] d)
      (use Suc.prems in auto)
qed (rule par.safe_0)

lemma parse_and_or_safe:
  assumes pc: "commands_safe N pc" and d: "d0 \<le> d"
  shows "n \<le> N \<Longrightarrow> par.safe P n (parse_and_or cmd pc d) 1"
  unfolding parse_and_or_def
  by (intro takes_rules(2) [OF parse_pipeline_safe [OF pc d]] par_any(1) [OF with_fuel_below [OF and_or_loop_safe [OF pc d]]])
    simp_all

lemma next_in_list_safe:
  assumes pc: "commands_safe N pc" and d: "d0 \<le> d"
  shows "n \<le> N \<Longrightarrow> par.safe P n (next_in_list cmd pc d c) 0"
  unfolding next_in_list_def
  by (intro base_rules takes_rules(2) [OF parse_and_or_safe [OF pc d]] d) simp_all

lemma list_loop_safe:
  assumes pc: "commands_safe N pc" and d: "d0 \<le> d"
  shows "n \<le> Suc N \<Longrightarrow> par.safe P n (list_loop n cmd pc d nl c) 0"
proof (induction n arbitrary: P c)
  case (Suc n)
  have IH: "par.safe Q n (list_loop n cmd pc d nl c) 0" for Q c using Suc by simp
  have newlines: "par.safe Q m (if nl then skip_newlines cmd d else lret ()) 0" for Q m
    by (intro par.safe_if par.safe_lret skip_newlines_safe d)
  show ?case
    unfolding list_loop.simps
    by (intro ppeek_bind par.safe_prod par.safe_if pnext_seq par_any(3) [OF skip_newlines_safe]
        par_any(3) [OF collect_heredocs_safe] par_any(3) [OF newlines] par_any(1) [OF par.safe_lret]
        par_rules(2) [OF next_in_list_safe [OF pc d order_refl]] par_rules(1) [OF IH] d)
      (use Suc.prems in auto)
qed (rule par.safe_0)

lemma parse_command_list_safe:
  assumes pc: "commands_safe N pc" and d: "d0 \<le> d"
  shows "n \<le> N \<Longrightarrow> par.safe P n (parse_command_list cmd pc d nl) 1"
  unfolding parse_command_list_def
  by (intro takes_rules(2) [OF parse_and_or_safe [OF pc d]] par_any(1) [OF with_fuel_below [OF list_loop_safe [OF pc d]]])
    simp_all

lemma parse_compound_list_safe:
  assumes pc: "commands_safe N pc" and d: "d0 \<le> d"
  shows "n \<le> N \<Longrightarrow> par.safe P n (parse_compound_list cmd pc d) 1"
  unfolding parse_compound_list_def
  by (intro ppeek_bind par.safe_prod par.safe_nested takes_rules(1) [OF parse_command_list_safe [OF pc]])
    (use d in simp_all)

lemma inner_list_safe:
  assumes pc: "commands_safe N pc" and d: "d0 \<le> d"
  shows "n \<le> N \<Longrightarrow> par.safe P n (inner_list cmd pc d) 1"
  unfolding inner_list_def
  by (intro base_rules takes_rules(2) [OF parse_compound_list_safe [OF pc d]] d) simp_all

lemma assigns_loop_safe:
  assumes d: "d0 \<le> d"
  shows "par.safe P n (assigns_loop n cmd d as) 0"
proof (induction n arbitrary: P as)
  case (Suc n)
  show ?case
    unfolding assigns_loop.simps
    by (intro base_rules case_assignment_safe par_rules(1) [OF Suc] d) auto
qed (rule par.safe_0)

lemma paid_rules:
  assumes "d0 \<le> d"
  shows "(\<And>tok sp. par.paid (peeked tok) n (k (tok, sp)) c w) \<Longrightarrow> par.paid P n (lbind (ppeek cmd d) k) c w"
    and "tok \<noteq> TkEof \<Longrightarrow> par.paid par.anywhere (n - 1) l (c + 1) w \<Longrightarrow> par.paid (peeked tok) n (lseq (pnext cmd d) l) c w"
proof -
  assume k: "\<And>tok sp. par.paid (peeked tok) n (k (tok, sp)) c w"
  show "par.paid P n (lbind (ppeek cmd d) k) c w"
    unfolding par.paid_def
  proof (intro allI impI)
    fix s y u
    assume s: "P s \<and> tokens_left s < n \<and> lbind (ppeek cmd d) k s = Inr (y, u)"
    then obtain tok sp t where t: "ppeek cmd d s = Inr ((tok, sp), t)" "k (tok, sp) t = Inr (y, u)"
      by (auto simp: lbind_def split: sum.splits)
    have "peeked tok t"
      using t(1) by (auto simp: ppeek_def lbind_def lseq_def lmodify_def lret_def push_back_def peeked_def split: sum.splits)
    moreover have "tokens_left t \<le> tokens_left s"
      using par.safe_Inr [OF ppeek_bind [OF assms, of n lret 0 par.anywhere], unfolded lbind_lret, OF _ _ _ t(1)] s
      by (simp add: par.safe_lret)
    ultimately show "tokens_left u + w y \<le> tokens_left s + c"
      using k [of tok sp] s t(2) by (fastforce simp: par.paid_def)
  qed
next
  assume tok: "tok \<noteq> TkEof" and l: "par.paid par.anywhere (n - 1) l (c + 1) w"
  show "par.paid (peeked tok) n (lseq (pnext cmd d) l) c w"
  proof (rule par.paidI)
    fix s y u
    assume s: "peeked tok s" "tokens_left s < n" "lseq (pnext cmd d) l s = Inr (y, u)"
    then have u: "l (s\<lparr>pushback := None\<rparr>) = Inr (y, u)" "tokens_left (s\<lparr>pushback := None\<rparr>) + 1 = tokens_left s"
      using tok by (auto simp: lseq_def lbind_def pnext_def next_token_def peeked_def tokens_left_def)
    then show "tokens_left u + w y \<le> tokens_left s + c" using par.paidD [OF l TrueI _ u(1)] s(2) by linarith
  qed
qed

lemma assigns_loop_paid:
  assumes d: "d0 \<le> d"
  shows "par.paid P n (assigns_loop n cmd d as) (length as) length"
proof (induction n arbitrary: P as)
  case (Suc n)
  have next_one: "par.paid (peeked (TkAssignment name v)) (Suc n)
    (lseq (pnext cmd d) (assigns_loop n cmd d (as @ [x]))) (length as) length" for name v x as
    by (rule paid_rules(2) [OF d]) (use Suc [of par.anywhere "as @ [x]"] in simp_all)
  show ?case
    unfolding assigns_loop.simps
    by (intro paid_rules(1) [OF d], rename_tac tok sp, case_tac tok) (auto intro: next_one par.paid_lret)
qed (simp add: par.paid_def lstop_def)

lemma func_def_safe:
  assumes pc: "commands_safe N pc" and d: "d0 \<le> d"
  shows "n \<le> Suc N \<Longrightarrow> par.safe P n (func_def cmd pc d first name sp) 0"
  unfolding func_def_def
  by (intro base_rules commands_rules(2) [OF pc] d) auto

lemma func_def_paid:
  assumes pc: "commands_safe N pc" and d: "d0 \<le> d"
  shows "n \<le> Suc N \<Longrightarrow> par.paid P n (func_def cmd pc d first name sp) 0 (\<lambda>f. if f = None then 0 else 1)"
proof -
  assume n: "n \<le> Suc N"
  have body: "par.safe Q m (lseq (expect cmd d TkRParen) (lseq (skip_newlines cmd d)
      (lbind (pc d) (\<lambda>body. lret (Some (FuncDef name body sp)))))) 0" if "m \<le> N" for Q m
    by (intro base_rules commands_rules(2) [OF pc] d) (use that in auto)
  show ?thesis
    unfolding func_def_def
    by (intro par.paid_if paid_rules [OF d], simp, intro conjI impI paid_rules(2) [OF d] par.paid_lret)
      (use n in \<open>auto intro!: par.safe_paid [OF body] simp: par.paid_lret\<close>)
qed

lemma args_loop_safe:
  assumes pc: "commands_safe N pc" and d: "d0 \<le> d"
  shows "m \<le> n \<Longrightarrow> m \<le> Suc N \<Longrightarrow> par.safe P m (args_loop n cmd pc d na args redirs) 0"
proof (induction n arbitrary: P m args redirs)
  case (Suc n)
  have IH: "par.safe Q k (args_loop n cmd pc d na args redirs) b" if "k \<le> n" "k \<le> Suc N" "b = 0" for Q k args redirs b
    using Suc.IH that by simp
  have reserved: "reserved_word_text tok \<noteq> [] \<Longrightarrow> tok \<noteq> TkEof" for tok by auto
  show ?case
    unfolding args_loop.simps Let_def
    by (intro ppeek_bind par.safe_prod case_word_assignment_safe par.safe_if pnext_seq par.safe_case_option
        par_any(1) [OF par.safe_lret] par_any(2) [OF parse_redir_after_op_safe]
        par_rules(2) [OF func_def_safe [OF pc d order_refl]] IH d)
      (use Suc.prems reserved redir_not_eof in auto)
qed (simp add: par.safe_0)

lemma case_word_assignment_paid:
  "(\<And>ps q. tok = TkWord ps q \<Longrightarrow> par.paid P n (f ps q) a w) \<Longrightarrow>
   (\<And>name v. tok = TkAssignment name v \<Longrightarrow> par.paid P n (h name v) a w) \<Longrightarrow> par.paid P n g a w \<Longrightarrow>
   par.paid P n (case tok of TkWord ps q \<Rightarrow> f ps q | TkAssignment name v \<Rightarrow> h name v | _ \<Rightarrow> g) a w"
  by (cases tok) simp_all

definition args_weight :: "command + command word_node list \<times> command redir list \<Rightarrow> nat" where
  "args_weight r = (case r of Inl _ \<Rightarrow> 1 | Inr (args, redirs) \<Rightarrow> length args + length redirs)"

lemma args_loop_paid:
  assumes pc: "commands_safe N pc" and d: "d0 \<le> d"
  shows "m \<le> n \<Longrightarrow> m \<le> Suc N \<Longrightarrow>
    par.paid P m (args_loop n cmd pc d na args redirs) (length args + length redirs) args_weight"
proof (induction n arbitrary: P m args redirs)
  case (Suc n)
  have IH: "par.paid Q m (args_loop n cmd pc d na args redirs) c args_weight"
    if "m \<le> n" "m \<le> Suc N" "length args + length redirs \<le> c" for Q m args redirs c
    by (rule par.paid_mono [OF Suc.IH [OF that(1,2)] order_refl that(3)])
  have redirection: "par.paid Q m (lbind (parse_redir_after_op cmd d t sp) (\<lambda>r.
      args_loop n cmd pc d na args (redirs @ [f r]))) c args_weight"
    if "m \<le> n" "m \<le> Suc N" "length args + length redirs + 1 \<le> c" for Q m t sp args redirs f c
    by (rule par.paid_bind [OF parse_redir_after_op_safe [OF d]]) (use that in \<open>auto intro: IH\<close>)
  have after_word: "par.paid Q m (lbind (func_def cmd pc d first name sp) (\<lambda>f. case f of
      Some c \<Rightarrow> lret (Inl c) | None \<Rightarrow> args_loop n cmd pc d na (args @ [w]) redirs)) c args_weight"
    if "m \<le> n" "m \<le> Suc N" "length args + length redirs + 1 \<le> c" for Q m first name sp args redirs w c
    by (rule par.paid_bind [OF func_def_safe [OF pc d]])
      (use Suc.prems that in \<open>auto intro!: IH par.paid_lret split: option.split simp: args_weight_def\<close>)
  have reserved: "reserved_word_text tok \<noteq> [] \<Longrightarrow> tok \<noteq> TkEof" for tok by auto
  show ?case
    unfolding args_loop.simps Let_def
    by (intro paid_rules [OF d] par.paid_prod case_word_assignment_paid par.paid_if after_word redirection IH par.paid_lret)
      (use Suc.prems reserved redir_not_eof in \<open>auto simp: args_weight_def\<close>)
qed (simp add: par.paid_def lstop_def)

lemma parse_simple_command_or_func_safe:
  assumes pc: "commands_safe N pc" and d: "d0 \<le> d" and n: "n \<le> Suc N"
  shows "par.safe P n (parse_simple_command_or_func cmd pc d) 1"
proof -
  have span: "par.safe Q m lget_span 0" for Q m by (simp add: par.safe_unfold lget_span_def)
  have assigns: "par.safe Q m (with_fuel (\<lambda>k. assigns_loop k cmd d [])) 0" for Q m
    by (intro with_fuel_safe assigns_loop_safe d)
  have args: "par.safe Q n (with_fuel (\<lambda>k. args_loop k cmd pc d na [] [])) 0" for Q na
    by (intro with_fuel_both args_loop_safe [OF pc d]) (use n in simp_all)
  have no_command: "par.safe Q m (lbind (pnext cmd d) (\<lambda>(tok, sp). lfail (UnexpectedToken tok) sp)) a" for Q m a
    by (intro pnext_bind par.safe_prod par.safe_lfail d)
  have safe: "par.safe P n (parse_simple_command_or_func cmd pc d) 0"
    unfolding parse_simple_command_or_func_def
    by (intro par_any(2) [OF span] par_any(2) [OF assigns] par_any(2) [OF args])
      (auto intro!: par.safe_lret no_command split: sum.split)
  show ?thesis
  proof (rule par.safeI)
    fix s e
    assume "P s" "tokens_left s < n" "parse_simple_command_or_func cmd pc d s = Inl e"
    then show "e \<noteq> OutOfFuel" using par.safe_Inl [OF safe] by blast
  next
    fix s c u
    assume s: "P s" "tokens_left s < n" and r: "parse_simple_command_or_func cmd pc d s = Inr (c, u)"
    then obtain as t where t: "with_fuel (\<lambda>k. assigns_loop k cmd d []) s = Inr (as, t)"
      by (auto simp: parse_simple_command_or_func_def lget_span_def lbind_def split: sum.splits)
    with r obtain x v where v: "with_fuel (\<lambda>k. args_loop k cmd pc d (as = []) [] []) t = Inr (x, v)"
      by (auto simp: parse_simple_command_or_func_def lget_span_def lbind_def split: sum.splits)
    have u: "u = v" "1 \<le> length as + args_weight x"
      using r t v by (auto simp: parse_simple_command_or_func_def lget_span_def lbind_def lret_def lfail_def args_weight_def
          Suc_le_eq split: sum.splits prod.splits if_splits)
    have "tokens_left t + length as \<le> tokens_left s + 0"
      by (rule par.paidD [OF with_fuel_paid [where n = n and P = par.anywhere] _ s(2) t])
        (auto intro!: par.paid_mono [OF assigns_loop_paid [OF d, of par.anywhere _ "[]", simplified]])
    moreover from this have "tokens_left v + args_weight x \<le> tokens_left t + 0"
      by (intro par.paidD [OF with_fuel_paid [where n = n and P = par.anywhere] _ _ v])
        (use s n in \<open>auto intro!: args_loop_paid [OF pc d, of _ _ _ _ "[]" "[]", simplified]\<close>)
    ultimately show "tokens_left u + 1 \<le> tokens_left s \<and> True" using u by simp
  qed
qed

lemma parse_subshell_safe:
  assumes pc: "commands_safe N pc" and d: "d0 \<le> d"
  shows "n \<le> Suc N \<Longrightarrow> par.safe P n (parse_subshell cmd pc d) 1"
  unfolding parse_subshell_def
  by (intro par_takes [OF expect_safe] takes_rules(2) [OF inner_list_safe [OF pc d]]
      par_any(2) [OF parse_redirections_safe] par_any(1) [OF par.safe_lret] d) auto

lemma parse_brace_group_safe:
  assumes pc: "commands_safe N pc" and d: "d0 \<le> d"
  shows "n \<le> Suc N \<Longrightarrow> par.safe P n (parse_brace_group cmd pc d) 1"
  unfolding parse_brace_group_def
  by (intro par_takes [OF expect_safe] takes_rules(2) [OF inner_list_safe [OF pc d]]
      par_any(2) [OF parse_redirections_safe] par_any(1) [OF par.safe_lret] d) auto

lemma else_part_safe:
  assumes pc: "commands_safe N pc" and d: "d0 \<le> d" and elif: "\<And>P. par.safe P n elif 0" and n: "n \<le> N"
  shows "par.safe P n (else_part cmd pc d elif) 0"
  unfolding else_part_def
  by (intro ppeek_bind par.safe_prod par.safe_if pnext_seq par_any(2) [OF elif] takes_rules(2) [OF inner_list_safe [OF pc d]]
      par_takes [OF expect_safe] pnext_bind par.safe_lfail par_any(1) [OF par.safe_lret] d) (use n in auto)

lemma parse_elif_safe:
  assumes pc: "commands_safe N pc" and d: "d0 \<le> d"
  shows "m \<le> n \<Longrightarrow> m \<le> N \<Longrightarrow> par.safe P m (parse_elif n cmd pc d) 0"
proof (induction n arbitrary: P m)
  case (Suc n)
  have tail: "par.safe Q k (else_part cmd pc d (parse_elif n cmd pc d)) 0" if "k \<le> n" "k \<le> N" for Q k
    using Suc.IH that by (intro else_part_safe [OF pc d]) auto
  show ?case
    unfolding parse_elif.simps
    by (intro par_takes [OF expect_safe] takes_rules(2) [OF inner_list_safe [OF pc d]]
        par_any(2) [OF tail] par_any(1) [OF par.safe_lret] d) (use Suc.prems in auto)
qed (simp add: par.safe_0)

lemma parse_if_safe:
  assumes pc: "commands_safe N pc" and d: "d0 \<le> d"
  shows "n \<le> Suc N \<Longrightarrow> par.safe P n (parse_if cmd pc d) 1"
proof -
  assume n: "n \<le> Suc N"
  have tail: "par.safe Q k (else_part cmd pc d (with_fuel (\<lambda>n. parse_elif n cmd pc d))) 0" if "k \<le> N" for Q k
    by (intro else_part_safe [OF pc d] with_fuel_both parse_elif_safe [OF pc d]) (use that in auto)
  show ?thesis
    unfolding parse_if_def
    by (intro par_takes [OF expect_safe] takes_rules(2) [OF inner_list_safe [OF pc d]] par_any(2) [OF tail]
        par_any(2) [OF parse_redirections_safe] par_any(1) [OF par.safe_lret] d) (use n in auto)
qed

lemma do_group_safe:
  assumes pc: "commands_safe N pc" and d: "d0 \<le> d"
  shows "n \<le> N \<Longrightarrow> par.safe P n (do_group cmd pc d) 0"
  unfolding do_group_def
  by (intro par_takes [OF expect_safe] takes_rules(2) [OF inner_list_safe [OF pc d]]
      par_any(2) [OF parse_redirections_safe] par_any(1) [OF par.safe_lret] d) auto

lemma parse_while_until_safe:
  assumes pc: "commands_safe N pc" and d: "d0 \<le> d"
  shows "n \<le> Suc N \<Longrightarrow> par.safe P n (parse_while cmd pc d) 1"
    and "n \<le> Suc N \<Longrightarrow> par.safe P n (parse_until cmd pc d) 1"
  unfolding parse_while_def parse_until_def split_beta
  by (intro par_takes [OF expect_safe] takes_rules(2) [OF inner_list_safe [OF pc d]]
      par_any(2) [OF do_group_safe [OF pc d]] par_any(1) [OF par.safe_lret] d; auto)+

lemma for_words_safe:
  assumes d: "d0 \<le> d"
  shows "par.safe P n (for_words n cmd d ws) 0"
proof (induction n arbitrary: P ws)
  case (Suc n)
  show ?case
    unfolding for_words.simps
    by (intro base_rules case_word_safe par_rules(1) [OF Suc] d) auto
qed (rule par.safe_0)

lemma parse_for_safe:
  assumes pc: "commands_safe N pc" and d: "d0 \<le> d"
  shows "n \<le> Suc N \<Longrightarrow> par.safe P n (parse_for cmd pc d) 1"
proof -
  assume n: "n \<le> Suc N"
  have ws: "par.safe Q m (with_fuel (\<lambda>n. for_words n cmd d [])) 0" for Q m
    by (intro with_fuel_safe for_words_safe d)
  have semi: "par.safe Q m (if tok = TkIn then
        lseq (pnext cmd d) (lbind (with_fuel (\<lambda>n. for_words n cmd d [])) (\<lambda>ws. lret (Some ws)))
      else lbind (ppeek cmd d) (\<lambda>(tok, _). if tok = TkSemi then lseq (pnext cmd d) (lret None) else lret None)) 0" for Q m tok
    by (intro par.safe_if par_any(3) [OF pnext_any [OF d]] par_any(2) [OF ws] ppeek_bind par.safe_prod par.safe_lret d)
  show ?thesis
    unfolding parse_for_def
    by (intro par_takes [OF expect_safe] pnext_plain_bind par.safe_prod case_word_safe par.safe_lfail
        par_any(3) [OF skip_newlines_safe] ppeek_bind par_any(2) [OF semi] par_any(2) [OF do_group_safe [OF pc d]]
        par_any(1) [OF par.safe_lret] d)
      (use n in \<open>auto intro!: par_any(1) [OF par.safe_lret]\<close>)
qed

lemma patterns_loop_safe:
  assumes d: "d0 \<le> d"
  shows "par.safe P n (patterns_loop n cmd d pats) 1"
proof (induction n arbitrary: P pats)
  case (Suc n)
  have IH: "par.safe Q m (patterns_loop n cmd d pats) 0" if "m \<le> n" for Q m pats
    by (rule par.safe_mono [OF Suc that]) simp
  show ?case
    unfolding patterns_loop.simps
  proof (intro pnext_plain_bind d)
    show "par.safe par.anywhere (Suc n) (lbind (word_or_reserved ExpectedPattern (TkEof, sp)) k) 1"
      for sp and k :: "command word_node \<Rightarrow> command word_node list px"
      by (simp add: word_or_reserved_def lbind_def lfail_def par.safe_unfold)
  qed (intro par_any(2) [OF word_or_reserved_safe] ppeek_bind par.safe_prod par.safe_if par_any(3) [OF pnext_any]
      IH par_any(1) [OF par.safe_lret] d; simp add: IH)
qed (rule par.safe_0)

lemma parse_case_arm_safe:
  assumes pc: "commands_safe N pc" and d: "d0 \<le> d"
  shows "n \<le> Suc N \<Longrightarrow> par.safe P n (parse_case_arm cmd pc d) 1"
proof -
  assume n: "n \<le> Suc N"
  have span: "par.safe Q m lget_span 0" for Q m by (simp add: par.safe_unfold lget_span_def)
  have paren: "par.safe Q m (if b then lseq (pnext cmd d) (lret ()) else lret ()) 0" for Q m b
    by (intro par.safe_if par_any(3) [OF pnext_any [OF d]] par.safe_lret)
  have close: "par.safe Q m (if b then lseq (pnext cmd d) (skip_newlines cmd d) else lret ()) 0" for Q m b
    by (intro par.safe_if par_any(3) [OF pnext_any [OF d]] skip_newlines_safe par.safe_lret d)
  have body: "par.safe Q m (if b then lret None else lbind (parse_compound_list cmd pc d) (\<lambda>c. lret (Some c))) 0"
    if "m \<le> N" for Q m b
    by (intro par.safe_if takes_rules(2) [OF parse_compound_list_safe [OF pc d]] par_any(1) [OF par.safe_lret]) (use that in auto)
  show ?thesis
    unfolding parse_case_arm_def
    by (intro par_any(2) [OF span] ppeek_bind par.safe_prod par_any(3) [OF paren] par_takes [OF with_fuel_safe [OF patterns_loop_safe]]
        par_takes [OF expect_safe] par_any(3) [OF skip_newlines_safe] par_any(2) [OF body] par_any(3) [OF close]
        par_any(1) [OF par.safe_lret] d) (use n in auto)
qed

lemma arms_loop_safe:
  assumes pc: "commands_safe N pc" and d: "d0 \<le> d"
  shows "m \<le> n \<Longrightarrow> m \<le> Suc N \<Longrightarrow> par.safe P m (arms_loop n cmd pc d arms) 0"
proof (induction n arbitrary: P m arms)
  case (Suc n)
  have IH: "par.safe Q k (arms_loop n cmd pc d arms) b" if "k \<le> n" "k \<le> Suc N" "b = 0" for Q k arms b
    using Suc.IH that by simp
  show ?case
    unfolding arms_loop.simps
    by (intro ppeek_bind par.safe_prod par.safe_if pnext_seq takes_rules(2) [where N = "Suc N", OF parse_case_arm_safe [OF pc d]]
        par_any(3) [OF skip_newlines_safe] IH par_any(1) [OF par.safe_lret] d) (use Suc.prems in auto)
qed (simp add: par.safe_0)

lemma parse_case_safe:
  assumes pc: "commands_safe N pc" and d: "d0 \<le> d"
  shows "n \<le> Suc N \<Longrightarrow> par.safe P n (parse_case cmd pc d) 1"
proof -
  assume n: "n \<le> Suc N"
  have arms: "par.safe Q m (with_fuel (\<lambda>n. arms_loop n cmd pc d [])) 0" if "m \<le> Suc N" for Q m
    by (intro with_fuel_both arms_loop_safe [OF pc d]) (use that in auto)
  show ?thesis
    unfolding parse_case_def
    by (intro par_takes [OF expect_safe] pnext_plain_bind par.safe_prod case_word_safe par.safe_lfail
        par_any(3) [OF skip_newlines_safe] par_any(2) [OF arms] par_any(2) [OF parse_redirections_safe]
        par_any(1) [OF par.safe_lret] d) (use n in auto)
qed

lemma command_step_safe:
  assumes pc: "commands_safe N pc" and d: "d0 \<le> d" and n: "n \<le> Suc N"
  shows "par.safe P n (command_step cmd pc d) 1"
  unfolding command_step_def
proof (intro ppeek_bind d par.safe_prod)
  note parsers = parse_subshell_safe [OF pc d n] parse_brace_group_safe [OF pc d n] parse_if_safe [OF pc d n]
    parse_while_until_safe [OF pc d n] parse_for_safe [OF pc d n] parse_case_safe [OF pc d n]
    parse_simple_command_or_func_safe [OF pc d n]
  show "par.safe (peeked tok) n (case tok of
       TkLParen \<Rightarrow> parse_subshell cmd pc d | TkLbrace \<Rightarrow> parse_brace_group cmd pc d
     | TkIf \<Rightarrow> parse_if cmd pc d | TkWhile \<Rightarrow> parse_while cmd pc d | TkUntil \<Rightarrow> parse_until cmd pc d
     | TkFor \<Rightarrow> parse_for cmd pc d | TkCase \<Rightarrow> parse_case cmd pc d
     | _ \<Rightarrow> parse_simple_command_or_func cmd pc d) 1" for tok
    by (cases tok) (simp_all add: parsers del: One_nat_def)
qed

lemma parse_command_safe: "commands_safe n (parse_command n cmd)"
proof (induction n)
  case (Suc n)
  then show ?case using command_step_safe [OF Suc] by (simp add: commands_safe_def)
qed (simp add: commands_safe_def par.safe_0)

lemma parse_complete_command_safe: "d0 \<le> d \<Longrightarrow> par.safe P n (parse_complete_command cmd d) 1"
  unfolding parse_complete_command_def
  by (intro with_fuel_safe parse_command_list_safe [OF parse_command_safe]) auto

lemma program_loop_safe:
  assumes d: "d0 \<le> d"
  shows "par.safe P n (program_loop n cmd d commands) 0"
proof (induction n arbitrary: P commands)
  case (Suc n)
  show ?case
    unfolding program_loop.simps
    by (intro ppeek_bind par.safe_prod par.safe_if par_takes [OF parse_complete_command_safe]
        par_any(2) [OF read_pending_heredocs_safe] par_any(3) [OF skip_newlines_safe] par_rules(1) [OF Suc]
        par_any(1) [OF par.safe_lret] d) auto
qed (rule par.safe_0)

lemma parse_program_total:
  assumes d: "d0 \<le> d"
  shows "parse_program cmd d s \<noteq> Inl OutOfFuel"
proof -
  have "par.safe par.anywhere (Suc (tokens_left s)) (parse_program cmd d) 0"
    unfolding parse_program_def by (intro par_any(3) [OF skip_newlines_safe] with_fuel_safe program_loop_safe d)
  then show ?thesis using par.safe_Inl by fastforce
qed

end

text \<open>Command substitutions nest no deeper than the guard allows.\<close>

lemma run_parser_Inl: "run_parser m s = Inl e \<longleftrightarrow> m s = Inl e"
  by (cases "m s") (simp_all add: run_parser_def)

lemma parse_nested_total: "MAX_NESTING_DEPTH \<le> k + d \<Longrightarrow> parse_nested k d content \<noteq> Inl OutOfFuel"
proof (induction k arbitrary: d content)
  case (Suc k)
  have "run_parser (parse_program (parse_nested k) (Suc d)) (parser_from_shell_string content) \<noteq> Inl OutOfFuel"
    if "d < MAX_NESTING_DEPTH"
  proof -
    have "nested_parser (parse_nested k) (Suc d)" by unfold_locales (use Suc in auto)
    then show ?thesis unfolding run_parser_Inl by (rule nested_parser.parse_program_total) simp
  qed
  then show ?case
    by (cases "run_parser (parse_program (parse_nested k) (Suc d)) (parser_from_shell_string content)") auto
qed simp

interpretation sub: nested_parser parse_cmdsubst_content 0
  by unfold_locales (simp add: parse_cmdsubst_content_def parse_nested_total del: parse_nested.simps)

text \<open>
  C5. Parsing ends on every byte string: it returns a program or a syntax error, or panics at one of the
  places \<^const>\<open>Panicked\<close> stands for; none of the loops and recursions of the lexer, the parser, the
  here-documents and the nested substitutions runs forever.
\<close>

theorem parse_returns: "parse_source source \<noteq> Inl OutOfFuel"
  unfolding parse_source_def run_parser_Inl by (rule sub.parse_program_total) simp

end
