(* ===== verification/Token_Stream.thy ===== *)
theory Token_Stream
  imports Parser Vars
begin

text \<open>
  Text written out token by token.  A word is written as a list of pieces: plain characters, text in
  single quotes and characters after a backslash; operators and reserved words are written as they are,
  with a space before every token.  The lexer reads the tokens back.
\<close>

declare word_loop.simps(2) [simp del]

subsection \<open>Moving over characters\<close>

primrec skipped :: "nat \<Rightarrow> 'z lexer_scheme \<Rightarrow> 'z lexer_scheme" where
  "skipped 0 lx = lx"
| "skipped (Suc n) lx = skipped n (snd (advance_raw lx))"

lemma skipped_add: "skipped (m + n) lx = skipped n (skipped m lx)"
  by (induction m arbitrary: lx) simp_all

lemma rest_skipped [simp]: "rest (skipped n lx) = drop n (rest lx)"
  by (induction n arbitrary: lx) (simp_all add: drop_Suc)

lemma advance_raw_fields:
  "pushback (snd (advance_raw lx)) = pushback lx"
  "recognize_reserved (snd (advance_raw lx)) = recognize_reserved lx"
  "pending_heredocs (snd (advance_raw lx)) = pending_heredocs lx"
  "lexer.more (snd (advance_raw lx)) = lexer.more lx"
  by (cases "rest lx"; simp add: advance_raw_def Let_def)+

lemma skipped_fields [simp]:
  "pushback (skipped n lx) = pushback lx"
  "recognize_reserved (skipped n lx) = recognize_reserved lx"
  "pending_heredocs (skipped n lx) = pending_heredocs lx"
  "lexer.more (skipped n lx) = lexer.more lx"
  by (induction n arbitrary: lx) (simp_all add: advance_raw_fields)

lemma heredoc_bodies_advance_raw: "heredoc_bodies (snd (advance_raw ps)) = heredoc_bodies ps"
  by (cases "rest ps"; simp add: advance_raw_def Let_def)

lemma heredoc_bodies_skipped [simp]: "heredoc_bodies (skipped n ps) = heredoc_bodies ps"
  by (induction n arbitrary: ps) (simp_all add: heredoc_bodies_advance_raw)

lemma skipped_skipped [simp]: "skipped n (skipped m lx) = skipped (m + n) lx"
  by (simp add: skipped_add)

declare skipped.simps(2) [simp del]

lemma skipped_1: "snd (advance_raw lx) = skipped 1 lx"
  by (simp add: skipped.simps(2))

definition unjoined :: "ustring \<Rightarrow> bool" where
  "unjoined s \<longleftrightarrow> (case s of c # d # _ \<Rightarrow> \<not> (c = BACKSLASH \<and> d = NL) | _ \<Rightarrow> True)"

lemma joined_unjoined: "unjoined s \<Longrightarrow> joined s = s"
  by (cases s; cases "tl s") (auto simp: unjoined_def)

lemma peek_at: "rest lx = c # cs \<Longrightarrow> unjoined (c # cs) \<Longrightarrow> peek lx = (Some c, lx)"
  by (cases cs) (auto simp: peek.simps [of lx] unjoined_def)

lemma peek_end: "rest lx = [] \<Longrightarrow> peek lx = (None, lx)"
  by (simp add: peek.simps [of lx])

lemma advance_raw_at: "rest lx = c # cs \<Longrightarrow> advance_raw lx = (Some c, skipped 1 lx)"
  by (simp add: prod_eq_iff peek_raw_def skipped_1)

lemma advance_at: "rest lx = c # cs \<Longrightarrow> unjoined (c # cs) \<Longrightarrow> advance lx = (Some c, skipped 1 lx)"
  by (simp add: advance_def peek_at advance_raw_at)

lemma advance_end: "rest lx = [] \<Longrightarrow> advance lx = (None, lx)"
  by (simp add: advance_def peek_end)

lemmas at_char = lbind_def lseq_def lret_def lpeek_def ladvance_def ladvance_raw_def
  peek_at peek_end advance_at advance_raw_at advance_end

lemma single_quoted_at:
  "SQUOTE \<notin> set s \<Longrightarrow> rest lx = s @ SQUOTE # r \<Longrightarrow>
   single_quoted sp content lx = Inr (content @ s, skipped (Suc (length s)) lx)"
proof (induction s arbitrary: content lx)
  case Nil
  then show ?case by (simp add: single_quoted.simps [of sp content lx] advance_raw_at)
next
  case (Cons c s)
  then show ?case using Cons.IH [of "skipped 1 lx" "content @ [c]"]
    by (simp add: single_quoted.simps [of sp content lx] advance_raw_at)
qed

subsection \<open>Words\<close>

datatype piece = Plain ustring | Single ustring | Escaped cp

definition plain_char :: "cp \<Rightarrow> bool" where
  "plain_char c \<longleftrightarrow> 32 < c \<and> c < 127 \<and> c \<notin> set (ustr '';&()|<>#~$`'') \<and> c \<noteq> DQUOTE \<and> c \<noteq> SQUOTE \<and> c \<noteq> BACKSLASH"

fun piece_text :: "piece \<Rightarrow> ustring" where
  "piece_text (Plain s) = s"
| "piece_text (Single s) = SQUOTE # s @ [SQUOTE]"
| "piece_text (Escaped c) = [BACKSLASH, c]"

fun piece_part :: "piece \<Rightarrow> 'c word_part" where
  "piece_part (Plain s) = Literal (from_str_lossless s)"
| "piece_part (Single s) = SingleQuoted (from_str_lossless s)"
| "piece_part (Escaped c) = DoubleQuoted [Literal (from_str_lossless [c])]"

fun piece_ok :: "piece \<Rightarrow> bool" where
  "piece_ok (Plain s) \<longleftrightarrow> s \<noteq> [] \<and> list_all plain_char s"
| "piece_ok (Single s) \<longleftrightarrow> SQUOTE \<notin> set s"
| "piece_ok (Escaped c) \<longleftrightarrow> c \<noteq> NL \<and> c \<noteq> ESCAPE"

fun is_plain :: "piece \<Rightarrow> bool" where
  "is_plain (Plain s) = True"
| "is_plain _ = False"

definition pieces_text :: "piece list \<Rightarrow> ustring" where
  "pieces_text pcs = concat (map piece_text pcs)"

text \<open>Plain pieces do not follow each other.\<close>

fun spaced :: "piece list \<Rightarrow> bool" where
  "spaced (p # q # pcs) \<longleftrightarrow> \<not> (is_plain p \<and> is_plain q) \<and> spaced (q # pcs)"
| "spaced _ \<longleftrightarrow> True"

lemma pieces_text_simps [simp]:
  "pieces_text [] = []" "pieces_text (p # pcs) = piece_text p @ pieces_text pcs"
  by (simp_all add: pieces_text_def)

text \<open>What follows a word: a space or the end.\<close>

definition word_stop :: "ustring \<Rightarrow> bool" where
  "word_stop r \<longleftrightarrow> r = [] \<or> hd r = SP"

lemma plain_char_props:
  "plain_char c \<Longrightarrow> c \<noteq> DQUOTE \<and> c \<noteq> SQUOTE \<and> c \<noteq> BACKSLASH \<and> c \<noteq> DOLLAR \<and> c \<noteq> BACKTICK \<and> c \<noteq> TILDE \<and> c \<noteq> HASH
     \<and> \<not> word_end c \<and> c \<noteq> NL"
  by (auto simp: plain_char_def word_end_def)

lemma no_newline_ahead:
  "list_all piece_ok pcs \<Longrightarrow> word_stop r \<Longrightarrow> pieces_text pcs @ r = c # cs \<Longrightarrow> c \<noteq> NL"
proof (induction pcs)
  case (Cons p pcs)
  then show ?case by (cases p) (auto simp: Cons_eq_append_conv append_eq_Cons_conv dest: plain_char_props)
qed (auto simp: word_stop_def)

lemma plain_run:
  "list_all plain_char s \<Longrightarrow> rest lx = s @ r \<Longrightarrow> length s \<le> n \<Longrightarrow>
   word_loop n cmd words d WordCtx False sp ps literal q b lx =
   word_loop (n - length s) cmd words d WordCtx False sp ps (literal @ s) q b (skipped (length s) lx)"
proof (induction s arbitrary: n literal lx)
  case Nil
  then show ?case by simp
next
  case (Cons c s)
  then obtain m where n: "n = Suc m" by (cases n) auto
  have "unjoined (c # s @ r)" using Cons.prems(1) by (auto simp: unjoined_def plain_char_props split: list.split)
  then show ?case
    using Cons.prems Cons.IH [of "skipped 1 lx" m "literal @ [c]"] plain_char_props [of c]
    by (simp add: n word_loop.simps(2) Let_def at_char)
qed

lemma word_loop_single:
  assumes "SQUOTE \<notin> set s" "rest lx = SQUOTE # s @ SQUOTE # r" "n \<noteq> 0"
  shows "word_loop n cmd words d WordCtx False sp ps literal q b lx =
    word_loop (n - 1) cmd words d WordCtx False sp (push_literal ps literal @ [piece_part (Single s)]) [] True b
      (skipped (length s + 2) lx)"
proof -
  obtain m where n: "n = Suc m" using assms(3) by (cases n) auto
  have "unjoined (SQUOTE # s @ SQUOTE # r)" by (simp add: unjoined_def split: list.split)
  then show ?thesis
    using assms(1,2) single_quoted_at [of s "skipped 1 lx" r sp "[]"]
    by (simp add: n word_loop.simps(2) Let_def at_char word_end_def)
qed

lemma word_loop_escaped:
  assumes "c \<noteq> NL" "c \<noteq> ESCAPE" "rest lx = BACKSLASH # c # r" "r = [] \<or> hd r \<noteq> NL" "n \<noteq> 0"
  shows "word_loop n cmd words d WordCtx False sp ps literal q b lx =
    word_loop (n - 1) cmd words d WordCtx False sp (push_literal ps literal @ [piece_part (Escaped c)]) [] True b
      (skipped 2 lx)"
proof -
  obtain m where n: "n = Suc m" using assms(5) by (cases n) auto
  have "unjoined (BACKSLASH # c # r)" "unjoined (c # r)" using assms by (auto simp: unjoined_def split: list.split)
  then show ?thesis
    using assms(1-3)
    by (simp add: n word_loop.simps(2) Let_def at_char word_end_def escaped_text_def numeral_2_eq_2)
qed

lemma word_loop_stop:
  assumes "word_stop r" "rest lx = r" "n \<noteq> 0"
  shows "word_loop n cmd words d WordCtx False sp ps literal q b lx =
    Inr ((coalesce_literals (push_literal ps literal), q), lx)"
proof -
  obtain m where n: "n = Suc m" using assms(3) by (cases n) auto
  show ?thesis
  proof (cases r)
    case Nil
    then show ?thesis using assms by (simp add: n word_loop.simps(2) Let_def at_char)
  next
    case (Cons c cs)
    then have "c = SP" "unjoined (c # cs)" using assms(1) by (auto simp: word_stop_def unjoined_def split: list.split)
    then show ?thesis using Cons assms(2) by (simp add: n word_loop.simps(2) Let_def at_char word_end_def)
  qed
qed

text \<open>A word is read as the parts of its pieces.\<close>

lemma word_loop_pieces:
  assumes "list_all piece_ok pcs" "spaced pcs" "pcs \<noteq> [] \<Longrightarrow> is_plain (hd pcs) \<Longrightarrow> literal = []"
    and "rest lx = pieces_text pcs @ r" "word_stop r" "length (rest lx) < n"
  shows "word_loop n cmd words d WordCtx False sp ps literal q b lx =
    Inr ((coalesce_literals (push_literal ps literal @ map piece_part pcs), q \<or> list_ex (\<lambda>p. \<not> is_plain p) pcs),
         skipped (length (pieces_text pcs)) lx)"
  using assms
proof (induction pcs arbitrary: n ps literal q lx)
  case Nil
  then show ?case by (simp add: word_loop_stop)
next
  case (Cons p pcs)
  note prems = Cons.prems
  have IH: "rest lx' = pieces_text pcs @ r \<Longrightarrow> length (rest lx') < n' \<Longrightarrow> (is_plain p \<or> literal' = []) \<Longrightarrow>
      word_loop n' cmd words d WordCtx False sp ps' literal' q' b lx' =
      Inr ((coalesce_literals (push_literal ps' literal' @ map piece_part pcs), q' \<or> list_ex (\<lambda>p. \<not> is_plain p) pcs),
         skipped (length (pieces_text pcs)) lx')" for n' ps' literal' q' lx'
    using prems(1-2,5) by (intro Cons.IH) (cases pcs; auto)+
  show ?case
  proof (cases p)
    case (Plain s)
    then have "literal = []" using prems(3) by simp
    then show ?thesis
      using prems Plain plain_run [of s lx "pieces_text pcs @ r" n cmd words d sp ps "[]" q b]
        IH [of "skipped (length s) lx" "n - length s"]
      by (simp add: push_literal_def)
  next
    case (Single s)
    then show ?thesis
      using prems word_loop_single [of s lx "pieces_text pcs @ r" n]
        IH [of "skipped (length s + 2) lx" "n - 1" "[]" "push_literal ps literal @ [piece_part (Single s)]" True]
      by (simp add: push_literal_def)
  next
    case (Escaped c)
    have "pieces_text pcs @ r = [] \<or> hd (pieces_text pcs @ r) \<noteq> NL"
      using no_newline_ahead [of pcs r] prems(1,5) by (cases "pieces_text pcs @ r") auto
    then show ?thesis
      using prems Escaped word_loop_escaped [of c lx "pieces_text pcs @ r" n]
        IH [of "skipped 2 lx" "n - 1" "[]" "push_literal ps literal @ [piece_part (Escaped c)]" True]
      by (simp add: push_literal_def)
  qed
qed

lemma coalesce_append:
  "(\<And>s. part = Literal s \<Longrightarrow> result = [] \<or> (\<nexists>t. last result = Literal t)) \<Longrightarrow>
   coalesce result (part # ps) = coalesce (result @ [part]) ps"
  by (cases part; cases result rule: rev_cases) (auto split: word_part.splits)

lemma coalesce_piece:
  "(is_plain p \<Longrightarrow> result = [] \<or> (\<nexists>t. last result = Literal t)) \<Longrightarrow>
   coalesce result [piece_part p] = result @ [piece_part p]"
  using coalesce_append [of "piece_part p" result "[]"] by (cases p) auto

lemma coalesce_pieces:
  "spaced pcs \<Longrightarrow> (pcs \<noteq> [] \<Longrightarrow> is_plain (hd pcs) \<Longrightarrow> result = [] \<or> (\<nexists>t. last result = Literal t)) \<Longrightarrow>
   coalesce result (map piece_part pcs) = result @ map piece_part pcs"
proof (induction pcs arbitrary: result rule: spaced.induct)
  case (1 p q pcs)
  have "coalesce result (map piece_part (p # q # pcs)) = coalesce (result @ [piece_part p]) (map piece_part (q # pcs))"
    using 1(3) by (simp del: coalesce.simps(2) add: list.map(2)) (rule coalesce_append; cases p; auto)
  also have "\<dots> = (result @ [piece_part p]) @ map piece_part (q # pcs)"
    using 1(2) by (intro 1(1)) (cases p; auto)+
  finally show ?case by simp
qed (auto intro: coalesce_piece simp del: coalesce.simps(2))

lemma coalesce_literals_pieces: "spaced pcs \<Longrightarrow> coalesce_literals (map piece_part pcs) = map piece_part pcs"
  using coalesce_pieces [of pcs "[]"] by (simp add: coalesce_literals_def)

text \<open>The characters of plain pieces are single bytes.\<close>

lemma from_str_ascii: "(\<And>c. c \<in> set s \<Longrightarrow> c < 128) \<Longrightarrow> from_str_lossless s = utf8 s \<and> utf8 s = map byte s"
proof (induction s)
  case (Cons c s)
  then have "c < 128" "from_str_lossless s = utf8 s \<and> utf8 s = map byte s" by auto
  then show ?case by (simp add: from_str_lossless_def ESCAPE_def is_pua_byte_def PUA_BASE_def encode_utf8_def)
qed (simp add: from_str_lossless_def)

lemma plain_char_ascii: "plain_char c \<Longrightarrow> c < 128"
  unfolding plain_char_def by linarith

lemma plain_ascii: "list_all plain_char s \<Longrightarrow> c \<in> set s \<Longrightarrow> c < 128"
  by (metis list_all_iff plain_char_ascii)

lemma from_utf8_ascii: "(\<And>c. c \<in> set s \<Longrightarrow> c < 128) \<Longrightarrow> from_utf8 (map byte s) = Inr s"
  using from_str_ascii [of s] wf_ascii [of s] from_utf8_utf8 [of s] by simp

lemma as_utf8_plain: "list_all plain_char s \<Longrightarrow> as_utf8_str (from_str_lossless s) = Some s"
  using from_str_ascii [of s] plain_ascii [of s] from_utf8_ascii [of s] by (simp add: as_utf8_str_def)

lemma byte_eq_iff: "c < 256 \<Longrightarrow> d < 256 \<Longrightarrow> byte c = byte d \<longleftrightarrow> c = d"
  by (metis unat_byte)

lemma takeWhile_byte:
  "(\<And>c. c \<in> set s \<Longrightarrow> c < 128) \<Longrightarrow> EQUALS \<notin> set s \<Longrightarrow>
   takeWhile (\<lambda>b. b \<noteq> byte 61) (map byte s @ r) = map byte s @ takeWhile (\<lambda>b. b \<noteq> byte 61) r \<and>
   dropWhile (\<lambda>b. b \<noteq> byte 61) (map byte s @ r) = dropWhile (\<lambda>b. b \<noteq> byte 61) r"
proof (induction s)
  case (Cons c s)
  then have "c < 128" "c \<noteq> 61" by auto
  then have "byte c \<noteq> byte 61" using byte_eq_iff [of c 61] by simp
  then show ?case using Cons by simp
qed simp

subsection \<open>Tokens\<close>

datatype stoken = Op token | SWord "piece list" | SAssign ustring "piece list"

definition operator_text :: "token \<Rightarrow> ustring" where
  "operator_text t =
     (case t of
        TkNewline \<Rightarrow> [NL] | TkSemi \<Rightarrow> ustr '';'' | TkAmp \<Rightarrow> ustr ''&'' | TkPipe \<Rightarrow> ustr ''|'' | TkAnd \<Rightarrow> ustr ''&&''
      | TkOr \<Rightarrow> ustr ''||'' | TkSemiSemi \<Rightarrow> ustr '';;'' | TkLess \<Rightarrow> ustr ''<'' | TkGreat \<Rightarrow> ustr ''>''
      | TkDGreat \<Rightarrow> ustr ''>>'' | TkLessAnd \<Rightarrow> ustr ''<&'' | TkGreatAnd \<Rightarrow> ustr ''>&'' | TkLessGreat \<Rightarrow> ustr ''<>''
      | TkClobber \<Rightarrow> ustr ''>|'' | TkLParen \<Rightarrow> ustr ''('' | TkRParen \<Rightarrow> ustr '')'' | TkIf \<Rightarrow> ustr ''if''
      | TkThen \<Rightarrow> ustr ''then'' | TkElse \<Rightarrow> ustr ''else'' | TkElif \<Rightarrow> ustr ''elif'' | TkFi \<Rightarrow> ustr ''fi''
      | TkDo \<Rightarrow> ustr ''do'' | TkDone \<Rightarrow> ustr ''done'' | TkCase \<Rightarrow> ustr ''case'' | TkEsac \<Rightarrow> ustr ''esac''
      | TkWhile \<Rightarrow> ustr ''while'' | TkUntil \<Rightarrow> ustr ''until'' | TkFor \<Rightarrow> ustr ''for'' | TkIn \<Rightarrow> ustr ''in''
      | TkLbrace \<Rightarrow> [LBRACE] | TkRbrace \<Rightarrow> [RBRACE] | TkBang \<Rightarrow> ustr ''!'' | _ \<Rightarrow> [])"

fun assign_pieces :: "ustring \<Rightarrow> piece list \<Rightarrow> piece list" where
  "assign_pieces name (Plain s # pcs) = Plain (name @ EQUALS # s) # pcs"
| "assign_pieces name pcs = Plain (name @ [EQUALS]) # pcs"

fun stoken_text :: "stoken \<Rightarrow> ustring" where
  "stoken_text (Op t) = operator_text t"
| "stoken_text (SWord pcs) = pieces_text pcs"
| "stoken_text (SAssign name pcs) = name @ EQUALS # pieces_text pcs"

fun stoken_token :: "stoken \<Rightarrow> token" where
  "stoken_token (Op t) = t"
| "stoken_token (SWord pcs) = TkWord (map piece_part pcs) (list_ex (\<lambda>p. \<not> is_plain p) pcs)"
| "stoken_token (SAssign name pcs) = TkAssignment name (map piece_part pcs)"

text \<open>A word that is neither reserved nor an assignment.\<close>

definition word_ok :: "piece list \<Rightarrow> bool" where
  "word_ok pcs \<longleftrightarrow> pcs \<noteq> [] \<and> list_all piece_ok pcs \<and> spaced pcs \<and>
     (case pcs of Plain s # r \<Rightarrow> EQUALS \<notin> set s \<and> (r = [] \<longrightarrow> s \<notin> fst ` set reserved_words) | _ \<Rightarrow> True)"

fun stoken_ok :: "stoken \<Rightarrow> bool" where
  "stoken_ok (Op t) \<longleftrightarrow> operator_text t \<noteq> []"
| "stoken_ok (SWord pcs) \<longleftrightarrow> word_ok pcs"
| "stoken_ok (SAssign name pcs) \<longleftrightarrow> is_name name \<and> list_all piece_ok pcs \<and> spaced pcs"

lemma read_word_parts_pieces:
  assumes "list_all piece_ok pcs" "spaced pcs" "rest lx = pieces_text pcs @ r" "word_stop r"
  shows "read_word_parts cmd d WordCtx False sp lx =
    Inr ((map piece_part pcs, list_ex (\<lambda>p. \<not> is_plain p) pcs), skipped (length (pieces_text pcs)) lx)"
  using word_loop_pieces [OF assms(1,2), of "[]" lx r "Suc (length (rest lx))"] assms(3,4)
  by (simp add: read_word_parts_def push_literal_def coalesce_literals_pieces assms(2))

lemma try_split_word:
  assumes "word_ok pcs"
  shows "try_split_assignment (map piece_part pcs :: 'c word_part list) = None"
proof (cases pcs)
  case (Cons p r)
  show ?thesis
  proof (cases p)
    case (Plain s)
    then have "list_all plain_char s" "EQUALS \<notin> set s" using assms Cons by (auto simp: word_ok_def)
    then show ?thesis
      using Cons Plain from_str_ascii [of s] plain_ascii [of s] takeWhile_byte [of s "[]"]
      by (simp add: try_split_assignment_def)
  qed (simp_all add: Cons try_split_assignment_def)
qed (use assms in \<open>simp add: word_ok_def\<close>)

lemma not_reserved:
  assumes "word_ok pcs"
  shows "Option.bind (single_literal_text (map piece_part pcs :: 'c word_part list)) reserved_word = None"
proof (cases "\<exists>s. pcs = [Plain s]")
  case True
  then obtain s where "pcs = [Plain s]" by blast
  then show ?thesis
    using assms as_utf8_plain [of s]
    by (auto simp: word_ok_def single_literal_text_def reserved_word_def map_of_eq_None_iff)
next
  case False
  then have "single_literal_text (map piece_part pcs :: 'c word_part list) = None"
    by (cases pcs; cases "hd pcs") (auto simp: single_literal_text_def split: list.splits)
  then show ?thesis by simp
qed

lemma read_word_word:
  assumes "word_ok pcs" "rest lx = pieces_text pcs @ r" "word_stop r"
  shows "read_word cmd d sp lx =
    Inr ((stoken_token (SWord pcs), sp), skipped (length (pieces_text pcs)) lx)"
proof -
  have "pcs \<noteq> []" "list_all piece_ok pcs" "spaced pcs" using assms(1) by (simp_all add: word_ok_def)
  then show ?thesis
    using read_word_parts_pieces [of pcs lx r cmd d sp] assms(2,3)
    by (simp add: read_word_def lbind_def try_split_word [OF assms(1)] not_reserved [OF assms(1)])
qed

lemma assign_pieces_props:
  "pieces_text (assign_pieces name pcs) = name @ EQUALS # pieces_text pcs" "assign_pieces name pcs \<noteq> []"
  by (induction name pcs rule: assign_pieces.induct) simp_all

lemma assign_pieces_spaced: "spaced pcs \<Longrightarrow> spaced (assign_pieces name pcs)"
proof (induction name pcs rule: assign_pieces.induct)
  case (1 name s pcs)
  then show ?case by (cases pcs) auto
qed auto

lemma name_plain: "is_name name \<Longrightarrow> list_all plain_char name \<and> EQUALS \<notin> set name \<and> name \<noteq> []"
proof -
  have "plain_char c \<and> c \<noteq> EQUALS" if "name_char c" for c
  proof -
    have "\<forall>x \<in> insert EQUALS (set (ustr '';&()|<>#~$`'')). \<not> name_char x"
      "\<not> name_char DQUOTE" "\<not> name_char SQUOTE" "\<not> name_char BACKSLASH"
      by (simp_all add: name_char_def is_ascii_alphanumeric_def is_ascii_alphabetic_def is_ascii_digit_def)
    moreover have "32 < c \<and> c < 127"
      using that by (auto simp: name_char_def is_ascii_alphanumeric_def is_ascii_alphabetic_def is_ascii_digit_def)
    ultimately show ?thesis using that unfolding plain_char_def by blast
  qed
  moreover have "name_char c" if "name_start c" for c
    using that by (auto simp: name_char_def name_start_def is_ascii_alphanumeric_def)
  ultimately show "is_name name \<Longrightarrow> ?thesis" 
    by (cases name) (auto simp: is_name_def list_all_iff)
qed

lemma assign_pieces_ok:
  "is_name name \<Longrightarrow> list_all piece_ok pcs \<Longrightarrow> list_all piece_ok (assign_pieces name pcs)"
  using name_plain [of name] by (cases "(name, pcs)" rule: assign_pieces.cases) (auto simp: plain_char_def)

lemma try_split_assign:
  assumes "is_name name" "list_all piece_ok pcs" "spaced pcs"
  shows "try_split_assignment (map piece_part (assign_pieces name pcs) :: 'c word_part list) = Some (name, map piece_part pcs)"
proof -
  note n = name_plain [OF assms(1)]
  have split: "try_split_assignment (Literal (from_str_lossless (name @ EQUALS # v)) # r :: 'c word_part list) =
      Some (name, (if v = [] then [] else [Literal (from_str_lossless v)]) @ r)" if "list_all plain_char v" for v r
  proof -
    have ascii: "c < 128" if "c \<in> set (name @ EQUALS # v)" for c
      using n \<open>list_all plain_char v\<close> plain_ascii that by auto
    then have "from_str_lossless (name @ EQUALS # v) = map byte name @ byte 61 # map byte v"
      "from_str_lossless v = map byte v"
      using from_str_ascii [of "name @ EQUALS # v"] from_str_ascii [of v] by auto
    then show ?thesis
      using n takeWhile_byte [of name "byte 61 # map byte v"] from_utf8_ascii [of name] ascii assms(1)
      by (simp add: try_split_assignment_def)
  qed
  show ?thesis
    using assms(2) split [of "[]"] split by (cases "(name, pcs)" rule: assign_pieces.cases) auto
qed

lemma read_word_assign:
  assumes "stoken_ok (SAssign name pcs)" "rest lx = stoken_text (SAssign name pcs) @ r" "word_stop r"
  shows "read_word cmd d sp lx =
    Inr ((TkAssignment name (map piece_part pcs), sp), skipped (length (stoken_text (SAssign name pcs))) lx)"
proof -
  let ?q = "assign_pieces name pcs"
  have ok: "is_name name" "list_all piece_ok pcs" "spaced pcs" using assms(1) by auto
  have "Option.bind (single_literal_text (map piece_part ?q :: command word_part list)) reserved_word = None"
  proof (cases "\<exists>s. ?q = [Plain s]")
    case True
    then obtain s where s: "?q = [Plain s]" "EQUALS \<in> set s" by (cases "(name, pcs)" rule: assign_pieces.cases) auto
    then have "list_all plain_char s" using assign_pieces_ok [OF ok(1,2)] by simp
    moreover have "\<forall>w \<in> fst ` set reserved_words. EQUALS \<notin> set w" by (simp add: reserved_words_def)
    ultimately show ?thesis
      using s as_utf8_plain [of s]
      by (auto simp: single_literal_text_def reserved_word_def map_of_eq_None_iff)
  next
    case False
    then show ?thesis
      by (cases "(name, pcs)" rule: assign_pieces.cases) (auto simp: single_literal_text_def split: list.splits)
  qed
  then show ?thesis
    using read_word_parts_pieces [of ?q lx r cmd d sp] assms(2,3) ok
    by (simp add: read_word_def lbind_def try_split_assign assign_pieces_ok assign_pieces_props assign_pieces_spaced)
qed

text \<open>Operators and reserved words.\<close>

definition operators :: "token list" where
  "operators = [TkSemi, TkAmp, TkPipe, TkAnd, TkOr, TkSemiSemi, TkLess, TkGreat, TkDGreat, TkLessAnd, TkGreatAnd,
     TkLessGreat, TkClobber, TkLParen, TkRParen]"

lemma stop_peek:
  assumes "rest lx = r" "word_stop r"
  shows "\<exists>ch. peek lx = (ch, lx) \<and> (ch = None \<or> ch = Some SP)"
proof (cases r)
  case (Cons c cs)
  then have "c = SP" using assms(2) by (simp add: word_stop_def)
  moreover from this have "unjoined (c # cs)" by (simp add: unjoined_def split: list.split)
  ultimately show ?thesis using assms(1) Cons peek_at by blast
qed (use assms peek_end in blast)

lemma try_operator_at:
  assumes "t \<in> set operators" "rest lx = operator_text t @ r" "word_stop r"
  shows "try_operator sp lx = Inr (Some (t, sp), skipped (length (operator_text t)) lx)"
proof -
  obtain ch where ch: "peek (skipped (length (operator_text t)) lx) = (ch, skipped (length (operator_text t)) lx)"
    "ch = None \<or> ch = Some SP"
    using stop_peek [of "skipped (length (operator_text t)) lx" r] assms(2,3) by auto
  have u: "unjoined (operator_text t @ r)" "unjoined (tl (operator_text t @ r))"
    using assms by (auto simp: operators_def operator_text_def unjoined_def word_stop_def split: list.split)
  show ?thesis
    using assms(1,2) ch u
    by (auto simp: operators_def operator_text_def try_operator_def if_follows_def less_operator_def
        great_operator_def Let_def at_char numeral_2_eq_2)
qed

lemma reserved_plain: "w \<in> fst ` set reserved_words \<Longrightarrow> w \<noteq> [] \<and> list_all plain_char w"
proof -
  have "\<forall>w \<in> fst ` set reserved_words. w \<noteq> [] \<and> list_all plain_char w"
    by (simp add: reserved_words_def plain_char_def)
  then show "w \<in> fst ` set reserved_words \<Longrightarrow> ?thesis" by blast
qed

lemma read_word_reserved:
  assumes "(w, t) \<in> set reserved_words" "rest lx = w @ r" "word_stop r" "recognize_reserved lx"
  shows "read_word cmd d sp lx = Inr ((t, sp), skipped (length w) lx)"
proof -
  have w: "w \<noteq> []" "list_all plain_char w" using reserved_plain [of w] assms(1) by force+
  have "distinct (map fst reserved_words)" by (simp add: reserved_words_def)
  then have "reserved_word w = Some t" using assms(1) by (simp add: reserved_word_def)
  then show ?thesis
    using read_word_parts_pieces [of "[Plain w]" lx r cmd d sp] w assms(2-4) as_utf8_plain [of w]
    by (simp add: read_word_def lbind_def single_literal_text_def)
qed

text \<open>The first character of a word.\<close>

definition word_first :: "ustring \<Rightarrow> bool" where
  "word_first s \<longleftrightarrow> s \<noteq> [] \<and> \<not> word_end (hd s) \<and> hd s \<noteq> HASH \<and> unjoined s"

lemma plain_first: "s \<noteq> [] \<Longrightarrow> list_all plain_char s \<Longrightarrow> word_first (s @ r)"
  by (cases s) (auto simp: word_first_def unjoined_def plain_char_props split: list.split)

lemma pieces_first:
  assumes "list_all piece_ok pcs" "pcs \<noteq> []"
  shows "word_first (pieces_text pcs @ r)"
proof (cases pcs)
  case (Cons p qs)
  show ?thesis
  proof (cases p)
    case (Plain s)
    then show ?thesis using assms Cons plain_first [of s "pieces_text qs @ r"] by simp
  next
    case (Single s)
    then show ?thesis using Cons by (simp add: word_first_def word_end_def unjoined_def split: list.split)
  next
    case (Escaped c)
    then show ?thesis using assms Cons by (simp add: word_first_def word_end_def unjoined_def split: list.split)
  qed
qed (use assms in simp)

lemma word_not_operator:
  assumes "word_first (rest lx)"
  shows "try_operator sp lx = Inr (None, lx)"
proof -
  obtain c cs where c: "rest lx = c # cs" "\<not> word_end c" "unjoined (c # cs)"
    using assms by (cases "rest lx") (auto simp: word_first_def)
  then show ?thesis by (auto simp: try_operator_def word_end_def Let_def at_char)
qed

lemma blank_skipped:
  assumes "rest lx = SP # c # cs" "c \<notin> {SP, TAB, HASH}" "unjoined (c # cs)"
  shows "skip_blanks lx = skipped 1 lx"
proof -
  have "unjoined (SP # c # cs)" by (simp add: unjoined_def)
  moreover have "skip_blanks (skipped 1 lx) = skipped 1 lx"
    using assms by (simp add: skip_blanks.simps [of "skipped 1 lx"] skip_blanks.simps [of "skipped (Suc 0) lx"] at_char)
  ultimately show ?thesis using assms(1) by (simp add: skip_blanks.simps [of lx] at_char)
qed

lemma next_token_word:
  assumes "pushback lx = None" "rest lx = SP # s" "word_first s"
  shows "next_token cmd d lx = read_word cmd d (lexer_span (skipped 1 lx)) (skipped 1 lx)"
proof -
  obtain c cs where c: "s = c # cs" "\<not> word_end c" "c \<noteq> HASH" "unjoined (c # cs)"
    using assms(3) by (cases s) (auto simp: word_first_def)
  then have "skip_blanks lx = skipped 1 lx" using assms(2) by (intro blank_skipped) (auto simp: word_end_def)
  then show ?thesis
    using c assms word_not_operator [of "skipped 1 lx"]
    by (simp add: next_token_def Let_def at_char word_end_def)
qed

lemma operator_kinds:
  "operator_text t \<noteq> [] \<Longrightarrow> t = TkNewline \<or> t \<in> set operators \<or> (operator_text t, t) \<in> set reserved_words"
  by (cases t) (simp_all add: operator_text_def operators_def reserved_words_def)

lemma operator_first:
  "t \<in> set operators \<Longrightarrow> \<exists>c cs. operator_text t = c # cs \<and> c \<notin> {SP, TAB, HASH, NL, BACKSLASH}"
  by (auto simp: operators_def operator_text_def)

lemma next_token_at:
  assumes "stoken_ok u" "pushback lx = None" "rest lx = SP # stoken_text u @ r" "word_stop r"
    and "recognize_reserved lx \<or> (\<exists>pcs. u = SWord pcs)"
  shows "\<exists>sp. next_token cmd d lx = Inr ((stoken_token u, sp), skipped (Suc (length (stoken_text u))) lx)"
proof (cases u)
  case (SWord pcs)
  then have w: "word_ok pcs" "word_first (pieces_text pcs @ r)"
    using assms(1) pieces_first [of pcs r] by (simp_all add: word_ok_def)
  then show ?thesis
    using SWord assms(2-4) next_token_word [of lx "pieces_text pcs @ r" cmd d]
      read_word_word [of pcs "skipped 1 lx" r cmd d "lexer_span (skipped 1 lx)"]
    by simp
next
  case (SAssign name pcs)
  then have "word_first (stoken_text u @ r)"
    using assms(1) plain_first [of name "EQUALS # pieces_text pcs @ r"] name_plain [of name] by simp
  then show ?thesis
    using SAssign assms(1-4) next_token_word [of lx "stoken_text u @ r" cmd d]
      read_word_assign [of name pcs "skipped 1 lx" r cmd d "lexer_span (skipped 1 lx)"]
    by simp
next
  case (Op t)
  consider "t = TkNewline" | "t \<in> set operators" | "(operator_text t, t) \<in> set reserved_words"
    using operator_kinds [of t] assms(1) Op by auto
  then show ?thesis
  proof cases
    case 1
    have "skip_blanks lx = skipped 1 lx" "unjoined (NL # r)"
      using 1 Op assms(3) by (intro blank_skipped [where c = NL and cs = r])
        (simp_all add: operator_text_def unjoined_def split: list.split)
    then show ?thesis using 1 Op assms(2,3) by (simp add: next_token_def Let_def at_char operator_text_def)
  next
    case 2
    then obtain c cs where c: "operator_text t = c # cs" "c \<notin> {SP, TAB, HASH, NL, BACKSLASH}"
      using operator_first by blast
    then have u: "unjoined (c # cs @ r)" by (auto simp: unjoined_def split: list.split)
    then have "skip_blanks lx = skipped 1 lx"
      using c Op assms(3) by (intro blank_skipped [where c = c and cs = "cs @ r"]) auto
    then show ?thesis
      using 2 Op c u assms(2-4) try_operator_at [of t "skipped 1 lx" r "lexer_span (skipped 1 lx)"]
      by (simp add: next_token_def Let_def at_char)
  next
    case 3
    then have "operator_text t \<in> fst ` set reserved_words" by (metis fst_conv image_eqI)
    then have "word_first (operator_text t @ r)"
      using reserved_plain [of "operator_text t"] by (intro plain_first) simp_all
    then show ?thesis
      using 3 Op assms(2-5) next_token_word [of lx "operator_text t @ r" cmd d]
        read_word_reserved [of "operator_text t" t "skipped 1 lx" r cmd d "lexer_span (skipped 1 lx)"]
      by simp
  qed
qed

lemma next_token_end:
  "pushback lx = None \<Longrightarrow> rest lx = [] \<Longrightarrow> next_token cmd d lx = Inr ((TkEof, lexer_span lx), lx)"
  by (simp add: next_token_def Let_def at_char skip_blanks.simps [of lx])

subsection \<open>A source of tokens\<close>

text \<open>What the parser relies on: a state stands before a list of tokens, and asking for the next token
  gives the first of them, or the end.  A token that has been pushed back is read again.  A word can also
  be asked for where reserved words are not recognised.\<close>

definition front :: "stoken list \<Rightarrow> token" where
  "front ts = (case ts of [] \<Rightarrow> TkEof | u # _ \<Rightarrow> stoken_token u)"

lemma front_simps [simp]: "front [] = TkEof" "front (u # ts) = stoken_token u"
  by (simp_all add: front_def)

locale token_source =
  fixes cmd :: command_reader and feeds :: "parser \<Rightarrow> stoken list \<Rightarrow> bool"
  assumes next_ok: "feeds ps ts \<Longrightarrow>
      \<exists>sp ps'. next_token cmd d ps = Inr ((front ts, sp), ps') \<and> feeds ps' (tl ts) \<and> feeds (push_back (front ts) sp ps') ts"
    and plain_ok: "feeds ps (SWord w # ts) \<Longrightarrow>
      \<exists>sp ps'. pnext_plain cmd d ps = Inr ((stoken_token (SWord w), sp), ps') \<and> feeds ps' ts"
    and left_ok: "feeds ps ts \<Longrightarrow> length ts \<le> length (rest ps) + 1"
    and quiet: "feeds ps ts \<Longrightarrow> pending_heredocs ps = [] \<and> heredoc_bodies ps = []"
begin

text \<open>A computation that reads from \<open>ts\<close> up to \<open>us\<close> and returns what satisfies \<open>Q\<close>.\<close>

definition gives :: "'a px \<Rightarrow> stoken list \<Rightarrow> ('a \<Rightarrow> bool) \<Rightarrow> stoken list \<Rightarrow> bool" where
  "gives m ts Q us \<longleftrightarrow> (\<forall>ps. feeds ps ts \<longrightarrow> (\<exists>x ps'. m ps = Inr (x, ps') \<and> Q x \<and> feeds ps' us))"

lemma gives_bind:
  assumes "gives m ts P us" "\<And>x. P x \<Longrightarrow> gives (k x) us Q vs"
  shows "gives (lbind m k) ts Q vs"
  unfolding gives_def
proof (intro allI impI)
  fix ps
  assume "feeds ps ts"
  then obtain x ps' where "m ps = Inr (x, ps')" "P x" "feeds ps' us" using assms(1) unfolding gives_def by blast
  then show "\<exists>x ps'. lbind m k ps = Inr (x, ps') \<and> Q x \<and> feeds ps' vs"
    using assms(2) [of x] unfolding gives_def lbind_def by auto
qed

lemma gives_seq: "gives m ts P us \<Longrightarrow> gives k us Q vs \<Longrightarrow> gives (lseq m k) ts Q vs"
  unfolding lseq_def by (rule gives_bind)

lemma gives_ret: "Q x \<Longrightarrow> gives (lret x) ts Q ts"
  by (simp add: gives_def lret_def)

lemma gives_weaken: "gives m ts P us \<Longrightarrow> (\<And>x. P x \<Longrightarrow> Q x) \<Longrightarrow> gives m ts Q us"
  by (fastforce simp: gives_def)

lemma gives_fuel: "(\<And>n. length ts + 1 \<le> n \<Longrightarrow> gives (f n) ts Q us) \<Longrightarrow> gives (with_fuel f) ts Q us"
  using left_ok by (fastforce simp: gives_def with_fuel_def)

lemma gives_span: "gives lget_span ts (\<lambda>_. True) ts"
  by (simp add: gives_def lget_span_def)

lemma gives_next: "gives (pnext cmd d) ts (\<lambda>x. fst x = front ts) (tl ts)"
  unfolding gives_def pnext_def using next_ok by fastforce

lemma gives_peek: "gives (ppeek cmd d) ts (\<lambda>x. fst x = front ts) ts"
  unfolding gives_def
proof (intro allI impI)
  fix ps
  assume "feeds ps ts"
  then obtain sp ps' where "next_token cmd d ps = Inr ((front ts, sp), ps')" "feeds (push_back (front ts) sp ps') ts"
    using next_ok by blast
  then show "\<exists>x ps'. ppeek cmd d ps = Inr (x, ps') \<and> fst x = front ts \<and> feeds ps' ts"
    by (simp add: ppeek_def lbind_def lseq_def lmodify_def lret_def)
qed

lemma gives_plain: "gives (pnext_plain cmd d) (SWord w # ts) (\<lambda>x. fst x = stoken_token (SWord w)) ts"
  unfolding gives_def using plain_ok by fastforce

lemma gives_expect: "front ts = t \<Longrightarrow> gives (expect cmd d t) ts (\<lambda>_. True) (tl ts)"
  unfolding expect_def
  by (rule gives_bind [OF gives_next]) (auto simp: token_eq_def gives_ret split: token.split)

lemma gives_collect: "gives (collect_heredocs cmd d) ts (\<lambda>_. True) ts"
  using quiet by (simp add: gives_def collect_heredocs_def)

lemma gives_skip_stop:
  assumes "front ts \<noteq> TkNewline"
  shows "gives (skip_newlines_loop (Suc n) cmd d) ts (\<lambda>_. True) ts"
  unfolding gives_def
proof (intro allI impI)
  fix ps
  assume "feeds ps ts"
  then obtain sp ps' where "next_token cmd d ps = Inr ((front ts, sp), ps')" "feeds (push_back (front ts) sp ps') ts"
    using next_ok by blast
  then show "\<exists>x ps'. skip_newlines_loop (Suc n) cmd d ps = Inr (x, ps') \<and> True \<and> feeds ps' ts"
    using assms by (simp add: pnext_def lbind_def lmodify_def)
qed

lemma gives_skip_newline:
  assumes "front ts = TkNewline" "gives (skip_newlines_loop n cmd d) (tl ts) (\<lambda>_. True) us"
  shows "gives (skip_newlines_loop (Suc n) cmd d) ts (\<lambda>_. True) us"
  unfolding skip_newlines_loop.simps
  by (rule gives_bind [OF gives_next]) (use assms in \<open>auto intro: gives_seq [OF gives_collect]\<close>)

lemma gives_skip_all:
  "gives (skip_newlines cmd d) ts (\<lambda>_. True) (dropWhile (\<lambda>u. stoken_token u = TkNewline) ts)"
  unfolding skip_newlines_def
proof (rule gives_fuel)
  show "length ts + 1 \<le> n \<Longrightarrow>
    gives (skip_newlines_loop n cmd d) ts (\<lambda>_. True) (dropWhile (\<lambda>u. stoken_token u = TkNewline) ts)" for n
  proof (induction ts arbitrary: n)
    case Nil
    then show ?case using gives_skip_stop [of "[]"] by (cases n) auto
  next
    case (Cons u ts)
    then show ?case
      using gives_skip_stop [of "u # ts"] gives_skip_newline [of "u # ts"] by (cases n) auto
  qed
qed

lemma gives_skip: "front ts \<noteq> TkNewline \<Longrightarrow> gives (skip_newlines cmd d) ts (\<lambda>_. True) ts"
  using gives_skip_all [of d ts] by (cases ts) auto

lemma gives_pending: "gives (read_pending_heredocs cmd d c) ts (\<lambda>c'. c' = c) ts"
  using quiet by (simp add: gives_def read_pending_heredocs_def lbind_def)

text \<open>The same as rules for what follows.\<close>

lemma gives_peeked: "(\<And>sp. gives (k (front ts, sp)) ts Q us) \<Longrightarrow> gives (lbind (ppeek cmd d) k) ts Q us"
  by (rule gives_bind [OF gives_peek]) (metis prod.collapse)

lemma gives_nexted: "(\<And>sp. gives (k (front ts, sp)) (tl ts) Q us) \<Longrightarrow> gives (lbind (pnext cmd d) k) ts Q us"
  by (rule gives_bind [OF gives_next]) (metis prod.collapse)

lemma gives_dropped: "gives k (tl ts) Q us \<Longrightarrow> gives (lseq (pnext cmd d) k) ts Q us"
  by (rule gives_seq [OF gives_next])

lemma gives_expected:
  "front ts = t \<Longrightarrow> (\<And>sp. gives (k sp) (tl ts) Q us) \<Longrightarrow> gives (lbind (expect cmd d t) k) ts Q us"
  by (rule gives_bind [OF gives_expect])

lemma gives_expected_seq: "front ts = t \<Longrightarrow> gives k (tl ts) Q us \<Longrightarrow> gives (lseq (expect cmd d t) k) ts Q us"
  by (rule gives_seq [OF gives_expect])

lemma gives_skipped: "front ts \<noteq> TkNewline \<Longrightarrow> gives k ts Q us \<Longrightarrow> gives (lseq (skip_newlines cmd d) k) ts Q us"
  by (rule gives_seq [OF gives_skip])

lemma gives_spanned: "(\<And>sp. gives (k sp) ts Q us) \<Longrightarrow> gives (lbind lget_span k) ts Q us"
  by (rule gives_bind [OF gives_span])

lemma gives_plained:
  "(\<And>sp. gives (k (stoken_token (SWord w), sp)) ts Q us) \<Longrightarrow> gives (lbind (pnext_plain cmd d) k) (SWord w # ts) Q us"
  by (rule gives_bind [OF gives_plain]) (metis prod.collapse)

end

text \<open>A text that writes the tokens out is such a source.\<close>

definition stream_text :: "stoken list \<Rightarrow> ustring" where
  "stream_text ts = concat (map (\<lambda>u. SP # stoken_text u) ts)"

definition written :: "parser \<Rightarrow> stoken list \<Rightarrow> bool" where
  "written ps ts \<longleftrightarrow> list_all stoken_ok ts \<and> recognize_reserved ps \<and> pending_heredocs ps = [] \<and> heredoc_bodies ps = [] \<and>
     (case pushback ps of
        None \<Rightarrow> rest ps = stream_text ts
      | Some (t, _) \<Rightarrow> t = front ts \<and> rest ps = stream_text (tl ts))"

lemma stream_text_simps [simp]: "stream_text [] = []" "stream_text (u # ts) = SP # stoken_text u @ stream_text ts"
  by (simp_all add: stream_text_def)

lemma stream_stops: "word_stop (stream_text ts)"
  by (cases ts) (simp_all add: word_stop_def)

lemma stream_length: "length ts \<le> length (stream_text ts)"
  by (induction ts) auto

lemma read_stream:
  assumes "list_all stoken_ok ts" "pushback ps = None" "rest ps = stream_text ts"
    and "recognize_reserved ps \<or> (\<exists>w us. ts = SWord w # us)"
  shows "\<exists>sp n. next_token cmd d ps = Inr ((front ts, sp), skipped n ps) \<and> drop n (rest ps) = stream_text (tl ts)"
proof (cases ts)
  case Nil
  then have "next_token cmd d ps = Inr ((front ts, lexer_span ps), skipped 0 ps)"
    using assms next_token_end [of ps cmd d] by simp
  then show ?thesis using Nil assms by fastforce
next
  case (Cons u us)
  then obtain sp where "next_token cmd d ps = Inr ((stoken_token u, sp), skipped (Suc (length (stoken_text u))) ps)"
    using next_token_at [of u ps "stream_text us" cmd d] assms stream_stops by auto
  then show ?thesis using Cons assms(3) by fastforce
qed

lemma written_next:
  assumes "written ps ts"
  shows "\<exists>sp ps'. next_token cmd d ps = Inr ((front ts, sp), ps') \<and> written ps' (tl ts) \<and> written (push_back (front ts) sp ps') ts"
proof (cases "pushback ps")
  case None
  then obtain sp n where "next_token cmd d ps = Inr ((front ts, sp), skipped n ps)" "drop n (rest ps) = stream_text (tl ts)"
    using read_stream [of ts ps cmd d] assms by (auto simp: written_def)
  moreover have "list_all stoken_ok (tl ts)" using assms by (cases ts) (auto simp: written_def)
  ultimately show ?thesis using assms None by (auto simp: written_def push_back_def)
next
  case (Some p)
  moreover have "list_all stoken_ok (tl ts)" using assms by (cases ts) (auto simp: written_def)
  ultimately show ?thesis
    using assms by (cases p) (auto simp: written_def push_back_def next_token_def)
qed

lemma written_plain:
  assumes "written ps (SWord w # ts)"
  shows "\<exists>sp ps'. pnext_plain cmd d ps = Inr ((stoken_token (SWord w), sp), ps') \<and> written ps' ts"
proof (cases "pushback ps")
  case None
  then obtain sp n where
    "next_token cmd d (ps\<lparr>recognize_reserved := False\<rparr>) = Inr ((front (SWord w # ts), sp), skipped n (ps\<lparr>recognize_reserved := False\<rparr>))"
    "drop n (rest ps) = stream_text ts"
    using read_stream [of "SWord w # ts" "ps\<lparr>recognize_reserved := False\<rparr>" cmd d] assms by (auto simp: written_def)
  then show ?thesis
    using assms None by (auto simp: written_def pnext_plain_def pnext_def lbind_def lseq_def lmodify_def lret_def)
next
  case (Some p)
  then show ?thesis
    using assms
    by (cases p) (auto simp: written_def pnext_plain_def pnext_def next_token_def lbind_def lseq_def lmodify_def lret_def)
qed

interpretation written: token_source cmd written for cmd
proof (unfold_locales)
  fix ps ts d
  assume w: "written ps ts"
  show "\<exists>sp ps'. next_token cmd d ps = Inr ((front ts, sp), ps') \<and> written ps' (tl ts) \<and> written (push_back (front ts) sp ps') ts"
    using w by (rule written_next)
  show "length ts \<le> length (rest ps) + 1"
    using w stream_length [of ts] stream_length [of "tl ts"] by (auto simp: written_def split: option.splits)
  show "pending_heredocs ps = [] \<and> heredoc_bodies ps = []" using w by (simp add: written_def)
next
  fix ps w ts d
  assume "written ps (SWord w # ts)"
  then show "\<exists>sp ps'. pnext_plain cmd d ps = Inr ((stoken_token (SWord w), sp), ps') \<and> written ps' ts"
    by (rule written_plain)
qed

end
