(* ===== verification/Grammar.thy ===== *)
theory Grammar
  imports Token_Stream
begin

text \<open>
  The grammar that the parser accepts and the tree that it builds.  A program is given by its structure,
  as a value of the datatypes below; \<open>cmd_toks\<close> and its companions write it out as tokens and
  \<open>cmd_tree\<close> is the syntax tree that it stands for.  Parsing what has been written gives the tree.  Not covered are
  words with substitutions or double quotes and here-documents.
\<close>

subsection \<open>Structure\<close>

type_synonym sword = "piece list"

datatype sredir = SRedir "nat option" token sword

datatype separator = BySemi | ByNewline | ByAmp

text \<open>\<open>SPipe\<close> and \<open>SConn\<close> carry whether there is a \<^verbatim>\<open>!\<close> and whether the connective is \<^verbatim>\<open>&&\<close>; \<open>SLoop\<close>
  whether it is \<^verbatim>\<open>until\<close>; \<open>SList\<close> whether a \<^verbatim>\<open>&\<close> ends it.\<close>

datatype scommand =
    SSimple "(ustring \<times> sword) list" "sword list" "sredir list"
  | SSubshell slist "sredir list"
  | SBrace slist "sredir list"
  | SIf slist slist selse "sredir list"
  | SLoop bool slist slist "sredir list"
  | SFor ustring "sword list option" slist "sredir list"
  | SCase sword "sarm list" "sredir list"
  | SFunc ustring scommand
and spipe = SPipe bool scommand "scommand list"
and sconn = SConn bool spipe
and sandor = SAndOr spipe "sconn list"
and sitem = SItem separator sandor
and slist = SList sandor "sitem list" bool
and selse = SFi | SElse slist | SElif slist slist selse
and sarm = SArm "sword list" slist | SEmptyArm "sword list"

subsection \<open>Tokens\<close>

fun redir_toks :: "sredir \<Rightarrow> stoken list" where
  "redir_toks (SRedir fd op w) =
     (case fd of None \<Rightarrow> [] | Some n \<Rightarrow> [SWord [Plain (nat_to_string n)]]) @ [Op op, SWord w]"

definition redirs_toks :: "sredir list \<Rightarrow> stoken list" where
  "redirs_toks rs = concat (map redir_toks rs)"

fun separator_token :: "separator \<Rightarrow> token" where
  "separator_token BySemi = TkSemi"
| "separator_token ByNewline = TkNewline"
| "separator_token ByAmp = TkAmp"

fun in_background :: "slist \<Rightarrow> bool" where
  "in_background (SList a rest_of bg) = bg"

text \<open>A list inside of a compound command is ended by a semicolon, unless an ampersand ends it.\<close>

definition closed :: "slist \<Rightarrow> stoken list \<Rightarrow> stoken list" where
  "closed l ts = ts @ (if in_background l then [] else [Op TkSemi])"

fun pattern_toks :: "sword list \<Rightarrow> stoken list" where
  "pattern_toks [] = []"
| "pattern_toks [w] = [SWord w]"
| "pattern_toks (w # ws) = SWord w # Op TkPipe # pattern_toks ws"

primrec cmd_toks :: "scommand \<Rightarrow> stoken list"
  and pipe_toks :: "spipe \<Rightarrow> stoken list"
  and conn_toks :: "sconn \<Rightarrow> stoken list"
  and andor_toks :: "sandor \<Rightarrow> stoken list"
  and item_toks :: "sitem \<Rightarrow> stoken list"
  and list_toks :: "slist \<Rightarrow> stoken list"
  and else_toks :: "selse \<Rightarrow> stoken list"
  and arm_toks :: "sarm \<Rightarrow> stoken list" where
  "cmd_toks (SSimple as ws rs) = map (\<lambda>(n, v). SAssign n v) as @ map SWord ws @ redirs_toks rs"
| "cmd_toks (SSubshell l rs) = Op TkLParen # closed l (list_toks l) @ Op TkRParen # redirs_toks rs"
| "cmd_toks (SBrace l rs) = Op TkLbrace # closed l (list_toks l) @ Op TkRbrace # redirs_toks rs"
| "cmd_toks (SIf c t e rs) =
     Op TkIf # closed c (list_toks c) @ Op TkThen # closed t (list_toks t) @ else_toks e @ redirs_toks rs"
| "cmd_toks (SLoop until c b rs) =
     Op (if until then TkUntil else TkWhile) # closed c (list_toks c) @ Op TkDo # closed b (list_toks b)
       @ Op TkDone # redirs_toks rs"
| "cmd_toks (SFor var ws b rs) =
     Op TkFor # SWord [Plain var] # (case ws of None \<Rightarrow> [] | Some ws \<Rightarrow> Op TkIn # map SWord ws) @
       Op TkSemi # Op TkDo # closed b (list_toks b) @ Op TkDone # redirs_toks rs"
| "cmd_toks (SCase w arms rs) =
     Op TkCase # SWord w # Op TkIn # concat (map arm_toks arms) @ Op TkEsac # redirs_toks rs"
| "cmd_toks (SFunc name c) = SWord [Plain name] # Op TkLParen # Op TkRParen # cmd_toks c"
| "pipe_toks (SPipe bang c cs) =
     (if bang then [Op TkBang] else []) @ cmd_toks c @ concat (map ((#) (Op TkPipe)) (map cmd_toks cs))"
| "conn_toks (SConn both p) = Op (if both then TkAnd else TkOr) # pipe_toks p"
| "andor_toks (SAndOr p cs) = pipe_toks p @ concat (map conn_toks cs)"
| "item_toks (SItem sep a) = Op (separator_token sep) # andor_toks a"
| "list_toks (SList a items bg) = andor_toks a @ concat (map item_toks items) @ (if bg then [Op TkAmp] else [])"
| "else_toks SFi = [Op TkFi]"
| "else_toks (SElse l) = Op TkElse # closed l (list_toks l) @ [Op TkFi]"
| "else_toks (SElif c t e) =
     Op TkElif # closed c (list_toks c) @ Op TkThen # closed t (list_toks t) @ else_toks e"
| "arm_toks (SArm pats l) = pattern_toks pats @ Op TkRParen # closed l (list_toks l) @ [Op TkSemiSemi]"
| "arm_toks (SEmptyArm pats) = pattern_toks pats @ [Op TkRParen, Op TkSemiSemi]"

subsection \<open>Trees\<close>

definition word_tree :: "sword \<Rightarrow> command word_node" where
  "word_tree w = Word (map piece_part w) span_default"

fun op_kind :: "token \<Rightarrow> command word_node \<Rightarrow> command redir_kind" where
  "op_kind TkLess w = Input w"
| "op_kind TkGreat w = Output w"
| "op_kind TkDGreat w = Append w"
| "op_kind TkClobber w = Clobber w"
| "op_kind TkLessGreat w = ReadWrite w"
| "op_kind TkLessAnd w = DupInput w"
| "op_kind _ w = DupOutput w"

fun redir_tree :: "sredir \<Rightarrow> command redir" where
  "redir_tree (SRedir fd op w) =
     Redir (case fd of None \<Rightarrow> if op \<in> {TkLess, TkLessGreat, TkLessAnd} then 0 else 1 | Some n \<Rightarrow> int n)
       (op_kind op (word_tree w)) span_default"

text \<open>The redirections of a compound command other than a subshell and a group make a group around it.\<close>

definition redirected :: "command \<Rightarrow> sredir list \<Rightarrow> command" where
  "redirected c rs = (if rs = [] then c else BraceGroup c (map redir_tree rs) span_default)"

text \<open>The separator before a command joins it to all that comes before it in the list; an ampersand
  takes all of that to the background.\<close>

fun joined_by :: "command \<Rightarrow> separator \<times> command \<Rightarrow> command" where
  "joined_by c (ByAmp, c') = Sequence (Background c []) c'"
| "joined_by c (_, c') = Sequence c c'"

primrec cmd_tree :: "scommand \<Rightarrow> command"
  and pipe_tree :: "spipe \<Rightarrow> command"
  and conn_tree :: "sconn \<Rightarrow> command \<Rightarrow> command"
  and andor_tree :: "sandor \<Rightarrow> command"
  and item_tree :: "sitem \<Rightarrow> separator \<times> command"
  and list_tree :: "slist \<Rightarrow> command"
  and else_tree :: "selse \<Rightarrow> command option"
  and arm_tree :: "sarm \<Rightarrow> command case_arm" where
  "cmd_tree (SSimple as ws rs) =
     Simple (map (\<lambda>(n, v). Assignment n (word_tree v) span_default) as) (map word_tree ws) (map redir_tree rs) span_default"
| "cmd_tree (SSubshell l rs) = Subshell (list_tree l) (map redir_tree rs) span_default"
| "cmd_tree (SBrace l rs) = BraceGroup (list_tree l) (map redir_tree rs) span_default"
| "cmd_tree (SIf c t e rs) = redirected (If (list_tree c) (list_tree t) (else_tree e) span_default) rs"
| "cmd_tree (SLoop until c b rs) =
     redirected ((if until then Until else While) (list_tree c) (list_tree b) span_default) rs"
| "cmd_tree (SFor var ws b rs) =
     redirected (For var (map_option (map word_tree) ws) (list_tree b) span_default) rs"
| "cmd_tree (SCase w arms rs) = redirected (Case (word_tree w) (map arm_tree arms) span_default) rs"
| "cmd_tree (SFunc name c) = FuncDef name (cmd_tree c) span_default"
| "pipe_tree (SPipe bang c cs) =
     (if cs = [] \<and> \<not> bang then cmd_tree c else Pipeline (cmd_tree c # map cmd_tree cs) bang span_default)"
| "conn_tree (SConn both p) = (\<lambda>left. if both then AndList left (pipe_tree p) else OrList left (pipe_tree p))"
| "andor_tree (SAndOr p cs) = foldl (\<lambda>left f. f left) (pipe_tree p) (map conn_tree cs)"
| "item_tree (SItem sep a) = (sep, andor_tree a)"
| "list_tree (SList a items bg) =
     (let c = foldl joined_by (andor_tree a) (map item_tree items) in if bg then Background c [] else c)"
| "else_tree SFi = None"
| "else_tree (SElse l) = Some (list_tree l)"
| "else_tree (SElif c t e) = Some (If (list_tree c) (list_tree t) (else_tree e) span_default)"
| "arm_tree (SArm pats l) = CaseArm (map word_tree pats) (Some (list_tree l)) span_default"
| "arm_tree (SEmptyArm pats) = CaseArm (map word_tree pats) None span_default"

text \<open>Positions in the source are not part of the structure.\<close>

fun clear_word :: "'c word_node \<Rightarrow> 'c word_node" where
  "clear_word (Word ps sp) = Word ps span_default"

fun clear_kind :: "'c redir_kind \<Rightarrow> 'c redir_kind" where
  "clear_kind (Input w) = Input (clear_word w)"
| "clear_kind (Output w) = Output (clear_word w)"
| "clear_kind (Clobber w) = Clobber (clear_word w)"
| "clear_kind (Append w) = Append (clear_word w)"
| "clear_kind (ReadWrite w) = ReadWrite (clear_word w)"
| "clear_kind (DupInput w) = DupInput (clear_word w)"
| "clear_kind (DupOutput w) = DupOutput (clear_word w)"
| "clear_kind (HereDoc b) = HereDoc b"
| "clear_kind (HereDocStrip b) = HereDocStrip b"

fun clear_redir :: "'c redir \<Rightarrow> 'c redir" where
  "clear_redir (Redir fd kind sp) = Redir fd (clear_kind kind) span_default"

fun clear_assignment :: "'c assignment \<Rightarrow> 'c assignment" where
  "clear_assignment (Assignment name w sp) = Assignment name (clear_word w) span_default"

fun clear_arm :: "'c case_arm \<Rightarrow> 'c case_arm" where
  "clear_arm (CaseArm pats body sp) = CaseArm (map clear_word pats) body span_default"

primrec unspan :: "command \<Rightarrow> command" where
  "unspan (Simple as ws rs sp) =
     Simple (map clear_assignment (map (map_assignment unspan) as)) (map clear_word (map (map_word_node unspan) ws))
       (map clear_redir (map (map_redir unspan) rs)) span_default"
| "unspan (Pipeline cs bang sp) = Pipeline (map unspan cs) bang span_default"
| "unspan (AndList l r) = AndList (unspan l) (unspan r)"
| "unspan (OrList l r) = OrList (unspan l) (unspan r)"
| "unspan (Sequence l r) = Sequence (unspan l) (unspan r)"
| "unspan (Subshell c rs sp) = Subshell (unspan c) (map clear_redir (map (map_redir unspan) rs)) span_default"
| "unspan (BraceGroup c rs sp) = BraceGroup (unspan c) (map clear_redir (map (map_redir unspan) rs)) span_default"
| "unspan (If c t e sp) = If (unspan c) (unspan t) (map_option unspan e) span_default"
| "unspan (While c b sp) = While (unspan c) (unspan b) span_default"
| "unspan (Until c b sp) = Until (unspan c) (unspan b) span_default"
| "unspan (For var ws b sp) =
     For var (map_option (map clear_word) (map_option (map (map_word_node unspan)) ws)) (unspan b) span_default"
| "unspan (Case w arms sp) =
     Case (clear_word (map_word_node unspan w)) (map clear_arm (map (map_case_arm unspan) arms)) span_default"
| "unspan (FuncDef name b sp) = FuncDef name (unspan b) span_default"
| "unspan (NotCommand c) = NotCommand (unspan c)"
| "unspan (Background c rs) = Background (unspan c) (map clear_redir (map (map_redir unspan) rs))"

subsection \<open>Well-formed structures\<close>

definition redir_ops :: "token set" where
  "redir_ops = {TkLess, TkGreat, TkDGreat, TkClobber, TkLessGreat, TkLessAnd, TkGreatAnd}"

fun redir_ok :: "sredir \<Rightarrow> bool" where
  "redir_ok (SRedir fd op w) \<longleftrightarrow> op \<in> redir_ops \<and> word_ok w \<and> (case fd of None \<Rightarrow> True | Some n \<Rightarrow> n < 10 ^ 9)"

text \<open>A word of at most nine digits is the number of a descriptor before a redirection.\<close>

fun fd_like :: "sword \<Rightarrow> bool" where
  "fd_like [Plain s] \<longleftrightarrow> length s \<le> 9 \<and> list_all is_ascii_digit s"
| "fd_like _ \<longleftrightarrow> False"

text \<open>Whether the structure is one that can be written and its lists are nested at most \<open>k\<close> deep.\<close>

primrec cmd_ok :: "scommand \<Rightarrow> nat \<Rightarrow> bool"
  and pipe_ok :: "spipe \<Rightarrow> nat \<Rightarrow> bool"
  and conn_ok :: "sconn \<Rightarrow> nat \<Rightarrow> bool"
  and andor_ok :: "sandor \<Rightarrow> nat \<Rightarrow> bool"
  and item_ok :: "sitem \<Rightarrow> nat \<Rightarrow> bool"
  and list_ok :: "slist \<Rightarrow> nat \<Rightarrow> bool"
  and else_ok :: "selse \<Rightarrow> nat \<Rightarrow> bool"
  and arm_ok :: "sarm \<Rightarrow> nat \<Rightarrow> bool" where
  "cmd_ok (SSimple as ws rs) = (\<lambda>k.
     (as \<noteq> [] \<or> ws \<noteq> []) \<and> list_all (\<lambda>(n, v). stoken_ok (SAssign n v)) as \<and>
     list_all word_ok ws \<and> list_all redir_ok rs \<and> (rs = [] \<or> ws = [] \<or> \<not> fd_like (last ws)))"
| "cmd_ok (SSubshell l rs) = (\<lambda>k. 0 < k \<and> list_ok l (k - 1) \<and> list_all redir_ok rs)"
| "cmd_ok (SBrace l rs) = (\<lambda>k. 0 < k \<and> list_ok l (k - 1) \<and> list_all redir_ok rs)"
| "cmd_ok (SIf c t e rs) = (\<lambda>k.
     0 < k \<and> list_ok c (k - 1) \<and> list_ok t (k - 1) \<and> else_ok e k \<and> list_all redir_ok rs)"
| "cmd_ok (SLoop until c b rs) = (\<lambda>k.
     0 < k \<and> list_ok c (k - 1) \<and> list_ok b (k - 1) \<and> list_all redir_ok rs)"
| "cmd_ok (SFor var ws b rs) = (\<lambda>k.
     0 < k \<and> word_ok [Plain var] \<and> (case ws of None \<Rightarrow> True | Some ws \<Rightarrow> list_all word_ok ws) \<and>
     list_ok b (k - 1) \<and> list_all redir_ok rs)"
| "cmd_ok (SCase w arms rs) = (\<lambda>k.
     word_ok w \<and> list_all (\<lambda>f. f k) (map arm_ok arms) \<and> list_all redir_ok rs)"
| "cmd_ok (SFunc name c) = (\<lambda>k. word_ok [Plain name] \<and> cmd_ok c k)"
| "pipe_ok (SPipe bang c cs) = (\<lambda>k. cmd_ok c k \<and> list_all (\<lambda>f. f k) (map cmd_ok cs))"
| "conn_ok (SConn both p) = pipe_ok p"
| "andor_ok (SAndOr p cs) = (\<lambda>k. pipe_ok p k \<and> list_all (\<lambda>f. f k) (map conn_ok cs))"
| "item_ok (SItem sep a) = andor_ok a"
| "list_ok (SList a items bg) = (\<lambda>k. andor_ok a k \<and> list_all (\<lambda>f. f k) (map item_ok items))"
| "else_ok SFi = (\<lambda>k. True)"
| "else_ok (SElse l) = (\<lambda>k. 0 < k \<and> list_ok l (k - 1))"
| "else_ok (SElif c t e) = (\<lambda>k. 0 < k \<and> list_ok c (k - 1) \<and> list_ok t (k - 1) \<and> else_ok e k)"
| "arm_ok (SArm pats l) = (\<lambda>k. pats \<noteq> [] \<and> list_all word_ok pats \<and> 0 < k \<and> list_ok l (k - 1))"
| "arm_ok (SEmptyArm pats) = (\<lambda>k. pats \<noteq> [] \<and> list_all word_ok pats)"

text \<open>A program is written line by line; in a line the lists have no line breaks between their commands.\<close>

definition line_ok :: "slist \<Rightarrow> bool" where
  "line_ok l \<longleftrightarrow> list_ok l MAX_NESTING_DEPTH \<and>
     (case l of SList a items bg \<Rightarrow> list_all (\<lambda>i. case i of SItem sep _ \<Rightarrow> sep \<noteq> ByNewline) items)"

definition program_toks :: "slist list \<Rightarrow> stoken list" where
  "program_toks ls = concat (map (\<lambda>l. list_toks l @ [Op TkNewline]) ls)"

subsection \<open>Words and redirections\<close>

lemma ascii_to_shell_string: "(\<And>c. c \<in> set s \<Longrightarrow> c < 128) \<Longrightarrow> to_shell_string (from_str_lossless s) = s"
proof -
  assume a: "\<And>c. c \<in> set s \<Longrightarrow> c < 128"
  have "concat (map (enc_unit \<circ> Scalar) s) = s"
    using a
  proof (induction s)
    case (Cons c s)
    have "c < 128" using Cons.prems by simp
    then have "enc_unit (Scalar c) = [c]" by (simp add: special_def ESCAPE_def CTLESC_def is_pua_byte_def PUA_BASE_def)
    moreover have "concat (map (enc_unit \<circ> Scalar) s) = s" by (rule Cons.IH) (simp add: Cons.prems)
    ultimately show ?case by (simp del: enc_unit.simps add: comp_def)
  qed simp
  then show ?thesis
    using a from_str_ascii [of s] wf_ascii [of s] units_utf8 [of s "[]"]
    by (simp add: to_shell_string_def bytes_to_str_units)
qed

lemma plain_parts_to_text: "list_all plain_char s \<Longrightarrow> parts_to_text (map piece_part [Plain s]) = s"
  using ascii_to_shell_string [of s] plain_ascii [of s] by simp

lemma fd_text_word: "word_ok w \<Longrightarrow> fd_text (map piece_part w) (list_ex (\<lambda>p. \<not> is_plain p) w) \<longleftrightarrow> fd_like w"
proof (cases "\<exists>s. w = [Plain s]")
  case True
  then obtain s where s: "w = [Plain s]" by blast
  then show "word_ok w \<Longrightarrow> ?thesis"
    using plain_parts_to_text [of s] by (auto simp: fd_text_def word_ok_def)
next
  case False
  assume ok: "word_ok w"
  have "list_ex (\<lambda>p. \<not> is_plain p) w"
  proof (rule ccontr)
    assume "\<not> ?thesis"
    then have "list_all is_plain w" by (simp add: list_ex_iff list_all_iff)
    moreover have "w \<noteq> []" "spaced w" using ok by (auto simp: word_ok_def)
    ultimately obtain p where "w = [p]" "is_plain p" by (cases w rule: spaced.cases) auto
    then show False using False by (cases p) auto
  qed
  moreover have "\<not> fd_like w" using False by (cases w rule: fd_like.cases) auto
  ultimately show ?thesis by (simp add: fd_text_def)
qed

lemma digit_plain: "is_ascii_digit c \<Longrightarrow> plain_char c \<and> c \<noteq> EQUALS"
proof -
  have "\<forall>x \<in> insert EQUALS (set (ustr '';&()|<>#~$`'')). \<not> is_ascii_digit x"
    "\<not> is_ascii_digit DQUOTE" "\<not> is_ascii_digit SQUOTE" "\<not> is_ascii_digit BACKSLASH"
    by (simp_all add: is_ascii_digit_def)
  then show "is_ascii_digit c \<Longrightarrow> ?thesis" unfolding plain_char_def by (auto simp: is_ascii_digit_def)
qed

lemma nat_to_string_word: "word_ok [Plain (nat_to_string n)]"
proof -
  have d: "list_all is_ascii_digit (nat_to_string n)" by (simp add: list_all_iff nat_to_string_digits)
  have "\<forall>w \<in> fst ` set reserved_words. \<not> list_all is_ascii_digit w"
    by (simp add: reserved_words_def is_ascii_digit_def)
  then have "nat_to_string n \<notin> fst ` set reserved_words" using d by blast
  then show ?thesis using d digit_plain by (auto simp: word_ok_def list_all_iff)
qed

lemma nat_to_string_length: "n < 10 ^ Suc k \<Longrightarrow> length (nat_to_string n) \<le> Suc k"
proof (induction k arbitrary: n)
  case 0
  then show ?case by (subst nat_to_string.simps) simp
next
  case (Suc k)
  then have "n div 10 < 10 ^ Suc k" by (simp add: less_mult_imp_div_less)
  then show ?case using Suc.IH [of "n div 10"] by (subst nat_to_string.simps) auto
qed

lemma fd_number_nat: "n < 10 ^ 9 \<Longrightarrow> fd_number (map piece_part [Plain (nat_to_string n)]) = int n"
proof -
  assume n: "n < 10 ^ 9"
  then have "i64_of_int (int n) = Some (word_of_int (int n))" by (simp add: i64_of_int_def)
  moreover have "sint (word_of_int (int n) :: i64) = int n"
    using n by (simp add: sint_sbintrunc' signed_take_bit_int_eq_self del: of_int_of_nat_eq)
  moreover have "list_all plain_char (nat_to_string n)" using nat_to_string_word [of n] by (simp add: word_ok_def)
  ultimately show ?thesis
    using n plain_parts_to_text [of "nat_to_string n"]
    by (simp add: fd_number_def parse_i32_def parse_i64_def i64_from_str_radix_digit hd_nat_to_string
        parse_nat_radix_nat_to_string)
qed

definition plain_redir :: "command redir \<Rightarrow> command redir" where
  "plain_redir r = clear_redir (map_redir unspan r)"

definition plain_assign :: "command assignment \<Rightarrow> command assignment" where
  "plain_assign a = clear_assignment (map_assignment unspan a)"

definition plain_word :: "command word_node \<Rightarrow> command word_node" where
  "plain_word w = clear_word (map_word_node unspan w)"

definition plain_arm :: "command case_arm \<Rightarrow> command case_arm" where
  "plain_arm a = clear_arm (map_case_arm unspan a)"

lemma map_word_part_piece [simp]: "map_word_part f (piece_part p) = piece_part p"
  by (cases p) simp_all

lemma plain_word_parts [simp]: "plain_word (Word (map piece_part w) sp) = word_tree w"
  by (simp add: plain_word_def word_tree_def)

lemma plain_assign_word [simp]:
  "plain_assign (Assignment n (Word (map piece_part w) sp) sp') = Assignment n (word_tree w) span_default"
  by (simp add: plain_assign_def word_tree_def)

lemma unspan_plain [simp]:
  "unspan (Simple as ws rs sp) = Simple (map plain_assign as) (map plain_word ws) (map plain_redir rs) span_default"
  "unspan (Subshell c rs sp) = Subshell (unspan c) (map plain_redir rs) span_default"
  "unspan (BraceGroup c rs sp) = BraceGroup (unspan c) (map plain_redir rs) span_default"
  "unspan (For var words_in b sp) = For var (map_option (map plain_word) words_in) (unspan b) span_default"
  "unspan (Case w arms sp) = Case (plain_word w) (map plain_arm arms) span_default"
  "unspan (Background c rs) = Background (unspan c) (map plain_redir rs)"
  by (simp_all add: plain_assign_def [abs_def] plain_word_def [abs_def] plain_redir_def [abs_def]
      plain_arm_def [abs_def] option.map_comp comp_def)

declare unspan.simps(1,6,7,11,12,15) [simp del]

text \<open>The tokens that can follow a command.\<close>

definition ends :: "token \<Rightarrow> bool" where
  "ends t \<longleftrightarrow> t \<in> {TkSemi, TkNewline, TkAmp, TkPipe, TkAnd, TkOr, TkSemiSemi, TkRParen, TkEof}"

context token_source
begin

lemma gives_redir:
  assumes "op \<in> redir_ops"
  shows "gives (parse_redir_after_op cmd d op sp) (SWord w # ts) (\<lambda>r. plain_redir r = redir_tree (SRedir None op w)) ts"
proof -
  have "op \<noteq> TkDLess" "op \<noteq> TkDLessDash" using assms by (auto simp: redir_ops_def)
  moreover have "gives (lbind (word_or_reserved ExpectedFilename ts') (\<lambda>v. lret (Redir (default_fd op) (redir_kind_of op v) sp)))
      ts (\<lambda>r. plain_redir r = redir_tree (SRedir None op w)) ts" if "fst ts' = stoken_token (SWord w)" for ts'
    using that assms
    by (cases ts') (auto simp: word_or_reserved_def lbind_def lret_def gives_def plain_redir_def word_tree_def
        default_fd_def redir_ops_def)
  ultimately show ?thesis
    unfolding parse_redir_after_op_def by (simp add: gives_bind [OF gives_plain])
qed

text \<open>Redirections: with and without a number.\<close>

lemma front_redir:
  "redir_ok (SRedir fd op w) \<Longrightarrow> front (redir_toks (SRedir fd op w) @ ts) =
     (case fd of None \<Rightarrow> op | Some n \<Rightarrow> TkWord (map piece_part [Plain (nat_to_string n)]) False)"
  by (cases fd) auto

lemma redir_ops_is_redir: "op \<in> redir_ops \<Longrightarrow> is_redir op"
  by (auto simp: redir_ops_def)

lemma gives_unnumbered:
  assumes "redir_ok (SRedir None op w)"
    and "\<And>r'. plain_redir r' = redir_tree (SRedir None op w) \<Longrightarrow> gives (k r') us Q vs"
  shows "gives (lseq (pnext cmd d) (lbind (parse_redir_after_op cmd d op sp) k)) (Op op # SWord w # us) Q vs"
proof (rule gives_dropped)
  have "op \<in> redir_ops" using assms(1) by simp
  then show "gives (lbind (parse_redir_after_op cmd d op sp) k) (tl (Op op # SWord w # us)) Q vs"
    using gives_bind [OF gives_redir assms(2)] by simp
qed

lemma gives_numbered:
  assumes "redir_ok (SRedir (Some n) op w)" and fd: "ps = map piece_part [Plain (nat_to_string n)]"
    and then_ok: "\<And>r'. plain_redir r' = redir_tree (SRedir (Some n) op w) \<Longrightarrow> gives (k r') us Q vs"
  shows "gives
    (lseq (pnext cmd d) (lbind (ppeek cmd d) (\<lambda>(tok2, sp2).
       if is_redir tok2 then
         lseq (pnext cmd d) (lbind (parse_redir_after_op cmd d tok2 sp2)
           (\<lambda>r. k (set_redir_fd (fd_number ps) r)))
       else m tok2 sp2)))
    (SWord [Plain (nat_to_string n)] # Op op # SWord w # us) Q vs"
proof -
  have op: "op \<in> redir_ops" "n < 10 ^ 9" using assms(1) by simp_all
  have set_fd: "plain_redir (set_redir_fd (int n) r) = redir_tree (SRedir (Some n) op w)"
    if "plain_redir r = redir_tree (SRedir None op w)" for r
    using that by (cases r) (auto simp: set_redir_fd_def plain_redir_def)
  have "gives (lbind (parse_redir_after_op cmd d op sp2)
      (\<lambda>r. k (set_redir_fd (fd_number ps) r))) (SWord w # us) Q vs" for sp2
    unfolding fd fd_number_nat [OF op(2)] by (rule gives_bind [OF gives_redir [OF op(1)]]) (rule then_ok [OF set_fd])
  then show ?thesis
    using op by (intro gives_dropped gives_peeked) (simp add: redir_ops_is_redir gives_dropped)
qed

lemma redirs_toks_length: "length rs \<le> length (redirs_toks rs)"
proof (induction rs)
  case (Cons a r)
  then show ?case by (cases a) (auto simp: redirs_toks_def split: option.split)
qed simp

lemma fd_text_nat: "n < 10 ^ 9 \<Longrightarrow> fd_text (map piece_part [Plain (nat_to_string n)]) False"
  using fd_text_word [OF nat_to_string_word, of n] nat_to_string_length [of n 8] nat_to_string_digits [of _ n]
  by (simp add: list_all_iff)

lemma gives_redirections_loop:
  assumes "list_all redir_ok rs" "\<not> is_redir (front ts)" "\<And>ps b. front ts \<noteq> TkWord ps b" "length rs < n"
  shows "gives (redirections_loop n cmd d rs0) (redirs_toks rs @ ts)
    (\<lambda>rs'. \<exists>rs1. rs' = rs0 @ rs1 \<and> map plain_redir rs1 = map redir_tree rs) ts"
  using assms(1,4)
proof (induction rs arbitrary: n rs0)
  case Nil
  then obtain m where n: "n = Suc m" by (cases n) auto
  show ?case
    unfolding n redirections_loop.simps
    by (rule gives_peeked) (use assms(2,3) in \<open>auto simp: redirs_toks_def gives_ret split: token.split\<close>)
next
  case (Cons r rs)
  obtain fd op w where r: "r = SRedir fd op w" by (cases r)
  obtain m where n: "n = Suc m" "length rs < m" using Cons.prems by (cases n) auto
  have ok: "redir_ok r" "is_redir op" using Cons.prems(1) r redir_ops_is_redir by auto
  have IH: "gives (redirections_loop m cmd d (rs0 @ [r'])) (redirs_toks rs @ ts)
      (\<lambda>rs'. \<exists>rs1. rs' = rs0 @ rs1 \<and> map plain_redir rs1 = map redir_tree (r # rs)) ts"
    if "plain_redir r' = redir_tree r" for r'
    using Cons.prems n(2) that by (intro gives_weaken [OF Cons.IH]) auto
  show ?case
  proof (cases fd)
    case None
    then show ?thesis
      using ok r gives_unnumbered [OF _ IH] unfolding n(1) redirections_loop.simps
      by (intro gives_peeked) (simp add: redirs_toks_def)
  next
    case (Some k)
    have "fd_text (map piece_part [Plain (nat_to_string k)]) False" using ok(1) r Some by (intro fd_text_nat) simp
    then show ?thesis
      unfolding n(1) redirections_loop.simps
    proof (intro gives_peeked, goal_cases)
      case (1 sp)
      then show ?case
        using ok Some r IH
        by (simp add: redirs_toks_def gives_numbered [where k = "\<lambda>r. redirections_loop m cmd d (rs0 @ [r])" and n = k])
    qed
  qed
qed

lemma gives_redirections:
  assumes "list_all redir_ok rs" "ends (front ts)"
  shows "gives (parse_redirections cmd d) (redirs_toks rs @ ts) (\<lambda>rs'. map plain_redir rs' = map redir_tree rs) ts"
  unfolding parse_redirections_def
proof (rule gives_fuel)
  fix n assume n: "length (redirs_toks rs @ ts) + 1 \<le> n"
  have "length rs < n" using n redirs_toks_length [of rs] by simp
  then show "gives (redirections_loop n cmd d []) (redirs_toks rs @ ts) (\<lambda>rs'. map plain_redir rs' = map redir_tree rs) ts"
    using assms by (intro gives_weaken [OF gives_redirections_loop]) (auto simp: ends_def)
qed

subsection \<open>Simple commands\<close>

lemma ends_cases: "ends t \<Longrightarrow> \<not> is_redir t \<and> reserved_word_text t = [] \<and> t \<noteq> TkWord ps q \<and> t \<noteq> TkAssignment n v \<and>
    t \<noteq> TkLParen \<and> t \<noteq> TkIn"
  by (auto simp: ends_def)

lemma redir_op_cases: "op \<in> redir_ops \<Longrightarrow> is_redir op \<and> reserved_word_text op = []"
  by (auto simp: redir_ops_def)

lemma gives_no_func: "front ts \<noteq> TkLParen \<Longrightarrow> gives (func_def cmd pc d first name sp) ts (\<lambda>f. f = None) ts"
  unfolding func_def_def by (auto intro!: gives_peeked gives_ret)

lemma gives_args_redirs:
  assumes "list_all redir_ok rs" "ends (front ts)" "length rs < n"
  shows "gives (args_loop n cmd pc d na args rs0) (redirs_toks rs @ ts)
    (\<lambda>x. \<exists>rs1. x = Inr (args, rs0 @ rs1) \<and> map plain_redir rs1 = map redir_tree rs) ts"
  using assms(1,3)
proof (induction rs arbitrary: n rs0)
  case Nil
  then obtain m where n: "n = Suc m" by (cases n) auto
  show ?case
    unfolding n args_loop.simps
    by (rule gives_peeked)
      (use ends_cases [OF assms(2)] in \<open>auto simp: redirs_toks_def Let_def gives_ret split: token.split\<close>)
next
  case (Cons r rs)
  obtain fd op w where r: "r = SRedir fd op w" by (cases r)
  obtain m where n: "n = Suc m" "length rs < m" using Cons.prems by (cases n) auto
  have ok: "redir_ok r" "op \<in> redir_ops" using Cons.prems(1) r by auto
  have IH: "gives (args_loop m cmd pc d na args (rs0 @ [r'])) (redirs_toks rs @ ts)
      (\<lambda>x. \<exists>rs1. x = Inr (args, rs0 @ rs1) \<and> map plain_redir rs1 = map redir_tree (r # rs)) ts"
    if "plain_redir r' = redir_tree r" for r'
    using Cons.prems n(2) that by (intro gives_weaken [OF Cons.IH]) auto
  show ?case
    unfolding n(1) args_loop.simps
  proof (rule gives_peeked, cases fd, goal_cases)
    case (1 sp)
    then show ?case
      using ok r redir_op_cases [OF ok(2)] IH
        gives_unnumbered [where k = "\<lambda>r. args_loop m cmd pc d na args (rs0 @ [r])" and us = "redirs_toks rs @ ts" and op = op and w = w]
      by (cases op) (simp_all add: redirs_toks_def Let_def)
  next
    case (2 sp k)
    have "fd_text (map piece_part [Plain (nat_to_string k)]) False" using ok(1) r 2 by (intro fd_text_nat) simp
    then show ?case
      using ok 2 r IH
      by (simp add: redirs_toks_def Let_def gives_numbered [where k = "\<lambda>r. args_loop m cmd pc d na args (rs0 @ [r])" and n = k])
  qed
qed

lemma front_redirs:
  assumes "list_all redir_ok rs" "ends (front ts)"
  shows "front (redirs_toks rs @ ts) \<noteq> TkLParen \<and> front (redirs_toks rs @ ts) \<noteq> TkAssignment nm v \<and>
    (rs = [] \<longrightarrow> \<not> is_redir (front (redirs_toks rs @ ts)))"
proof (cases rs)
  case Nil
  then show ?thesis using ends_cases [OF assms(2)] by (simp add: redirs_toks_def)
next
  case (Cons r qs)
  obtain fd op w where r: "r = SRedir fd op w" by (cases r)
  then have "op \<in> redir_ops" using assms(1) Cons by simp
  then have "op \<noteq> TkLParen \<and> op \<noteq> TkAssignment nm v" by (auto simp: redir_ops_def)
  then show ?thesis by (cases fd) (simp_all add: Cons r redirs_toks_def)
qed

lemma gives_args:
  assumes "list_all word_ok ws" "list_all redir_ok rs" "rs = [] \<or> ws = [] \<or> \<not> fd_like (last ws)" "ends (front ts)"
    and "length ws + length rs < n"
  shows "gives (args_loop n cmd pc d na args rs0) (map SWord ws @ redirs_toks rs @ ts)
    (\<lambda>x. \<exists>ws1 rs1. x = Inr (args @ ws1, rs0 @ rs1) \<and> map plain_word ws1 = map word_tree ws \<and>
       map plain_redir rs1 = map redir_tree rs) ts"
  using assms(1,3,5)
proof (induction ws arbitrary: n args)
  case Nil
  then show ?case
    by (auto intro!: gives_weaken [OF gives_args_redirs [OF assms(2,4)]])
next
  case (Cons w ws)
  let ?us = "map SWord ws @ redirs_toks rs @ ts"
  let ?Q = "\<lambda>x. \<exists>ws1 rs1. x = Inr (args @ ws1, rs0 @ rs1) \<and> map plain_word ws1 = map word_tree (w # ws) \<and>
       map plain_redir rs1 = map redir_tree rs"
  obtain m where n: "n = Suc m" "length ws + length rs < m" using Cons.prems by (cases n) auto
  have ok: "word_ok w" using Cons.prems(1) by simp
  have redir: "fd_like w \<Longrightarrow> \<not> is_redir (front ?us)"
    using Cons.prems(2) front_redirs [OF assms(2,4)] by (cases ws) auto
  have IH: "gives (args_loop m cmd pc d na (args @ [Word (map piece_part w) sp]) rs0) ?us ?Q ts" for sp
    using Cons.prems n(2) by (intro gives_weaken [OF Cons.IH]) (auto split: if_splits)
  have "front ?us \<noteq> TkLParen" using front_redirs [OF assms(2,4)] by (cases ws) auto
  then have after: "gives (lbind (func_def cmd pc d first name sp) (\<lambda>f. case f of
      Some c \<Rightarrow> lret (Inl c)
    | None \<Rightarrow> args_loop m cmd pc d na (args @ [Word (map piece_part w) sp]) rs0)) ?us ?Q ts" for first name sp
    using IH by (intro gives_bind [OF gives_no_func]) simp_all
  show ?case
    unfolding n(1) args_loop.simps
    by (rule gives_peeked)
      (use after redir fd_text_word [OF ok] in \<open>auto simp: Let_def intro!: gives_dropped gives_peeked\<close>)
qed

lemma gives_assigns:
  assumes "length as < n" "\<And>nm v. front ts \<noteq> TkAssignment nm v"
  shows "gives (assigns_loop n cmd d as0) (map (\<lambda>(nm, v). SAssign nm v) as @ ts)
    (\<lambda>x. \<exists>as1. x = as0 @ as1 \<and> map plain_assign as1 = map (\<lambda>(nm, v). Assignment nm (word_tree v) span_default) as) ts"
  using assms(1)
proof (induction as arbitrary: n as0)
  case Nil
  then obtain m where "n = Suc m" by (cases n) auto
  then show ?case using assms(2) by (auto intro!: gives_peeked gives_ret split: token.split)
next
  case (Cons a as)
  obtain nm v where a: "a = (nm, v)" by (cases a)
  obtain m where n: "n = Suc m" "length as < m" using Cons.prems by (cases n) auto
  have "gives (assigns_loop m cmd d (as0 @ [Assignment nm (Word (map piece_part v) sp) sp])) (map (\<lambda>(nm, v). SAssign nm v) as @ ts)
    (\<lambda>x. \<exists>as1. x = as0 @ as1 \<and> map plain_assign as1 = map (\<lambda>(nm, v). Assignment nm (word_tree v) span_default) (a # as)) ts" for sp
    using n(2) by (intro gives_weaken [OF Cons.IH]) (auto simp: a)
  then show ?case unfolding n(1) assigns_loop.simps by (intro gives_peeked) (simp add: a gives_dropped)
qed

lemma gives_simple:
  assumes "cmd_ok (SSimple as ws rs) k" "ends (front ts)"
  shows "gives (parse_simple_command_or_func cmd pc d) (cmd_toks (SSimple as ws rs) @ ts)
    (\<lambda>c. unspan c = cmd_tree (SSimple as ws rs)) ts"
proof -
  let ?us = "map SWord ws @ redirs_toks rs @ ts"
  have na: "front ?us \<noteq> TkAssignment nm v" for nm v
    using assms front_redirs [of rs ts nm v] by (cases ws) auto
  have 1: "gives (with_fuel (\<lambda>n. assigns_loop n cmd d [])) (map (\<lambda>(nm, v). SAssign nm v) as @ ?us)
      (\<lambda>as1. map plain_assign as1 = map (\<lambda>(nm, v). Assignment nm (word_tree v) span_default) as) ?us"
    by (rule gives_fuel) (rule gives_weaken [OF gives_assigns], use na in auto)
  have 2: "gives (with_fuel (\<lambda>n. args_loop n cmd pc d na [] [])) ?us
      (\<lambda>x. \<exists>ws1 rs1. x = Inr (ws1, rs1) \<and> map plain_word ws1 = map word_tree ws \<and> map plain_redir rs1 = map redir_tree rs) ts" for na
  proof (rule gives_fuel)
    fix n assume "length ?us + 1 \<le> n"
    then have "length ws + length rs < n" using redirs_toks_length [of rs] by simp
    then show "gives (args_loop n cmd pc d na [] []) ?us
      (\<lambda>x. \<exists>ws1 rs1. x = Inr (ws1, rs1) \<and> map plain_word ws1 = map word_tree ws \<and> map plain_redir rs1 = map redir_tree rs) ts"
      using assms by (intro gives_weaken [OF gives_args]) auto
  qed
  show ?thesis
    unfolding parse_simple_command_or_func_def cmd_toks.simps append_assoc
  proof (rule gives_spanned, rule gives_bind [OF 1], rule gives_bind [OF 2], goal_cases)
    case (1 sp as1 x)
    then obtain ws1 rs1 where "x = Inr (ws1, rs1)" "map plain_word ws1 = map word_tree ws" "map plain_redir rs1 = map redir_tree rs"
      by blast
    then show ?case
      using 1(1) assms(1) by (auto intro!: gives_ret)
  qed
qed

subsection \<open>Pipelines and lists\<close>

text \<open>A parser reads the tokens and returns the tree, whatever comes after them, as long as it may follow.\<close>

definition parses :: "command px \<Rightarrow> stoken list \<Rightarrow> command \<Rightarrow> (token \<Rightarrow> bool) \<Rightarrow> bool" where
  "parses m ts c follow \<longleftrightarrow> (\<forall>us. follow (front us) \<longrightarrow> gives m (ts @ us) (\<lambda>c'. unspan c' = c) us)"

lemma parsesD: "parses m ts c follow \<Longrightarrow> follow (front us) \<Longrightarrow> gives m (ts @ us) (\<lambda>c'. unspan c' = c) us"
  by (simp add: parses_def)

lemma command_start_not_newline: "is_command_start t \<Longrightarrow> t \<noteq> TkNewline \<and> \<not> ends t \<or> t = TkLParen"
  by (cases t) (auto simp: ends_def)

lemma cmd_front: "cmd_ok s k \<Longrightarrow> is_command_start (front (cmd_toks s @ ts)) \<and> front (cmd_toks s @ ts) \<noteq> TkBang"
proof (cases s)
  case (SSimple as ws rs)
  assume "cmd_ok s k"
  then show ?thesis
  proof (cases as)
    case Nil
    then show ?thesis using SSimple \<open>cmd_ok s k\<close> by (cases ws) auto
  qed (auto simp: SSimple)
qed auto

lemma pipe_front: "pipe_ok p k \<Longrightarrow> is_command_start (front (pipe_toks p @ ts))"
  by (cases p) (auto dest: cmd_front)

lemma andor_front: "andor_ok a k \<Longrightarrow> is_command_start (front (andor_toks a @ ts))"
  by (cases a) (auto dest: pipe_front)

lemma not_newline: "is_command_start t \<Longrightarrow> t \<noteq> TkNewline"
  by (cases t) auto

lemma gives_pipe_loop:
  assumes "\<And>s. s \<in> set cs \<Longrightarrow> parses (pc d) (cmd_toks s) (cmd_tree s) ends \<and> cmd_ok s k"
    and "ends (front us)" "front us \<noteq> TkPipe" "length cs < n"
  shows "gives (pipe_loop n cmd pc d acc) (concat (map ((#) (Op TkPipe)) (map cmd_toks cs)) @ us)
    (\<lambda>r. \<exists>r1. r = acc @ r1 \<and> map unspan r1 = map cmd_tree cs) us"
  using assms(1,4)
proof (induction cs arbitrary: n acc)
  case Nil
  then obtain m where "n = Suc m" by (cases n) auto
  then show ?case using assms(3) by (auto intro!: gives_peeked gives_ret)
next
  case (Cons s cs)
  let ?us = "concat (map ((#) (Op TkPipe)) (map cmd_toks cs)) @ us"
  obtain m where n: "n = Suc m" "length cs < m" using Cons.prems by (cases n) auto
  have IH: "gives (pipe_loop m cmd pc d (acc @ [c])) ?us (\<lambda>r. \<exists>r1. r = acc @ r1 \<and> map unspan r1 = map cmd_tree (s # cs)) us"
    if "unspan c = cmd_tree s" for c
    using Cons.prems(1) n(2) that by (intro gives_weaken [OF Cons.IH]) auto
  have "ends (front ?us)" using assms(2) by (cases cs) (auto simp: ends_def)
  then have "gives (lbind (pc d) (\<lambda>c. pipe_loop m cmd pc d (acc @ [c]))) (cmd_toks s @ ?us)
      (\<lambda>r. \<exists>r1. r = acc @ r1 \<and> map unspan r1 = map cmd_tree (s # cs)) us"
    using Cons.prems(1) [of s] by (intro gives_bind [OF parsesD [of _ _ _ ends] IH]) auto
  moreover have "front (cmd_toks s @ ?us) \<noteq> TkNewline" using Cons.prems(1) [of s] cmd_front not_newline by auto
  ultimately show ?case
    unfolding n(1) pipe_loop.simps by (intro gives_peeked) (simp add: gives_dropped gives_skipped)
qed

lemma gives_pipeline:
  assumes "parses (pc d) (cmd_toks s) (cmd_tree s) ends" "cmd_ok s k"
    and "\<And>s. s \<in> set cs \<Longrightarrow> parses (pc d) (cmd_toks s) (cmd_tree s) ends \<and> cmd_ok s k"
  shows "parses (parse_pipeline cmd pc d) (pipe_toks (SPipe bang s cs)) (pipe_tree (SPipe bang s cs))
    (\<lambda>t. ends t \<and> t \<noteq> TkPipe)"
  unfolding parses_def
proof (intro allI impI, elim conjE)
  fix us assume us: "ends (front us)" "front us \<noteq> TkPipe"
  let ?more = "concat (map ((#) (Op TkPipe)) (map cmd_toks cs)) @ us"
  have loop: "gives (with_fuel (\<lambda>n. pipe_loop n cmd pc d [c])) ?more
      (\<lambda>r. map unspan r = cmd_tree s # map cmd_tree cs) us" if "unspan c = cmd_tree s" for c
  proof (rule gives_fuel)
    fix n assume n: "length ?more + 1 \<le> n"
    have "length cs \<le> length (concat (map ((#) (Op TkPipe)) (map cmd_toks cs)))" by (induction cs) auto
    then show "gives (pipe_loop n cmd pc d [c]) ?more (\<lambda>r. map unspan r = cmd_tree s # map cmd_tree cs) us"
      using n us assms(3) that by (intro gives_weaken [OF gives_pipe_loop]) auto
  qed
  have "ends (front ?more)" using us by (cases cs) (auto simp: ends_def)
  then have first: "gives (lbind (pc d) (\<lambda>first.
      lbind (with_fuel (\<lambda>n. pipe_loop n cmd pc d [first])) (\<lambda>commands.
        lret (if length commands = 1 \<and> \<not> bang then hd commands else Pipeline commands bang sp))))
      (cmd_toks s @ ?more) (\<lambda>c'. unspan c' = pipe_tree (SPipe bang s cs)) us" for sp
  proof (rule gives_bind [OF parsesD [OF assms(1)] gives_bind [OF loop gives_ret]])
    fix commands assume c: "map unspan commands = cmd_tree s # map cmd_tree cs"
    then show "unspan (if length commands = 1 \<and> \<not> bang then hd commands else Pipeline commands bang sp) =
        pipe_tree (SPipe bang s cs)"
      using arg_cong [OF c, of length] by (cases commands) auto
  qed
  show "gives (parse_pipeline cmd pc d) (pipe_toks (SPipe bang s cs) @ us)
      (\<lambda>c'. unspan c' = pipe_tree (SPipe bang s cs)) us"
    unfolding parse_pipeline_def
  proof (rule gives_peeked, goal_cases)
    case (1 sp)
    have is_bang: "(front (pipe_toks (SPipe bang s cs) @ us) = TkBang) = bang" using cmd_front [OF assms(2)] by simp
    show ?case
      unfolding Let_def prod.case is_bang using first [of sp]
      by (cases bang) (auto intro!: gives_seq [OF gives_dropped] gives_seq [OF gives_ret] gives_ret)
  qed
qed

lemma gives_and_or_loop:
  assumes "\<And>b p. SConn b p \<in> set cs \<Longrightarrow>
      parses (parse_pipeline cmd pc d) (pipe_toks p) (pipe_tree p) (\<lambda>t. ends t \<and> t \<noteq> TkPipe) \<and> pipe_ok p k"
    and "ends (front us)" "front us \<notin> {TkPipe, TkAnd, TkOr}" "length cs < n"
  shows "gives (and_or_loop n cmd pc d left) (concat (map conn_toks cs) @ us)
    (\<lambda>c. unspan c = foldl (\<lambda>left f. f left) (unspan left) (map conn_tree cs)) us"
  using assms(1,4)
proof (induction cs arbitrary: n left)
  case Nil
  then obtain m where "n = Suc m" by (cases n) auto
  then show ?case using assms(3) by (auto intro!: gives_peeked gives_ret)
next
  case (Cons conn cs)
  obtain b p where conn: "conn = SConn b p" by (cases conn)
  let ?us = "concat (map conn_toks cs) @ us"
  let ?Q = "\<lambda>c. unspan c = foldl (\<lambda>left f. f left) (unspan left) (map conn_tree (conn # cs))"
  obtain m where n: "n = Suc m" "length cs < m" using Cons.prems by (cases n) auto
  have p: "parses (parse_pipeline cmd pc d) (pipe_toks p) (pipe_tree p) (\<lambda>t. ends t \<and> t \<noteq> TkPipe)" "pipe_ok p k"
    using Cons.prems(1) [of b p] conn by auto
  have IH: "gives (and_or_loop m cmd pc d (if b then AndList left right else OrList left right)) ?us ?Q us"
    if "unspan right = pipe_tree p" for right
    using Cons.prems(1) n(2) that by (intro gives_weaken [OF Cons.IH]) (auto simp: conn)
  have "ends (front ?us) \<and> front ?us \<noteq> TkPipe"
  proof (cases cs)
    case (Cons c cs)
    then show ?thesis by (cases c) (auto simp: ends_def)
  qed (use assms in auto)
  then have "gives (lbind (parse_pipeline cmd pc d) (\<lambda>right.
      and_or_loop m cmd pc d (if b then AndList left right else OrList left right))) (pipe_toks p @ ?us) ?Q us"
    by (intro gives_bind [OF parsesD [OF p(1)] IH]) auto
  moreover have "front (pipe_toks p @ ?us) \<noteq> TkNewline" using pipe_front [OF p(2)] not_newline by auto
  ultimately show ?case
    unfolding n(1) and_or_loop.simps
    by (intro gives_peeked) (cases b; simp add: conn gives_dropped gives_skipped)
qed

lemma gives_and_or:
  assumes "parses (parse_pipeline cmd pc d) (pipe_toks p) (pipe_tree p) (\<lambda>t. ends t \<and> t \<noteq> TkPipe)"
    and "\<And>b p. SConn b p \<in> set cs \<Longrightarrow>
      parses (parse_pipeline cmd pc d) (pipe_toks p) (pipe_tree p) (\<lambda>t. ends t \<and> t \<noteq> TkPipe) \<and> pipe_ok p k"
  shows "parses (parse_and_or cmd pc d) (andor_toks (SAndOr p cs)) (andor_tree (SAndOr p cs))
    (\<lambda>t. ends t \<and> t \<notin> {TkPipe, TkAnd, TkOr})"
  unfolding parses_def
proof (intro allI impI, elim conjE)
  fix us assume us: "ends (front us)" "front us \<notin> {TkPipe, TkAnd, TkOr}"
  let ?more = "concat (map conn_toks cs) @ us"
  have "length cs \<le> length (concat (map conn_toks cs))"
  proof (induction cs)
    case (Cons c cs)
    then show ?case by (cases c) auto
  qed simp
  then have loop: "gives (with_fuel (\<lambda>n. and_or_loop n cmd pc d left)) ?more
      (\<lambda>c. unspan c = foldl (\<lambda>left f. f left) (unspan left) (map conn_tree cs)) us" for left
    using us by (intro gives_fuel gives_and_or_loop [OF assms(2)]) auto
  have "ends (front ?more) \<and> front ?more \<noteq> TkPipe"
  proof (cases cs)
    case (Cons c cs)
    then show ?thesis by (cases c) (auto simp: ends_def)
  qed (use us in auto)
  then show "gives (parse_and_or cmd pc d) (andor_toks (SAndOr p cs) @ us) (\<lambda>c'. unspan c' = andor_tree (SAndOr p cs)) us"
    unfolding parse_and_or_def andor_toks.simps append_assoc andor_tree.simps
    by (intro gives_bind [OF parsesD [OF assms(1)]] gives_weaken [OF loop]) auto
qed

abbreviation list_follow :: "token \<Rightarrow> bool" where
  "list_follow \<equiv> \<lambda>t. ends t \<and> t \<notin> {TkPipe, TkAnd, TkOr}"

lemma gives_next_in_list:
  assumes "parses (parse_and_or cmd pc d) (andor_toks a) (andor_tree a) list_follow" "andor_ok a k" "list_follow (front us)"
    and "\<And>c'. unspan c' = Sequence (unspan c) (andor_tree a) \<Longrightarrow> gives (m c') us Q vs"
  shows "gives (lbind (next_in_list cmd pc d c) m) (andor_toks a @ us) Q vs"
proof -
  have "gives (next_in_list cmd pc d c) (andor_toks a @ us) (\<lambda>c'. unspan c' = Sequence (unspan c) (andor_tree a)) us"
    unfolding next_in_list_def
    by (rule gives_peeked)
      (use andor_front [OF assms(2)] assms(3) in \<open>auto intro!: gives_bind [OF parsesD [OF assms(1)]] gives_ret\<close>)
  then show ?thesis using assms(4) by (rule gives_bind)
qed

lemma gives_no_next:
  assumes "\<not> is_command_start (front us)" "gives (m c) us Q vs"
  shows "gives (lbind (next_in_list cmd pc d c) m) us Q vs"
proof -
  have "gives (next_in_list cmd pc d c) us (\<lambda>c'. c' = c) us"
    unfolding next_in_list_def by (rule gives_peeked) (use assms(1) in \<open>auto intro: gives_ret\<close>)
  then show ?thesis by (rule gives_bind) (simp add: assms(2))
qed

lemma gives_skip_if: "front ts \<noteq> TkNewline \<Longrightarrow> gives (if b then skip_newlines cmd d else lret ()) ts (\<lambda>_. True) ts"
  by (simp add: gives_skip gives_ret)

lemma gives_list_items:
  assumes "\<And>sep a. SItem sep a \<in> set items \<Longrightarrow>
      parses (parse_and_or cmd pc d) (andor_toks a) (andor_tree a) list_follow \<and> andor_ok a k \<and> (nl \<or> sep \<noteq> ByNewline)"
    and "list_follow (front us)" "length items \<le> n"
    and "\<And>c'. unspan c' = foldl joined_by (unspan c) (map item_tree items) \<Longrightarrow>
      gives (list_loop (n - length items) cmd pc d nl c') us Q vs"
  shows "gives (list_loop n cmd pc d nl c) (concat (map item_toks items) @ us) Q vs"
  using assms(1,3,4)
proof (induction items arbitrary: n c)
  case Nil
  then show ?case by simp
next
  case (Cons item items)
  obtain sep a where item: "item = SItem sep a" by (cases item)
  let ?us = "concat (map item_toks items) @ us"
  obtain m where n: "n = Suc m" "length items \<le> m" using Cons.prems(2) by (cases n) auto
  have a: "parses (parse_and_or cmd pc d) (andor_toks a) (andor_tree a) list_follow" "andor_ok a k" "nl \<or> sep \<noteq> ByNewline"
    using Cons.prems(1) [of sep a] item by auto
  have front_us: "list_follow (front ?us)"
  proof (cases items)
    case (Cons i items)
    obtain sep a where "i = SItem sep a" by (cases i)
    then show ?thesis using Cons by (cases sep) (auto simp: ends_def)
  qed (use assms(2) in auto)
  have IH: "gives (list_loop m cmd pc d nl c') ?us Q vs" if "unspan c' = joined_by (unspan c) (sep, andor_tree a)" for c'
    using Cons.prems(1,3) n that by (intro Cons.IH) (auto simp: item)
  have step: "gives (lbind (next_in_list cmd pc d c1) (\<lambda>c. list_loop m cmd pc d nl c)) (andor_toks a @ ?us) Q vs"
    if "Sequence (unspan c1) (andor_tree a) = joined_by (unspan c) (sep, andor_tree a)" for c1
    using that by (intro gives_next_in_list [OF a(1,2) front_us] IH) simp
  have nn: "front (andor_toks a @ ?us) \<noteq> TkNewline" using andor_front [OF a(2)] not_newline by auto
  show ?case
    unfolding n(1) list_loop.simps
  proof (rule gives_peeked, cases sep, goal_cases)
    case (1 sp)
    then show ?case using nn step [of c] by (simp add: item gives_dropped gives_skipped)
  next
    case (2 sp)
    then show ?case using nn step [of c] a(3) by (simp add: item gives_dropped gives_skipped gives_seq [OF gives_collect])
  next
    case (3 sp)
    then show ?case
      using nn step [of "Background c []"] by (simp add: item gives_dropped gives_seq [OF gives_skip_if])
  qed
qed

text \<open>The end of a list in a compound command, and of one that stands alone in its line.\<close>

definition closes :: "token \<Rightarrow> bool" where
  "closes t \<longleftrightarrow> \<not> is_command_start t \<and> t \<notin> {TkSemi, TkAmp, TkNewline}"

lemma closers [simp]:
  "closes TkRParen" "closes TkRbrace" "closes TkThen" "closes TkDo" "closes TkDone" "closes TkElse" "closes TkElif"
  "closes TkFi" "closes TkSemiSemi" "closes TkEsac"
  by (simp_all add: closes_def)

lemma gives_list_stop:
  assumes "front us \<notin> {TkSemi, TkAmp}" "nl \<longrightarrow> front us \<noteq> TkNewline" "n \<noteq> 0" "Q c"
  shows "gives (list_loop n cmd pc d nl c) us Q us"
proof -
  obtain m where "n = Suc m" using assms(3) by (cases n) auto
  then show ?thesis using assms by (auto intro!: gives_peeked gives_ret)
qed

lemma gives_list_closed:
  assumes "closes (front us)" "2 \<le> n"
  shows "gives (list_loop n cmd pc d True c) (Op (if bg then TkAmp else TkSemi) # us)
    (\<lambda>c'. unspan c' = (if bg then Background (unspan c) [] else unspan c)) us"
proof -
  obtain m where n: "n = Suc m" "m \<noteq> 0" using assms(2) by (cases n) auto
  have u: "front us \<noteq> TkNewline" "\<not> is_command_start (front us)" using assms by (auto simp: closes_def)
  have step: "gives (lbind (next_in_list cmd pc d c') (\<lambda>c. list_loop m cmd pc d True c)) us Q us" if "Q c'" for c' Q
    using assms(1) n(2) that by (intro gives_no_next [OF u(2)] gives_list_stop) (auto simp: closes_def)
  show ?thesis
    unfolding n(1) list_loop.simps by (rule gives_peeked) (use u step in \<open>auto intro!: gives_dropped gives_skipped\<close>)
qed

lemma gives_list_line:
  assumes "front us = TkNewline \<or> front us = TkEof" "n \<noteq> 0" "bg \<longrightarrow> 2 \<le> n"
  shows "gives (list_loop n cmd pc d False c) ((if bg then [Op TkAmp] else []) @ us)
    (\<lambda>c'. unspan c' = (if bg then Background (unspan c) [] else unspan c)) us"
proof (cases bg)
  case True
  obtain m where n: "n = Suc m" "m \<noteq> 0" using assms(3) True by (cases n) auto
  have step: "gives (lbind (next_in_list cmd pc d c') (\<lambda>c. list_loop m cmd pc d False c)) us Q us" if "Q c'" for c' Q
    using assms(1) n(2) that by (intro gives_no_next gives_list_stop) auto
  show ?thesis
    unfolding n(1) list_loop.simps
    by (rule gives_peeked) (use True step in \<open>auto intro!: gives_dropped gives_seq [OF gives_ret]\<close>)
next
  case False
  then show ?thesis using assms gives_list_stop [of us False n _ c] by auto
qed

lemma items_length: "length items \<le> length (concat (map item_toks items))"
proof (induction items)
  case (Cons i items)
  then show ?case by (cases i) auto
qed simp

lemma gives_block:
  assumes "parses (parse_and_or cmd pc (Suc d)) (andor_toks a) (andor_tree a) list_follow"
    and "\<And>sep a. SItem sep a \<in> set items \<Longrightarrow>
      parses (parse_and_or cmd pc (Suc d)) (andor_toks a) (andor_tree a) list_follow \<and> andor_ok a k"
    and "d < MAX_NESTING_DEPTH" "closes (front us)"
  shows "gives (parse_compound_list cmd pc d) (closed (SList a items bg) (list_toks (SList a items bg)) @ us)
    (\<lambda>c. unspan c = list_tree (SList a items bg)) us"
proof -
  let ?tail = "Op (if bg then TkAmp else TkSemi) # us"
  let ?more = "concat (map item_toks items) @ ?tail"
  have toks: "closed (SList a items bg) (list_toks (SList a items bg)) @ us = andor_toks a @ ?more"
    by (simp add: closed_def)
  have loop: "gives (with_fuel (\<lambda>n. list_loop n cmd pc (Suc d) True c)) ?more (\<lambda>c. unspan c = list_tree (SList a items bg)) us"
    if c: "unspan c = andor_tree a" for c
  proof (rule gives_fuel)
    fix n assume "length ?more + 1 \<le> n"
    then have n: "length items \<le> n" "2 \<le> n - length items" using items_length [of items] by auto
    show "gives (list_loop n cmd pc (Suc d) True c) ?more (\<lambda>c. unspan c = list_tree (SList a items bg)) us"
      using assms(2) c n
      by (intro gives_list_items gives_weaken [OF gives_list_closed [OF assms(4)]]) (auto simp: ends_def Let_def)
  qed
  have "list_follow (front ?more)"
  proof (cases items)
    case (Cons i others)
    obtain sep b where "i = SItem sep b" by (cases i)
    then show ?thesis using Cons by (cases sep) (auto simp: ends_def)
  qed (auto simp: ends_def)
  then have body: "gives (parse_command_list cmd pc (Suc d) True) (andor_toks a @ ?more)
      (\<lambda>c. unspan c = list_tree (SList a items bg)) us"
    unfolding parse_command_list_def by (intro gives_bind [OF parsesD [OF assms(1)] loop])
  have deep: "\<not> MAX_NESTING_DEPTH \<le> d" using assms(3) by simp
  show ?thesis
    unfolding toks parse_compound_list_def nested_def
    by (rule gives_peeked) (simp only: prod.case deep if_False body)
qed

lemma gives_line:
  assumes "parses (parse_and_or cmd pc d) (andor_toks a) (andor_tree a) list_follow"
    and "\<And>sep a. SItem sep a \<in> set items \<Longrightarrow>
      parses (parse_and_or cmd pc d) (andor_toks a) (andor_tree a) list_follow \<and> andor_ok a k \<and> sep \<noteq> ByNewline"
    and "front us = TkNewline \<or> front us = TkEof"
  shows "gives (parse_command_list cmd pc d False) (list_toks (SList a items bg) @ us)
    (\<lambda>c. unspan c = list_tree (SList a items bg)) us"
proof -
  let ?tail = "(if bg then [Op TkAmp] else []) @ us"
  let ?more = "concat (map item_toks items) @ ?tail"
  have loop: "gives (with_fuel (\<lambda>n. list_loop n cmd pc d False c)) ?more (\<lambda>c. unspan c = list_tree (SList a items bg)) us"
    if c: "unspan c = andor_tree a" for c
  proof (rule gives_fuel)
    fix n assume "length ?more + 1 \<le> n"
    then have n: "length items \<le> n" "n - length items \<noteq> 0" "bg \<longrightarrow> 2 \<le> n - length items"
      using items_length [of items] by auto
    show "gives (list_loop n cmd pc d False c) ?more (\<lambda>c. unspan c = list_tree (SList a items bg)) us"
      using assms(2,3) c n
      by (intro gives_list_items gives_weaken [OF gives_list_line [OF assms(3)]]) (auto simp: ends_def Let_def)
  qed
  have "list_follow (front ?more)"
  proof (cases items)
    case (Cons i others)
    obtain sep b where "i = SItem sep b" by (cases i)
    then show ?thesis using Cons by (cases sep) (auto simp: ends_def)
  qed (use assms(3) in \<open>auto simp: ends_def\<close>)
  then show ?thesis
    unfolding parse_command_list_def list_toks.simps append_assoc
    by (intro gives_bind [OF parsesD [OF assms(1)] loop]) auto
qed

subsection \<open>Compound commands\<close>

lemma lret_then [simp]: "lbind (lret x) k = k x" "lseq (lret x) m = m" "lbind (lseq m (lret x)) k = lseq m (k x)"
  by (auto simp: lbind_def lseq_def lret_def split: sum.splits)

definition reads_block :: "command_parser \<Rightarrow> nat \<Rightarrow> slist \<Rightarrow> bool" where
  "reads_block pc d l \<longleftrightarrow> is_command_start (front (list_toks l)) \<and>
     (\<forall>us. closes (front us) \<longrightarrow>
        gives (parse_compound_list cmd pc d) (closed l (list_toks l) @ us) (\<lambda>c. unspan c = list_tree l) us)"

lemma gives_inner:
  assumes "reads_block pc d l" "closes (front us)" "\<And>c. unspan c = list_tree l \<Longrightarrow> gives (m c) us Q vs"
  shows "gives (lbind (inner_list cmd pc d) m) (closed l (list_toks l) @ us) Q vs"
proof (rule gives_bind)
  have "front (closed l (list_toks l) @ us) = front (list_toks l)"
    using assms(1) by (cases "list_toks l") (auto simp: closed_def reads_block_def)
  then have "front (closed l (list_toks l) @ us) \<noteq> TkNewline" "front us \<noteq> TkNewline"
    using assms(1,2) not_newline by (auto simp: reads_block_def closes_def)
  then show "gives (inner_list cmd pc d) (closed l (list_toks l) @ us) (\<lambda>c. unspan c = list_tree l) us"
    using assms(1,2) unfolding inner_list_def reads_block_def
    by (blast intro: gives_skipped gives_bind gives_ret)
qed (rule assms(3))

lemma unspan_grouped:
  "map plain_redir rs1 = map redir_tree rs \<Longrightarrow> unspan (grouped c rs1 sp) = redirected (unspan c) rs"
  by (auto simp: grouped_def redirected_def)

lemma gives_subshell:
  assumes "reads_block pc d l" "list_all redir_ok rs"
  shows "parses (parse_subshell cmd pc d) (cmd_toks (SSubshell l rs)) (cmd_tree (SSubshell l rs)) ends"
  unfolding parses_def parse_subshell_def
  by (auto intro!: gives_expected gives_inner [OF assms(1)] gives_expected_seq gives_bind [OF gives_redirections [OF assms(2)]]
      gives_ret)

lemma gives_brace_group:
  assumes "reads_block pc d l" "list_all redir_ok rs"
  shows "parses (parse_brace_group cmd pc d) (cmd_toks (SBrace l rs)) (cmd_tree (SBrace l rs)) ends"
  unfolding parses_def parse_brace_group_def
  by (auto intro!: gives_expected gives_inner [OF assms(1)] gives_expected_seq gives_bind [OF gives_redirections [OF assms(2)]]
      gives_ret)

lemma gives_do_group:
  assumes "reads_block pc d b" "list_all redir_ok rs" "ends (front us)"
    and "\<And>body rs1. unspan body = list_tree b \<Longrightarrow> map plain_redir rs1 = map redir_tree rs \<Longrightarrow> gives (m (body, rs1)) us Q vs"
  shows "gives (lbind (do_group cmd pc d) m) (Op TkDo # closed b (list_toks b) @ Op TkDone # redirs_toks rs @ us) Q vs"
proof (rule gives_bind)
  show "gives (do_group cmd pc d) (Op TkDo # closed b (list_toks b) @ Op TkDone # redirs_toks rs @ us)
      (\<lambda>x. unspan (fst x) = list_tree b \<and> map plain_redir (snd x) = map redir_tree rs) us"
    unfolding do_group_def
    by (auto intro!: gives_expected_seq gives_inner [OF assms(1)] gives_bind [OF gives_redirections [OF assms(2,3)]] gives_ret)
qed (use assms(4) in auto)

lemma gives_loop:
  assumes "reads_block pc d c" "reads_block pc d b" "list_all redir_ok rs"
  shows "parses (if until then parse_until cmd pc d else parse_while cmd pc d) (cmd_toks (SLoop until c b rs))
    (cmd_tree (SLoop until c b rs)) ends"
  unfolding parses_def parse_until_def parse_while_def
  by (auto intro!: gives_expected gives_inner [OF assms(1)] gives_do_group [OF assms(2,3)] gives_ret
      simp: unspan_grouped)

text \<open>The branches of an \<^verbatim>\<open>if\<close>.\<close>

fun is_elif :: "selse \<Rightarrow> bool" where
  "is_elif (SElif c t e) = True"
| "is_elif _ = False"

definition reads_elif :: "command px \<Rightarrow> nat \<Rightarrow> selse \<Rightarrow> bool" where
  "reads_elif m d e \<longleftrightarrow> (\<forall>us. gives m (else_toks e @ us) (\<lambda>x. Some (unspan x) = else_tree e) us)"

lemma gives_else_part:
  assumes "is_elif e \<Longrightarrow> reads_elif m d e" "\<And>l. e = SElse l \<Longrightarrow> reads_block pc d l"
    and "\<And>x. map_option unspan x = else_tree e \<Longrightarrow> gives (k x) us Q vs"
  shows "gives (lbind (else_part cmd pc d m) k) (else_toks e @ us) Q vs"
proof (rule gives_bind)
  show "gives (else_part cmd pc d m) (else_toks e @ us) (\<lambda>x. map_option unspan x = else_tree e) us"
  proof (cases e)
    case SFi
    then show ?thesis unfolding else_part_def by (auto intro!: gives_peeked gives_dropped gives_ret)
  next
    case (SElse l)
    then show ?thesis
      unfolding else_part_def
      by (auto intro!: gives_peeked gives_dropped gives_inner [OF assms(2)] gives_expected_seq gives_ret)
  next
    case (SElif c t e')
    then have "gives m (else_toks e @ us) (\<lambda>x. Some (unspan x) = else_tree e) us"
      using assms(1) by (simp add: reads_elif_def)
    then have "gives (lbind m (\<lambda>c. lret (Some c))) (else_toks e @ us) (\<lambda>x. map_option unspan x = else_tree e) us"
      by (rule gives_bind) (simp add: gives_ret)
    then show ?thesis using SElif unfolding else_part_def by (intro gives_peeked) simp
  qed
qed (rule assms(3))

lemma else_closes: "closes (front (else_toks e @ us))"
  by (cases e) simp_all

lemma gives_elif:
  assumes "reads_block pc d c" "reads_block pc d t" "\<And>l. e = SElse l \<Longrightarrow> reads_block pc d l"
    and "is_elif e \<Longrightarrow> reads_elif (parse_elif n cmd pc d) d e"
  shows "reads_elif (parse_elif (Suc n) cmd pc d) d (SElif c t e)"
  unfolding reads_elif_def parse_elif.simps
  by (auto intro!: gives_expected gives_expected_seq gives_inner [OF assms(1)] gives_inner [OF assms(2)]
      gives_else_part [OF assms(4,3)] gives_ret simp: else_closes)

lemma gives_if:
  assumes "reads_block pc d c" "reads_block pc d t" "\<And>l. e = SElse l \<Longrightarrow> reads_block pc d l"
    and "\<And>n. is_elif e \<Longrightarrow> length (else_toks e) \<le> n \<Longrightarrow> reads_elif (parse_elif n cmd pc d) d e"
    and "list_all redir_ok rs"
  shows "parses (parse_if cmd pc d) (cmd_toks (SIf c t e rs)) (cmd_tree (SIf c t e rs)) ends"
proof -
  have "reads_elif (with_fuel (\<lambda>n. parse_elif n cmd pc d)) d e" if "is_elif e"
    using assms(4) [OF that] unfolding reads_elif_def by (auto intro!: gives_fuel)
  then show ?thesis
    unfolding parses_def parse_if_def
    by (auto intro!: gives_expected gives_expected_seq gives_inner [OF assms(1)] gives_inner [OF assms(2)]
        gives_else_part [OF _ assms(3)] gives_bind [OF gives_redirections [OF assms(5)]] gives_ret
        simp: else_closes unspan_grouped)
qed

lemma gives_for_words:
  assumes "length ws < n"
  shows "gives (for_words n cmd d acc) (map SWord ws @ Op TkSemi # us)
    (\<lambda>r. \<exists>r1. r = acc @ r1 \<and> map plain_word r1 = map word_tree ws) us"
  using assms
proof (induction ws arbitrary: n acc)
  case Nil
  then obtain m where "n = Suc m" by (cases n) auto
  then show ?case by (auto intro!: gives_peeked gives_dropped gives_ret)
next
  case (Cons w ws)
  obtain m where n: "n = Suc m" "length ws < m" using Cons.prems by (cases n) auto
  have "gives (for_words m cmd d (acc @ [Word (map piece_part w) sp])) (map SWord ws @ Op TkSemi # us)
      (\<lambda>r. \<exists>r1. r = acc @ r1 \<and> map plain_word r1 = map word_tree (w # ws)) us" for sp
    using n(2) by (intro gives_weaken [OF Cons.IH]) auto
  then show ?case unfolding n(1) for_words.simps by (intro gives_peeked) (simp add: gives_dropped)
qed

lemma gives_for:
  assumes "reads_block pc d b" "list_all redir_ok rs" "word_ok [Plain var]"
  shows "parses (parse_for cmd pc d) (cmd_toks (SFor var ws b rs)) (cmd_tree (SFor var ws b rs)) ends"
  unfolding parses_def
proof (intro allI impI)
  fix us assume us: "ends (front us)"
  have var: "parts_to_text (map piece_part [Plain var] :: command word_part list) = var"
    using assms(3) by (intro plain_parts_to_text) (simp add: word_ok_def)
  have body: "gives (lbind (do_group cmd pc d) (\<lambda>(body, redirs). lret (grouped (For var wso body sp) redirs sp)))
      (Op TkDo # closed b (list_toks b) @ Op TkDone # redirs_toks rs @ us)
      (\<lambda>c. unspan c = cmd_tree (SFor var ws b rs)) us"
    if "map_option (map plain_word) wso = map_option (map word_tree) ws" for wso sp
    using that by (auto intro!: gives_do_group [OF assms(1,2) us] gives_ret simp: unspan_grouped)
  have words: "gives (with_fuel (\<lambda>n. for_words n cmd d [])) (map SWord ws1 @ Op TkSemi # vs)
      (\<lambda>r. map plain_word r = map word_tree ws1) vs" for ws1 vs
    by (rule gives_fuel) (rule gives_weaken [OF gives_for_words], auto)
  have some_words: "gives (lseq (pnext cmd d) (lbind (with_fuel (\<lambda>n. for_words n cmd d [])) (\<lambda>ws. lret (Some ws))))
      (Op TkIn # map SWord ws1 @ Op TkSemi # vs) (\<lambda>x. \<exists>r. x = Some r \<and> map plain_word r = map word_tree ws1) vs" for ws1 vs
    by (rule gives_dropped) (auto intro!: gives_bind [OF words] gives_ret)
  have no_words: "gives (lbind (ppeek cmd d) (\<lambda>(tok, _). if tok = TkSemi then lseq (pnext cmd d) (lret None) else lret None))
      (Op TkSemi # vs) (\<lambda>x. x = None) vs" for vs
    by (auto intro!: gives_peeked gives_dropped gives_ret)
  show "gives (parse_for cmd pc d) (cmd_toks (SFor var ws b rs) @ us) (\<lambda>c. unspan c = cmd_tree (SFor var ws b rs)) us"
  proof (cases ws)
    case None
    then show ?thesis
      using body var unfolding parse_for_def
      by (auto intro!: gives_expected gives_plained gives_skipped gives_peeked gives_bind [OF no_words])
  next
    case (Some ws1)
    then show ?thesis
      using body var unfolding parse_for_def
      by (auto intro!: gives_expected gives_plained gives_skipped gives_peeked
          gives_bind [OF some_words])
  qed
qed

lemma gives_patterns:
  assumes "pats \<noteq> []" "length pats \<le> n" "front us \<noteq> TkPipe"
  shows "gives (patterns_loop n cmd d acc) (pattern_toks pats @ us)
    (\<lambda>r. \<exists>r1. r = acc @ r1 \<and> map plain_word r1 = map word_tree pats) us"
  using assms(1,2)
proof (induction pats arbitrary: n acc rule: pattern_toks.induct)
  case (2 w)
  then obtain m where "n = Suc m" by (cases n) auto
  then show ?case
    using assms(3)
    by (auto simp: word_or_reserved_def intro!: gives_plained gives_peeked gives_ret)
next
  case (3 w v vs)
  then obtain m where n: "n = Suc m" "length (v # vs) \<le> m" by (cases n) auto
  have "gives (patterns_loop m cmd d (acc @ [Word (map piece_part w) sp])) (pattern_toks (v # vs) @ us)
      (\<lambda>r. \<exists>r1. r = acc @ r1 \<and> map plain_word r1 = map word_tree (w # v # vs)) us" for sp
    using n(2) by (intro gives_weaken [OF 3(1)]) auto
  then show ?case
    unfolding n(1) patterns_loop.simps
    by (auto simp: word_or_reserved_def intro!: gives_plained gives_peeked gives_dropped)
qed simp

lemma pattern_toks_length: "length pats \<le> length (pattern_toks pats)"
  by (induction pats rule: pattern_toks.induct) auto

lemma pattern_front: "pats \<noteq> [] \<Longrightarrow> \<exists>w. front (pattern_toks pats @ us) = stoken_token (SWord w)"
  by (cases pats rule: pattern_toks.cases) auto

lemma gives_with_patterns:
  assumes "pats \<noteq> []" "front us \<noteq> TkPipe"
  shows "gives (with_fuel (\<lambda>n. patterns_loop n cmd d [])) (pattern_toks pats @ us)
    (\<lambda>r. map plain_word r = map word_tree pats) us"
  by (rule gives_fuel)
    (rule gives_weaken [OF gives_patterns [OF assms(1) _ assms(2)]], use pattern_toks_length [of pats] in auto)

lemma plain_arm_simps: "plain_arm (CaseArm pats body sp) = CaseArm (map plain_word pats) (map_option unspan body) span_default"
  by (simp add: plain_arm_def plain_word_def [abs_def] comp_def)

lemma gives_empty_arm:
  assumes "pats \<noteq> []" "front us \<noteq> TkNewline"
  shows "gives (parse_case_arm cmd pc d) (arm_toks (SEmptyArm pats) @ us)
    (\<lambda>a. plain_arm a = arm_tree (SEmptyArm pats)) us"
proof -
  obtain w where w: "front (pattern_toks pats @ Op TkRParen # Op TkSemiSemi # us) = stoken_token (SWord w)"
    using pattern_front [OF assms(1)] by blast
  show ?thesis
    unfolding parse_case_arm_def
    using w assms(2)
    by (auto intro!: gives_spanned gives_peeked gives_bind [OF gives_with_patterns [OF assms(1)]]
        gives_expected_seq gives_skipped gives_seq [OF gives_dropped [OF gives_skip]] gives_ret
        simp: plain_arm_simps)
qed

lemma gives_arm:
  assumes "pats \<noteq> []" "front us \<noteq> TkNewline" "reads_block pc d l"
  shows "gives (parse_case_arm cmd pc d) (arm_toks (SArm pats l) @ us) (\<lambda>a. plain_arm a = arm_tree (SArm pats l)) us"
proof -
  let ?us = "closed l (list_toks l) @ Op TkSemiSemi # us"
  obtain w where w: "front (pattern_toks pats @ Op TkRParen # ?us) = stoken_token (SWord w)"
    using pattern_front [OF assms(1)] by blast
  have "front ?us = front (list_toks l)"
    using assms(3) by (cases "list_toks l") (auto simp: closed_def reads_block_def)
  then have start: "is_command_start (front ?us)" using assms(3) by (simp add: reads_block_def)
  then have f: "front ?us \<noteq> TkNewline" "front ?us \<noteq> TkSemiSemi" "front ?us \<noteq> TkEsac" by (cases "front ?us"; simp)+
  have block: "gives (lbind (parse_compound_list cmd pc d) (\<lambda>c. lret (Some c))) ?us
      (\<lambda>x. \<exists>c. x = Some c \<and> unspan c = list_tree l) (Op TkSemiSemi # us)"
    using assms(3) by (auto intro!: gives_bind [where us = "Op TkSemiSemi # us" and P = "\<lambda>c. unspan c = list_tree l"] gives_ret
        simp: reads_block_def)
  show ?thesis
    unfolding parse_case_arm_def
    using w f assms(2)
    by (auto intro!: gives_spanned gives_peeked gives_bind [OF gives_with_patterns [OF assms(1)]]
        gives_expected_seq gives_skipped gives_bind [OF block] gives_seq [OF gives_dropped [OF gives_skip]] gives_ret
        simp: plain_arm_simps)
qed

lemma arm_front: "arm_ok a k \<Longrightarrow> \<exists>w. front (arm_toks a @ us) = stoken_token (SWord w)"
  by (cases a) (auto simp: pattern_front simp del: stoken_token.simps)

lemma arms_front:
  assumes "\<And>a. a \<in> set arms \<Longrightarrow> arm_ok a k"
  shows "front (concat (map arm_toks arms) @ Op TkEsac # us) \<noteq> TkNewline"
proof (cases arms)
  case (Cons a as)
  then obtain w where "front (arm_toks a @ concat (map arm_toks as) @ Op TkEsac # us) = stoken_token (SWord w)"
    using assms [of a] arm_front [of a k] by auto
  then show ?thesis using Cons by simp
qed simp

lemma gives_arms:
  assumes "\<And>a us. a \<in> set arms \<Longrightarrow> front us \<noteq> TkNewline \<Longrightarrow>
      arm_ok a k \<and> gives (parse_case_arm cmd pc d) (arm_toks a @ us) (\<lambda>x. plain_arm x = arm_tree a) us"
    and "length arms < n"
  shows "gives (arms_loop n cmd pc d acc) (concat (map arm_toks arms) @ Op TkEsac # us)
    (\<lambda>r. \<exists>r1. r = acc @ r1 \<and> map plain_arm r1 = map arm_tree arms) us"
  using assms
proof (induction arms arbitrary: n acc)
  case Nil
  then obtain m where "n = Suc m" by (cases n) auto
  then show ?case by (auto intro!: gives_peeked gives_dropped gives_ret)
next
  case (Cons a arms)
  let ?us = "concat (map arm_toks arms) @ Op TkEsac # us"
  obtain m where n: "n = Suc m" "length arms < m" using Cons.prems(2) by (cases n) auto
  have ok: "arm_ok b k" if "b \<in> set (a # arms)" for b using Cons.prems(1) [OF that, of "[]"] by simp
  then have nn: "front ?us \<noteq> TkNewline" by (intro arms_front [of _ k]) simp
  obtain w where w: "front (arm_toks a @ ?us) = stoken_token (SWord w)" using arm_front ok by fastforce
  have IH: "gives (arms_loop m cmd pc d (acc @ [x])) ?us (\<lambda>r. \<exists>r1. r = acc @ r1 \<and> map plain_arm r1 = map arm_tree (a # arms)) us"
    if "plain_arm x = arm_tree a" for x
    using Cons.prems(1) n(2) that by (intro gives_weaken [OF Cons.IH]) auto
  have "gives (parse_case_arm cmd pc d) (arm_toks a @ ?us) (\<lambda>x. plain_arm x = arm_tree a) ?us"
    using Cons.prems(1) [of a ?us] nn by simp
  then have "gives (lbind (parse_case_arm cmd pc d) (\<lambda>arm. lseq (skip_newlines cmd d) (arms_loop m cmd pc d (acc @ [arm]))))
      (arm_toks a @ ?us) (\<lambda>r. \<exists>r1. r = acc @ r1 \<and> map plain_arm r1 = map arm_tree (a # arms)) us"
    by (rule gives_bind) (rule gives_skipped [OF nn IH])
  then show ?case unfolding n(1) arms_loop.simps using w by (intro gives_peeked) simp
qed

lemma gives_case:
  assumes "\<And>a us. a \<in> set arms \<Longrightarrow> front us \<noteq> TkNewline \<Longrightarrow>
      arm_ok a k \<and> gives (parse_case_arm cmd pc d) (arm_toks a @ us) (\<lambda>x. plain_arm x = arm_tree a) us"
    and "list_all redir_ok rs"
  shows "parses (parse_case cmd pc d) (cmd_toks (SCase w arms rs)) (cmd_tree (SCase w arms rs)) ends"
proof -
  have "length arms \<le> length (concat (map arm_toks arms))"
  proof (induction arms)
    case (Cons a arms)
    then show ?case by (cases a) auto
  qed simp
  then have arms: "gives (with_fuel (\<lambda>n. arms_loop n cmd pc d [])) (concat (map arm_toks arms) @ Op TkEsac # us)
      (\<lambda>r. map plain_arm r = map arm_tree arms) us" for us
    by (intro gives_fuel gives_weaken [OF gives_arms [OF assms(1)]]) auto
  have "front (concat (map arm_toks arms) @ Op TkEsac # us) \<noteq> TkNewline" for us
    using assms(1) [of _ "[]"] by (intro arms_front [of _ k]) simp
  then show ?thesis
    unfolding parses_def parse_case_def
    by (auto intro!: gives_expected gives_plained gives_skipped gives_expected_seq gives_bind [OF arms]
        gives_bind [OF gives_redirections [OF assms(2)]] gives_ret simp: unspan_grouped)
qed

lemma gives_func:
  assumes "word_ok [Plain name]" "parses (pc d) (cmd_toks c) (cmd_tree c) ends" "cmd_ok c k"
  shows "parses (parse_simple_command_or_func cmd pc d) (cmd_toks (SFunc name c)) (cmd_tree (SFunc name c)) ends"
  unfolding parses_def
proof (intro allI impI)
  fix us assume us: "ends (front us)"
  let ?us = "Op TkLParen # Op TkRParen # cmd_toks c @ us"
  have name: "parts_to_text (map piece_part [Plain name] :: command word_part list) = name"
    using assms(1) by (intro plain_parts_to_text) (simp add: word_ok_def)
  have nn: "front (cmd_toks c @ us) \<noteq> TkNewline" using cmd_front [OF assms(3)] not_newline by auto
  have f: "gives (func_def cmd pc d True name sp) ?us (\<lambda>x. \<exists>b. x = Some (FuncDef name b sp) \<and> unspan b = cmd_tree c) us" for sp
    unfolding func_def_def
    by (auto intro!: gives_peeked gives_dropped gives_expected_seq gives_skipped [OF nn] gives_bind [OF parsesD [OF assms(2) us]] gives_ret)
  have args: "gives (with_fuel (\<lambda>n. args_loop n cmd pc d True [] [])) (SWord [Plain name] # ?us)
      (\<lambda>x. \<exists>b sp. x = Inl (FuncDef name b sp) \<and> unspan b = cmd_tree c) us"
  proof (rule gives_fuel)
    fix n assume "length (SWord [Plain name] # ?us) + 1 \<le> n"
    then obtain m where n: "n = Suc m" by (cases n) auto
    show "gives (args_loop n cmd pc d True [] []) (SWord [Plain name] # ?us)
      (\<lambda>x. \<exists>b sp. x = Inl (FuncDef name b sp) \<and> unspan b = cmd_tree c) us"
      unfolding n args_loop.simps
      by (rule gives_peeked) (use name in \<open>auto simp: Let_def intro!: gives_dropped gives_peeked gives_bind [OF f] gives_ret\<close>)
  qed
  have assigns: "gives (with_fuel (\<lambda>n. assigns_loop n cmd d [])) (SWord [Plain name] # ?us) (\<lambda>x. x = []) (SWord [Plain name] # ?us)"
    by (rule gives_fuel) (rule gives_weaken [OF gives_assigns [where as = "[]", simplified]], auto)
  show "gives (parse_simple_command_or_func cmd pc d) (cmd_toks (SFunc name c) @ us) (\<lambda>c'. unspan c' = cmd_tree (SFunc name c)) us"
    unfolding parse_simple_command_or_func_def
    by (auto intro!: gives_spanned gives_bind [OF assigns] gives_bind [OF args] gives_ret)
qed

subsection \<open>Commands\<close>

lemma parses_command:
  assumes "parses (command_step cmd (parse_command m cmd) d) ts c follow" "n = Suc m"
  shows "parses (parse_command n cmd d) ts c follow"
  using assms by simp

lemma parses_step:
  assumes "parses p ts c ends" "ts \<noteq> []"
    and "\<And>sp. (case front ts of
       TkLParen \<Rightarrow> parse_subshell cmd pc d | TkLbrace \<Rightarrow> parse_brace_group cmd pc d | TkIf \<Rightarrow> parse_if cmd pc d
     | TkWhile \<Rightarrow> parse_while cmd pc d | TkUntil \<Rightarrow> parse_until cmd pc d | TkFor \<Rightarrow> parse_for cmd pc d
     | TkCase \<Rightarrow> parse_case cmd pc d | _ \<Rightarrow> parse_simple_command_or_func cmd pc d) = p"
  shows "parses (command_step cmd pc d) ts c ends"
  unfolding parses_def command_step_def
proof (intro allI impI, rule gives_peeked, goal_cases)
  case (1 us sp)
  have "front (ts @ us) = front ts" using assms(2) by (cases ts) auto
  then show ?case using assms(3) parsesD [OF assms(1) 1] by simp
qed

lemma list_front: "list_ok l k \<Longrightarrow> is_command_start (front (list_toks l))"
  by (cases l) (auto dest: andor_front)

lemma closed_length: "length (closed l ts) \<le> Suc (length ts)" "length ts \<le> length (closed l ts)"
  by (simp_all add: closed_def)

text \<open>What is proved of each kind of structure, by induction.\<close>

definition good_cmd :: "scommand \<Rightarrow> bool" where
  "good_cmd s \<longleftrightarrow> (\<forall>n d. cmd_ok s (MAX_NESTING_DEPTH - d) \<longrightarrow> length (cmd_toks s) \<le> n \<longrightarrow>
     parses (parse_command n cmd d) (cmd_toks s) (cmd_tree s) ends)"

definition good_pipe :: "spipe \<Rightarrow> bool" where
  "good_pipe p \<longleftrightarrow> (\<forall>n d. pipe_ok p (MAX_NESTING_DEPTH - d) \<longrightarrow> length (pipe_toks p) \<le> n \<longrightarrow>
     parses (parse_pipeline cmd (parse_command n cmd) d) (pipe_toks p) (pipe_tree p) (\<lambda>t. ends t \<and> t \<noteq> TkPipe))"

definition good_andor :: "sandor \<Rightarrow> bool" where
  "good_andor a \<longleftrightarrow> (\<forall>n d. andor_ok a (MAX_NESTING_DEPTH - d) \<longrightarrow> length (andor_toks a) \<le> n \<longrightarrow>
     parses (parse_and_or cmd (parse_command n cmd) d) (andor_toks a) (andor_tree a) list_follow)"

definition good_conn :: "sconn \<Rightarrow> bool" where
  "good_conn c \<longleftrightarrow> (case c of SConn b p \<Rightarrow> good_pipe p)"

definition good_item :: "sitem \<Rightarrow> bool" where
  "good_item i \<longleftrightarrow> (case i of SItem sep a \<Rightarrow> good_andor a)"

definition good_list :: "slist \<Rightarrow> bool" where
  "good_list l \<longleftrightarrow> (\<forall>n d. d < MAX_NESTING_DEPTH \<longrightarrow> list_ok l (MAX_NESTING_DEPTH - d - 1) \<longrightarrow> length (list_toks l) \<le> n \<longrightarrow>
     reads_block (parse_command n cmd) d l)"

definition good_else :: "selse \<Rightarrow> bool" where
  "good_else e \<longleftrightarrow> (\<forall>n d. else_ok e (MAX_NESTING_DEPTH - d) \<longrightarrow> length (else_toks e) \<le> n \<longrightarrow>
     (\<forall>l. e = SElse l \<longrightarrow> reads_block (parse_command n cmd) d l) \<and>
     (is_elif e \<longrightarrow> (\<forall>m \<ge> length (else_toks e). reads_elif (parse_elif m cmd (parse_command n cmd) d) d e)))"

definition good_arm :: "sarm \<Rightarrow> bool" where
  "good_arm a \<longleftrightarrow> (\<forall>n d us. arm_ok a (MAX_NESTING_DEPTH - d) \<longrightarrow> length (arm_toks a) \<le> n \<longrightarrow> front us \<noteq> TkNewline \<longrightarrow>
     gives (parse_case_arm cmd (parse_command n cmd) d) (arm_toks a @ us) (\<lambda>x. plain_arm x = arm_tree a) us)"

lemma good_cmdI:
  assumes "cmd_toks s \<noteq> []"
    and "\<And>m d. (case front (cmd_toks s) of
         TkLParen \<Rightarrow> parse_subshell cmd (parse_command m cmd) d
       | TkLbrace \<Rightarrow> parse_brace_group cmd (parse_command m cmd) d
       | TkIf \<Rightarrow> parse_if cmd (parse_command m cmd) d
       | TkWhile \<Rightarrow> parse_while cmd (parse_command m cmd) d
       | TkUntil \<Rightarrow> parse_until cmd (parse_command m cmd) d
       | TkFor \<Rightarrow> parse_for cmd (parse_command m cmd) d
       | TkCase \<Rightarrow> parse_case cmd (parse_command m cmd) d
       | _ \<Rightarrow> parse_simple_command_or_func cmd (parse_command m cmd) d) = p (parse_command m cmd) d"
    and "\<And>m d. cmd_ok s (MAX_NESTING_DEPTH - d) \<Longrightarrow> length (cmd_toks s) \<le> Suc m \<Longrightarrow>
      parses (p (parse_command m cmd) d) (cmd_toks s) (cmd_tree s) ends"
  shows "good_cmd s"
  unfolding good_cmd_def
proof (intro allI impI)
  fix n d assume ok: "cmd_ok s (MAX_NESTING_DEPTH - d)" "length (cmd_toks s) \<le> n"
  then obtain m where n: "n = Suc m" using assms(1) by (cases n) auto
  show "parses (parse_command n cmd d) (cmd_toks s) (cmd_tree s) ends"
    unfolding n parse_command.simps using assms(3) [of d m] ok n
    by (intro parses_step [OF _ assms(1) assms(2)]) simp
qed

lemma good_listD:
  "good_list l \<Longrightarrow> 0 < MAX_NESTING_DEPTH - d \<Longrightarrow> list_ok l (MAX_NESTING_DEPTH - d - 1) \<Longrightarrow>
   length (closed l (list_toks l)) \<le> n \<Longrightarrow> reads_block (parse_command n cmd) d l"
  using closed_length(2) [of "list_toks l" l] by (auto simp: good_list_def)

lemma good_simple: "good_cmd (SSimple as ws rs)"
proof (cases "as = [] \<and> ws = []")
  case True
  then show ?thesis by (simp add: good_cmd_def)
next
  case False
  then obtain u us where u: "cmd_toks (SSimple as ws rs) = u # us" "(\<exists>w. u = SWord w) \<or> (\<exists>x v. u = SAssign x v)"
    by (cases as; cases ws) auto
  show ?thesis
  proof (rule good_cmdI [where p = "\<lambda>pc d. parse_simple_command_or_func cmd pc d"])
    show "parses (parse_simple_command_or_func cmd (parse_command m cmd) d) (cmd_toks (SSimple as ws rs))
        (cmd_tree (SSimple as ws rs)) ends" if "cmd_ok (SSimple as ws rs) (MAX_NESTING_DEPTH - d)" for m d
      unfolding parses_def using gives_simple [OF that] by blast
  qed (use u in auto)
qed

lemma good_subshell: "good_list l \<Longrightarrow> good_cmd (SSubshell l rs)"
  by (rule good_cmdI [where p = "parse_subshell cmd"]) (simp, simp, rule gives_subshell, auto intro!: good_listD)

lemma good_brace: "good_list l \<Longrightarrow> good_cmd (SBrace l rs)"
  by (rule good_cmdI [where p = "parse_brace_group cmd"]) (simp, simp, rule gives_brace_group, auto intro!: good_listD)

lemma good_loop: "good_list c \<Longrightarrow> good_list b \<Longrightarrow> good_cmd (SLoop until c b rs)"
  by (rule good_cmdI [where p = "\<lambda>pc d. if until then parse_until cmd pc d else parse_while cmd pc d"])
    (simp, simp, rule gives_loop, auto intro!: good_listD)

lemma good_for: "good_list b \<Longrightarrow> good_cmd (SFor var ws b rs)"
  by (rule good_cmdI [where p = "parse_for cmd"]) (simp, simp, rule gives_for, auto intro!: good_listD)

lemma good_if:
  assumes "good_list c" "good_list t" "good_else e"
  shows "good_cmd (SIf c t e rs)"
proof (rule good_cmdI [where p = "parse_if cmd"])
  fix m d assume ok: "cmd_ok (SIf c t e rs) (MAX_NESTING_DEPTH - d)" "length (cmd_toks (SIf c t e rs)) \<le> Suc m"
  then have "else_ok e (MAX_NESTING_DEPTH - d)" "length (else_toks e) \<le> m" by auto
  then have "(\<forall>l. e = SElse l \<longrightarrow> reads_block (parse_command m cmd) d l) \<and>
      (is_elif e \<longrightarrow> (\<forall>k \<ge> length (else_toks e). reads_elif (parse_elif k cmd (parse_command m cmd) d) d e))"
    using assms(3) unfolding good_else_def by blast
  moreover have "reads_block (parse_command m cmd) d c" "reads_block (parse_command m cmd) d t"
    using ok by (auto intro!: good_listD assms)
  ultimately show "parses (parse_if cmd (parse_command m cmd) d) (cmd_toks (SIf c t e rs)) (cmd_tree (SIf c t e rs)) ends"
    using ok(1) by (intro gives_if) auto
qed simp_all

lemma good_func:
  assumes "good_cmd c"
  shows "good_cmd (SFunc name c)"
proof (rule good_cmdI [where p = "\<lambda>pc d. parse_simple_command_or_func cmd pc d"])
  fix m d assume ok: "cmd_ok (SFunc name c) (MAX_NESTING_DEPTH - d)" "length (cmd_toks (SFunc name c)) \<le> Suc m"
  then show "parses (parse_simple_command_or_func cmd (parse_command m cmd) d) (cmd_toks (SFunc name c)) (cmd_tree (SFunc name c)) ends"
    using assms by (intro gives_func [where k = "MAX_NESTING_DEPTH - d"]) (auto simp: good_cmd_def)
qed simp_all

lemma length_member: "x \<in> set xs \<Longrightarrow> length (f x) \<le> length (concat (map f xs))"
  by (induction xs) auto

lemma good_case:
  assumes "\<And>a. a \<in> set arms \<Longrightarrow> good_arm a"
  shows "good_cmd (SCase w arms rs)"
proof (rule good_cmdI [where p = "parse_case cmd"])
  fix m d assume ok: "cmd_ok (SCase w arms rs) (MAX_NESTING_DEPTH - d)" "length (cmd_toks (SCase w arms rs)) \<le> Suc m"
  show "parses (parse_case cmd (parse_command m cmd) d) (cmd_toks (SCase w arms rs)) (cmd_tree (SCase w arms rs)) ends"
  proof (rule gives_case [where k = "MAX_NESTING_DEPTH - d"])
    fix a us assume a: "a \<in> set arms" "front us \<noteq> TkNewline"
    then have "arm_ok a (MAX_NESTING_DEPTH - d)" "length (arm_toks a) \<le> m"
      using ok length_member [OF a(1), of arm_toks] by (auto simp: list_all_iff)
    then show "arm_ok a (MAX_NESTING_DEPTH - d) \<and>
        gives (parse_case_arm cmd (parse_command m cmd) d) (arm_toks a @ us) (\<lambda>x. plain_arm x = arm_tree a) us"
      using assms [OF a(1)] a(2) by (simp add: good_arm_def)
  qed (use ok in auto)
qed simp_all

lemma good_pipeline:
  assumes "good_cmd c" "\<And>s. s \<in> set cs \<Longrightarrow> good_cmd s"
  shows "good_pipe (SPipe bang c cs)"
  unfolding good_pipe_def
proof (intro allI impI)
  fix n d assume ok: "pipe_ok (SPipe bang c cs) (MAX_NESTING_DEPTH - d)" "length (pipe_toks (SPipe bang c cs)) \<le> n"
  have "parses (parse_command n cmd d) (cmd_toks s) (cmd_tree s) ends \<and> cmd_ok s (MAX_NESTING_DEPTH - d)"
    if "s \<in> set cs" for s
    using ok assms(2) [OF that] that length_member [OF that, of "\<lambda>s. Op TkPipe # cmd_toks s"]
    by (auto simp: good_cmd_def list_all_iff comp_def)
  then show "parses (parse_pipeline cmd (parse_command n cmd) d) (pipe_toks (SPipe bang c cs)) (pipe_tree (SPipe bang c cs))
      (\<lambda>t. ends t \<and> t \<noteq> TkPipe)"
    using ok assms(1) by (intro gives_pipeline [where k = "MAX_NESTING_DEPTH - d"]) (auto simp: good_cmd_def)
qed

lemma good_and_or:
  assumes "good_pipe p" "\<And>c. c \<in> set cs \<Longrightarrow> good_conn c"
  shows "good_andor (SAndOr p cs)"
  unfolding good_andor_def
proof (intro allI impI)
  fix n d assume ok: "andor_ok (SAndOr p cs) (MAX_NESTING_DEPTH - d)" "length (andor_toks (SAndOr p cs)) \<le> n"
  have "parses (parse_pipeline cmd (parse_command n cmd) d) (pipe_toks q) (pipe_tree q) (\<lambda>t. ends t \<and> t \<noteq> TkPipe) \<and>
      pipe_ok q (MAX_NESTING_DEPTH - d)" if "SConn b q \<in> set cs" for b q
    using ok assms(2) [OF that] that length_member [OF that, of conn_toks]
    by (auto simp: good_conn_def good_pipe_def list_all_iff)
  then show "parses (parse_and_or cmd (parse_command n cmd) d) (andor_toks (SAndOr p cs)) (andor_tree (SAndOr p cs)) list_follow"
    using ok assms(1) by (intro gives_and_or [where k = "MAX_NESTING_DEPTH - d"]) (auto simp: good_pipe_def)
qed

lemma good_items:
  assumes "\<And>i. i \<in> set items \<Longrightarrow> good_item i" "list_all (\<lambda>f. f (MAX_NESTING_DEPTH - d)) (map item_ok items)"
    and "length (concat (map item_toks items)) \<le> n" "SItem sep a \<in> set items"
  shows "parses (parse_and_or cmd (parse_command n cmd) d) (andor_toks a) (andor_tree a) list_follow \<and>
    andor_ok a (MAX_NESTING_DEPTH - d)"
  using assms(1) [OF assms(4)] assms(2-4) length_member [OF assms(4), of item_toks]
  by (auto simp: good_item_def good_andor_def list_all_iff)

lemma good_slist:
  assumes "good_andor a" "\<And>i. i \<in> set items \<Longrightarrow> good_item i"
  shows "good_list (SList a items bg)"
  unfolding good_list_def reads_block_def
proof (intro allI impI conjI)
  fix n d assume ok: "d < MAX_NESTING_DEPTH" "list_ok (SList a items bg) (MAX_NESTING_DEPTH - d - 1)"
    "length (list_toks (SList a items bg)) \<le> n"
  show "is_command_start (front (list_toks (SList a items bg)))" using ok(2) by (rule list_front)
  fix us assume "closes (front us)"
  moreover have "parses (parse_and_or cmd (parse_command n cmd) (Suc d)) (andor_toks a) (andor_tree a) list_follow"
    using ok assms(1) by (simp add: good_andor_def)
  moreover have "parses (parse_and_or cmd (parse_command n cmd) (Suc d)) (andor_toks b) (andor_tree b) list_follow \<and>
      andor_ok b (MAX_NESTING_DEPTH - Suc d)" if "SItem sep b \<in> set items" for sep b
    using ok that by (intro good_items [OF assms(2)]) auto
  ultimately show "gives (parse_compound_list cmd (parse_command n cmd) d) (closed (SList a items bg) (list_toks (SList a items bg)) @ us)
      (\<lambda>c. unspan c = list_tree (SList a items bg)) us"
    using ok(1) by (intro gives_block) auto
qed

lemma good_elif:
  assumes "good_list c" "good_list t" "good_else e"
  shows "good_else (SElif c t e)"
  unfolding good_else_def
proof (intro allI impI conjI)
  fix n d m assume ok: "else_ok (SElif c t e) (MAX_NESTING_DEPTH - d)" "length (else_toks (SElif c t e)) \<le> n"
    "length (else_toks (SElif c t e)) \<le> m"
  then obtain k where m: "m = Suc k" "length (else_toks e) \<le> k" by (cases m) auto
  have "else_ok e (MAX_NESTING_DEPTH - d)" "length (else_toks e) \<le> n" using ok by auto
  then have "(\<forall>l. e = SElse l \<longrightarrow> reads_block (parse_command n cmd) d l) \<and>
      (is_elif e \<longrightarrow> (\<forall>k \<ge> length (else_toks e). reads_elif (parse_elif k cmd (parse_command n cmd) d) d e))"
    using assms(3) unfolding good_else_def by blast
  moreover have "reads_block (parse_command n cmd) d c" "reads_block (parse_command n cmd) d t"
    using ok by (auto intro!: good_listD assms)
  ultimately show "reads_elif (parse_elif m cmd (parse_command n cmd) d) d (SElif c t e)"
    unfolding m(1) using m(2) by (intro gives_elif) auto
qed simp

lemma good_else_list: "good_list l \<Longrightarrow> good_else (SElse l)"
  by (auto simp: good_else_def intro!: good_listD)

lemma good_empty_arm: "good_arm (SEmptyArm pats)"
  unfolding good_arm_def by (auto intro!: gives_empty_arm simp del: arm_toks.simps arm_tree.simps)

lemma good_list_arm:
  assumes "good_list l"
  shows "good_arm (SArm pats l)"
  unfolding good_arm_def
proof (intro allI impI)
  fix n d us assume ok: "arm_ok (SArm pats l) (MAX_NESTING_DEPTH - d)" "length (arm_toks (SArm pats l)) \<le> n" "front us \<noteq> TkNewline"
  then have "reads_block (parse_command n cmd) d l" by (intro good_listD [OF assms]) auto
  then show "gives (parse_case_arm cmd (parse_command n cmd) d) (arm_toks (SArm pats l) @ us)
      (\<lambda>x. plain_arm x = arm_tree (SArm pats l)) us"
    using ok by (intro gives_arm) auto
qed

lemma all_good:
  "good_cmd s" "good_pipe p" "good_conn conn" "good_andor a" "good_item i" "good_list l" "good_else e" "good_arm arm"
proof (induction s and p and conn and a and i and l and e and arm
    rule: scommand.induct spipe.induct sconn.induct sandor.induct sitem.induct slist.induct selse.induct sarm.induct)
  case SFi
  show ?case by (simp add: good_else_def)
qed (simp_all add: good_simple good_subshell good_brace good_if good_loop good_for good_case good_func good_pipeline good_and_or
  good_slist good_else_list good_elif good_list_arm good_empty_arm
  good_conn_def [of "SConn _ _"] good_item_def [of "SItem _ _"])

subsection \<open>Programs\<close>

lemma gives_complete:
  assumes "line_ok l" "front us = TkNewline \<or> front us = TkEof"
  shows "gives (parse_complete_command cmd 0) (list_toks l @ us) (\<lambda>c. unspan c = list_tree l) us"
  unfolding parse_complete_command_def
proof (rule gives_fuel)
  fix n assume n: "length (list_toks l @ us) + 1 \<le> n"
  obtain a items bg where l: "l = SList a items bg" by (cases l)
  have "parses (parse_and_or cmd (parse_command n cmd) 0) (andor_toks a) (andor_tree a) list_follow"
    using assms(1) n all_good(4) [of a] by (simp add: l good_andor_def line_ok_def)
  moreover have "parses (parse_and_or cmd (parse_command n cmd) 0) (andor_toks b) (andor_tree b) list_follow \<and>
      andor_ok b (MAX_NESTING_DEPTH - 0) \<and> sep \<noteq> ByNewline" if "SItem sep b \<in> set items" for sep b
    using assms(1) n that all_good(5) good_items [of items 0 n sep b] by (fastforce simp: l list_all_iff line_ok_def)
  ultimately show "gives (parse_command_list cmd (parse_command n cmd) 0 False) (list_toks l @ us) (\<lambda>c. unspan c = list_tree l) us"
    unfolding l using assms(2) by (rule gives_line)
qed

lemma gives_program_loop:
  assumes "list_all line_ok ls" "length ls < n"
  shows "gives (program_loop n cmd 0 acc) (program_toks ls)
    (\<lambda>r. \<exists>r1. r = acc @ r1 \<and> map unspan r1 = map list_tree ls) []"
  using assms
proof (induction ls arbitrary: n acc)
  case Nil
  then obtain m where "n = Suc m" by (cases n) auto
  then show ?case by (auto simp: program_toks_def intro!: gives_peeked gives_ret)
next
  case (Cons l ls)
  obtain m where n: "n = Suc m" "length ls < m" using Cons.prems by (cases n) auto
  let ?us = "Op TkNewline # program_toks ls"
  have start: "is_command_start (front (list_toks l @ us)) \<and> list_toks l \<noteq> []" if "line_ok l" for l us
    using that list_front [of l MAX_NESTING_DEPTH] by (cases "list_toks l") (auto simp: line_ok_def split: slist.splits)
  have IH: "gives (program_loop m cmd 0 (acc @ [c])) (program_toks ls)
      (\<lambda>r. \<exists>r1. r = acc @ r1 \<and> map unspan r1 = map list_tree (l # ls)) []" if "unspan c = list_tree l" for c
    using Cons.prems n(2) that by (intro gives_weaken [OF Cons.IH]) auto
  have "front (program_toks ls) \<noteq> TkNewline"
    using Cons.prems start not_newline by (cases ls) (auto simp: program_toks_def)
  then have skip: "gives (skip_newlines cmd 0) ?us (\<lambda>_. True) (program_toks ls)"
    using gives_skip_all [of 0 ?us] by (cases "program_toks ls") auto
  have "gives (lbind (parse_complete_command cmd 0) (\<lambda>c. lbind (read_pending_heredocs cmd 0 c) (\<lambda>c.
      lseq (skip_newlines cmd 0) (program_loop m cmd 0 (acc @ [c]))))) (list_toks l @ ?us)
      (\<lambda>r. \<exists>r1. r = acc @ r1 \<and> map unspan r1 = map list_tree (l # ls)) []"
  proof (rule gives_bind [OF gives_complete])
    fix c assume c: "unspan c = list_tree l"
    show "gives (lbind (read_pending_heredocs cmd 0 c) (\<lambda>c. lseq (skip_newlines cmd 0) (program_loop m cmd 0 (acc @ [c])))) ?us
      (\<lambda>r. \<exists>r1. r = acc @ r1 \<and> map unspan r1 = map list_tree (l # ls)) []"
      by (rule gives_bind [OF gives_pending]) (use gives_seq [OF skip IH [OF c]] in simp)
  qed (use Cons.prems in auto)
  moreover have "front (list_toks l @ ?us) \<noteq> TkEof" using start [of l ?us] Cons.prems by (cases "front (list_toks l @ ?us)") auto
  ultimately show ?case
    unfolding n(1) program_loop.simps by (intro gives_peeked) (simp add: program_toks_def)
qed

lemma gives_program:
  assumes "list_all line_ok ls"
  shows "gives (parse_program cmd 0) (program_toks ls) (\<lambda>r. map unspan r = map list_tree ls) []"
proof -
  have len: "length ls \<le> length (program_toks ls)" by (induction ls) (auto simp: program_toks_def)
  have "front (program_toks ls) \<noteq> TkNewline"
  proof (cases ls)
    case (Cons l ls)
    then show ?thesis
      using assms list_front [of l MAX_NESTING_DEPTH] not_newline
      by (cases "list_toks l") (auto simp: program_toks_def line_ok_def split: slist.splits)
  qed (simp add: program_toks_def)
  then show ?thesis
    unfolding parse_program_def
    by (intro gives_skipped gives_fuel gives_weaken [OF gives_program_loop [OF assms]]) (use len in auto)
qed

end

subsection \<open>Source text\<close>

text \<open>What has been written consists of well-formed tokens.\<close>

definition toks_ok :: "stoken list \<Rightarrow> bool" where
  "toks_ok ts \<longleftrightarrow> list_all stoken_ok ts"

lemma toks_ok_simps [simp]:
  "toks_ok []" "toks_ok (u # ts) \<longleftrightarrow> stoken_ok u \<and> toks_ok ts" "toks_ok (ts @ us) \<longleftrightarrow> toks_ok ts \<and> toks_ok us"
  "toks_ok (concat tss) \<longleftrightarrow> (\<forall>ts \<in> set tss. toks_ok ts)" "toks_ok (closed l ts) \<longleftrightarrow> toks_ok ts"
  "toks_ok (map SWord ws) \<longleftrightarrow> list_all word_ok ws"
  by (auto simp: toks_ok_def closed_def list_all_iff operator_text_def)

lemma operators_ok [simp]:
  "operator_text TkNewline \<noteq> []" "operator_text TkSemi \<noteq> []" "operator_text TkAmp \<noteq> []" "operator_text TkPipe \<noteq> []"
  "operator_text TkAnd \<noteq> []" "operator_text TkOr \<noteq> []" "operator_text TkSemiSemi \<noteq> []" "operator_text TkLParen \<noteq> []"
  "operator_text TkRParen \<noteq> []" "operator_text TkIf \<noteq> []" "operator_text TkThen \<noteq> []" "operator_text TkElse \<noteq> []"
  "operator_text TkElif \<noteq> []" "operator_text TkFi \<noteq> []" "operator_text TkDo \<noteq> []" "operator_text TkDone \<noteq> []"
  "operator_text TkCase \<noteq> []" "operator_text TkEsac \<noteq> []" "operator_text TkWhile \<noteq> []" "operator_text TkUntil \<noteq> []"
  "operator_text TkFor \<noteq> []" "operator_text TkIn \<noteq> []" "operator_text TkLbrace \<noteq> []" "operator_text TkRbrace \<noteq> []"
  "operator_text TkBang \<noteq> []"
  by (simp_all add: operator_text_def)

lemma redirs_written [simp]: "list_all redir_ok rs \<Longrightarrow> toks_ok (redirs_toks rs)"
proof -
  have "toks_ok (redir_toks r)" if "redir_ok r" for r
    using that by (cases r) (auto simp: nat_to_string_word redir_ops_def operator_text_def split: option.split)
  then show "list_all redir_ok rs \<Longrightarrow> ?thesis" by (auto simp: redirs_toks_def list_all_iff)
qed

lemma patterns_written [simp]: "toks_ok (pattern_toks pats) \<longleftrightarrow> list_all word_ok pats"
  by (induction pats rule: pattern_toks.induct) auto

lemma separator_written [simp]: "operator_text (separator_token sep) \<noteq> []"
  by (cases sep) auto

lemma structure_written:
  "cmd_ok s k \<Longrightarrow> toks_ok (cmd_toks s)" "pipe_ok p k \<Longrightarrow> toks_ok (pipe_toks p)" "conn_ok c k \<Longrightarrow> toks_ok (conn_toks c)"
  "andor_ok a k \<Longrightarrow> toks_ok (andor_toks a)" "item_ok i k \<Longrightarrow> toks_ok (item_toks i)" "list_ok l k \<Longrightarrow> toks_ok (list_toks l)"
  "else_ok e k \<Longrightarrow> toks_ok (else_toks e)" "arm_ok r k \<Longrightarrow> toks_ok (arm_toks r)"
proof (induction s and p and c and a and i and l and e and r arbitrary: k and k and k and k and k and k and k and k
    rule: scommand.induct spipe.induct sconn.induct sandor.induct sitem.induct slist.induct selse.induct sarm.induct)
  case (SSimple as ws rs)
  then have "toks_ok (map (\<lambda>(n, v). SAssign n v) as)" by (auto simp: toks_ok_def list_all_iff)
  then show ?case using SSimple by simp
qed (auto simp: list_all_iff split: option.splits if_splits)

lemma written_parsed:
  assumes "list_all line_ok ls" "bytes_to_str source = stream_text (program_toks ls)"
  shows "map_sum id (map unspan) (parse_source source) = Inr (map list_tree ls)"
proof -
  have "toks_ok (list_toks l)" if "line_ok l" for l using that by (auto simp: line_ok_def dest: structure_written(6))
  then have "toks_ok (program_toks ls)" using assms(1) by (auto simp: program_toks_def list_all_iff)
  then have "written (parser_new_bytes source) (program_toks ls)"
    using assms(2)
    by (simp add: written_def toks_ok_def parser_new_bytes_def parser_of_def lexer_new_bytes_def from_shell_string_def
        lexer.defs parser.defs)
  then show ?thesis
    using written.gives_program [OF assms(1), of parse_cmdsubst_content]
    unfolding written.gives_def by (fastforce simp: parse_source_def run_parser_def)
qed


lemma ascii_source: "list_all (\<lambda>c. c < 128) s \<Longrightarrow> bytes_to_str (map byte s) = s"
  using ascii_to_shell_string [of s] from_str_ascii [of s] by (simp add: to_shell_string_def list_all_iff)

definition example_program :: "slist list" where
  "example_program =
     [SList
        (SAndOr
          (SPipe False (SLoop False
             (SList (SAndOr (SPipe True (SSimple [] [[Plain (ustr ''test'')], [Single (ustr ''a b'')]] []) []) []) [] False)
             (SList (SAndOr (SPipe False (SSimple [(ustr ''x'', [Plain (ustr ''1'')])] [[Plain (ustr ''run'')]]
                [SRedir (Some 2) TkGreat [Plain (ustr ''log'')]]) []) [])
                [SItem ByAmp (SAndOr (SPipe False (SSimple [] [[Plain (ustr ''wait'')]] []) []) [])] False) [])
             [SSimple [] [[Plain (ustr ''sort'')]] []])
          [SConn False (SPipe False (SFunc (ustr ''f'') (SSimple [] [[Escaped 36, Plain (ustr ''y'')]] [])) [])])
        [] True]"


end
