(* ===== verification/Quoting.thy ===== *)
theory Quoting
  imports Grammar Eval
begin

text \<open>
  Quoting a byte string for the shell: single quotes around it, and each single quote in it written as
  \<^verbatim>\<open>'\''\<close>.  The lexer, the parser and the expansion of words together give the bytes back.
\<close>

subsection \<open>Encoding around an ASCII character\<close>

lemma decode1_append: "decode1 bs = Some (c, r) \<Longrightarrow> decode1 (bs @ ys) = Some (c, r @ ys)"
  by (cases bs) (auto simp: decode1_def Let_def split: list.splits if_splits)

lemma decode1_None_ascii:
  assumes "decode1 (b # r) = None" "c < 128"
  shows "decode1 (b # r @ byte c # ys) = None"
proof -
  have "\<not> is_cont (byte c)" "\<not> second_ok x (byte c)" for x
    using assms(2) by (auto simp: is_cont_def second_ok_def)
  then show ?thesis using assms(1) by (auto simp: decode1_def Let_def split: list.splits if_splits)
qed

lemma units_append_ascii:
  assumes "c < 128"
  shows "units (xs @ byte c # ys) = units xs @ Scalar c # units ys"
proof (induction xs rule: units.induct)
  case (1 xs)
  show ?case
  proof (cases "decode1 xs")
    case (Some p)
    then obtain d r where p: "decode1 xs = Some (d, r)" by (cases p) auto
    then show ?thesis
      using 1(2) [OF p refl] decode1_append [OF p, of "byte c # ys"]
      by (simp add: units.simps [of "xs @ byte c # ys"] units.simps [of xs])
  next
    case None
    show ?thesis
    proof (cases xs)
      case Nil
      have "decode1 (byte c # ys) = Some (c, ys)" using assms by (simp add: decode1_def)
      then show ?thesis by (simp add: Nil units.simps [of "byte c # ys"])
    next
      case (Cons b r)
      then have "units (r @ byte c # ys) = units r @ Scalar c # units ys" using 1(1) None by simp
      then show ?thesis
        using None Cons decode1_None_ascii [of b r c ys] assms by (simp add: units_raw)
    qed
  qed
qed

lemma bytes_to_str_around:
  assumes "c < 128"
  shows "bytes_to_str (xs @ byte c # ys) = bytes_to_str xs @ c # bytes_to_str ys"
proof -
  have "\<not> special True c" using assms by (simp add: special_def ESCAPE_def CTLESC_def is_pua_byte_def PUA_BASE_def)
  then show ?thesis by (simp add: bytes_to_str_units units_append_ascii [OF assms])
qed

lemma bytes_to_str_Nil [simp]: "bytes_to_str [] = []"
  by (simp add: bytes_to_str_units)

lemma bytes_to_str_Cons: "c < 128 \<Longrightarrow> bytes_to_str (byte c # ys) = c # bytes_to_str ys"
  using bytes_to_str_around [of c "[]" ys] by simp

lemma protect_ascii:
  "c < 128 \<Longrightarrow> protect_globs (bytes_to_str (xs @ byte c # ys)) True =
     protect_globs (bytes_to_str xs) True @ protect_globs (bytes_to_str [byte c]) True @ protect_globs (bytes_to_str ys) True"
  using units_append_ascii [of c xs ys] units_append_ascii [of c "[]" "[]"] by (simp add: protect_globs_units)

lemma ascii_in_bytes:
  assumes "c < 128" "c \<in> set (bytes_to_str bs)"
  shows "byte c \<in> set bs"
proof -
  have "c \<in> set (enc_unit u) \<Longrightarrow> wf_unit u \<Longrightarrow> byte c \<in> set (unit_bytes u)" for u
    using assms(1) by (cases u) (auto simp: ESCAPE_def PUA_BASE_def encode_utf8_def split: if_splits)
  then have "byte c \<in> set (concat (map unit_bytes (units bs)))"
    using assms(2) units_wf [of bs] by (auto simp: bytes_to_str_units list_all_iff)
  then show ?thesis by (simp add: units_bytes)
qed

subsection \<open>Quoting\<close>

definition quote_byte :: "u8 \<Rightarrow> bytes" where
  "quote_byte b = (if b = byte SQUOTE then [byte SQUOTE, byte BACKSLASH, byte SQUOTE, byte SQUOTE] else [b])"

definition shell_quote :: "bytes \<Rightarrow> bytes" where
  "shell_quote bs = byte SQUOTE # concat (map quote_byte bs) @ [byte SQUOTE]"

definition quote_line :: "bytes list \<Rightarrow> bytes" where
  "quote_line args = concat (map (\<lambda>a. byte SP # shell_quote a) args) @ [byte SP, byte NL]"

text \<open>The pieces of a quoted word; \<open>seg\<close> is the part in the quotes that are open.\<close>

fun quote_pieces :: "bytes \<Rightarrow> bytes \<Rightarrow> piece list" where
  "quote_pieces seg [] = [Single (bytes_to_str seg)]"
| "quote_pieces seg (b # bs) =
     (if b = byte SQUOTE then Single (bytes_to_str seg) # Escaped SQUOTE # quote_pieces [] bs
      else quote_pieces (seg @ [b]) bs)"

lemma quote_pieces_text:
  "pieces_text (quote_pieces seg bs) @ bytes_to_str ys =
     SQUOTE # bytes_to_str (seg @ concat (map quote_byte bs) @ byte SQUOTE # ys)"
proof (induction seg bs rule: quote_pieces.induct)
  case (1 seg)
  then show ?case by (simp add: bytes_to_str_around)
next
  case (2 seg b bs)
  show ?case
  proof (cases "b = byte SQUOTE")
    case True
    then show ?thesis using 2(1) by (simp add: quote_byte_def bytes_to_str_around bytes_to_str_Cons)
  next
    case False
    then show ?thesis using 2(2) by (simp add: quote_byte_def)
  qed
qed

lemma quote_pieces_ok: "byte SQUOTE \<notin> set seg \<Longrightarrow> word_ok (quote_pieces seg bs) \<and> \<not> is_plain (hd (quote_pieces seg bs))"
proof (induction seg bs rule: quote_pieces.induct)
  case (1 seg)
  then show ?case using ascii_in_bytes [of SQUOTE seg] by (auto simp: word_ok_def)
next
  case (2 seg b bs)
  show ?case
  proof (cases "b = byte SQUOTE")
    case True
    then have "word_ok (quote_pieces [] bs)" "\<not> is_plain (hd (quote_pieces [] bs))" using 2(1) by auto
    then show ?thesis
      using True ascii_in_bytes [of SQUOTE seg] 2(3)
      by (cases "quote_pieces [] bs") (auto simp: word_ok_def ESCAPE_def)
  next
    case False
    then show ?thesis using 2 by auto
  qed
qed

subsection \<open>Expansion of quoted words\<close>

text \<open>Fragments that are neither split nor separated make one field.\<close>

definition solid :: "expanded_word \<Rightarrow> bool" where
  "solid f \<longleftrightarrow> \<not> split_fields f \<and> \<not> word_break f"

lemma split_solid:
  "list_all solid fs \<Longrightarrow> fold (split_fragment i ws nws) fs (flds, cur, hv) = (flds, cur @ frag_text fs, hv \<or> fs \<noteq> [])"
  by (induction fs arbitrary: cur hv) (auto simp: solid_def split_fragment_def frag_text_def)

lemma field_split_solid: "list_all solid fs \<Longrightarrow> fs \<noteq> [] \<Longrightarrow> field_split fs i = [frag_text fs]"
  by (simp add: field_split_def split_solid)

lemma solid_frag [simp]: "solid (frag v False False)"
  by (simp add: solid_def)

lemma expand_parts_Cons:
  "expand_part S p q w e sh = (Inr fs, sh1) \<Longrightarrow> expand_parts S ps q w e sh1 = (Inr gs, sh2) \<Longrightarrow>
   expand_parts S (p # ps) q w e sh = (Inr (fs @ gs), sh2)"
  by (simp add: expand_parts.simps [of S "p # ps"])

lemma expand_single_piece:
  "expand_part S (piece_part (Single (bytes_to_str seg))) False False True sh =
     (Inr [frag (protect_globs (bytes_to_str seg) True) False False], sh)"
  by (simp add: expand_part.simps to_shell_string_def from_str_lossless_def decode_encode_id)

lemma expand_escaped_quote:
  "expand_part S (piece_part (Escaped SQUOTE)) False False True sh =
     (Inr [frag (protect_globs (bytes_to_str [byte SQUOTE]) True) False False], sh)"
proof -
  have q: "from_str_lossless [SQUOTE] = [byte SQUOTE]" using from_str_ascii [of "[SQUOTE]"] by simp
  have "expand_part S (Literal [byte SQUOTE]) True False False sh = (Inr [frag (bytes_to_str [byte SQUOTE]) False False], sh)"
    by (simp add: expand_part.simps to_shell_string_def)
  then show ?thesis
    using expand_quoted_one [of "Literal [byte SQUOTE]" S sh] by (simp add: expand_part.simps [of S "DoubleQuoted _"] q)
qed

lemma expand_quote_pieces:
  "\<exists>fs. expand_parts S (map piece_part (quote_pieces seg bs)) False False True sh = (Inr fs, sh) \<and> fs \<noteq> [] \<and>
     list_all solid fs \<and> frag_text fs = protect_globs (bytes_to_str (seg @ bs)) True"
proof (induction seg bs rule: quote_pieces.induct)
  case (1 seg)
  have "expand_parts S (map piece_part (quote_pieces seg [])) False False True sh =
      (Inr [frag (protect_globs (bytes_to_str seg) True) False False], sh)"
    using expand_parts_one [OF expand_single_piece] by simp
  then show ?case by fastforce
next
  case (2 seg b bs)
  show ?case
  proof (cases "b = byte SQUOTE")
    case True
    then obtain fs where fs: "expand_parts S (map piece_part (quote_pieces [] bs)) False False True sh = (Inr fs, sh)"
      "list_all solid fs" "frag_text fs = protect_globs (bytes_to_str bs) True"
      using 2(1) by auto
    have "expand_parts S (map piece_part (quote_pieces seg (b # bs))) False False True sh =
        (Inr ([frag (protect_globs (bytes_to_str seg) True) False False] @
           [frag (protect_globs (bytes_to_str [byte SQUOTE]) True) False False] @ fs), sh)"
      using True expand_parts_Cons [OF expand_single_piece expand_parts_Cons [OF expand_escaped_quote fs(1)]]
      by (simp del: piece_part.simps)
    moreover have "protect_globs (bytes_to_str seg) True @ protect_globs (bytes_to_str [byte SQUOTE]) True @
        protect_globs (bytes_to_str bs) True = protect_globs (bytes_to_str (seg @ b # bs)) True"
      using True protect_ascii [of SQUOTE seg bs] by simp
    ultimately show ?thesis using fs(2,3) by (intro exI conjI) (assumption, auto)
  next
    case False
    then show ?thesis using 2(2) by simp
  qed
qed

lemma expand_quoted_word:
  "expand_word_to_fields F S (Word (map piece_part (quote_pieces [] bs)) sp) sh = (Inr [bytes_to_str bs], sh)"
proof -
  obtain fs where "expand_parts S (map piece_part (quote_pieces [] bs)) False False True sh = (Inr fs, sh)" "fs \<noteq> []"
    "list_all solid fs" "frag_text fs = protect_globs (bytes_to_str bs) True"
    using expand_quote_pieces [of S "[]" bs sh] by auto
  then show ?thesis by (simp add: expand_word_to_fields_def field_split_solid expand_field_protected)
qed

subsection \<open>A quoted command line\<close>

lemma quote_line_text:
  "bytes_to_str (quote_line args) = stream_text (map (\<lambda>a. SWord (quote_pieces [] a)) args @ [Op TkNewline])"
proof -
  have "bytes_to_str (concat (map (\<lambda>a. byte SP # shell_quote a) args) @ ys) =
      stream_text (map (\<lambda>a. SWord (quote_pieces [] a)) args) @ bytes_to_str ys" for ys
  proof (induction args)
    case (Cons a args)
    then show ?case
      using quote_pieces_text [of "[]" a "concat (map (\<lambda>a. byte SP # shell_quote a) args) @ ys"]
      by (simp add: shell_quote_def bytes_to_str_Cons)
  qed simp
  then show ?thesis by (simp add: quote_line_def stream_text_def bytes_to_str_Cons operator_text_def)
qed

lemma piece_part_inv: "map_word_part f p = piece_part q \<Longrightarrow> p = piece_part q"
proof (cases q)
  case (Escaped c)
  assume "map_word_part f p = piece_part q"
  then obtain ps where ps: "p = DoubleQuoted ps" "map (map_word_part f) ps = [Literal (from_str_lossless [c])]"
    using Escaped by (cases p) auto
  then obtain r where "ps = [r]" "map_word_part f r = Literal (from_str_lossless [c])" by auto
  then show ?thesis using ps Escaped by (cases r) auto
qed (cases p; simp)+

lemma pieces_inv: "map (map_word_part f) ps = map piece_part pcs \<Longrightarrow> ps = map piece_part pcs"
  by (induction pcs arbitrary: ps) (auto simp: map_eq_Cons_conv intro: piece_part_inv)

lemma plain_word_inv:
  assumes "plain_word w = word_tree pcs"
  shows "\<exists>sp. w = Word (map piece_part pcs) sp"
proof (cases w)
  case (Word ps sp)
  then have "map (map_word_part unspan) ps = map piece_part pcs" using assms by (simp add: plain_word_def word_tree_def)
  then have "ps = map piece_part pcs" by (rule pieces_inv)
  then show ?thesis using Word by blast
qed

definition quoted_command :: "bytes list \<Rightarrow> slist" where
  "quoted_command args =
     SList (SAndOr (SPipe False (SSimple [] (map (quote_pieces []) args) []) []) []) [] False"

lemma quoted_command_toks:
  "program_toks [quoted_command args] = map (\<lambda>a. SWord (quote_pieces [] a)) args @ [Op TkNewline]"
  by (simp add: program_toks_def quoted_command_def redirs_toks_def)

lemma quoted_command_ok: "args \<noteq> [] \<Longrightarrow> line_ok (quoted_command args)"
  using quote_pieces_ok [of "[]"] by (simp add: quoted_command_def line_ok_def list_all_iff)

lemma expand_quoted_line:
  "list_all2 (\<lambda>w a. \<exists>sp. w = Word (map piece_part (quote_pieces [] a)) sp) ws args \<Longrightarrow>
   expand_args H ws st = (Inr (map bytes_to_str args), st)"
  by (induction ws args rule: list_all2_induct) (auto simp: expand_fields_def expand_quoted_word)

text \<open>
  C4. Quoting is safe: a command line that is made of quoted byte strings is parsed as one simple command,
  and its words expand to exactly these byte strings, whatever characters they contain, whatever the
  variables, options and files are, and without an effect on the state.
\<close>

theorem quoted_line_arguments:
  assumes "args \<noteq> []"
  shows "\<exists>ws sp. parse_source (quote_line args) = Inr [Simple [] ws [] sp] \<and>
    (\<forall>H st. expand_args H ws st = (Inr (map bytes_to_str args), st))"
proof -
  have "list_all line_ok [quoted_command args]" using quoted_command_ok [OF assms] by simp
  moreover have "bytes_to_str (quote_line args) = stream_text (program_toks [quoted_command args])"
    by (simp only: quote_line_text quoted_command_toks)
  ultimately have "map_sum id (map unspan) (parse_source (quote_line args)) = Inr (map list_tree [quoted_command args])"
    by (rule written_parsed)
  then obtain c where c: "parse_source (quote_line args) = Inr [c]"
    "unspan c = Simple [] (map word_tree (map (quote_pieces []) args)) [] span_default"
    by (cases "parse_source (quote_line args)") (auto simp: quoted_command_def)
  then obtain ws sp where ws: "c = Simple [] ws [] sp" "map plain_word ws = map word_tree (map (quote_pieces []) args)"
    by (cases c) auto
  then have "list_all2 (\<lambda>w a. \<exists>sp. w = Word (map piece_part (quote_pieces [] a)) sp) ws args"
    using plain_word_inv by (auto simp: list_all2_conv_all_nth list_eq_iff_nth_eq)
  then show ?thesis using c(1) ws(1) expand_quoted_line by blast
qed

theorem quoted_line_arguments_witness:
  "\<exists>ws sp. parse_source (quote_line [bstr ''echo'', [byte 39, 0xff, byte 42]]) = Inr [Simple [] ws [] sp] \<and>
    (\<forall>H st. expand_args H ws st = (Inr (map bytes_to_str [bstr ''echo'', [byte 39, 0xff, byte 42]]), st))"
  by (rule quoted_line_arguments) simp

end
