(* ===== verification/Line.thy ===== *)
theory Line
  imports Utf8
begin

text \<open>
  The line editor's buffer (\<^verbatim>\<open>src/line.rs\<close>): a UTF-8 \<^verbatim>\<open>String\<close>, a cursor that is a byte offset into
  it, and one killed text.  The string is its bytes; slicing, inserting and draining at an offset
  that is not a character boundary panics, which is the result \<open>None\<close>.

  The specification is a zipper of characters: the text before and after the cursor.  Every
  operation is shown to be the zipper's operation and never to panic.
\<close>

subsection \<open>Strings as bytes\<close>

text \<open>\<^verbatim>\<open>str::is_char_boundary\<close>\<close>

definition is_char_boundary :: "bytes \<Rightarrow> nat \<Rightarrow> bool" where
  "is_char_boundary s i \<longleftrightarrow>
     i = 0 \<or> i = length s \<or> (i < length s \<and> \<not> is_cont (s ! i))"

text \<open>\<^verbatim>\<open>&s[a..b]\<close>, \<^verbatim>\<open>String::insert_str\<close>, \<^verbatim>\<open>String::drain\<close> and \<^verbatim>\<open>String::truncate\<close>\<close>

definition str_slice :: "bytes \<Rightarrow> nat \<Rightarrow> nat \<Rightarrow> bytes option" where
  "str_slice s a b =
     (if a \<le> b \<and> is_char_boundary s a \<and> is_char_boundary s b then Some (slice a b s) else None)"

definition str_insert :: "bytes \<Rightarrow> nat \<Rightarrow> bytes \<Rightarrow> bytes option" where
  "str_insert s i t = (if is_char_boundary s i then Some (take i s @ t @ drop i s) else None)"

definition str_drain :: "bytes \<Rightarrow> nat \<Rightarrow> nat \<Rightarrow> bytes option" where
  "str_drain s a b =
     (if a \<le> b \<and> is_char_boundary s a \<and> is_char_boundary s b then Some (take a s @ drop b s) else None)"

definition str_truncate :: "bytes \<Rightarrow> nat \<Rightarrow> bytes option" where
  "str_truncate s n =
     (if length s < n then Some s else if is_char_boundary s n then Some (take n s) else None)"

text \<open>The characters of a string; a \<^verbatim>\<open>str\<close> is always valid UTF-8.\<close>

definition chars :: "bytes \<Rightarrow> ustring" where
  "chars s = (case from_utf8 s of Inr cs \<Rightarrow> cs | Inl _ \<Rightarrow> [])"

fun char_indices :: "nat \<Rightarrow> ustring \<Rightarrow> (nat \<times> cp) list" where
  "char_indices i [] = []"
| "char_indices i (c # cs) = (i, c) # char_indices (i + len_utf8 c) cs"

text \<open>\<^verbatim>\<open>find\<close> and \<^verbatim>\<open>rfind\<close> of a newline.\<close>

definition find_newline :: "bytes \<Rightarrow> nat option" where
  "find_newline s =
     (if 10 \<in> set s then Some (length (takeWhile (\<lambda>b. b \<noteq> 10) s)) else None)"

definition rfind_newline :: "bytes \<Rightarrow> nat option" where
  "rfind_newline s =
     (if 10 \<in> set s then Some (length s - 1 - length (takeWhile (\<lambda>b. b \<noteq> 10) (rev s))) else None)"

subsection \<open>Display width\<close>

definition in_ranges :: "(nat \<times> nat) list \<Rightarrow> nat \<Rightarrow> bool" where
  "in_ranges rs c \<longleftrightarrow> list_ex (\<lambda>(a, b). a \<le> c \<and> c \<le> b) rs"

definition wide_ranges :: "(nat \<times> nat) list" where
  "wide_ranges = [
    (0x1100, 0x115F), (0x231A, 0x231B), (0x2329, 0x232A), (0x23E9, 0x23F3), (0x23F8, 0x23FA),
    (0x25FD, 0x25FE), (0x2614, 0x2615), (0x2648, 0x2653), (0x267F, 0x267F), (0x2693, 0x2693),
    (0x26A1, 0x26A1), (0x26AA, 0x26AB), (0x26BD, 0x26BE), (0x26C4, 0x26C5), (0x26CE, 0x26CE),
    (0x26D4, 0x26D4), (0x26EA, 0x26EA), (0x26F2, 0x26F3), (0x26F5, 0x26F5), (0x26FA, 0x26FA),
    (0x26FD, 0x26FD), (0x2702, 0x2702), (0x2705, 0x2705), (0x2708, 0x270D), (0x270F, 0x270F),
    (0x2712, 0x2712), (0x2714, 0x2714), (0x2716, 0x2716), (0x271D, 0x271D), (0x2721, 0x2721),
    (0x2728, 0x2728), (0x2733, 0x2734), (0x2744, 0x2744), (0x2747, 0x2747), (0x274C, 0x274C),
    (0x274E, 0x274E), (0x2753, 0x2755), (0x2757, 0x2757), (0x2763, 0x2764), (0x2795, 0x2797),
    (0x27A1, 0x27A1), (0x27B0, 0x27B0), (0x27BF, 0x27BF), (0x2934, 0x2935), (0x2B05, 0x2B07),
    (0x2B1B, 0x2B1C), (0x2B50, 0x2B50), (0x2B55, 0x2B55), (0x2E80, 0x303E), (0x3040, 0x33BF),
    (0x3400, 0x4DBF), (0x4E00, 0xA4CF), (0xA960, 0xA97C), (0xAC00, 0xD7A3), (0xF900, 0xFAFF),
    (0xFE10, 0xFE19), (0xFE30, 0xFE6B), (0xFF01, 0xFF60), (0xFFE0, 0xFFE6), (0x1F004, 0x1F004),
    (0x1F0CF, 0x1F0CF), (0x1F170, 0x1F171), (0x1F17E, 0x1F17F), (0x1F18E, 0x1F18E),
    (0x1F191, 0x1F19A), (0x1F1E0, 0x1F1FF), (0x1F200, 0x1F202), (0x1F210, 0x1F23B),
    (0x1F240, 0x1F248), (0x1F250, 0x1F251), (0x1F260, 0x1F265), (0x1F300, 0x1F9FF),
    (0x1FA00, 0x1FA6F), (0x1FA70, 0x1FAFF), (0x20000, 0x2FA1F), (0x30000, 0x3134F)]"

definition is_wide :: "cp \<Rightarrow> bool" where
  "is_wide c = in_ranges wide_ranges c"

definition char_width :: "cp \<Rightarrow> nat" where
  "char_width c =
     (if c < 0x7F then 1
      else if is_control c then 1
      else if c = 0xAD then 0
      else if in_ranges [(0x200B, 0x200F), (0x2028, 0x202E), (0x2060, 0x2064), (0xFEFF, 0xFEFF)] c then 0
      else if in_ranges [(0xFE00, 0xFE0F), (0x1F3FB, 0x1F3FF)] c then 0
      else if in_ranges [(0x0300, 0x036F), (0x1AB0, 0x1AFF), (0x1DC0, 0x1DFF), (0x20D0, 0x20FF),
                         (0xFE20, 0xFE2F)] c then 0
      else if is_wide c then 2 else 1)"

fun str_width_loop :: "nat \<Rightarrow> bool \<Rightarrow> ustring \<Rightarrow> nat" where
  "str_width_loop width after_joiner [] = width"
| "str_width_loop width after_joiner (c # cs) =
     str_width_loop (if \<not> after_joiner then width + char_width c else width) (c = 0x200D) cs"

definition str_width :: "bytes \<Rightarrow> nat" where
  "str_width s = str_width_loop 0 False (chars s)"

definition display_char :: "cp \<Rightarrow> cp" where
  "display_char c = (if is_control c then 0xFFFD else c)"

fun offset_loop :: "nat \<Rightarrow> nat \<Rightarrow> (nat \<times> cp) list \<Rightarrow> nat \<Rightarrow> nat" where
  "offset_loop col width [] len = len"
| "offset_loop col width ((i, c) # ics) len =
     (if col \<le> width then i else offset_loop col (width + char_width c) ics len)"

definition offset_at_column :: "bytes \<Rightarrow> nat \<Rightarrow> nat" where
  "offset_at_column line col = offset_loop col 0 (char_indices 0 (chars line)) (length line)"

subsection \<open>The buffer\<close>

record line_buffer =
  buf :: bytes
  cursor :: nat
  kill_ring :: bytes

definition new_line_buffer :: line_buffer where
  "new_line_buffer = \<lparr>buf = [], cursor = 0, kill_ring = []\<rparr>"

definition set_line :: "line_buffer \<Rightarrow> bytes \<Rightarrow> line_buffer" where
  "set_line lb s = lb\<lparr>buf := s, cursor := length s\<rparr>"

fun back_to_boundary :: "bytes \<Rightarrow> nat \<Rightarrow> nat" where
  "back_to_boundary s 0 = 0"
| "back_to_boundary s (Suc p) = (if is_char_boundary s (Suc p) then Suc p else back_to_boundary s p)"

function forward_to_boundary :: "bytes \<Rightarrow> nat \<Rightarrow> nat" where
  "forward_to_boundary s p =
     (if p < length s \<and> \<not> is_char_boundary s p then forward_to_boundary s (p + 1) else p)"
  by pat_completeness auto
termination by (relation "measure (\<lambda>(s, p). length s - p)") auto

declare forward_to_boundary.simps [simp del]

definition set_with_cursor :: "line_buffer \<Rightarrow> bytes \<Rightarrow> nat \<Rightarrow> line_buffer" where
  "set_with_cursor lb s c = lb\<lparr>buf := s, cursor := back_to_boundary s (min c (length s))\<rparr>"

text \<open>\<open>None\<close> when the index into the bytes is out of range.\<close>

definition prev_char_boundary :: "line_buffer \<Rightarrow> nat option" where
  "prev_char_boundary lb =
     (if cursor lb = 0 then Some 0
      else if length (buf lb) \<le> cursor lb - 1 then None
      else if unat (buf lb ! (cursor lb - 1)) < 0x80 then Some (cursor lb - 1)
      else Some (back_to_boundary (buf lb) (cursor lb - 1)))"

definition next_char_boundary :: "line_buffer \<Rightarrow> nat" where
  "next_char_boundary lb =
     (let next = cursor lb + 1
      in if length (buf lb) \<le> next then length (buf lb)
         else if unat (buf lb ! cursor lb) < 0x80 then next
         else min (forward_to_boundary (buf lb) next) (length (buf lb)))"

text \<open>The outer option is a panic, the inner one the result.\<close>

definition char_before_cursor :: "line_buffer \<Rightarrow> cp option option" where
  "char_before_cursor lb =
     (if cursor lb = 0 then Some None
      else if length (buf lb) \<le> cursor lb - 1 then None
      else let b = buf lb ! (cursor lb - 1)
           in if unat b < 0x80 then Some (Some (unat b))
              else (case str_slice (buf lb) 0 (cursor lb) of
                      None \<Rightarrow> None
                    | Some s \<Rightarrow> Some (if chars s = [] then None else Some (last (chars s)))))"

definition char_at_cursor :: "line_buffer \<Rightarrow> cp option option" where
  "char_at_cursor lb =
     (if length (buf lb) \<le> cursor lb then Some None
      else let b = buf lb ! cursor lb
           in if unat b < 0x80 then Some (Some (unat b))
              else (case str_slice (buf lb) (cursor lb) (length (buf lb)) of
                      None \<Rightarrow> None
                    | Some s \<Rightarrow> Some (if chars s = [] then None else Some (hd (chars s)))))"

definition display_cursor_pos :: "line_buffer \<Rightarrow> nat option" where
  "display_cursor_pos lb =
     (if list_all (\<lambda>b. unat b < 0x80) (buf lb) then Some (cursor lb)
      else map_option str_width (str_slice (buf lb) 0 (cursor lb)))"

definition display_len :: "line_buffer \<Rightarrow> nat" where
  "display_len lb =
     (if list_all (\<lambda>b. unat b < 0x80) (buf lb) then length (buf lb) else str_width (buf lb))"

definition insert_str :: "line_buffer \<Rightarrow> bytes \<Rightarrow> line_buffer option" where
  "insert_str lb s =
     map_option (\<lambda>b. lb\<lparr>buf := b, cursor := cursor lb + length s\<rparr>) (str_insert (buf lb) (cursor lb) s)"

definition insert_char :: "line_buffer \<Rightarrow> cp \<Rightarrow> line_buffer option" where
  "insert_char lb c =
     map_option (\<lambda>b. lb\<lparr>buf := b, cursor := cursor lb + len_utf8 c\<rparr>)
       (str_insert (buf lb) (cursor lb) (encode_utf8 c))"

definition delete_back :: "line_buffer \<Rightarrow> (bool \<times> line_buffer) option" where
  "delete_back lb =
     (if cursor lb = 0 then Some (False, lb)
      else Option.bind (prev_char_boundary lb) (\<lambda>p.
        map_option (\<lambda>b. (True, lb\<lparr>buf := b, cursor := p\<rparr>)) (str_drain (buf lb) p (cursor lb))))"

definition delete_forward :: "line_buffer \<Rightarrow> (bool \<times> line_buffer) option" where
  "delete_forward lb =
     (if length (buf lb) \<le> cursor lb then Some (False, lb)
      else map_option (\<lambda>b. (True, lb\<lparr>buf := b\<rparr>))
             (str_drain (buf lb) (cursor lb) (next_char_boundary lb)))"

definition move_left :: "line_buffer \<Rightarrow> (bool \<times> line_buffer) option" where
  "move_left lb =
     (if cursor lb = 0 then Some (False, lb)
      else map_option (\<lambda>p. (True, lb\<lparr>cursor := p\<rparr>)) (prev_char_boundary lb))"

definition move_right :: "line_buffer \<Rightarrow> bool \<times> line_buffer" where
  "move_right lb =
     (if length (buf lb) \<le> cursor lb then (False, lb)
      else (True, lb\<lparr>cursor := next_char_boundary lb\<rparr>))"

definition move_home :: "line_buffer \<Rightarrow> line_buffer" where
  "move_home lb = lb\<lparr>cursor := 0\<rparr>"

definition move_end :: "line_buffer \<Rightarrow> line_buffer" where
  "move_end lb = lb\<lparr>cursor := length (buf lb)\<rparr>"

lemma back_to_boundary_le: "back_to_boundary s p \<le> p"
  by (induction p) (auto simp: le_SucI)

lemma prev_char_boundary_less: "prev_char_boundary lb = Some p \<Longrightarrow> cursor lb \<noteq> 0 \<Longrightarrow> p < cursor lb"
  using back_to_boundary_le [of "buf lb" "cursor lb - 1"]
  by (auto simp: prev_char_boundary_def split: if_splits)

lemma forward_to_boundary_ge: "p \<le> forward_to_boundary s p"
  by (induction s p rule: forward_to_boundary.induct) (subst forward_to_boundary.simps, force)

lemma next_char_boundary_greater: "cursor lb < length (buf lb) \<Longrightarrow> cursor lb < next_char_boundary lb"
  using forward_to_boundary_ge [of "cursor lb + 1" "buf lb"] by (auto simp: next_char_boundary_def Let_def)

text \<open>The loops that step over characters of one kind.\<close>

function skip_left :: "(cp \<Rightarrow> bool) \<Rightarrow> line_buffer \<Rightarrow> line_buffer option" where
  "skip_left P lb =
     (if cursor lb = 0 then Some lb
      else case char_before_cursor lb of
        None \<Rightarrow> None
      | Some None \<Rightarrow> Some lb
      | Some (Some c) \<Rightarrow>
          if P c then
            (case prev_char_boundary lb of
               None \<Rightarrow> None
             | Some p \<Rightarrow> skip_left P (lb\<lparr>cursor := p\<rparr>))
          else Some lb)"
  by pat_completeness auto
termination
  by (relation "measure (cursor \<circ> snd)") (auto dest: prev_char_boundary_less)

function skip_right :: "(cp \<Rightarrow> bool) \<Rightarrow> line_buffer \<Rightarrow> line_buffer option" where
  "skip_right P lb =
     (if \<not> cursor lb < length (buf lb) then Some lb
      else case char_at_cursor lb of
        None \<Rightarrow> None
      | Some None \<Rightarrow> Some lb
      | Some (Some c) \<Rightarrow>
          if P c then skip_right P (lb\<lparr>cursor := next_char_boundary lb\<rparr>) else Some lb)"
  by pat_completeness auto
termination
  by (relation "measure (\<lambda>(P, lb). length (buf lb) - cursor lb)")
    (auto intro!: diff_less_mono2 next_char_boundary_greater)

declare skip_left.simps [simp del] skip_right.simps [simp del]

definition not_ws :: "cp \<Rightarrow> bool" where
  "not_ws c \<longleftrightarrow> \<not> is_whitespace c"

definition move_word_left :: "line_buffer \<Rightarrow> line_buffer option" where
  "move_word_left lb = Option.bind (skip_left is_whitespace lb) (skip_left not_ws)"

definition move_word_right :: "line_buffer \<Rightarrow> line_buffer option" where
  "move_word_right lb = Option.bind (skip_right not_ws lb) (skip_right is_whitespace)"

definition kill_to_end :: "line_buffer \<Rightarrow> line_buffer option" where
  "kill_to_end lb =
     (if cursor lb < length (buf lb) then
        Option.bind (str_slice (buf lb) (cursor lb) (length (buf lb))) (\<lambda>k.
          map_option (\<lambda>b. lb\<lparr>kill_ring := k, buf := b\<rparr>) (str_truncate (buf lb) (cursor lb)))
      else Some lb)"

definition kill_to_start :: "line_buffer \<Rightarrow> line_buffer option" where
  "kill_to_start lb =
     (if 0 < cursor lb then
        Option.bind (str_slice (buf lb) 0 (cursor lb)) (\<lambda>k.
          map_option (\<lambda>b. lb\<lparr>kill_ring := k, buf := b, cursor := 0\<rparr>) (str_drain (buf lb) 0 (cursor lb)))
      else Some lb)"

definition kill_word_back :: "line_buffer \<Rightarrow> line_buffer option" where
  "kill_word_back lb =
     Option.bind (Option.bind (skip_left is_whitespace lb) (skip_left not_ws)) (\<lambda>lb'.
       if cursor lb' < cursor lb then
         Option.bind (str_slice (buf lb') (cursor lb') (cursor lb)) (\<lambda>k.
           map_option (\<lambda>b. lb'\<lparr>kill_ring := k, buf := b\<rparr>) (str_drain (buf lb') (cursor lb') (cursor lb)))
       else Some lb')"

definition kill_word_forward :: "line_buffer \<Rightarrow> line_buffer option" where
  "kill_word_forward lb =
     Option.bind (Option.bind (skip_right is_whitespace lb) (skip_right not_ws)) (\<lambda>lb'.
       if cursor lb < cursor lb' then
         Option.bind (str_slice (buf lb') (cursor lb) (cursor lb')) (\<lambda>k.
           map_option (\<lambda>b. lb'\<lparr>kill_ring := k, buf := b, cursor := cursor lb\<rparr>)
             (str_drain (buf lb') (cursor lb) (cursor lb')))
       else Some lb')"

definition yank :: "line_buffer \<Rightarrow> line_buffer option" where
  "yank lb = (if kill_ring lb \<noteq> [] then insert_str lb (kill_ring lb) else Some lb)"

definition has_newlines :: "line_buffer \<Rightarrow> bool" where
  "has_newlines lb \<longleftrightarrow> 10 \<in> set (buf lb)"

definition on_first_line :: "line_buffer \<Rightarrow> bool option" where
  "on_first_line lb = map_option (\<lambda>s. 10 \<notin> set s) (str_slice (buf lb) 0 (cursor lb))"

definition on_last_line :: "line_buffer \<Rightarrow> bool option" where
  "on_last_line lb = map_option (\<lambda>s. 10 \<notin> set s) (str_slice (buf lb) (cursor lb) (length (buf lb)))"

definition after_newline :: "nat option \<Rightarrow> nat" where
  "after_newline i = (case i of Some i \<Rightarrow> i + 1 | None \<Rightarrow> 0)"

definition move_line_up :: "line_buffer \<Rightarrow> (bool \<times> line_buffer) option" where
  "move_line_up lb =
     Option.bind (str_slice (buf lb) 0 (cursor lb)) (\<lambda>before.
       case rfind_newline before of
         None \<Rightarrow> Some (False, lb)
       | Some i \<Rightarrow>
           (let cur_line_start = i + 1
            in Option.bind (str_slice (buf lb) cur_line_start (cursor lb)) (\<lambda>head.
               Option.bind (str_slice (buf lb) 0 (cur_line_start - 1)) (\<lambda>above.
               let prev_line_start = after_newline (rfind_newline above)
               in map_option (\<lambda>line.
                    (True, lb\<lparr>cursor := prev_line_start + offset_at_column line (str_width head)\<rparr>))
                    (str_slice (buf lb) prev_line_start (cur_line_start - 1))))))"

definition move_line_down :: "line_buffer \<Rightarrow> (bool \<times> line_buffer) option" where
  "move_line_down lb =
     Option.bind (str_slice (buf lb) 0 (cursor lb)) (\<lambda>before.
     let cur_line_start = after_newline (rfind_newline before)
     in Option.bind (str_slice (buf lb) cur_line_start (cursor lb)) (\<lambda>head.
        Option.bind (str_slice (buf lb) (cursor lb) (length (buf lb))) (\<lambda>tail.
          case find_newline tail of
            None \<Rightarrow> Some (False, lb)
          | Some i \<Rightarrow>
              (let next_line_start = cursor lb + i + 1
               in Option.bind (str_slice (buf lb) next_line_start (length (buf lb))) (\<lambda>below.
                  let next_line_end = (case find_newline below of
                                         Some j \<Rightarrow> next_line_start + j | None \<Rightarrow> length (buf lb))
                  in map_option (\<lambda>line.
                       (True, lb\<lparr>cursor := next_line_start + offset_at_column line (str_width head)\<rparr>))
                       (str_slice (buf lb) next_line_start next_line_end))))))"

definition grid_cursor_position :: "line_buffer \<Rightarrow> nat \<Rightarrow> nat \<Rightarrow> (nat \<times> nat) option" where
  "grid_cursor_position lb prompt_display_len term_cols =
     map_option (\<lambda>pos. let cols = max term_cols 1; total = prompt_display_len + pos
                       in (total div cols, total mod cols)) (display_cursor_pos lb)"

fun display_offset :: "nat \<Rightarrow> nat \<Rightarrow> (nat \<times> cp) list \<Rightarrow> nat \<Rightarrow> nat" where
  "display_offset target display [] len = len"
| "display_offset target display ((b, ch) # ics) len =
     (if target < display + char_width ch then b
      else if target = display + char_width ch then b + len_utf8 ch
      else display_offset target (display + char_width ch) ics len)"

definition byte_offset_for_display_pos :: "line_buffer \<Rightarrow> nat \<Rightarrow> nat" where
  "byte_offset_for_display_pos lb target =
     (if target = 0 then 0
      else display_offset target 0 (char_indices 0 (chars (buf lb))) (length (buf lb)))"

text \<open>\<open>up\<close> is \<^verbatim>\<open>direction < 0\<close>.\<close>

definition move_grid :: "line_buffer \<Rightarrow> bool \<Rightarrow> nat \<Rightarrow> nat \<Rightarrow> nat \<Rightarrow> (bool \<times> line_buffer) option" where
  "move_grid lb up prompt_display_len term_cols target_col =
     (if buf lb = [] then Some (False, lb)
      else map_option (\<lambda>(row, _).
        let cols = max term_cols 1;
            last_row = (prompt_display_len + display_len lb) div cols;
            target_row = (if up then (if prompt_display_len div cols < row then Some (row - 1) else None)
                          else if row < last_row then Some (row + 1) else None)
        in case target_row of
             None \<Rightarrow> (False, lb)
           | Some r \<Rightarrow>
               (let target_total = r * cols + min target_col (cols - 1)
                in (True, lb\<lparr>cursor := byte_offset_for_display_pos lb (target_total - prompt_display_len)\<rparr>)))
        (grid_cursor_position lb prompt_display_len term_cols))"

subsection \<open>Boundaries of encoded text\<close>

lemma is_cont_byte: "n < 256 \<Longrightarrow> is_cont (byte n) \<longleftrightarrow> 0x80 \<le> n \<and> n < 0xC0"
  by (auto simp: is_cont_def)

lemma encode_lead: "is_scalar c \<Longrightarrow> \<not> is_cont (hd (encode_utf8 c))"
  by (auto simp: encode_utf8_def is_cont_byte is_scalar_def less_mult_imp_div_less)

lemma mod64_u8 [simp]: "128 + n mod 64 < (256 :: nat)" "128 + n mod 64 < (192 :: nat)"
  using mod_less_divisor [of 64 n] by linarith+

lemma encode_tail: "list_all is_cont (tl (encode_utf8 c))"
  by (simp add: encode_utf8_def is_cont_byte)

lemma encode_ascii: "encode_utf8 c ! 0 = b \<Longrightarrow> unat b < 0x80 \<Longrightarrow> is_scalar c \<Longrightarrow> c < 0x80 \<and> c = unat b"
  by (auto simp: encode_utf8_def is_scalar_def less_mult_imp_div_less split: if_splits)

lemma boundary_utf8: "wf_str a \<Longrightarrow> is_char_boundary (utf8 b @ utf8 a) (length (utf8 b))"
  by (cases a) (auto simp: is_char_boundary_def nth_append hd_conv_nth [symmetric] encode_lead)

lemma inner_not_boundary:
  assumes "0 < j" "j < len_utf8 c"
  shows "\<not> is_char_boundary (u @ encode_utf8 c @ v) (length u + j)"
proof -
  have "encode_utf8 c ! j = tl (encode_utf8 c) ! (j - 1)" using assms by (simp add: nth_tl)
  moreover have "tl (encode_utf8 c) ! (j - 1) \<in> set (tl (encode_utf8 c))" using assms by (intro nth_mem) simp
  ultimately have "is_cont (encode_utf8 c ! j)" using encode_tail [of c] by (auto simp: list_all_iff)
  then show ?thesis using assms by (auto simp: is_char_boundary_def nth_append)
qed

lemma back_inner:
  assumes "is_char_boundary (u @ encode_utf8 c @ v) (length u)" "j < len_utf8 c"
  shows "back_to_boundary (u @ encode_utf8 c @ v) (length u + j) = length u"
  using assms(2)
proof (induction j)
  case 0
  then show ?case using assms(1) by (cases "length u") auto
next
  case (Suc j)
  then show ?case using inner_not_boundary [of "Suc j" c u v] by simp
qed

lemma forward_inner:
  assumes "is_char_boundary (u @ encode_utf8 c @ v) (length u + len_utf8 c)" "0 < j" "j \<le> len_utf8 c"
  shows "forward_to_boundary (u @ encode_utf8 c @ v) (length u + j) = length u + len_utf8 c"
  using assms(2,3)
proof (induction "len_utf8 c - j" arbitrary: j)
  case 0
  then show ?case using assms(1) by (subst forward_to_boundary.simps) auto
next
  case (Suc n)
  then have "forward_to_boundary (u @ encode_utf8 c @ v) (length u + (j + 1)) = length u + len_utf8 c"
    by (intro Suc(1)) auto
  then show ?case using Suc inner_not_boundary [of j c u v]
    by (subst forward_to_boundary.simps) (auto simp: add.assoc)
qed

subsection \<open>The zipper\<close>

type_synonym zipper = "ustring \<times> ustring \<times> ustring"

text \<open>The buffer holds the text before and after the cursor, and the killed text.\<close>

fun repr :: "line_buffer \<Rightarrow> zipper \<Rightarrow> bool" where
  "repr lb (b, a, k) \<longleftrightarrow> wf_str b \<and> wf_str a \<and> wf_str k \<and>
     buf lb = utf8 b @ utf8 a \<and> cursor lb = length (utf8 b) \<and> kill_ring lb = utf8 k"

lemma chars_utf8 [simp]: "wf_str cs \<Longrightarrow> chars (utf8 cs) = cs"
  by (simp add: chars_def)

lemma boundary_zero [simp]: "is_char_boundary s 0" "is_char_boundary s (length s)"
  by (simp_all add: is_char_boundary_def)

lemma str_slice_utf8:
  assumes "wf_str y" "wf_str z"
  shows "str_slice (utf8 x @ utf8 y @ utf8 z) (length (utf8 x)) (length (utf8 x) + length (utf8 y)) = Some (utf8 y)"
  using boundary_utf8 [of "y @ z" x] boundary_utf8 [of z "x @ y"] assms
  by (simp add: str_slice_def slice_def)

lemma slice_before: "repr lb (b, a, k) \<Longrightarrow> str_slice (buf lb) 0 (cursor lb) = Some (utf8 b)"
  using str_slice_utf8 [of b a "[]"] by simp

lemma slice_after: "repr lb (b, a, k) \<Longrightarrow> str_slice (buf lb) (cursor lb) (length (buf lb)) = Some (utf8 a)"
  using str_slice_utf8 [of a "[]" b] by simp

lemma repr_prev:
  assumes "repr lb (b @ [c], a, k)"
  shows "prev_char_boundary lb = Some (length (utf8 b))"
proof -
  define u v where "u = utf8 b" and "v = utf8 a"
  have lb: "buf lb = u @ encode_utf8 c @ v" "cursor lb = length u + len_utf8 c" "is_scalar c" "wf_str (c # a)"
    using assms by (auto simp: u_def v_def)
  have start: "is_char_boundary (u @ encode_utf8 c @ v) (length u)"
    using boundary_utf8 [of "c # a" b] lb(4) by (simp add: u_def v_def)
  have pos: "0 < len_utf8 c" by simp
  have eq: "cursor lb - 1 = length u + (len_utf8 c - 1)" using lb pos by linarith
  have inr: "\<not> length (buf lb) \<le> cursor lb - 1" "cursor lb \<noteq> 0" using lb pos by (simp_all del: len_utf8_pos)
  have bk: "back_to_boundary (buf lb) (cursor lb - 1) = length u"
    unfolding lb(1) eq by (rule back_inner [OF start]) (simp add: pos)
  show ?thesis
  proof (cases "c < 0x80")
    case True
    then have "len_utf8 c = 1" by (simp add: len_utf8_def)
    with lb bk inr show ?thesis by (auto simp: prev_char_boundary_def u_def [symmetric])
  next
    case False
    have "buf lb ! (cursor lb - 1) = encode_utf8 c ! (len_utf8 c - 1)"
      unfolding lb(1) eq by (simp add: nth_append)
    also have "\<dots> \<in> set (tl (encode_utf8 c))"
      using False by (auto simp: encode_utf8_def len_utf8_def)
    finally have "\<not> unat (buf lb ! (cursor lb - 1)) < 0x80"
      using encode_tail [of c] by (auto simp: list_all_iff is_cont_def)
    with bk inr show ?thesis by (simp add: prev_char_boundary_def u_def [symmetric])
  qed
qed

lemma repr_next:
  assumes "repr lb (b, c # a, k)"
  shows "next_char_boundary lb = length (utf8 (b @ [c]))"
proof -
  define u v where "u = utf8 b" and "v = utf8 a"
  have lb: "buf lb = u @ encode_utf8 c @ v" "cursor lb = length u" "is_scalar c" "wf_str a"
    using assms by (auto simp: u_def v_def)
  have stop: "is_char_boundary (u @ encode_utf8 c @ v) (length u + len_utf8 c)"
    using boundary_utf8 [of a "b @ [c]"] lb(4) by (simp add: u_def v_def)
  have fwd: "forward_to_boundary (buf lb) (cursor lb + 1) = length u + len_utf8 c"
    unfolding lb(1,2) by (rule forward_inner [OF stop]) (simp_all add: Suc_leI)
  have len: "len_utf8 c = 1 \<longleftrightarrow> c < 0x80" by (auto simp: len_utf8_def)
  have "unat (buf lb ! cursor lb) < 0x80 \<Longrightarrow> c < 0x80"
    using encode_ascii [of c "encode_utf8 c ! 0"] lb by (simp add: nth_append)
  moreover have "length (buf lb) = length u + len_utf8 c + length v" by (simp add: lb)
  moreover have "len_utf8 c + length v \<le> Suc 0 \<Longrightarrow> v = [] \<and> len_utf8 c = 1"
    using len_utf8_pos [of c] by (cases v) (simp_all del: len_utf8_pos)
  ultimately show ?thesis using fwd len lb(2)
    by (auto simp: next_char_boundary_def Let_def u_def [symmetric])
qed

lemma repr_char_before:
  "repr lb ([], a, k) \<Longrightarrow> char_before_cursor lb = Some None"
  "repr lb (b @ [c], a, k) \<Longrightarrow> char_before_cursor lb = Some (Some c)"
proof -
  assume r: "repr lb (b @ [c], a, k)"
  define x where "x = buf lb ! (cursor lb - 1)"
  have c: "is_scalar c" and len: "0 < len_utf8 c" using r by auto
  have at_c: "cursor lb - 1 = length (utf8 b) + (len_utf8 c - 1)"
    using r len by (simp del: len_utf8_pos)
  have x: "x = encode_utf8 c ! (len_utf8 c - 1)"
    using r unfolding x_def at_c by (simp add: nth_append)
  have "unat x = c" if "unat x < 0x80"
  proof (cases "c < 0x80")
    case True
    then show ?thesis using x by (simp add: encode_utf8_def len_utf8_def)
  next
    case False
    then have "x \<in> set (tl (encode_utf8 c))" using x by (auto simp: encode_utf8_def len_utf8_def)
    then show ?thesis using that encode_tail [of c] by (auto simp: list_all_iff is_cont_def)
  qed
  moreover have "cursor lb \<noteq> 0" "\<not> length (buf lb) \<le> cursor lb - 1"
    using r len by (simp_all del: len_utf8_pos)
  moreover have "chars (utf8 (b @ [c])) = b @ [c]" using r by (intro chars_utf8) simp
  ultimately show "char_before_cursor lb = Some (Some c)"
    using slice_before [OF r] by (simp add: char_before_cursor_def Let_def x_def del: utf8_append)
qed (simp add: char_before_cursor_def)

lemma repr_char_at:
  "repr lb (b, [], k) \<Longrightarrow> char_at_cursor lb = Some None"
  "repr lb (b, c # a, k) \<Longrightarrow> char_at_cursor lb = Some (Some c)"
proof -
  assume r: "repr lb (b, c # a, k)"
  have x: "buf lb ! cursor lb = encode_utf8 c ! 0" using r by (simp add: nth_append)
  have "unat (buf lb ! cursor lb) < 0x80 \<Longrightarrow> c = unat (buf lb ! cursor lb)"
    using encode_ascii [OF x [symmetric]] r by simp
  moreover have "\<not> length (buf lb) \<le> cursor lb" using r by simp
  moreover have "chars (utf8 (c # a)) = c # a" using r by (intro chars_utf8) simp
  ultimately show "char_at_cursor lb = Some (Some c)"
    using slice_after [OF r] by (simp add: char_at_cursor_def Let_def del: utf8_Cons)
qed (simp add: char_at_cursor_def)

lemma repr_cursor:
  assumes "repr lb (b, a, k)" "b @ a = b' @ a'"
  shows "repr (lb\<lparr>cursor := length (utf8 b')\<rparr>) (b', a', k)"
proof -
  have "utf8 b @ utf8 a = utf8 b' @ utf8 a'" using assms(2) by (metis utf8_append)
  moreover have "wf_str b' \<and> wf_str a'" using assms by (metis list_all_append repr.simps)
  ultimately show ?thesis using assms(1) by simp
qed

lemma repr_cursor_zero: "repr lb (b, a, k) \<Longrightarrow> cursor lb = 0 \<longleftrightarrow> b = []"
  by simp

lemma repr_cursor_end: "repr lb (b, a, k) \<Longrightarrow> cursor lb < length (buf lb) \<longleftrightarrow> a \<noteq> []"
  by simp

declare repr.simps [simp del]

lemma skip_left_repr:
  "repr lb (b, a, k) \<Longrightarrow>
     \<exists>lb'. skip_left P lb = Some lb' \<and> buf lb' = buf lb \<and>
       repr lb' (rev (dropWhile P (rev b)), rev (takeWhile P (rev b)) @ a, k)"
proof (induction b arbitrary: lb a rule: rev_induct)
  case Nil
  then show ?case by (simp add: skip_left.simps [of P lb] repr_cursor_zero)
next
  case (snoc c b)
  have cur: "cursor lb \<noteq> 0" using repr_cursor_zero [OF snoc.prems] by simp
  show ?case
  proof (cases "P c")
    case True
    have "repr (lb\<lparr>cursor := length (utf8 b)\<rparr>) (b, c # a, k)"
      using snoc.prems by (rule repr_cursor) simp
    from snoc.IH [OF this] obtain lb' where
      "skip_left P (lb\<lparr>cursor := length (utf8 b)\<rparr>) = Some lb'" "buf lb' = buf lb"
      "repr lb' (rev (dropWhile P (rev b)), rev (takeWhile P (rev b)) @ c # a, k)" by auto
    then show ?thesis
      using True cur repr_char_before(2) [OF snoc.prems] repr_prev [OF snoc.prems]
      by (simp add: skip_left.simps [of P lb])
  next
    case False
    then show ?thesis using cur repr_char_before(2) [OF snoc.prems] snoc.prems
      by (simp add: skip_left.simps [of P lb])
  qed
qed

lemma skip_right_repr:
  "repr lb (b, a, k) \<Longrightarrow>
     \<exists>lb'. skip_right P lb = Some lb' \<and> buf lb' = buf lb \<and> repr lb' (b @ takeWhile P a, dropWhile P a, k)"
proof (induction a arbitrary: lb b)
  case Nil
  then show ?case using repr_cursor_end [OF Nil] by (simp add: skip_right.simps [of P lb])
next
  case (Cons c a)
  have cur: "cursor lb < length (buf lb)" using repr_cursor_end [OF Cons.prems] by simp
  show ?case
  proof (cases "P c")
    case True
    have "repr (lb\<lparr>cursor := length (utf8 (b @ [c]))\<rparr>) (b @ [c], a, k)"
      using Cons.prems by (rule repr_cursor) simp
    from Cons.IH [OF this] obtain lb' where
      "skip_right P (lb\<lparr>cursor := length (utf8 (b @ [c]))\<rparr>) = Some lb'" "buf lb' = buf lb"
      "repr lb' ((b @ [c]) @ takeWhile P a, dropWhile P a, k)" by auto
    then show ?thesis
      using True cur repr_char_at(2) [OF Cons.prems] repr_next [OF Cons.prems]
      by (simp add: skip_right.simps [of P lb])
  next
    case False
    then show ?thesis using cur repr_char_at(2) [OF Cons.prems] Cons.prems
      by (simp add: skip_right.simps [of P lb])
  qed
qed

subsection \<open>Editing on the zipper\<close>

datatype edit =
    Insert ustring | DeleteBack | DeleteForward
  | MoveLeft | MoveRight | MoveHome | MoveEnd | WordLeft | WordRight
  | KillToEnd | KillToStart | KillWordBack | KillWordForward | Yank
  | LineUp | LineDown | Grid bool nat nat nat

definition before_word :: "ustring \<Rightarrow> ustring" where
  "before_word b = rev (dropWhile not_ws (dropWhile is_whitespace (rev b)))"

definition word_end :: "ustring \<Rightarrow> ustring" where
  "word_end b = drop (length (before_word b)) b"

definition word_start :: "(cp \<Rightarrow> bool) \<Rightarrow> (cp \<Rightarrow> bool) \<Rightarrow> ustring \<Rightarrow> ustring" where
  "word_start P Q a = takeWhile P a @ takeWhile Q (dropWhile P a)"

definition after_word :: "(cp \<Rightarrow> bool) \<Rightarrow> (cp \<Rightarrow> bool) \<Rightarrow> ustring \<Rightarrow> ustring" where
  "after_word P Q a = dropWhile Q (dropWhile P a)"

text \<open>Text up to its last newline, and after it.\<close>

definition last_line :: "ustring \<Rightarrow> ustring" where
  "last_line b = rev (takeWhile (\<lambda>c. c \<noteq> 10) (rev b))"

definition above_last :: "ustring \<Rightarrow> ustring" where
  "above_last b = rev (dropWhile (\<lambda>c. c \<noteq> 10) (rev b))"

fun take_columns :: "nat \<Rightarrow> nat \<Rightarrow> ustring \<Rightarrow> ustring" where
  "take_columns col w [] = []"
| "take_columns col w (c # cs) = (if col \<le> w then [] else c # take_columns col (w + char_width c) cs)"

fun take_display :: "nat \<Rightarrow> nat \<Rightarrow> ustring \<Rightarrow> ustring" where
  "take_display t d [] = []"
| "take_display t d (c # cs) =
     (if t < d + char_width c then []
      else if t = d + char_width c then [c]
      else c # take_display t (d + char_width c) cs)"

definition text_width :: "ustring \<Rightarrow> nat" where
  "text_width cs = str_width_loop 0 False cs"

text \<open>The cursor after moving vertically: the new text before it, when there is a line to go
  to.\<close>

definition line_up :: "ustring \<Rightarrow> ustring \<Rightarrow> ustring option" where
  "line_up b a =
     (if 10 \<notin> set b then None
      else let upper = butlast (above_last b)
           in Some (above_last upper @ take_columns (text_width (last_line b)) 0 (last_line upper)))"

definition line_down :: "ustring \<Rightarrow> ustring \<Rightarrow> ustring option" where
  "line_down b a =
     (if 10 \<notin> set a then None
      else let rest = takeWhile (\<lambda>c. c \<noteq> 10) a; lower = tl (dropWhile (\<lambda>c. c \<noteq> 10) a)
           in Some (b @ rest @ [10] @
                take_columns (text_width (last_line b)) 0 (takeWhile (\<lambda>c. c \<noteq> 10) lower)))"

definition grid_move :: "bool \<Rightarrow> nat \<Rightarrow> nat \<Rightarrow> nat \<Rightarrow> ustring \<Rightarrow> ustring \<Rightarrow> ustring option" where
  "grid_move up prompt term_cols target_col b a =
     (let cols = max term_cols 1;
          row = (prompt + text_width b) div cols;
          last_row = (prompt + text_width (b @ a)) div cols;
          goto = (\<lambda>r. let t = r * cols + min target_col (cols - 1) - prompt
                      in Some (if t = 0 then [] else take_display t 0 (b @ a)))
      in if b @ a = [] then None
         else if up then (if prompt div cols < row then goto (row - 1) else None)
         else if row < last_row then goto (row + 1) else None)"

definition jump :: "(ustring \<Rightarrow> ustring \<Rightarrow> ustring option) \<Rightarrow> zipper \<Rightarrow> zipper" where
  "jump f z = (case z of (b, a, k) \<Rightarrow>
     (case f b a of None \<Rightarrow> z | Some b' \<Rightarrow> (b', drop (length b') (b @ a), k)))"

fun z_edit :: "edit \<Rightarrow> zipper \<Rightarrow> zipper" where
  "z_edit (Insert s) (b, a, k) = (b @ s, a, k)"
| "z_edit DeleteBack (b, a, k) = (butlast b, a, k)"
| "z_edit DeleteForward (b, a, k) = (b, tl a, k)"
| "z_edit MoveLeft (b, a, k) = (if b = [] then (b, a, k) else (butlast b, last b # a, k))"
| "z_edit MoveRight (b, a, k) = (if a = [] then (b, a, k) else (b @ [hd a], tl a, k))"
| "z_edit MoveHome (b, a, k) = ([], b @ a, k)"
| "z_edit MoveEnd (b, a, k) = (b @ a, [], k)"
| "z_edit WordLeft (b, a, k) = (before_word b, word_end b @ a, k)"
| "z_edit WordRight (b, a, k) = (b @ word_start not_ws is_whitespace a, after_word not_ws is_whitespace a, k)"
| "z_edit KillToEnd (b, a, k) = (if a = [] then (b, a, k) else (b, [], a))"
| "z_edit KillToStart (b, a, k) = (if b = [] then (b, a, k) else ([], a, b))"
| "z_edit KillWordBack (b, a, k) = (if b = [] then (b, a, k) else (before_word b, a, word_end b))"
| "z_edit KillWordForward (b, a, k) =
     (if a = [] then (b, a, k) else (b, after_word is_whitespace not_ws a, word_start is_whitespace not_ws a))"
| "z_edit Yank (b, a, k) = (b @ k, a, k)"
| "z_edit LineUp z = jump line_up z"
| "z_edit LineDown z = jump line_down z"
| "z_edit (Grid up prompt cols col) z = jump (grid_move up prompt cols col) z"

fun apply_edit :: "edit \<Rightarrow> line_buffer \<Rightarrow> line_buffer option" where
  "apply_edit (Insert s) lb = insert_str lb (utf8 s)"
| "apply_edit DeleteBack lb = map_option snd (delete_back lb)"
| "apply_edit DeleteForward lb = map_option snd (delete_forward lb)"
| "apply_edit MoveLeft lb = map_option snd (move_left lb)"
| "apply_edit MoveRight lb = Some (snd (move_right lb))"
| "apply_edit MoveHome lb = Some (move_home lb)"
| "apply_edit MoveEnd lb = Some (move_end lb)"
| "apply_edit WordLeft lb = move_word_left lb"
| "apply_edit WordRight lb = move_word_right lb"
| "apply_edit KillToEnd lb = kill_to_end lb"
| "apply_edit KillToStart lb = kill_to_start lb"
| "apply_edit KillWordBack lb = kill_word_back lb"
| "apply_edit KillWordForward lb = kill_word_forward lb"
| "apply_edit Yank lb = yank lb"
| "apply_edit LineUp lb = map_option snd (move_line_up lb)"
| "apply_edit LineDown lb = map_option snd (move_line_down lb)"
| "apply_edit (Grid up prompt cols col) lb = map_option snd (move_grid lb up prompt cols col)"

text \<open>Typed text is a sequence of Unicode scalar values.\<close>

fun edit_ok :: "edit \<Rightarrow> bool" where
  "edit_ok (Insert s) = wf_str s"
| "edit_ok _ = True"

definition sim :: "edit \<Rightarrow> bool" where
  "sim e \<longleftrightarrow> (\<forall>lb z. repr lb z \<longrightarrow> (\<exists>lb'. apply_edit e lb = Some lb' \<and> repr lb' (z_edit e z)))"

lemma simI: "(\<And>lb b a k. repr lb (b, a, k) \<Longrightarrow>
    \<exists>lb'. apply_edit e lb = Some lb' \<and> repr lb' (z_edit e (b, a, k))) \<Longrightarrow> sim e"
  by (auto simp: sim_def)

lemma reprI:
  "wf_str b \<Longrightarrow> wf_str a \<Longrightarrow> wf_str k \<Longrightarrow>
     repr \<lparr>buf = utf8 b @ utf8 a, cursor = length (utf8 b), kill_ring = utf8 k\<rparr> (b, a, k)"
  by (simp add: repr.simps)

lemma reprE:
  assumes "repr lb (b, a, k)"
  obtains "lb = \<lparr>buf = utf8 b @ utf8 a, cursor = length (utf8 b), kill_ring = utf8 k\<rparr>"
    "wf_str b" "wf_str a" "wf_str k"
  using assms by (cases lb) (simp add: repr.simps)

lemma str_drain_utf8:
  assumes "wf_str y" "wf_str z"
  shows "str_drain (utf8 x @ utf8 y @ utf8 z) (length (utf8 x)) (length (utf8 x) + length (utf8 y)) = Some (utf8 x @ utf8 z)"
  using boundary_utf8 [of "y @ z" x] boundary_utf8 [of z "x @ y"] assms by (simp add: str_drain_def)

lemma sim_Insert: "wf_str s \<Longrightarrow> sim (Insert s)"
  by (rule simI, erule reprE)
    (auto simp: insert_str_def str_insert_def boundary_utf8 repr.simps)

lemma sim_delete_back: "sim DeleteBack"
proof (rule simI)
  fix lb b a k
  assume r: "repr lb (b, a, k)"
  show "\<exists>lb'. apply_edit DeleteBack lb = Some lb' \<and> repr lb' (z_edit DeleteBack (b, a, k))"
  proof (cases b rule: rev_cases)
    case Nil
    then show ?thesis using r by (simp add: delete_back_def repr_cursor_zero)
  next
    case (snoc b' c)
    then show ?thesis
      using r repr_prev [of lb b' c a k] str_drain_utf8 [of "[c]" a b'] len_utf8_pos [of c]
      by (auto simp: delete_back_def repr.simps)
  qed
qed

lemma sim_delete_forward: "sim DeleteForward"
proof (rule simI)
  fix lb b a k
  assume r: "repr lb (b, a, k)"
  show "\<exists>lb'. apply_edit DeleteForward lb = Some lb' \<and> repr lb' (z_edit DeleteForward (b, a, k))"
  proof (cases a)
    case Nil
    then show ?thesis using r by (simp add: delete_forward_def repr.simps)
  next
    case (Cons c a')
    then show ?thesis
      using r repr_next [of lb b c a' k] str_drain_utf8 [of "[c]" a' b]
      by (auto simp: delete_forward_def repr.simps)
  qed
qed

lemma sim_moves: "sim MoveLeft" "sim MoveRight" "sim MoveHome" "sim MoveEnd"
proof -
  show "sim MoveLeft"
  proof (rule simI)
    fix lb b a k
    assume r: "repr lb (b, a, k)"
    show "\<exists>lb'. apply_edit MoveLeft lb = Some lb' \<and> repr lb' (z_edit MoveLeft (b, a, k))"
      using r repr_prev [of lb "butlast b" "last b" a k]
        repr_cursor [OF r, of "butlast b" "last b # a"] repr_cursor_zero [OF r]
      by (cases b rule: rev_cases) (auto simp: move_left_def)
  qed
  show "sim MoveRight"
  proof (rule simI)
    fix lb b a k
    assume r: "repr lb (b, a, k)"
    show "\<exists>lb'. apply_edit MoveRight lb = Some lb' \<and> repr lb' (z_edit MoveRight (b, a, k))"
      using r repr_next [of lb b "hd a" "tl a" k]
        repr_cursor [OF r, of "b @ [hd a]" "tl a"] repr_cursor_end [OF r]
      by (cases a) (auto simp: move_right_def)
  qed
  show "sim MoveHome" by (rule simI) (auto simp: move_home_def repr.simps)
  show "sim MoveEnd" by (rule simI) (auto simp: move_end_def repr.simps)
qed

lemma before_word_split: "before_word b @ word_end b = b"
proof -
  have "b = rev (dropWhile is_whitespace (rev b)) @ rev (takeWhile is_whitespace (rev b))"
    by (metis rev_append rev_rev_ident takeWhile_dropWhile_id)
  moreover have "rev (dropWhile is_whitespace (rev b)) =
      before_word b @ rev (takeWhile not_ws (dropWhile is_whitespace (rev b)))"
    unfolding before_word_def by (metis rev_append takeWhile_dropWhile_id)
  ultimately have "\<exists>x. b = before_word b @ x" by (metis append.assoc)
  then show ?thesis unfolding word_end_def by (metis append_eq_conv_conj)
qed

text \<open>A nonempty list is not kept whole by dropping words from it.\<close>

lemma drop_word_shorter: "(\<And>x. P x \<or> Q x) \<Longrightarrow> xs \<noteq> [] \<Longrightarrow> length (dropWhile Q (dropWhile P xs)) < length xs"
proof (cases xs)
  case (Cons x ys)
  assume PQ: "\<And>x. P x \<or> Q x"
  show ?thesis
  proof (cases "P x")
    case True
    then show ?thesis using Cons
      by (simp add: less_Suc_eq_le) (meson le_trans length_dropWhile_le)
  next
    case False
    then show ?thesis using Cons PQ [of x] by (simp add: less_Suc_eq_le length_dropWhile_le)
  qed
qed simp

lemma ws_or_not: "is_whitespace x \<or> not_ws x"
  by (simp add: not_ws_def)

lemma before_word_shorter: "b \<noteq> [] \<Longrightarrow> length (before_word b) < length b"
  using drop_word_shorter [OF ws_or_not, of "rev b"] by (simp add: before_word_def)

lemma after_word_split: "word_start P Q a @ after_word P Q a = a"
  by (simp add: word_start_def after_word_def)

lemma word_start_nonempty_gen: "(\<And>x. P x \<or> Q x) \<Longrightarrow> a \<noteq> [] \<Longrightarrow> word_start P Q a \<noteq> []"
  using drop_word_shorter [of P Q a] after_word_split [of P Q a]
  by (metis after_word_def append_Nil less_irrefl)

lemma word_start_nonempty: "a \<noteq> [] \<Longrightarrow> word_start is_whitespace not_ws a \<noteq> []"
  by (rule word_start_nonempty_gen [OF ws_or_not])

lemma skip_word_left:
  assumes "repr lb (b, a, k)"
  obtains lb' where "Option.bind (skip_left is_whitespace lb) (skip_left not_ws) = Some lb'"
    "buf lb' = buf lb" "repr lb' (before_word b, word_end b @ a, k)"
proof -
  let ?b1 = "rev (dropWhile is_whitespace (rev b))"
  obtain lb1 where 1: "skip_left is_whitespace lb = Some lb1" "buf lb1 = buf lb"
    "repr lb1 (?b1, rev (takeWhile is_whitespace (rev b)) @ a, k)"
    using skip_left_repr [OF assms] by blast
  obtain lb2 where 2: "skip_left not_ws lb1 = Some lb2" "buf lb2 = buf lb1"
    "repr lb2 (rev (dropWhile not_ws (rev ?b1)),
       rev (takeWhile not_ws (rev ?b1)) @ rev (takeWhile is_whitespace (rev b)) @ a, k)"
    using skip_left_repr [OF 1(3)] by blast
  have "before_word b @ rev (takeWhile not_ws (rev ?b1)) @ rev (takeWhile is_whitespace (rev b)) = b"
    unfolding before_word_def rev_rev_ident
    by (metis append.assoc rev_append rev_rev_ident takeWhile_dropWhile_id)
  then have "word_end b = rev (takeWhile not_ws (rev ?b1)) @ rev (takeWhile is_whitespace (rev b))"
    by (metis before_word_split same_append_eq)
  with 1 2 show thesis by (intro that [of lb2]) (simp_all add: before_word_def)
qed

lemma skip_word_right:
  assumes "repr lb (b, a, k)"
  obtains lb' where "Option.bind (skip_right P lb) (skip_right Q) = Some lb'"
    "buf lb' = buf lb" "repr lb' (b @ word_start P Q a, after_word P Q a, k)"
proof -
  obtain lb1 where 1: "skip_right P lb = Some lb1" "buf lb1 = buf lb"
    "repr lb1 (b @ takeWhile P a, dropWhile P a, k)"
    using skip_right_repr [OF assms] by blast
  obtain lb2 where "skip_right Q lb1 = Some lb2" "buf lb2 = buf lb1"
    "repr lb2 ((b @ takeWhile P a) @ takeWhile Q (dropWhile P a), dropWhile Q (dropWhile P a), k)"
    using skip_right_repr [OF 1(3)] by blast
  with 1 show thesis by (intro that [of lb2]) (simp_all add: word_start_def after_word_def)
qed

lemma sim_words: "sim WordLeft" "sim WordRight"
proof -
  show "sim WordLeft"
    by (rule simI, erule skip_word_left) (simp add: move_word_left_def)
  show "sim WordRight"
    by (rule simI, erule skip_word_right [where P = not_ws and Q = is_whitespace])
      (simp add: move_word_right_def)
qed

lemma sim_kills: "sim KillToEnd" "sim KillToStart" "sim Yank"
proof -
  show "sim KillToEnd"
  proof (rule simI)
    fix lb b a k
    assume r: "repr lb (b, a, k)"
    then show "\<exists>lb'. apply_edit KillToEnd lb = Some lb' \<and> repr lb' (z_edit KillToEnd (b, a, k))"
      using slice_after [OF r] boundary_utf8 [of a b]
      by (auto simp: kill_to_end_def str_truncate_def repr.simps)
  qed
  show "sim KillToStart"
  proof (rule simI)
    fix lb b a k
    assume r: "repr lb (b, a, k)"
    then show "\<exists>lb'. apply_edit KillToStart lb = Some lb' \<and> repr lb' (z_edit KillToStart (b, a, k))"
      using slice_before [OF r] str_drain_utf8 [of b a "[]"]
      by (auto simp: kill_to_start_def repr.simps)
  qed
  show "sim Yank"
    by (rule simI, erule reprE)
      (auto simp: yank_def insert_str_def str_insert_def boundary_utf8 repr.simps)
qed

lemma utf8_length_less: "length (utf8 b) < length (utf8 (b @ x)) \<longleftrightarrow> x \<noteq> []"
  by simp

lemma sim_kill_word_back: "sim KillWordBack"
proof (rule simI)
  fix lb b a k
  assume r: "repr lb (b, a, k)"
  obtain lb' where s: "Option.bind (skip_left is_whitespace lb) (skip_left not_ws) = Some lb'"
    "buf lb' = buf lb" "repr lb' (before_word b, word_end b @ a, k)"
    using skip_word_left [OF r] .
  define x y where "x = before_word b" and "y = word_end b"
  have b: "b = x @ y" by (simp add: x_def y_def before_word_split)
  have y: "y = [] \<longleftrightarrow> b = []"
    using before_word_shorter [of b, folded x_def] arg_cong [OF b, of length] by auto
  have utf8_b: "utf8 b = utf8 x @ utf8 y" using b by (metis utf8_append)
  have wf: "wf_str x" "wf_str y" "wf_str a"
    using s(3) [folded x_def y_def] by (simp_all add: repr.simps)
  have lb': "buf lb' = utf8 x @ utf8 y @ utf8 a" "cursor lb' = length (utf8 x)"
    "cursor lb = length (utf8 x) + length (utf8 y)"
    using r s(2) s(3) [folded x_def y_def] utf8_b by (simp_all add: repr.simps)
  show "\<exists>lb'. apply_edit KillWordBack lb = Some lb' \<and> repr lb' (z_edit KillWordBack (b, a, k))"
  proof (cases "b = []")
    case True
    with s y lb' b show ?thesis by (simp add: kill_word_back_def before_word_def word_end_def)
  next
    case False
    then have "kill_word_back lb = Some (lb'\<lparr>kill_ring := utf8 y, buf := utf8 x @ utf8 a\<rparr>)"
      using s(1) y lb' str_slice_utf8 [OF wf(2,3), of x] str_drain_utf8 [OF wf(2,3), of x]
      by (simp add: kill_word_back_def)
    with False wf lb'(2) show ?thesis by (simp add: repr.simps x_def [symmetric] y_def [symmetric])
  qed
qed

lemma sim_kill_word_forward: "sim KillWordForward"
proof (rule simI)
  fix lb b a k
  assume r: "repr lb (b, a, k)"
  define x y where "x = word_start is_whitespace not_ws a" and "y = after_word is_whitespace not_ws a"
  obtain lb' where s: "Option.bind (skip_right is_whitespace lb) (skip_right not_ws) = Some lb'"
    "buf lb' = buf lb" "repr lb' (b @ x, y, k)"
    using skip_word_right [OF r, of is_whitespace not_ws] by (auto simp: x_def y_def)
  have a: "a = x @ y" by (simp add: x_def y_def after_word_split)
  have x: "x = [] \<longleftrightarrow> a = []"
    using word_start_nonempty [of a, folded x_def] arg_cong [OF a, of length] by auto
  have wf: "wf_str b" "wf_str x" "wf_str y" using s(3) by (simp_all add: repr.simps)
  have utf8_a: "utf8 a = utf8 x @ utf8 y" using a by (metis utf8_append)
  have lb': "buf lb' = utf8 b @ utf8 x @ utf8 y" "cursor lb = length (utf8 b)"
    "cursor lb' = length (utf8 b) + length (utf8 x)"
    using r s(2,3) utf8_a by (simp_all add: repr.simps)
  show "\<exists>lb'. apply_edit KillWordForward lb = Some lb' \<and> repr lb' (z_edit KillWordForward (b, a, k))"
  proof (cases "a = []")
    case True
    with s x lb' a show ?thesis by (simp add: kill_word_forward_def)
  next
    case False
    then have "kill_word_forward lb = Some (lb'\<lparr>kill_ring := utf8 x, buf := utf8 b @ utf8 y, cursor := cursor lb\<rparr>)"
      using s(1) x lb' str_slice_utf8 [OF wf(2,3), of b] str_drain_utf8 [OF wf(2,3), of b]
      by (simp add: kill_word_forward_def)
    with False wf lb'(2) show ?thesis by (simp add: repr.simps x_def [symmetric] y_def [symmetric])
  qed
qed

subsection \<open>Vertical movement\<close>

lemma encode_newline: "encode_utf8 10 = [10]"
  by (simp add: encode_utf8_def byte_def)

lemma newline_byte: "is_scalar c \<Longrightarrow> 10 \<in> set (encode_utf8 c) \<longleftrightarrow> c = 10"
proof -
  have ten: "(10 :: u8) = byte 10" by (simp add: byte_def)
  have *: "byte 10 = byte n \<longleftrightarrow> n = 10" if "n < 256" for n
  proof
    assume "byte 10 = byte n"
    then have "unat (byte 10) = unat (byte n)" by simp
    then show "n = 10" using that by (simp del: byte_unat)
  qed simp
  assume "is_scalar c"
  then have "c div 262144 < 8" "c < 65536 \<Longrightarrow> c div 4096 < 16" "c < 2048 \<Longrightarrow> c div 64 < 32"
    by (auto simp: is_scalar_def)
  then show ?thesis unfolding ten by (auto simp: encode_utf8_def *)
qed

lemma newline_utf8: "wf_str cs \<Longrightarrow> 10 \<in> set (utf8 cs) \<longleftrightarrow> 10 \<in> set cs"
  by (induction cs) (auto simp: newline_byte)

lemma rfind_newline_utf8:
  assumes "wf_str h" "10 \<notin> set h"
  shows "rfind_newline (utf8 (p @ 10 # h)) = Some (length (utf8 p))"
proof -
  have "takeWhile (\<lambda>b. b \<noteq> 10) (rev (utf8 h) @ 10 # rev (utf8 p)) = rev (utf8 h)"
    using newline_utf8 [OF assms(1)] assms(2) by (subst takeWhile_append2) auto
  then show ?thesis by (simp add: rfind_newline_def encode_newline)
qed

lemma find_newline_utf8:
  assumes "wf_str h" "10 \<notin> set h"
  shows "find_newline (utf8 (h @ 10 # t)) = Some (length (utf8 h))"
proof -
  have "takeWhile (\<lambda>b. b \<noteq> 10) (utf8 h @ 10 # utf8 t) = utf8 h"
    using newline_utf8 [OF assms(1)] assms(2) by (subst takeWhile_append2) auto
  then show ?thesis by (simp add: find_newline_def encode_newline)
qed

lemma newline_none: "wf_str cs \<Longrightarrow> 10 \<notin> set cs \<Longrightarrow> rfind_newline (utf8 cs) = None \<and> find_newline (utf8 cs) = None"
  by (simp add: rfind_newline_def find_newline_def newline_utf8)

lemma lines_split: "above_last b @ last_line b = b" "10 \<notin> set (last_line b)"
proof -
  show "above_last b @ last_line b = b"
    unfolding above_last_def last_line_def
    by (metis rev_append rev_rev_ident takeWhile_dropWhile_id)
  show "10 \<notin> set (last_line b)" by (auto simp: last_line_def dest: set_takeWhileD)
qed

lemma above_last_newline: "10 \<in> set b \<Longrightarrow> above_last b = butlast (above_last b) @ [10]"
proof -
  assume "10 \<in> set b"
  then have d: "dropWhile (\<lambda>c. c \<noteq> 10) (rev b) \<noteq> []" by simp
  have "above_last b \<noteq> []" using d by (simp only: above_last_def rev_is_Nil_conv not_False_eq_True)
  moreover have "last (above_last b) = 10"
    using hd_dropWhile [OF d] d by (simp only: above_last_def last_rev simp_thms)
  ultimately show ?thesis by (metis append_butlast_last_id)
qed

lemma above_last_none: "10 \<notin> set b \<Longrightarrow> above_last b = []"
  by (auto simp: above_last_def)

lemma wf_lines: "wf_str b \<Longrightarrow> wf_str (above_last b) \<and> wf_str (last_line b)"
  using lines_split(1) [of b] by (metis list_all_append)

lemma line_start:
  assumes "wf_str b"
  shows "after_newline (rfind_newline (utf8 b)) = length (utf8 (above_last b))"
proof (cases "10 \<in> set b")
  case True
  define p where "p = butlast (above_last b)"
  have "p @ 10 # last_line b = b"
    using above_last_newline [OF True] lines_split(1) [of b] unfolding p_def
    by (metis append.assoc append_Cons append_Nil)
  then have "rfind_newline (utf8 b) = Some (length (utf8 p))"
    using rfind_newline_utf8 [of "last_line b" p] wf_lines [OF assms] lines_split(2) [of b] by simp
  moreover have "length (utf8 (above_last b)) = length (utf8 p) + 1"
    using above_last_newline [OF True] by (simp add: p_def [symmetric] encode_newline)
  ultimately show ?thesis by (simp add: after_newline_def)
next
  case False
  then show ?thesis using newline_none [OF assms False] by (simp add: after_newline_def above_last_none)
qed

lemma offset_loop_columns:
  "offset_loop col w (char_indices i cs) (i + length (utf8 cs)) = i + length (utf8 (take_columns col w cs))"
proof (induction cs arbitrary: i w)
  case (Cons c cs)
  show ?case using Cons.IH [of "w + char_width c" "i + len_utf8 c"] by (simp add: add.assoc)
qed simp

lemma offset_at_column_utf8:
  "wf_str cs \<Longrightarrow> offset_at_column (utf8 cs) col = length (utf8 (take_columns col 0 cs))"
  using offset_loop_columns [of col 0 0 cs] by (simp add: offset_at_column_def)

lemma take_columns_prefix: "\<exists>r. take_columns col w cs @ r = cs"
  by (induction cs arbitrary: w) auto

lemma repr_jump:
  assumes "repr lb (b, a, k)" "b' @ r = b @ a"
  shows "repr (lb\<lparr>cursor := length (utf8 b')\<rparr>) (b', drop (length b') (b @ a), k)"
  using repr_cursor [OF assms(1), of b' r] assms(2) by (metis append_eq_conv_conj)

lemma str_width_utf8: "wf_str cs \<Longrightarrow> str_width (utf8 cs) = text_width cs"
  by (simp add: str_width_def text_width_def)

lemma move_line_up_repr:
  assumes r: "repr lb (b, a, k)"
  shows "move_line_up lb = Some (case line_up b a of None \<Rightarrow> (False, lb)
    | Some b' \<Rightarrow> (True, lb\<lparr>cursor := length (utf8 b')\<rparr>))"
proof (cases "10 \<in> set b")
  case False
  then show ?thesis using slice_before [OF r] newline_none [of b] r
    by (simp add: move_line_up_def line_up_def repr.simps)
next
  case True
  define p h where "p = butlast (above_last b)" and "h = last_line b"
  have b: "p @ 10 # h = b"
    using above_last_newline [OF True] lines_split(1) [of b] unfolding p_def h_def
    by (metis append.assoc append_Cons append_Nil)
  have "wf_str b" "wf_str a" using r by (simp_all add: repr.simps)
  with b have wf: "wf_str p" "wf_str h" "wf_str a" by auto
  have h: "10 \<notin> set h" by (simp add: h_def lines_split)
  have ub: "utf8 b = utf8 p @ 10 # utf8 h" using b encode_newline by (metis utf8_append utf8_Cons append_Cons append_Nil)
  have lb: "buf lb = utf8 p @ 10 # utf8 h @ utf8 a" "cursor lb = Suc (length (utf8 p) + length (utf8 h))"
    using r ub by (simp_all add: repr.simps)
  have s0: "rfind_newline (utf8 b) = Some (length (utf8 p))"
    using rfind_newline_utf8 [OF wf(2) h, of p] b by simp
  have s1: "str_slice (buf lb) (Suc (length (utf8 p))) (cursor lb) = Some (utf8 h)"
    using str_slice_utf8 [OF wf(2,3), of "p @ [10]"] lb by (simp add: encode_newline)
  have s2: "str_slice (buf lb) 0 (length (utf8 p)) = Some (utf8 p)"
    using str_slice_utf8 [of p "10 # h @ a" "[]"] wf lb by (simp add: encode_newline is_scalar_def)
  have "utf8 p = utf8 (above_last p) @ utf8 (last_line p)" by (metis lines_split(1) utf8_append)
  then have s3: "str_slice (buf lb) (length (utf8 (above_last p))) (length (utf8 p)) = Some (utf8 (last_line p))"
    using str_slice_utf8 [of "last_line p" "10 # h @ a" "above_last p"] wf wf_lines [OF wf(1)] lb
    by (simp add: encode_newline is_scalar_def)
  have "move_line_up lb = Some (True, lb\<lparr>cursor := length (utf8 (above_last p)) +
      offset_at_column (utf8 (last_line p)) (str_width (utf8 h))\<rparr>)"
    using slice_before [OF r] s0 s1 s2 s3 line_start [OF wf(1)] by (simp add: move_line_up_def Let_def)
  then show ?thesis
    using True wf wf_lines [OF wf(1)]
    by (simp add: line_up_def Let_def p_def [symmetric] h_def [symmetric] offset_at_column_utf8 str_width_utf8)
qed

lemma line_up_prefix:
  assumes "line_up b a = Some b'"
  shows "\<exists>r. b' @ r = b @ a"
proof -
  from assms have nl: "10 \<in> set b" and b': "b' = above_last (butlast (above_last b)) @
      take_columns (text_width (last_line b)) 0 (last_line (butlast (above_last b)))"
    by (auto simp: line_up_def Let_def split: if_splits)
  obtain r where r: "b' @ r = butlast (above_last b)"
    using take_columns_prefix lines_split(1) b' by (metis append.assoc)
  have "butlast (above_last b) @ [10] @ last_line b = b"
    using above_last_newline [OF nl] lines_split(1) [of b] by (metis append.assoc)
  with r show ?thesis by (metis append.assoc)
qed

definition moved :: "line_buffer \<Rightarrow> ustring option \<Rightarrow> bool \<times> line_buffer" where
  "moved lb x = (case x of None \<Rightarrow> (False, lb) | Some b' \<Rightarrow> (True, lb\<lparr>cursor := length (utf8 b')\<rparr>))"

lemma jump_repr:
  assumes "repr lb (b, a, k)" "\<And>b'. f b a = Some b' \<Longrightarrow> \<exists>r. b' @ r = b @ a"
  shows "repr (snd (moved lb (f b a))) (jump f (b, a, k))"
proof (cases "f b a")
  case (Some b')
  then obtain r where "b' @ r = b @ a" using assms(2) by blast
  from repr_jump [OF assms(1) this] Some show ?thesis by (simp add: jump_def moved_def del: drop_append)
qed (use assms(1) in \<open>simp add: jump_def moved_def\<close>)

lemma sim_line_up: "sim LineUp"
  by (rule simI) (auto simp: move_line_up_repr moved_def [symmetric] intro!: jump_repr line_up_prefix)

lemma newline_split: "10 \<in> set a \<Longrightarrow> takeWhile (\<lambda>c. c \<noteq> 10) a @ 10 # tl (dropWhile (\<lambda>c. c \<noteq> 10) a) = a"
proof -
  assume "10 \<in> set a"
  then have d: "dropWhile (\<lambda>c. c \<noteq> 10) a \<noteq> []" by simp
  then have "dropWhile (\<lambda>c. c \<noteq> 10) a = 10 # tl (dropWhile (\<lambda>c. c \<noteq> 10) a)"
    using hd_dropWhile [OF d] by (metis list.collapse)
  then show ?thesis by (metis takeWhile_dropWhile_id)
qed

lemma no_newline_takeWhile: "10 \<notin> set (takeWhile (\<lambda>c. c \<noteq> 10) a)"
  by (auto dest: set_takeWhileD)

lemma line_end:
  assumes "wf_str t"
  shows "(case find_newline (utf8 t) of Some j \<Rightarrow> s + j | None \<Rightarrow> s + length (utf8 t)) =
    s + length (utf8 (takeWhile (\<lambda>c. c \<noteq> 10) t))"
proof (cases "10 \<in> set t")
  case True
  have "wf_str (takeWhile (\<lambda>c. c \<noteq> 10) t)" using assms by (metis list_all_append takeWhile_dropWhile_id)
  from find_newline_utf8 [OF this no_newline_takeWhile, of "tl (dropWhile (\<lambda>c. c \<noteq> 10) t)"]
  show ?thesis by (simp only: newline_split [OF True] option.case)
next
  case False
  then have eq: "takeWhile (\<lambda>c. c \<noteq> 10) t = t" unfolding takeWhile_eq_all_conv by metis
  show ?thesis using newline_none [OF assms False] by (simp add: eq)
qed

lemma move_line_down_repr:
  assumes r: "repr lb (b, a, k)"
  shows "move_line_down lb = Some (moved lb (line_down b a))"
proof -
  have wfb: "wf_str b" "wf_str a" using r by (simp_all add: repr.simps)
  have ub: "utf8 b = utf8 (above_last b) @ utf8 (last_line b)" by (metis lines_split(1) utf8_append)
  have s1: "str_slice (buf lb) (length (utf8 (above_last b))) (cursor lb) = Some (utf8 (last_line b))"
    using str_slice_utf8 [of "last_line b" a "above_last b"] wf_lines [OF wfb(1)] wfb ub r
    by (simp add: repr.simps)
  note slices = slice_before [OF r] slice_after [OF r] s1 line_start [OF wfb(1)]
  show ?thesis
  proof (cases "10 \<in> set a")
    case False
    then show ?thesis using slices newline_none [OF wfb(2) False]
      by (simp add: move_line_down_def line_down_def moved_def Let_def)
  next
    case True
    define h t where "h = takeWhile (\<lambda>c. c \<noteq> 10) a" and "t = tl (dropWhile (\<lambda>c. c \<noteq> 10) a)"
    define l m where "l = takeWhile (\<lambda>c. c \<noteq> 10) t" and "m = dropWhile (\<lambda>c. c \<noteq> 10) t"
    have a: "h @ 10 # t = a" using newline_split [OF True] by (simp add: h_def t_def)
    have t: "t = l @ m" by (simp add: l_def m_def)
    have wf: "wf_str h" "wf_str t" "wf_str l" "wf_str m" using wfb(2) a t by auto
    have h: "10 \<notin> set h" by (simp add: h_def no_newline_takeWhile)
    have ua: "utf8 a = utf8 h @ 10 # utf8 l @ utf8 m"
      using a t encode_newline by (metis utf8_append utf8_Cons append_Cons append_Nil)
    define start where "start = Suc (length (utf8 b) + length (utf8 h))"
    have lb: "buf lb = utf8 (b @ h @ [10]) @ utf8 l @ utf8 m" "cursor lb = length (utf8 b)"
      "length (utf8 (b @ h @ [10])) = start"
      using r ua by (simp_all add: repr.simps encode_newline start_def)
    have f1: "find_newline (utf8 a) = Some (length (utf8 h))"
      using find_newline_utf8 [OF wf(1) h, of t] a by simp
    have s2: "str_slice (buf lb) start (length (buf lb)) = Some (utf8 t)"
      using str_slice_utf8 [OF wf(2), of "[]" "b @ h @ [10]"] lb t by (simp add: add.assoc)
    have len: "length (buf lb) = start + length (utf8 t)"
      unfolding lb(1) lb(3) [symmetric] t by simp
    have f2: "(case find_newline (utf8 t) of Some j \<Rightarrow> start + j | None \<Rightarrow> length (buf lb)) = start + length (utf8 l)"
      using line_end [OF wf(2), of start] unfolding len l_def .
    have s3: "str_slice (buf lb) start (start + length (utf8 l)) = Some (utf8 l)"
      using str_slice_utf8 [OF wf(3,4), of "b @ h @ [10]"] lb by simp
    have "move_line_down lb = Some (True, lb\<lparr>cursor := start + offset_at_column (utf8 l) (str_width (utf8 (last_line b)))\<rparr>)"
      using slices f1 s2 s3 f2 lb(2) by (simp add: move_line_down_def Let_def start_def [symmetric])
    then show ?thesis
      using True wf(3) wf_lines [OF wfb(1)]
      by (simp add: line_down_def Let_def moved_def h_def [symmetric] t_def [symmetric] l_def [symmetric]
          offset_at_column_utf8 str_width_utf8 encode_newline start_def)
  qed
qed

lemma line_down_prefix:
  assumes "line_down b a = Some b'"
  shows "\<exists>r. b' @ r = b @ a"
proof -
  define h t where "h = takeWhile (\<lambda>c. c \<noteq> 10) a" and "t = tl (dropWhile (\<lambda>c. c \<noteq> 10) a)"
  from assms have nl: "10 \<in> set a" and b': "b' = b @ h @ [10] @
      take_columns (text_width (last_line b)) 0 (takeWhile (\<lambda>c. c \<noteq> 10) t)"
    by (auto simp: line_down_def Let_def h_def t_def split: if_splits)
  have a: "h @ [10] @ t = a" using newline_split [OF nl] by (simp add: h_def t_def)
  obtain r where "take_columns (text_width (last_line b)) 0 (takeWhile (\<lambda>c. c \<noteq> 10) t) @ r = t"
    using take_columns_prefix takeWhile_dropWhile_id by (metis append.assoc)
  with a b' have "b' @ r = b @ a" by (metis append.assoc)
  then show ?thesis by blast
qed

lemma sim_line_down: "sim LineDown"
  by (rule simI) (auto simp: move_line_down_repr intro!: jump_repr line_down_prefix)

lemma ascii_encode: "is_scalar c \<Longrightarrow> list_all (\<lambda>b. unat b < 0x80) (encode_utf8 c) \<Longrightarrow> c < 0x80"
  using encode_ascii [of c "encode_utf8 c ! 0"]
  by (metis encode_utf8_not_Nil hd_conv_nth list.pred_inject(2) list.exhaust_sel)

lemma ascii_utf8:
  "wf_str cs \<Longrightarrow> list_all (\<lambda>b. unat b < 0x80) (utf8 cs) \<Longrightarrow> list_all (\<lambda>c. c < 0x80) cs"
  by (induction cs) (auto dest: ascii_encode)

lemma ascii_width:
  "list_all (\<lambda>c. c < 0x80) cs \<Longrightarrow> str_width_loop w False cs = w + length (utf8 cs)"
proof (induction cs arbitrary: w)
  case (Cons c cs)
  then have "char_width c = 1" "len_utf8 c = 1" "c \<noteq> 0x200D"
    by (auto simp: char_width_def is_control_def len_utf8_def)
  with Cons show ?case by simp
qed simp

lemma display_repr:
  assumes r: "repr lb (b, a, k)"
  shows "display_cursor_pos lb = Some (text_width b)" "display_len lb = text_width (b @ a)"
proof -
  have wf: "wf_str b" "wf_str a" and lb: "buf lb = utf8 (b @ a)" "cursor lb = length (utf8 b)"
    using r by (simp_all add: repr.simps)
  have asc: "list_all (\<lambda>c. c < 0x80) (b @ a)" if "list_all (\<lambda>b. unat b < 0x80) (buf lb)"
    using ascii_utf8 [of "b @ a"] that wf lb by simp
  show "display_cursor_pos lb = Some (text_width b)"
    using slice_before [OF r] asc ascii_width [of b 0] wf lb
    by (auto simp: display_cursor_pos_def text_width_def str_width_utf8)
  have "str_width (utf8 (b @ a)) = text_width (b @ a)" using wf by (intro str_width_utf8) simp
  then show "display_len lb = text_width (b @ a)"
    using asc ascii_width [of "b @ a" 0] wf lb(1) by (auto simp: display_len_def text_width_def)
qed

lemma display_offset_take:
  "display_offset t d (char_indices i cs) (i + length (utf8 cs)) = i + length (utf8 (take_display t d cs))"
proof (induction cs arbitrary: i d)
  case (Cons c cs)
  show ?case using Cons.IH [of "d + char_width c" "i + len_utf8 c"] by (simp add: add.assoc)
qed simp

lemma take_display_prefix: "\<exists>r. take_display t d cs @ r = cs"
  by (induction cs arbitrary: d) auto

lemma byte_offset_repr:
  assumes "repr lb (b, a, k)"
  shows "byte_offset_for_display_pos lb t = length (utf8 (if t = 0 then [] else take_display t 0 (b @ a)))"
proof -
  have "chars (utf8 (b @ a)) = b @ a" using assms by (intro chars_utf8) (simp add: repr.simps)
  moreover have "buf lb = utf8 (b @ a)" using assms by (simp add: repr.simps)
  ultimately show ?thesis
    using display_offset_take [of t 0 0 "b @ a"] by (simp add: byte_offset_for_display_pos_def)
qed

lemma move_grid_repr:
  assumes r: "repr lb (b, a, k)"
  shows "move_grid lb up prompt cols col = Some (moved lb (grid_move up prompt cols col b a))"
proof -
  have "buf lb = [] \<longleftrightarrow> b @ a = []" using r by (simp add: repr.simps)
  then show ?thesis
    using display_repr [OF r] byte_offset_repr [OF r]
    by (simp add: move_grid_def grid_move_def grid_cursor_position_def moved_def Let_def)
qed

lemma grid_move_prefix: "grid_move up prompt cols col b a = Some b' \<Longrightarrow> \<exists>r. b' @ r = b @ a"
  using take_display_prefix [of _ 0 "b @ a"]
  by (auto simp: grid_move_def Let_def split: if_splits)

lemma sim_grid: "sim (Grid up prompt cols col)"
  by (rule simI) (auto simp: move_grid_repr intro!: jump_repr dest: grid_move_prefix)

lemma sim_all: "edit_ok e \<Longrightarrow> sim e"
  by (cases e) (auto simp: sim_Insert sim_delete_back sim_delete_forward sim_moves sim_words sim_kills
      sim_kill_word_back sim_kill_word_forward sim_line_up sim_line_down sim_grid)

interpretation editor: simulation repr edit_ok apply_edit z_edit
proof
  fix e lb z
  assume "edit_ok e" "repr lb z"
  then show "\<exists>lb'. apply_edit e lb = Some lb' \<and> repr lb' (z_edit e z)"
    using sim_all unfolding sim_def by blast
qed

lemma repr_new: "repr new_line_buffer ([], [], [])"
  by (simp add: new_line_buffer_def repr.simps)

lemma repr_boundary: "repr lb (b, a, k) \<Longrightarrow> is_char_boundary (buf lb) (cursor lb) \<and> from_utf8 (buf lb) = Inr (b @ a)"
  using boundary_utf8 [of a b] from_utf8_utf8 [of "b @ a"] by (simp add: repr.simps)

subsection \<open>Placing the cursor\<close>

lemma boundary_prefix:
  "wf_str cs \<Longrightarrow> is_char_boundary (utf8 cs) i \<Longrightarrow> i \<le> length (utf8 cs) \<Longrightarrow>
     \<exists>b a. cs = b @ a \<and> i = length (utf8 b)"
proof (induction cs arbitrary: i)
  case (Cons c cs)
  show ?case
  proof (cases "i < len_utf8 c")
    case True
    then have "i = 0" using Cons.prems(2) inner_not_boundary [of i c "[]" "utf8 cs"] by auto
    then show ?thesis by (intro exI [of _ "[]"] exI [of _ "c # cs"]) simp
  next
    case False
    have "is_char_boundary (utf8 cs) (i - len_utf8 c)"
      using Cons.prems False by (auto simp: is_char_boundary_def nth_append)
    moreover have "i - len_utf8 c \<le> length (utf8 cs)" "wf_str cs" using Cons.prems by simp_all
    ultimately obtain b a where "cs = b @ a" "i - len_utf8 c = length (utf8 b)"
      using Cons.IH [of "i - len_utf8 c"] by blast
    then show ?thesis using False by (intro exI [of _ "c # b"] exI [of _ a]) simp
  qed
qed simp

lemma back_to_boundary_boundary: "is_char_boundary s (back_to_boundary s p)"
  by (induction p) auto

lemma back_to_boundary_max: "is_char_boundary s q \<Longrightarrow> q \<le> p \<Longrightarrow> q \<le> back_to_boundary s p"
  by (induction p) (auto simp: le_Suc_eq)

subsection \<open>Properties\<close>



text \<open>In every state the editor reaches the buffer is valid UTF-8 and the cursor is on a
  character boundary of it.\<close>

theorem cursor_on_boundary:
  assumes "list_all edit_ok edits"
  shows "\<exists>lb cs. run_option apply_edit edits new_line_buffer = Some lb \<and>
    is_char_boundary (buf lb) (cursor lb) \<and> cursor lb \<le> length (buf lb) \<and> from_utf8 (buf lb) = Inr cs"
proof -
  obtain lb b a k where lb: "run_option apply_edit edits new_line_buffer = Some lb" "repr lb (b, a, k)"
    using editor.runs_simulate [OF assms repr_new] by (metis surj_pair)
  moreover from lb(2) have "cursor lb \<le> length (buf lb)" by (simp add: repr.simps)
  ultimately show ?thesis using repr_boundary [OF lb(2)] by blast
qed

theorem cursor_on_boundary_witness:
  "\<exists>lb cs. run_option apply_edit [Insert [128512], MoveLeft, DeleteForward] new_line_buffer = Some lb \<and>
    is_char_boundary (buf lb) (cursor lb) \<and> cursor lb \<le> length (buf lb) \<and> from_utf8 (buf lb) = Inr cs"
  by (rule cursor_on_boundary) (simp add: is_scalar_def)

text \<open>C38. Yanking right after a kill that removed something restores the text.\<close>

theorem kill_yank_restores:
  assumes "repr lb (b, a, k)" and "kill \<in> {KillToEnd, KillWordForward} \<and> a \<noteq> [] \<or> kill \<in> {KillToStart, KillWordBack} \<and> b \<noteq> []"
  shows "\<exists>lb'. run_option apply_edit [kill, Yank] lb = Some lb' \<and> buf lb' = buf lb"
proof -
  have "list_all edit_ok [kill, Yank]" using assms(2) by auto
  then obtain lb' where lb': "run_option apply_edit [kill, Yank] lb = Some lb'"
    "repr lb' (fold z_edit [kill, Yank] (b, a, k))"
    using editor.runs_simulate [OF _ assms(1)] by blast
  have "\<exists>b' a' k'. fold z_edit [kill, Yank] (b, a, k) = (b', a', k') \<and> b' @ a' = b @ a"
    using assms(2) before_word_split [of b] after_word_split [of is_whitespace not_ws a] by auto
  then obtain b' a' k' where z: "repr lb' (b', a', k')" "b' @ a' = b @ a" using lb'(2) by auto
  have "buf lb' = utf8 (b' @ a')" using z(1) by (simp add: repr.simps)
  also have "\<dots> = buf lb" unfolding z(2) using assms(1) by (simp add: repr.simps)
  finally show ?thesis using lb'(1) by blast
qed

theorem kill_yank_restores_witness:
  "\<exists>lb'. run_option apply_edit [KillToStart, Yank] \<lparr>buf = [97, 98], cursor = 1, kill_ring = []\<rparr> = Some lb' \<and>
     buf lb' = [97, 98]"
proof -
  have "repr \<lparr>buf = [97, 98], cursor = 1, kill_ring = []\<rparr> ([97], [98], [])"
    by (simp add: repr.simps encode_utf8_def byte_def is_scalar_def len_utf8_def)
  from kill_yank_restores [OF this, of KillToStart] show ?thesis by simp
qed

text \<open>Setting a line with a requested cursor puts the cursor on the last character boundary
  that is not after the request.\<close>

theorem set_with_cursor_boundary:
  assumes "wf_str cs" and "wf_str k" and "kill_ring lb = utf8 k"
  shows "\<exists>b a. cs = b @ a \<and> repr (set_with_cursor lb (utf8 cs) n) (b, a, k) \<and> length (utf8 b) \<le> n \<and>
    (\<forall>q. is_char_boundary (utf8 cs) q \<and> q \<le> n \<and> q \<le> length (utf8 cs) \<longrightarrow> q \<le> length (utf8 b))"
proof -
  define p where "p = back_to_boundary (utf8 cs) (min n (length (utf8 cs)))"
  have p: "p \<le> n" "p \<le> length (utf8 cs)" "is_char_boundary (utf8 cs) p"
    using back_to_boundary_le [of "utf8 cs" "min n (length (utf8 cs))"]
    by (simp_all add: p_def back_to_boundary_boundary)
  then obtain b a where ba: "cs = b @ a" "p = length (utf8 b)" using boundary_prefix assms(1) by blast
  moreover have "set_with_cursor lb (utf8 cs) n = lb\<lparr>buf := utf8 cs, cursor := p\<rparr>"
    by (simp add: set_with_cursor_def p_def)
  then have "repr (set_with_cursor lb (utf8 cs) n) (b, a, k)" using assms ba by (simp add: repr.simps)
  moreover have "q \<le> p" if "is_char_boundary (utf8 cs) q \<and> q \<le> n \<and> q \<le> length (utf8 cs)" for q
    unfolding p_def using that by (intro back_to_boundary_max) auto
  ultimately show ?thesis using p(1) by blast
qed

theorem set_with_cursor_boundary_witness:
  "\<exists>b a. [233, 97] = b @ a \<and> repr (set_with_cursor new_line_buffer (utf8 [233, 97]) 1) (b, a, []) \<and>
     length (utf8 b) \<le> 1"
  using set_with_cursor_boundary [of "[233, 97]" "[]" new_line_buffer 1]
  by (auto simp: new_line_buffer_def is_scalar_def)

end
