(* ===== verification/Fdu_Tree.thy ===== *)
theory Fdu_Tree
  imports Prelude
begin

text \<open>
  The arena of the disk-usage scanner (\<^verbatim>\<open>crates/fdu-core/src/lib.rs\<close>): nodes in one vector with
  links to parent, children and siblings, names in one byte buffer, sizes aggregated upwards.

  A \<^verbatim>\<open>NodeId\<close> is its index.  Sizes are natural numbers below \<open>2 ^ 64\<close>, name offsets below
  \<open>2 ^ 32\<close>, with the code's checked additions.  A loop that follows parent links visits at most as
  many nodes as there are, or else never ends: \<open>lineage\<close> is the list of the nodes it visits, \<open>None\<close>
  when it does not end.  \<open>None\<close> as the result of an operation is a panic or such a loop.
\<close>

type_synonym node_id = nat

datatype entry_type = Root | Directory | RegularFile | Symlink | OtherEntry

datatype exclusion_reason = MountBoundary | UnsupportedAlias

datatype node_state = Scanning | Complete | Incomplete | Excluded exclusion_reason | Stale | Tombstone

datatype node_status =
  StatusScanning | StatusComplete | StatusIncomplete | StatusExcluded exclusion_reason | StatusStale

fun node_state_from :: "node_status \<Rightarrow> node_state" where
  "node_state_from StatusScanning = Scanning"
| "node_state_from StatusComplete = Complete"
| "node_state_from StatusIncomplete = Incomplete"
| "node_state_from (StatusExcluded reason) = Excluded reason"
| "node_state_from StatusStale = Stale"

record file_identity =
  device :: nat
  inode :: nat

text \<open>\<^verbatim>\<open>ModifiedTime\<close> uses the least \<^verbatim>\<open>i64\<close> for \<open>unknown\<close>.\<close>

type_synonym modified_time = int

definition from_unix_seconds :: "int \<Rightarrow> modified_time option" where
  "from_unix_seconds s = (if s = - (2 ^ 63) then None else Some s)"

definition unix_seconds :: "modified_time \<Rightarrow> int option" where
  "unix_seconds m = (if m = - (2 ^ 63) then None else Some m)"

definition default_time :: modified_time where
  "default_time = - (2 ^ 63)"

record node_record =
  parent :: "node_id option"
  first_child :: "node_id option"
  last_child :: "node_id option"
  next_sibling :: "node_id option"
  name_range :: "nat \<times> nat"
  entry_type :: entry_type
  identity :: file_identity
  modified_time :: modified_time
  link_count :: nat
  apparent_bytes :: nat
  allocated_bytes :: nat
  state :: node_state

record tree =
  nodes :: "node_record list"
  names :: bytes
  root :: node_id

text \<open>\<^verbatim>\<open>NodeId::from_index\<close>: the stored number is the index plus one and fits 32 bits.\<close>

definition id_from_index :: "nat \<Rightarrow> node_id option" where
  "id_from_index i = (if i + 1 < 2 ^ 32 then Some i else None)"

definition try_u32 :: "nat \<Rightarrow> nat option" where
  "try_u32 n = (if n < 2 ^ 32 then Some n else None)"

definition checked_add_u64 :: "nat \<Rightarrow> nat \<Rightarrow> nat option" where
  "checked_add_u64 a b = (if a + b < 2 ^ 64 then Some (a + b) else None)"

definition tree_new :: "bytes \<Rightarrow> file_identity \<Rightarrow> nat \<Rightarrow> tree option" where
  "tree_new root_name ident links =
     map_option (\<lambda>name_end.
       \<lparr>nodes = [\<lparr>parent = None, first_child = None, last_child = None, next_sibling = None,
                  name_range = (0, name_end), entry_type = Root, identity = ident,
                  modified_time = default_time, link_count = links, apparent_bytes = 0,
                  allocated_bytes = 0, state = Scanning\<rparr>],
        names = root_name, root = 0\<rparr>) (try_u32 (length root_name))"

definition record_of :: "tree \<Rightarrow> node_id \<Rightarrow> node_record option" where
  "record_of t i = (if i < length (nodes t) then Some (nodes t ! i) else None)"

text \<open>\<^verbatim>\<open>names.get(start..end)\<close>\<close>

definition name_of :: "tree \<Rightarrow> node_id \<Rightarrow> bytes option" where
  "name_of t i =
     Option.bind (record_of t i) (\<lambda>r.
       case name_range r of (a, b) \<Rightarrow>
         if a \<le> b \<and> b \<le> length (names t) then Some (slice a b (names t)) else None)"

definition link_child :: "node_id \<Rightarrow> node_id \<Rightarrow> node_record list \<Rightarrow> node_record list" where
  "link_child p i ns =
     (let ns' = (case last_child (ns ! p) of
                   Some l \<Rightarrow> ns[l := (ns ! l)\<lparr>next_sibling := Some i\<rparr>]
                 | None \<Rightarrow> ns[p := (ns ! p)\<lparr>first_child := Some i\<rparr>])
      in ns'[p := (ns' ! p)\<lparr>last_child := Some i\<rparr>])"

definition append_node ::
  "tree \<Rightarrow> node_id \<Rightarrow> bytes \<Rightarrow> entry_type \<Rightarrow> file_identity \<Rightarrow> nat \<Rightarrow> nat \<Rightarrow> nat \<Rightarrow> node_status \<Rightarrow>
     (node_id \<times> tree) option" where
  "append_node t p name et ident links apparent allocated status =
     Option.bind (id_from_index (length (nodes t))) (\<lambda>i.
     Option.bind (try_u32 (length (names t))) (\<lambda>name_start.
     Option.bind (Option.bind (try_u32 (length name)) (\<lambda>n. try_u32 (name_start + n))) (\<lambda>name_end.
     Option.bind (record_of t p) (\<lambda>_.
       Some (i, t\<lparr>names := names t @ name,
                  nodes := link_child p i (nodes t @
                    [\<lparr>parent = Some p, first_child = None, last_child = None, next_sibling = None,
                      name_range = (name_start, name_end), entry_type = et, identity = ident,
                      modified_time = default_time, link_count = links, apparent_bytes = apparent,
                      allocated_bytes = allocated, state = node_state_from status\<rparr>])\<rparr>)))))"

definition set_state :: "tree \<Rightarrow> node_id \<Rightarrow> node_status \<Rightarrow> bool \<times> tree" where
  "set_state t i s =
     (if i < length (nodes t)
      then (True, t\<lparr>nodes := (nodes t)[i := (nodes t ! i)\<lparr>state := node_state_from s\<rparr>]\<rparr>)
      else (False, t))"

definition set_modified_time :: "tree \<Rightarrow> node_id \<Rightarrow> modified_time \<Rightarrow> bool \<times> tree" where
  "set_modified_time t i m =
     (if i < length (nodes t)
      then (True, t\<lparr>nodes := (nodes t)[i := (nodes t ! i)\<lparr>modified_time := m\<rparr>]\<rparr>)
      else (False, t))"

text \<open>The nodes a loop along parent links visits; an identifier out of range ends the list.\<close>

fun lineage_fuel :: "nat \<Rightarrow> node_record list \<Rightarrow> node_id option \<Rightarrow> node_id list option" where
  "lineage_fuel fuel ns None = Some []"
| "lineage_fuel 0 ns (Some i) = None"
| "lineage_fuel (Suc fuel) ns (Some i) =
     (if i < length ns then map_option (Cons i) (lineage_fuel fuel ns (parent (ns ! i)))
      else Some [i])"

definition lineage :: "tree \<Rightarrow> node_id option \<Rightarrow> node_id list option" where
  "lineage t i = lineage_fuel (Suc (length (nodes t))) (nodes t) i"

text \<open>The first loop of \<^verbatim>\<open>add_to_ancestors\<close>; \<open>None\<close> is its early \<^verbatim>\<open>return false\<close>.\<close>

fun fits_loop :: "node_record list \<Rightarrow> nat \<Rightarrow> nat \<Rightarrow> node_id list \<Rightarrow> bool option" where
  "fits_loop ns apparent allocated [] = Some True"
| "fits_loop ns apparent allocated (i # is) =
     (if \<not> i < length ns then None
      else if checked_add_u64 (apparent_bytes (ns ! i)) apparent = None \<or>
              checked_add_u64 (allocated_bytes (ns ! i)) allocated = None then Some False
      else fits_loop ns apparent allocated is)"

definition map_nodes :: "(node_record \<Rightarrow> node_record) \<Rightarrow> node_id list \<Rightarrow> node_record list \<Rightarrow> node_record list" where
  "map_nodes f is ns = fold (\<lambda>i ns. ns[i := f (ns ! i)]) is ns"

definition add_bytes :: "nat \<Rightarrow> nat \<Rightarrow> node_record \<Rightarrow> node_record" where
  "add_bytes apparent allocated r =
     r\<lparr>apparent_bytes := apparent_bytes r + apparent, allocated_bytes := allocated_bytes r + allocated\<rparr>"

definition add_to_ancestors :: "tree \<Rightarrow> node_id \<Rightarrow> nat \<Rightarrow> nat \<Rightarrow> (bool \<times> tree) option" where
  "add_to_ancestors t i apparent allocated =
     Option.bind (lineage t (Some i)) (\<lambda>path.
       case fits_loop (nodes t) apparent allocated path of
         None \<Rightarrow> Some (False, t)
       | Some fits \<Rightarrow>
           if list_all (\<lambda>j. j < length (nodes t)) path then
             Some (fits, t\<lparr>nodes := map_nodes
               (if fits then add_bytes apparent allocated else (\<lambda>r. r\<lparr>state := Incomplete\<rparr>)) path (nodes t)\<rparr>)
           else None)"

definition mark_incomplete_to_root :: "tree \<Rightarrow> node_id \<Rightarrow> tree option" where
  "mark_incomplete_to_root t i =
     map_option (\<lambda>path. t\<lparr>nodes := map_nodes
       (\<lambda>r. if state r = Scanning \<or> state r = Complete then r\<lparr>state := Incomplete\<rparr> else r)
       (filter (\<lambda>j. j < length (nodes t)) path) (nodes t)\<rparr>) (lineage t (Some i))"

definition mark_stale_to_root :: "tree \<Rightarrow> node_id \<Rightarrow> tree option" where
  "mark_stale_to_root t i =
     map_option (\<lambda>path. t\<lparr>nodes := map_nodes
       (\<lambda>r. if state r \<noteq> Tombstone then r\<lparr>state := Stale\<rparr> else r)
       (filter (\<lambda>j. j < length (nodes t)) path) (nodes t)\<rparr>) (lineage t (Some i))"

definition mark_scanning_incomplete :: "tree \<Rightarrow> nat \<times> tree" where
  "mark_scanning_incomplete t =
     (length (filter (\<lambda>r. state r = Scanning) (nodes t)),
      t\<lparr>nodes := map (\<lambda>r. if state r = Scanning then r\<lparr>state := Incomplete\<rparr> else r) (nodes t)\<rparr>)"

text \<open>The names from the root down; the inner \<open>None\<close> is a node or a name that is missing.\<close>

definition path_name :: "tree \<Rightarrow> node_id \<Rightarrow> bytes list option" where
  "path_name t i =
     (if record_of t i = None then None
      else if i \<noteq> root t then map_option (\<lambda>n. [n]) (name_of t i) else Some [])"

fun collect_names :: "tree \<Rightarrow> node_id list \<Rightarrow> bytes list option" where
  "collect_names t [] = Some []"
| "collect_names t (i # is) =
     Option.bind (path_name t i) (\<lambda>n. map_option (\<lambda>ns. n @ ns) (collect_names t is))"

definition materialize_path :: "tree \<Rightarrow> node_id \<Rightarrow> bytes list option option" where
  "materialize_path t i =
     map_option (\<lambda>path. map_option rev (collect_names t path)) (lineage t (Some i))"

text \<open>The siblings from a node on; \<open>children\<close> leaves out tombstones.\<close>

fun sibling_chain :: "nat \<Rightarrow> tree \<Rightarrow> node_id option \<Rightarrow> node_id list option" where
  "sibling_chain fuel t None = Some []"
| "sibling_chain 0 t (Some i) = None"
| "sibling_chain (Suc fuel) t (Some i) =
     (case record_of t i of
        None \<Rightarrow> Some []
      | Some r \<Rightarrow> map_option (Cons i) (sibling_chain fuel t (next_sibling r)))"

definition children :: "tree \<Rightarrow> node_id \<Rightarrow> node_id list option" where
  "children t i =
     map_option (filter (\<lambda>j. state (nodes t ! j) \<noteq> Tombstone))
       (sibling_chain (Suc (length (nodes t))) t (Option.bind (record_of t i) first_child))"

subsection \<open>Well-formed arenas\<close>

text \<open>Every node but the first has a parent with a smaller index, and the child and sibling
  links enumerate the nodes with the same parent by increasing index.\<close>

definition child_of :: "node_record list \<Rightarrow> node_id \<Rightarrow> node_id \<Rightarrow> bool" where
  "child_of ns i j \<longleftrightarrow> parent (ns ! j) = Some i"

definition parents_ok :: "node_record list \<Rightarrow> bool" where
  "parents_ok ns \<longleftrightarrow> ns \<noteq> [] \<and> parent (ns ! 0) = None \<and>
     (\<forall>i < length ns. 0 < i \<longrightarrow> (\<exists>p < i. parent (ns ! i) = Some p))"

definition first_ok :: "node_record list \<Rightarrow> bool" where
  "first_ok ns \<longleftrightarrow> (\<forall>i < length ns. first_child (ns ! i) = find (child_of ns i) [0..<length ns])"

definition last_ok :: "node_record list \<Rightarrow> bool" where
  "last_ok ns \<longleftrightarrow> (\<forall>i < length ns. last_child (ns ! i) = find (child_of ns i) (rev [0..<length ns]))"

definition sibling_ok :: "node_record list \<Rightarrow> bool" where
  "sibling_ok ns \<longleftrightarrow> (\<forall>i < length ns. next_sibling (ns ! i) =
     (case parent (ns ! i) of None \<Rightarrow> None | Some p \<Rightarrow> find (child_of ns p) [Suc i..<length ns]))"

definition links_ok :: "node_record list \<Rightarrow> bool" where
  "links_ok ns \<longleftrightarrow> parents_ok ns \<and> first_ok ns \<and> last_ok ns \<and> sibling_ok ns"

definition names_ok :: "tree \<Rightarrow> bool" where
  "names_ok t \<longleftrightarrow> (\<forall>r \<in> set (nodes t). fst (name_range r) \<le> snd (name_range r) \<and> snd (name_range r) \<le> length (names t))"

definition sizes_ok :: "tree \<Rightarrow> bool" where
  "sizes_ok t \<longleftrightarrow> (\<forall>r \<in> set (nodes t). apparent_bytes r < 2 ^ 64 \<and> allocated_bytes r < 2 ^ 64)"

definition tree_ok :: "tree \<Rightarrow> bool" where
  "tree_ok t \<longleftrightarrow> links_ok (nodes t) \<and> names_ok t \<and> sizes_ok t \<and> root t = 0"

lemma find_append: "find P (xs @ ys) = (case find P xs of None \<Rightarrow> find P ys | Some x \<Rightarrow> Some x)"
  by (induction xs) auto

lemma find_None: "find P xs = None \<longleftrightarrow> (\<forall>x \<in> set xs. \<not> P x)"
  by (induction xs) auto

lemma find_SomeD: "find P xs = Some x \<Longrightarrow> x \<in> set xs \<and> P x"
  by (induction xs) (auto split: if_splits)

lemma parent_bound: "parents_ok ns \<Longrightarrow> j < length ns \<Longrightarrow> parent (ns ! j) = Some p \<Longrightarrow> p < j"
  unfolding parents_ok_def by (cases "j = 0") auto

lemma find_upt_cong:
  "(\<And>j. a \<le> j \<Longrightarrow> j < b \<Longrightarrow> P j = Q j) \<Longrightarrow> find P [a..<b] = find Q [a..<b]"
  by (intro find_cong) auto

lemma find_rev_upt_cong:
  "(\<And>j. a \<le> j \<Longrightarrow> j < b \<Longrightarrow> P j = Q j) \<Longrightarrow> find P (rev [a..<b]) = find Q (rev [a..<b])"
  by (intro find_cong) auto

text \<open>The fields of the nodes after linking a new last child.\<close>

lemma length_link_child [simp]: "length (link_child p i ns) = length ns"
  by (simp add: link_child_def Let_def split: option.split)

lemma link_child_nth:
  assumes "p < length ns" "j < length ns" "\<And>l. last_child (ns ! p) = Some l \<Longrightarrow> l < length ns \<and> l \<noteq> p"
  shows "link_child p i ns ! j =
    (if j = p then
       (ns ! j)\<lparr>last_child := Some i,
                first_child := (if last_child (ns ! p) = None then Some i else first_child (ns ! j))\<rparr>
     else if last_child (ns ! p) = Some j then (ns ! j)\<lparr>next_sibling := Some i\<rparr> else ns ! j)"
  using assms by (auto simp: link_child_def Let_def nth_list_update split: option.split)

definition new_node :: "node_record \<Rightarrow> node_id \<Rightarrow> bool" where
  "new_node r p \<longleftrightarrow> parent r = Some p \<and> first_child r = None \<and> last_child r = None \<and> next_sibling r = None"

text \<open>One step of linking: the arena extended by a node and the list after it.\<close>

definition extended :: "node_record list \<Rightarrow> node_id \<Rightarrow> node_record \<Rightarrow> node_record list" where
  "extended ns p r = link_child p (length ns) (ns @ [r])"

lemma length_extended [simp]: "length (extended ns p r) = Suc (length ns)"
  by (simp add: extended_def)

lemma last_child_range:
  assumes "links_ok ns" "p < length ns" "last_child (ns ! p) = Some l"
  shows "l < length ns" "p < l" "parent (ns ! l) = Some p"
proof -
  have f: "find (child_of ns p) (rev [0..<length ns]) = Some l"
    using assms by (auto simp: links_ok_def last_ok_def)
  from find_SomeD [OF f] show l: "l < length ns" "parent (ns ! l) = Some p" by (auto simp: child_of_def)
  show "p < l" using assms(1) l parent_bound by (auto simp: links_ok_def)
qed

lemma extended_nth:
  assumes "links_ok ns" "p < length ns" "new_node r p" "j < Suc (length ns)"
  shows "extended ns p r ! j =
    (if j = p then
       (ns ! j)\<lparr>last_child := Some (length ns),
                first_child := (if last_child (ns ! p) = None then Some (length ns) else first_child (ns ! j))\<rparr>
     else if j < length ns \<and> last_child (ns ! p) = Some j then (ns ! j)\<lparr>next_sibling := Some (length ns)\<rparr>
     else if j < length ns then ns ! j else r)"
proof -
  have np: "(ns @ [r]) ! p = ns ! p" using assms(2) by (simp add: nth_append)
  have "\<And>l. last_child ((ns @ [r]) ! p) = Some l \<Longrightarrow> l < length (ns @ [r]) \<and> l \<noteq> p"
    using last_child_range [OF assms(1,2)] np by force
  from link_child_nth [OF _ _ this, where j = j and i = "length ns"] assms(2,4)
  show ?thesis using last_child_range [OF assms(1,2)]
    by (auto simp: extended_def np nth_append less_Suc_eq)
qed

lemma extended_parent:
  assumes "links_ok ns" "p < length ns" "new_node r p" "j < Suc (length ns)"
  shows "parent (extended ns p r ! j) = (if j < length ns then parent (ns ! j) else Some p)"
  using assms by (auto simp: extended_nth new_node_def)

lemma extended_child_of:
  assumes "links_ok ns" "p < length ns" "new_node r p" "j < length ns"
  shows "child_of (extended ns p r) i j = child_of ns i j"
  using assms by (simp add: child_of_def extended_parent)

lemma extended_child_new:
  assumes "links_ok ns" "p < length ns" "new_node r p"
  shows "child_of (extended ns p r) i (length ns) \<longleftrightarrow> i = p"
  using assms by (auto simp: child_of_def extended_parent)

lemma extended_find:
  assumes "links_ok ns" "p < length ns" "new_node r p" "a \<le> length ns"
  shows "find (child_of (extended ns p r) i) [a..<Suc (length ns)] =
      (case find (child_of ns i) [a..<length ns] of
         Some x \<Rightarrow> Some x | None \<Rightarrow> if i = p then Some (length ns) else None)"
    and "find (child_of (extended ns p r) i) (rev [0..<Suc (length ns)]) =
      (if i = p then Some (length ns) else find (child_of ns i) (rev [0..<length ns]))"
proof -
  have up: "find (child_of (extended ns p r) i) [b..<length ns] = find (child_of ns i) [b..<length ns]" for b
    by (rule find_upt_cong) (rule extended_child_of [OF assms(1-3)])
  have down: "find (child_of (extended ns p r) i) (rev [0..<length ns]) = find (child_of ns i) (rev [0..<length ns])"
    by (rule find_rev_upt_cong) (rule extended_child_of [OF assms(1-3)])
  show "find (child_of (extended ns p r) i) [a..<Suc (length ns)] =
      (case find (child_of ns i) [a..<length ns] of
         Some x \<Rightarrow> Some x | None \<Rightarrow> if i = p then Some (length ns) else None)"
    using assms(4) up [of a] extended_child_new [OF assms(1-3), of i]
    by (auto simp: find_append split: option.splits)
  show "find (child_of (extended ns p r) i) (rev [0..<Suc (length ns)]) =
      (if i = p then Some (length ns) else find (child_of ns i) (rev [0..<length ns]))"
    using down extended_child_new [OF assms(1-3), of i] by simp
qed

lemma no_child_of_new:
  assumes "parents_ok ns" "length ns \<le> i"
  shows "find (child_of ns i) [a..<length ns] = None" "find (child_of ns i) (rev [0..<length ns]) = None"
  using parent_bound [OF assms(1)] assms(2) by (fastforce simp: find_None child_of_def)+

lemma last_child_first:
  assumes "links_ok ns" "p < length ns"
  shows "last_child (ns ! p) = None \<longleftrightarrow> first_child (ns ! p) = None"
  using assms by (auto simp: links_ok_def last_ok_def first_ok_def find_None)

lemma later_sibling:
  assumes "links_ok ns" "j < length ns" "parent (ns ! j) = Some p"
  shows "find (child_of ns p) [Suc j..<length ns] = None \<longleftrightarrow> last_child (ns ! p) = Some j"
proof -
  have p: "p < length ns" using assms parent_bound by (fastforce simp: links_ok_def)
  have last: "last_child (ns ! p) = find (child_of ns p) (rev [0..<length ns])"
    using assms(1) p by (simp add: links_ok_def last_ok_def)
  have j: "child_of ns p j" using assms(3) by (simp add: child_of_def)
  have split: "rev [0..<length ns] = rev [Suc j..<length ns] @ j # rev [0..<j]"
    using assms(2) upt_add_eq_append [of 0 j "length ns - j"] upt_conv_Cons [of j "length ns"] by simp
  show ?thesis
  proof
    assume "find (child_of ns p) [Suc j..<length ns] = None"
    then have "find (child_of ns p) (rev [Suc j..<length ns]) = None" by (auto simp: find_None)
    then show "last_child (ns ! p) = Some j" using j by (simp add: last split find_append)
  next
    assume l: "last_child (ns ! p) = Some j"
    then have "find (child_of ns p) (rev [Suc j..<length ns]) = None"
      using find_SomeD [of "child_of ns p" "rev [Suc j..<length ns]"]
      by (force simp: last split find_append split: option.splits)
    then show "find (child_of ns p) [Suc j..<length ns] = None" by (auto simp: find_None)
  qed
qed

lemma parents_ok_extended:
  assumes "links_ok ns" "p < length ns" "new_node r p"
  shows "parents_ok (extended ns p r)"
proof -
  have "extended ns p r \<noteq> []" using length_extended [of ns p r] by (metis length_0_conv nat.distinct(1))
  then show ?thesis using assms
    by (auto simp: links_ok_def parents_ok_def extended_parent [OF assms] less_Suc_eq)
qed

lemma first_ok_extended:
  assumes a: "links_ok ns" "p < length ns" "new_node r p"
  shows "first_ok (extended ns p r)"
  unfolding first_ok_def length_extended
proof (intro allI impI)
  fix i assume i: "i < Suc (length ns)"
  have ok: "parents_ok ns" and old: "i < length ns \<Longrightarrow> first_child (ns ! i) = find (child_of ns i) [0..<length ns]"
    using a(1) by (simp_all add: links_ok_def first_ok_def)
  show "first_child (extended ns p r ! i) = find (child_of (extended ns p r) i) [0..<Suc (length ns)]"
    using i old a(2) last_child_first [OF a(1,2)] no_child_of_new(1) [OF ok, of i 0] a(3)
    unfolding extended_find(1) [OF a le0] extended_nth [OF a i]
    by (auto simp: new_node_def split: option.splits)
qed

lemma last_ok_extended:
  assumes a: "links_ok ns" "p < length ns" "new_node r p"
  shows "last_ok (extended ns p r)"
  unfolding last_ok_def length_extended
proof (intro allI impI)
  fix i assume i: "i < Suc (length ns)"
  have ok: "parents_ok ns" and old: "i < length ns \<Longrightarrow> last_child (ns ! i) = find (child_of ns i) (rev [0..<length ns])"
    using a(1) by (simp_all add: links_ok_def last_ok_def)
  show "last_child (extended ns p r ! i) = find (child_of (extended ns p r) i) (rev [0..<Suc (length ns)])"
    using i old a(2) no_child_of_new(2) [OF ok, of i] a(3)
    unfolding extended_find(2) [OF a le_refl] extended_nth [OF a i]
    by (auto simp: new_node_def)
qed

lemma sibling_ok_extended:
  assumes a: "links_ok ns" "p < length ns" "new_node r p"
  shows "sibling_ok (extended ns p r)"
  unfolding sibling_ok_def length_extended
proof (intro allI impI)
  fix i assume i: "i < Suc (length ns)"
  have old: "i < length ns \<Longrightarrow> next_sibling (ns ! i) =
      (case parent (ns ! i) of None \<Rightarrow> None | Some q \<Rightarrow> find (child_of ns q) [Suc i..<length ns])"
    using a(1) by (simp add: links_ok_def sibling_ok_def)
  have later: "i < length ns \<Longrightarrow> parent (ns ! i) = Some q \<Longrightarrow>
      find (child_of ns q) [Suc i..<length ns] = None \<longleftrightarrow> last_child (ns ! q) = Some i" for q
    using later_sibling [OF a(1)] by blast
  have not_last: "last_child (ns ! p) = Some i \<Longrightarrow> parent (ns ! i) = Some p \<and> i < length ns"
    using last_child_range [OF a(1,2)] by blast
  show "next_sibling (extended ns p r ! i) =
      (case parent (extended ns p r ! i) of None \<Rightarrow> None
       | Some q \<Rightarrow> find (child_of (extended ns p r) q) [Suc i..<Suc (length ns)])"
  proof (cases "i < length ns")
    case True
    have link: "next_sibling (extended ns p r ! i) =
        (if last_child (ns ! p) = Some i then Some (length ns) else next_sibling (ns ! i))"
      using True last_child_range(2) [OF a(1,2), of i] by (auto simp: extended_nth [OF a i])
    show ?thesis
    proof (cases "parent (ns ! i)")
      case None
      then show ?thesis using True old not_last by (auto simp: link extended_parent [OF a i])
    next
      case (Some q)
      have "find (child_of (extended ns p r) q) [Suc i..<Suc (length ns)] =
          (case next_sibling (ns ! i) of Some x \<Rightarrow> Some x | None \<Rightarrow> if q = p then Some (length ns) else None)"
        using extended_find(1) [OF a, of "Suc i" q] old Some True by simp
      moreover have "next_sibling (ns ! i) = None \<longleftrightarrow> last_child (ns ! q) = Some i"
        using later [OF True Some] old Some True by simp
      moreover have "last_child (ns ! p) = Some i \<Longrightarrow> q = p" using not_last Some by auto
      ultimately show ?thesis using True Some
        by (auto simp: link extended_parent [OF a i] simp del: upt_Suc split: option.splits)
    qed
  next
    case False
    with i a(2,3) show ?thesis by (simp add: extended_parent [OF a i] extended_nth [OF a i] new_node_def)
  qed
qed

lemma links_ok_extended:
  "links_ok ns \<Longrightarrow> p < length ns \<Longrightarrow> new_node r p \<Longrightarrow> links_ok (extended ns p r)"
  unfolding links_ok_def [of "extended ns p r"]
  by (intro conjI parents_ok_extended first_ok_extended last_ok_extended sibling_ok_extended)

subsection \<open>Walking up\<close>

lemma lineage_step:
  assumes "parents_ok ns" "i < length ns" "i < fuel"
  shows "\<exists>path. lineage_fuel fuel ns (Some i) = Some (i # path) \<and>
    lineage_fuel (Suc i) ns (Some i) = Some (i # path) \<and>
    list_all (\<lambda>j. j < i) path \<and> distinct path \<and>
    (case parent (ns ! i) of None \<Rightarrow> path = [] | Some p \<Rightarrow> lineage_fuel (Suc p) ns (Some p) = Some path)"
  using assms(2,3)
proof (induction i arbitrary: fuel rule: less_induct)
  case (less i)
  then obtain f where f: "fuel = Suc f" by (cases fuel) auto
  show ?case
  proof (cases "parent (ns ! i)")
    case None
    then show ?thesis using less.prems by (simp add: f)
  next
    case (Some p)
    then have p: "p < i" using parent_bound [OF assms(1) less.prems(1)] by blast
    obtain path where path: "lineage_fuel f ns (Some p) = Some (p # path)"
      "lineage_fuel (Suc p) ns (Some p) = Some (p # path)" "list_all (\<lambda>j. j < p) path" "distinct path"
      using less.IH [OF p, of f] p less.prems f by auto
    have path': "lineage_fuel i ns (Some p) = Some (p # path)"
      using less.IH [OF p, of i] p less.prems path(2) by auto
    show ?thesis using less.prems path path' p by (auto simp: f Some list_all_iff)
  qed
qed

definition up :: "node_record list \<Rightarrow> node_id \<Rightarrow> node_id list" where
  "up ns i = the (lineage_fuel (Suc i) ns (Some i))"

lemma up_props:
  assumes "parents_ok ns" "i < length ns"
  shows "up ns i = i # (case parent (ns ! i) of None \<Rightarrow> [] | Some p \<Rightarrow> up ns p)"
    and "distinct (up ns i)" and "list_all (\<lambda>j. j < length ns) (up ns i)"
    and "i < fuel \<Longrightarrow> lineage_fuel fuel ns (Some i) = Some (up ns i)"
proof -
  obtain path where path: "lineage_fuel (Suc i) ns (Some i) = Some (i # path)" "list_all (\<lambda>j. j < i) path"
    "distinct path" "case parent (ns ! i) of None \<Rightarrow> path = [] | Some p \<Rightarrow> lineage_fuel (Suc p) ns (Some p) = Some path"
    using lineage_step [OF assms, of "Suc i"] by blast
  then have u: "up ns i = i # path" by (simp add: up_def del: lineage_fuel.simps)
  show "up ns i = i # (case parent (ns ! i) of None \<Rightarrow> [] | Some p \<Rightarrow> up ns p)"
    using path(1,4) by (simp add: up_def del: lineage_fuel.simps split: option.splits)
  show "distinct (up ns i)" using path(2,3) by (auto simp: u list_all_iff)
  show "list_all (\<lambda>j. j < length ns) (up ns i)" using path(2) assms(2) by (auto simp: u list_all_iff)
  show "i < fuel \<Longrightarrow> lineage_fuel fuel ns (Some i) = Some (up ns i)"
    using lineage_step [OF assms] path(1) by (auto simp: u)
qed

lemma lineage_up: "parents_ok (nodes t) \<Longrightarrow> i < length (nodes t) \<Longrightarrow> lineage t (Some i) = Some (up (nodes t) i)"
  unfolding lineage_def by (rule up_props(4)) auto

lemma up_cong:
  assumes "parents_ok ns" "parents_ok ms" "\<And>j. j < length ns \<Longrightarrow> parent (ms ! j) = parent (ns ! j)"
    "length ns \<le> length ms" "i < length ns"
  shows "up ms i = up ns i"
  using assms(5)
proof (induction i rule: less_induct)
  case (less i)
  then show ?case
    using up_props(1) [OF assms(1) less.prems] up_props(1) [OF assms(2), of i] assms(3,4)
      parent_bound [OF assms(1) less.prems]
    by (auto split: option.splits)
qed

subsection \<open>Updating along a path\<close>

lemma length_map_nodes [simp]: "length (map_nodes f is ns) = length ns"
  by (induction "is" arbitrary: ns) (simp_all add: map_nodes_def)

lemma map_nodes_Cons: "map_nodes f (i # is) ns = map_nodes f is (ns[i := f (ns ! i)])"
  by (simp add: map_nodes_def)

lemma map_nodes_nth:
  "distinct is \<Longrightarrow> j < length ns \<Longrightarrow> map_nodes f is ns ! j = (if j \<in> set is then f (ns ! j) else ns ! j)"
proof (induction "is" arbitrary: ns)
  case (Cons i "is")
  then show ?case by (cases "j = i") (auto simp: map_nodes_Cons nth_list_update)
qed (simp add: map_nodes_def)

text \<open>An update that leaves the links alone keeps the arena well-formed.\<close>

definition same_links :: "node_record \<Rightarrow> node_record \<Rightarrow> bool" where
  "same_links a b \<longleftrightarrow> parent a = parent b \<and> first_child a = first_child b \<and>
     last_child a = last_child b \<and> next_sibling a = next_sibling b"

lemma child_of_cong:
  "length ms = length ns \<Longrightarrow> (\<And>j. j < length ns \<Longrightarrow> same_links (ms ! j) (ns ! j)) \<Longrightarrow> j < length ns \<Longrightarrow>
     child_of ms i j = child_of ns i j"
  by (simp add: child_of_def same_links_def)

lemma links_ok_cong:
  assumes "links_ok ns" "length ms = length ns" "\<And>j. j < length ns \<Longrightarrow> same_links (ms ! j) (ns ! j)"
  shows "links_ok ms"
proof -
  have f: "find (child_of ms i) [a..<length ns] = find (child_of ns i) [a..<length ns]"
    "find (child_of ms i) (rev [a..<length ns]) = find (child_of ns i) (rev [a..<length ns])" for i a
    using child_of_cong [OF assms(2,3)] by (auto intro!: find_upt_cong find_rev_upt_cong)
  have s: "parent (ms ! j) = parent (ns ! j)" "first_child (ms ! j) = first_child (ns ! j)"
    "last_child (ms ! j) = last_child (ns ! j)" "next_sibling (ms ! j) = next_sibling (ns ! j)"
    if "j < length ns" for j
    using assms(3) [OF that] by (simp_all add: same_links_def)
  have "ns \<noteq> []" using assms(1) by (simp add: links_ok_def parents_ok_def)
  then have 0: "0 < length ns" "ms \<noteq> []" using assms(2) by auto
  show ?thesis using assms(1) 0
    by (simp add: links_ok_def parents_ok_def first_ok_def last_ok_def sibling_ok_def assms(2) f s
        cong: option.case_cong)
qed

lemma links_ok_map_nodes:
  "links_ok ns \<Longrightarrow> distinct is \<Longrightarrow> (\<And>r. same_links (f r) r) \<Longrightarrow> links_ok (map_nodes f is ns)"
  by (erule links_ok_cong) (simp_all add: map_nodes_nth same_links_def)

lemma set_map_nodes:
  "distinct is \<Longrightarrow> r \<in> set (map_nodes f is ns) \<Longrightarrow>
     \<exists>j < length ns. r = (if j \<in> set is then f (ns ! j) else ns ! j)"
  by (metis in_set_conv_nth length_map_nodes map_nodes_nth)

lemma fits_loop_iff:
  "list_all (\<lambda>j. j < length ns) path \<Longrightarrow>
     fits_loop ns a b path = Some (\<forall>j \<in> set path.
       apparent_bytes (ns ! j) + a < 2 ^ 64 \<and> allocated_bytes (ns ! j) + b < 2 ^ 64)"
  by (induction path) (auto simp: checked_add_u64_def)

lemma tree_ok_map_nodes:
  assumes "tree_ok t" "distinct path" "\<And>r. same_links (f r) r" "\<And>r. name_range (f r) = name_range r"
    and "\<And>j. j \<in> set path \<Longrightarrow> j < length (nodes t) \<Longrightarrow>
      apparent_bytes (f (nodes t ! j)) < 2 ^ 64 \<and> allocated_bytes (f (nodes t ! j)) < 2 ^ 64"
  shows "tree_ok (t\<lparr>nodes := map_nodes f path (nodes t)\<rparr>)"
proof -
  have "names_ok (t\<lparr>nodes := map_nodes f path (nodes t)\<rparr>)"
    unfolding names_ok_def
  proof
    fix r assume "r \<in> set (nodes (t\<lparr>nodes := map_nodes f path (nodes t)\<rparr>))"
    then have "r \<in> set (map_nodes f path (nodes t))" by simp
    then obtain j where "j < length (nodes t)" "r = (if j \<in> set path then f (nodes t ! j) else nodes t ! j)"
      using set_map_nodes [OF assms(2), of r f "nodes t"] by blast
    then show "fst (name_range r) \<le> snd (name_range r) \<and>
        snd (name_range r) \<le> length (names (t\<lparr>nodes := map_nodes f path (nodes t)\<rparr>))"
      using assms(1,4) by (simp add: tree_ok_def names_ok_def)
  qed
  moreover have "sizes_ok (t\<lparr>nodes := map_nodes f path (nodes t)\<rparr>)"
    unfolding sizes_ok_def
  proof
    fix r assume "r \<in> set (nodes (t\<lparr>nodes := map_nodes f path (nodes t)\<rparr>))"
    then have "r \<in> set (map_nodes f path (nodes t))" by simp
    then obtain j where j: "j < length (nodes t)" "r = (if j \<in> set path then f (nodes t ! j) else nodes t ! j)"
      using set_map_nodes [OF assms(2), of r f "nodes t"] by blast
    then show "apparent_bytes r < 2 ^ 64 \<and> allocated_bytes r < 2 ^ 64"
      using assms(1,5) by (auto simp: tree_ok_def sizes_ok_def)
  qed
  ultimately show ?thesis using assms(1) links_ok_map_nodes [OF _ assms(2,3)] by (simp add: tree_ok_def)
qed

lemma tree_ok_up:
  assumes "tree_ok t" "i < length (nodes t)"
  shows "lineage t (Some i) = Some (up (nodes t) i)" "distinct (up (nodes t) i)"
    "list_all (\<lambda>j. j < length (nodes t)) (up (nodes t) i)"
  using assms up_props [of "nodes t" i] lineage_up [of t i] by (auto simp: tree_ok_def links_ok_def)

lemma name_of_ok:
  assumes "tree_ok t" "j < length (nodes t)"
  shows "name_of t j = Some (slice (fst (name_range (nodes t ! j))) (snd (name_range (nodes t ! j))) (names t))"
proof -
  have "nodes t ! j \<in> set (nodes t)" using assms(2) by simp
  then have "fst (name_range (nodes t ! j)) \<le> snd (name_range (nodes t ! j))"
    "snd (name_range (nodes t ! j)) \<le> length (names t)"
    using assms(1) by (auto simp: tree_ok_def names_ok_def)
  then show ?thesis using assms(2) by (cases "name_range (nodes t ! j)") (simp add: name_of_def record_of_def)
qed

lemma up_last:
  assumes "tree_ok t" "i < length (nodes t)"
  shows "last (up (nodes t) i) = root t"
  using assms(2)
proof (induction i rule: less_induct)
  case (less i)
  have ok: "parents_ok (nodes t)" "root t = 0" using assms(1) by (simp_all add: tree_ok_def links_ok_def)
  show ?case
  proof (cases "i = 0")
    case True
    then show ?thesis using up_props(1) [OF ok(1) less.prems] ok by (simp add: parents_ok_def)
  next
    case False
    then obtain p where p: "parent (nodes t ! i) = Some p" "p < i"
      using ok(1) less.prems by (auto simp: parents_ok_def)
    then have "up (nodes t) p \<noteq> []" using up_props(1) [OF ok(1), of p] less.prems by simp
    then show ?thesis using up_props(1) [OF ok(1) less.prems] p less by simp
  qed
qed

text \<open>The path of a node is the path of its parent and its name.\<close>

lemma collect_names_total:
  "tree_ok t \<Longrightarrow> list_all (\<lambda>j. j < length (nodes t)) is \<Longrightarrow> \<exists>ns. collect_names t is = Some ns"
  by (induction "is") (auto simp: path_name_def record_of_def name_of_ok)

lemma materialize_total:
  assumes "tree_ok t" "i < length (nodes t)"
  shows "\<exists>ns. materialize_path t i = Some (Some ns)"
  using tree_ok_up [OF assms] collect_names_total [OF assms(1)] by (auto simp: materialize_path_def)

lemma materialize_root: "tree_ok t \<Longrightarrow> materialize_path t 0 = Some (Some [])"
  using tree_ok_up(1) [of t 0] up_props(1) [of "nodes t" 0]
  by (auto simp: materialize_path_def tree_ok_def links_ok_def parents_ok_def path_name_def record_of_def)

lemma materialize_step:
  assumes "tree_ok t" "i < length (nodes t)" "parent (nodes t ! i) = Some p" "name_of t i = Some name"
  shows "materialize_path t i = map_option (map_option (\<lambda>ns. ns @ [name])) (materialize_path t p)"
proof -
  have ok: "parents_ok (nodes t)" "root t = 0" using assms(1) by (simp_all add: tree_ok_def links_ok_def)
  have p: "p < i" using parent_bound [OF ok(1) assms(2,3)] .
  have u: "up (nodes t) i = i # up (nodes t) p" using up_props(1) [OF ok(1) assms(2)] assms(3) by simp
  have n: "path_name t i = Some [name]" using p assms(2,4) ok(2) by (simp add: path_name_def record_of_def)
  have "lineage t (Some p) = Some (up (nodes t) p)" using tree_ok_up(1) [OF assms(1), of p] p assms(2) by simp
  then show ?thesis
    using tree_ok_up(1) [OF assms(1,2)]
    by (cases "collect_names t (up (nodes t) p)") (simp_all add: materialize_path_def u n)
qed

subsection \<open>Appending a node\<close>

lemma append_nodeD:
  assumes "append_node t p name et ident links ap al st = Some (i, t')"
  obtains r where "p < length (nodes t)" "i = length (nodes t)" "new_node r p"
    "name_range r = (length (names t), length (names t) + length name)"
    "apparent_bytes r = ap" "allocated_bytes r = al" "state r = node_state_from st"
    "t' = t\<lparr>names := names t @ name, nodes := extended (nodes t) p r\<rparr>"
proof -
  define r where "r = \<lparr>parent = Some p, first_child = None, last_child = None, next_sibling = None,
      name_range = (length (names t), length (names t) + length name), entry_type = et, identity = ident,
      modified_time = default_time, link_count = links, apparent_bytes = ap,
      allocated_bytes = al, state = node_state_from st\<rparr>"
  have "p < length (nodes t)" "i = length (nodes t)"
    "t' = t\<lparr>names := names t @ name, nodes := extended (nodes t) p r\<rparr>"
    using assms
    by (auto simp: append_node_def extended_def r_def id_from_index_def try_u32_def record_of_def
        split: Option.bind_splits if_splits)
  then show ?thesis using that [of r] by (simp add: r_def new_node_def)
qed

lemma extended_keeps:
  assumes "links_ok ns" "p < length ns" "new_node r p" "j < length ns"
  shows "name_range (extended ns p r ! j) = name_range (ns ! j)"
    and "apparent_bytes (extended ns p r ! j) = apparent_bytes (ns ! j)"
    and "allocated_bytes (extended ns p r ! j) = allocated_bytes (ns ! j)"
    and "state (extended ns p r ! j) = state (ns ! j)"
    and "parent (extended ns p r ! j) = parent (ns ! j)"
  using assms by (auto simp: extended_nth)

lemma extended_last:
  "links_ok ns \<Longrightarrow> p < length ns \<Longrightarrow> new_node r p \<Longrightarrow> extended ns p r ! length ns = r"
  by (simp add: extended_nth)

lemma set_extended:
  assumes "links_ok ns" "p < length ns" "new_node r p" "x \<in> set (extended ns p r)"
  shows "x = r \<or> (\<exists>j < length ns. x = extended ns p r ! j)"
  using assms extended_last [OF assms(1-3)] by (auto simp: in_set_conv_nth less_Suc_eq)

lemma slice_append_old: "b \<le> length xs \<Longrightarrow> slice a b (xs @ ys) = slice a b xs"
  by (simp add: slice_def)

lemma tree_ok_extended:
  assumes t: "tree_ok t" and p: "p < length (nodes t)" and r: "new_node r p"
    and n: "name_range r = (length (names t), length (names t) + length name)"
    and s: "apparent_bytes r < 2 ^ 64" "allocated_bytes r < 2 ^ 64"
  shows "tree_ok (t\<lparr>names := names t @ name, nodes := extended (nodes t) p r\<rparr>)"
proof -
  have l: "links_ok (nodes t)" using t by (simp add: tree_ok_def)
  note keeps = extended_keeps [OF l p r]
  have old: "fst (name_range (nodes t ! j)) \<le> snd (name_range (nodes t ! j)) \<and>
      snd (name_range (nodes t ! j)) \<le> length (names t) \<and>
      apparent_bytes (nodes t ! j) < 2 ^ 64 \<and> allocated_bytes (nodes t ! j) < 2 ^ 64" if "j < length (nodes t)" for j
    using t nth_mem [OF that] unfolding tree_ok_def names_ok_def sizes_ok_def by blast
  have all: "fst (name_range x) \<le> snd (name_range x) \<and> snd (name_range x) \<le> length (names t @ name) \<and>
      apparent_bytes x < 2 ^ 64 \<and> allocated_bytes x < 2 ^ 64" if "x \<in> set (extended (nodes t) p r)" for x
    using set_extended [OF l p r that]
  proof
    assume "x = r"
    then show ?thesis using n s by simp
  next
    assume "\<exists>j < length (nodes t). x = extended (nodes t) p r ! j"
    then obtain j where j: "j < length (nodes t)" "x = extended (nodes t) p r ! j" by blast
    show ?thesis using old [OF j(1)] unfolding j(2) keeps [OF j(1)] by (auto simp: length_append)
  qed
  then show ?thesis
    using links_ok_extended [OF l p r] t by (simp add: tree_ok_def names_ok_def sizes_ok_def)
qed

lemma paths_kept:
  assumes "tree_ok t" "tree_ok t'" "length (nodes t) \<le> length (nodes t')"
    and "\<And>j. j < length (nodes t) \<Longrightarrow> parent (nodes t' ! j) = parent (nodes t ! j) \<and> name_of t' j = name_of t j"
    and "j < length (nodes t)"
  shows "materialize_path t' j = materialize_path t j"
  using assms(5)
proof (induction j rule: less_induct)
  case (less j)
  show ?case
  proof (cases "parent (nodes t ! j)")
    case None
    then have "j = 0" using assms(1) less.prems by (fastforce simp: tree_ok_def links_ok_def parents_ok_def)
    then show ?thesis by (simp add: materialize_root assms(1,2))
  next
    case (Some p)
    have "p < j" using assms(1) parent_bound [OF _ less.prems Some] by (simp add: tree_ok_def links_ok_def)
    then show ?thesis
      using less materialize_step [OF assms(1) less.prems Some] materialize_step [OF assms(2), of j p]
        assms(3,4) Some name_of_ok [OF assms(1) less.prems]
      by simp
  qed
qed

subsection \<open>Children\<close>

lemma find_Some_split:
  "find P [a..<n] = Some x \<Longrightarrow> a \<le> x \<and> x < n \<and> P x \<and> filter P [a..<n] = x # filter P [Suc x..<n]"
proof (induction "n - a" arbitrary: a)
  case (Suc k)
  then have "[a..<n] = a # [Suc a..<n]" by (simp add: upt_conv_Cons)
  then show ?case using Suc.prems Suc.hyps(1) [of "Suc a"] Suc.hyps(2) by (fastforce split: if_splits)
qed simp

lemma sibling_chain_children:
  assumes "tree_ok t"
  shows "length (nodes t) - a \<le> fuel \<Longrightarrow>
    sibling_chain fuel t (find (child_of (nodes t) p) [a..<length (nodes t)]) =
      Some (filter (child_of (nodes t) p) [a..<length (nodes t)])"
proof (induction fuel arbitrary: a)
  case (Suc fuel)
  show ?case
  proof (cases "find (child_of (nodes t) p) [a..<length (nodes t)]")
    case None
    moreover from None have "filter (child_of (nodes t) p) [a..<length (nodes t)] = []"
      by (auto simp: find_None filter_empty_conv)
    ultimately show ?thesis by simp
  next
    case (Some x)
    from find_Some_split [OF Some] have x: "a \<le> x" "x < length (nodes t)" "child_of (nodes t) p x"
      "filter (child_of (nodes t) p) [a..<length (nodes t)] = x # filter (child_of (nodes t) p) [Suc x..<length (nodes t)]"
      by auto
    have "next_sibling (nodes t ! x) = find (child_of (nodes t) p) [Suc x..<length (nodes t)]"
      using assms x(2,3) by (simp add: tree_ok_def links_ok_def sibling_ok_def child_of_def)
    then show ?thesis using Suc.IH [of "Suc x"] Suc.prems x by (simp add: Some record_of_def)
  qed
qed simp

lemma children_filter:
  assumes "tree_ok t" "i < length (nodes t)"
  shows "children t i = Some (filter (\<lambda>j. parent (nodes t ! j) = Some i \<and> state (nodes t ! j) \<noteq> Tombstone)
    [0..<length (nodes t)])"
proof -
  have "Option.bind (record_of t i) first_child = find (child_of (nodes t) i) [0..<length (nodes t)]"
    using assms by (simp add: record_of_def tree_ok_def links_ok_def first_ok_def)
  moreover have "filter (\<lambda>j. state (nodes t ! j) \<noteq> Tombstone) (filter (child_of (nodes t) i) xs) =
      filter (\<lambda>j. parent (nodes t ! j) = Some i \<and> state (nodes t ! j) \<noteq> Tombstone) xs" for xs
    by (simp add: child_of_def)
  ultimately show ?thesis
    using sibling_chain_children [OF assms(1), of 0 "Suc (length (nodes t))" i] unfolding children_def by simp
qed

lemma children_extended:
  assumes t: "tree_ok t" "tree_ok t'" and p: "p < length (nodes t)" and r: "new_node r p"
    and t': "nodes t' = extended (nodes t) p r" and s: "state r \<noteq> Tombstone" and q: "q < length (nodes t)"
  shows "children t' q = map_option (\<lambda>js. js @ (if q = p then [length (nodes t)] else [])) (children t q)"
proof -
  have l: "links_ok (nodes t)" using t(1) by (simp add: tree_ok_def)
  have old: "filter (\<lambda>j. parent (nodes t' ! j) = Some q \<and> state (nodes t' ! j) \<noteq> Tombstone) [0..<length (nodes t)] =
      filter (\<lambda>j. parent (nodes t ! j) = Some q \<and> state (nodes t ! j) \<noteq> Tombstone) [0..<length (nodes t)]"
    by (rule filter_cong) (auto simp: t' extended_keeps [OF l p r])
  show ?thesis
    using q old extended_last [OF l p r] s r children_filter [OF t(1) q] children_filter [OF t(2), of q]
    by (auto simp: t' new_node_def)
qed

text \<open>
  C24.  Appending to a well-formed arena gives a well-formed arena.  The new node is the next
  index, has the given name, is the last child of its parent, and its path is the parent's path
  with that name at the end; the names, the paths and the other children of all old nodes stay.
\<close>

theorem append_node_correct:
  assumes "tree_ok t" "append_node t p name et ident links ap al st = Some (i, t')" "ap < 2 ^ 64" "al < 2 ^ 64"
  shows "tree_ok t' \<and> i = length (nodes t) \<and> length (nodes t') = Suc i \<and> name_of t' i = Some name \<and>
    (\<exists>ns. materialize_path t p = Some (Some ns)) \<and>
    materialize_path t' i = map_option (map_option (\<lambda>ns. ns @ [name])) (materialize_path t p) \<and>
    children t' i = Some [] \<and> (\<forall>q < i. name_of t' q = name_of t q \<and> materialize_path t' q = materialize_path t q \<and>
      children t' q = map_option (\<lambda>js. js @ (if q = p then [i] else [])) (children t q))"
proof -
  obtain r where p: "p < length (nodes t)" and i: "i = length (nodes t)" and r: "new_node r p"
    and n: "name_range r = (length (names t), length (names t) + length name)"
    and sz: "apparent_bytes r = ap" "allocated_bytes r = al" and st: "state r = node_state_from st"
    and t': "t' = t\<lparr>names := names t @ name, nodes := extended (nodes t) p r\<rparr>"
    by (rule append_nodeD [OF assms(2)])
  have l: "links_ok (nodes t)" using assms(1) by (simp add: tree_ok_def)
  have ok: "tree_ok t'" unfolding t' using tree_ok_extended [OF assms(1) p r n] sz assms(3,4) by blast
  have ns: "nodes t' = extended (nodes t) p r" "length (nodes t') = Suc i" by (simp_all add: t' i)
  have last: "nodes t' ! i = r" using extended_last [OF l p r] by (simp add: ns i)
  have live: "state r \<noteq> Tombstone" by (cases st) (simp_all add: st)
  have name: "name_of t' i = Some name" using name_of_ok [OF ok, of i] ns(2) last n by (simp add: t' slice_def)
  have old: "parent (nodes t' ! q) = parent (nodes t ! q) \<and> name_of t' q = name_of t q" if q: "q < length (nodes t)" for q
  proof -
    have "snd (name_range (nodes t ! q)) \<le> length (names t)"
      using assms(1) nth_mem [OF q] by (auto simp: tree_ok_def names_ok_def)
    then show ?thesis using name_of_ok [OF assms(1) q] name_of_ok [OF ok, of q] q
      by (simp add: ns i extended_keeps [OF l p r q] slice_append_old) (simp add: t' slice_append_old)
  qed
  have paths: "materialize_path t' q = materialize_path t q" if "q < length (nodes t)" for q
    by (rule paths_kept [OF assms(1) ok _ old that]) (simp add: ns(2) i)
  have kids: "children t' i = Some []"
    using children_filter [OF ok, of i] ns(2) ok parent_bound [of "nodes t'" _ i]
    by (fastforce simp: tree_ok_def links_ok_def filter_empty_conv)
  show ?thesis
    using ok i ns(2) name kids old paths children_extended [OF assms(1) ok p r ns(1) live]
      materialize_step [OF ok, of i p name] paths [OF p] last r materialize_total [OF assms(1) p]
    by (simp add: new_node_def)
qed

lemma append_node_correct_witness:
  "let t = the (tree_new (bstr ''r'') \<lparr>device = 1, inode = 2\<rparr> 1);
       (i, t') = the (append_node t 0 (bstr ''a'') RegularFile \<lparr>device = 1, inode = 3\<rparr> 1 5 8 StatusComplete)
   in tree_ok t \<and> tree_ok t' \<and> i = 1 \<and> name_of t' i = Some (bstr ''a'')"
proof -
  define t where "t = the (tree_new (bstr ''r'') \<lparr>device = 1, inode = 2\<rparr> 1)"
  have ok: "tree_ok t"
    by (simp add: t_def tree_new_def try_u32_def bstr_def tree_ok_def links_ok_def parents_ok_def first_ok_def
        last_ok_def sibling_ok_def child_of_def names_ok_def sizes_ok_def)
  have "append_node t 0 (bstr ''a'') RegularFile \<lparr>device = 1, inode = 3\<rparr> 1 5 8 StatusComplete \<noteq> None"
    by (simp add: t_def tree_new_def try_u32_def bstr_def append_node_def id_from_index_def record_of_def)
  then obtain i t' where "append_node t 0 (bstr ''a'') RegularFile \<lparr>device = 1, inode = 3\<rparr> 1 5 8 StatusComplete = Some (i, t')"
    by auto
  moreover note append_node_correct [OF ok this]
  moreover have "length (nodes t) = 1" by (simp add: t_def tree_new_def try_u32_def bstr_def)
  ultimately show ?thesis using ok unfolding t_def [symmetric] Let_def by auto
qed

subsection \<open>Sizes along a path\<close>

text \<open>The nodes a walk to the root visits are the ancestors.\<close>

definition parent_edge :: "tree \<Rightarrow> (node_id \<times> node_id) set" where
  "parent_edge t = {(j, p). j < length (nodes t) \<and> parent (nodes t ! j) = Some p}"

lemma set_up:
  assumes "tree_ok t" "i < length (nodes t)"
  shows "set (up (nodes t) i) = {j. (i, j) \<in> (parent_edge t)\<^sup>*}"
  using assms(2)
proof (induction i rule: less_induct)
  case (less i)
  have ok: "parents_ok (nodes t)" using assms(1) by (simp add: tree_ok_def links_ok_def)
  have step: "(i, q) \<in> parent_edge t \<longleftrightarrow> parent (nodes t ! i) = Some q" for q
    using less.prems by (simp add: parent_edge_def)
  show ?case
  proof (cases "parent (nodes t ! i)")
    case None
    then show ?thesis using up_props(1) [OF ok less.prems] step by (auto elim: converse_rtranclE)
  next
    case (Some p)
    have "p < i" using parent_bound [OF ok less.prems Some] .
    then have "set (up (nodes t) p) = {j. (p, j) \<in> (parent_edge t)\<^sup>*}" using less by simp
    moreover have "(i, j) \<in> (parent_edge t)\<^sup>* \<longleftrightarrow> j = i \<or> (p, j) \<in> (parent_edge t)\<^sup>*" for j
      using step Some by (auto elim: converse_rtranclE intro: converse_rtrancl_into_rtrancl)
    ultimately show ?thesis using up_props(1) [OF ok less.prems] Some by auto
  qed
qed

text \<open>An update that touches neither links nor names nor sizes.\<close>

definition relabels :: "(node_record \<Rightarrow> node_record) \<Rightarrow> bool" where
  "relabels f \<longleftrightarrow> (\<forall>r. same_links (f r) r \<and> name_range (f r) = name_range r \<and>
     apparent_bytes (f r) = apparent_bytes r \<and> allocated_bytes (f r) = allocated_bytes r)"

lemma relabels_ok:
  assumes "tree_ok t" "distinct path" "relabels f"
  shows "tree_ok (t\<lparr>nodes := map_nodes f path (nodes t)\<rparr>)"
proof (rule tree_ok_map_nodes [OF assms(1,2)])
  show "same_links (f r) r" "name_range (f r) = name_range r" for r
    using assms(3) by (simp_all add: relabels_def)
  show "apparent_bytes (f (nodes t ! j)) < 2 ^ 64 \<and> allocated_bytes (f (nodes t ! j)) < 2 ^ 64"
    if "j \<in> set path" "j < length (nodes t)" for j
    using assms(1,3) nth_mem [OF that(2)] unfolding tree_ok_def sizes_ok_def relabels_def by simp
qed

lemma add_bytes_ok:
  assumes "tree_ok t" "distinct path"
    and "\<And>j. j \<in> set path \<Longrightarrow> apparent_bytes (nodes t ! j) + a < 2 ^ 64 \<and> allocated_bytes (nodes t ! j) + b < 2 ^ 64"
  shows "tree_ok (t\<lparr>nodes := map_nodes (add_bytes a b) path (nodes t)\<rparr>)"
  by (rule tree_ok_map_nodes [OF assms(1,2)]) (use assms(3) in \<open>simp_all add: same_links_def add_bytes_def\<close>)

lemma incomplete_ok:
  "tree_ok t \<Longrightarrow> distinct path \<Longrightarrow> tree_ok (t\<lparr>nodes := map_nodes (\<lambda>r. r\<lparr>state := Incomplete\<rparr>) path (nodes t)\<rparr>)"
  by (rule relabels_ok) (simp_all add: relabels_def same_links_def)

lemma lineage_outside: "\<not> i < length (nodes t) \<Longrightarrow> lineage t (Some i) = Some [i]"
  by (simp add: lineage_def)

lemma add_to_ancestors_ok:
  assumes "tree_ok t" "add_to_ancestors t i a b = Some (fits, t')"
  shows "tree_ok t'"
proof (cases "i < length (nodes t)")
  case True
  note up = tree_ok_up [OF assms(1) True]
  show ?thesis using assms(2) up(1,3) add_bytes_ok [OF assms(1) up(2), of a b] incomplete_ok [OF assms(1) up(2)]
    unfolding add_to_ancestors_def by (auto simp: fits_loop_iff [OF up(3)] split: if_splits)
next
  case False
  then show ?thesis using assms by (auto simp: add_to_ancestors_def lineage_outside)
qed

text \<open>
  C25.  Adding sizes to a node of a well-formed arena changes exactly the node and its
  ancestors: either no sum overflows 64 bits and every one of them gets both sums, or one
  overflows, no size changes and all of them are marked incomplete.  The arena stays well-formed.
\<close>

theorem add_to_ancestors_atomic:
  assumes "tree_ok t" "i < length (nodes t)"
  shows "\<exists>t'. let fits = (\<forall>j. (i, j) \<in> (parent_edge t)\<^sup>* \<longrightarrow>
        apparent_bytes (nodes t ! j) + a < 2 ^ 64 \<and> allocated_bytes (nodes t ! j) + b < 2 ^ 64) in
    add_to_ancestors t i a b = Some (fits, t') \<and> tree_ok t' \<and> length (nodes t') = length (nodes t) \<and>
    (\<forall>j < length (nodes t). nodes t' ! j =
       (if (i, j) \<in> (parent_edge t)\<^sup>*
        then if fits then add_bytes a b (nodes t ! j) else (nodes t ! j)\<lparr>state := Incomplete\<rparr>
        else nodes t ! j))"
proof -
  define path where "path = up (nodes t) i"
  define fits where "fits = (\<forall>j \<in> set path. apparent_bytes (nodes t ! j) + a < 2 ^ 64 \<and> allocated_bytes (nodes t ! j) + b < 2 ^ 64)"
  define f where "f = (if fits then add_bytes a b else (\<lambda>r. r\<lparr>state := Incomplete\<rparr>))"
  define t' where "t' = t\<lparr>nodes := map_nodes f path (nodes t)\<rparr>"
  note up = tree_ok_up [OF assms, folded path_def]
  have mem: "j \<in> set path \<longleftrightarrow> (i, j) \<in> (parent_edge t)\<^sup>*" for j using set_up [OF assms] by (simp add: path_def)
  have run: "add_to_ancestors t i a b = Some (fits, t')"
    using up(1,3) fits_loop_iff [OF up(3), of a b, folded fits_def]
    by (simp add: add_to_ancestors_def t'_def f_def)
  then have "tree_ok t'" by (rule add_to_ancestors_ok [OF assms(1)])
  moreover have "nodes t' ! j = (if (i, j) \<in> (parent_edge t)\<^sup>*
      then if fits then add_bytes a b (nodes t ! j) else (nodes t ! j)\<lparr>state := Incomplete\<rparr> else nodes t ! j)"
    if "j < length (nodes t)" for j
    using map_nodes_nth [OF up(2) that] by (simp add: t'_def mem f_def)
  moreover have "length (nodes t') = length (nodes t)" by (simp add: t'_def)
  moreover have fits: "fits = (\<forall>j. (i, j) \<in> (parent_edge t)\<^sup>* \<longrightarrow>
        apparent_bytes (nodes t ! j) + a < 2 ^ 64 \<and> allocated_bytes (nodes t ! j) + b < 2 ^ 64)"
    using mem by (auto simp: fits_def)
  ultimately show ?thesis using run unfolding Let_def fits [symmetric] by blast
qed

lemma add_to_ancestors_atomic_witness:
  "let t = the (tree_new (bstr ''r'') \<lparr>device = 1, inode = 2\<rparr> 1)
   in tree_ok t \<and> 0 < length (nodes t) \<and> (\<exists>fits t'. add_to_ancestors t 0 5 8 = Some (fits, t') \<and> tree_ok t')"
proof -
  define t where "t = the (tree_new (bstr ''r'') \<lparr>device = 1, inode = 2\<rparr> 1)"
  have "tree_ok t" "0 < length (nodes t)"
    by (simp_all add: t_def tree_new_def try_u32_def bstr_def tree_ok_def links_ok_def parents_ok_def first_ok_def
        last_ok_def sibling_ok_def child_of_def names_ok_def sizes_ok_def)
  with add_to_ancestors_atomic [OF this, of 5 8] show ?thesis
    unfolding t_def [symmetric] Let_def by blast
qed

subsection \<open>Every arena a scan builds\<close>

text \<open>A new arena and everything the scanner's calls make of it, whatever their order.\<close>

inductive scanned :: "tree \<Rightarrow> bool" where
  scan_root: "tree_new name ident links = Some t \<Longrightarrow> scanned t"
| scan_append: "scanned t \<Longrightarrow> append_node t p name et ident links ap al st = Some (i, t') \<Longrightarrow>
    ap < 2 ^ 64 \<Longrightarrow> al < 2 ^ 64 \<Longrightarrow> scanned t'"
| scan_state: "scanned t \<Longrightarrow> set_state t i st = (done, t') \<Longrightarrow> scanned t'"
| scan_time: "scanned t \<Longrightarrow> set_modified_time t i m = (done, t') \<Longrightarrow> scanned t'"
| scan_add: "scanned t \<Longrightarrow> add_to_ancestors t i ap al = Some (fits, t') \<Longrightarrow> scanned t'"
| scan_incomplete: "scanned t \<Longrightarrow> mark_incomplete_to_root t i = Some t' \<Longrightarrow> scanned t'"
| scan_stale: "scanned t \<Longrightarrow> mark_stale_to_root t i = Some t' \<Longrightarrow> scanned t'"
| scan_stop: "scanned t \<Longrightarrow> mark_scanning_incomplete t = (n, t') \<Longrightarrow> scanned t'"

lemma tree_new_ok: "tree_new name ident links = Some t \<Longrightarrow> tree_ok t"
  by (auto simp: tree_new_def try_u32_def tree_ok_def links_ok_def parents_ok_def first_ok_def
      last_ok_def sibling_ok_def child_of_def names_ok_def sizes_ok_def split: if_splits)

lemma map_nodes_single: "map_nodes f [i] ns = ns[i := f (ns ! i)]"
  by (simp add: map_nodes_def)

lemma map_nodes_all: "map_nodes f [0..<length ns] ns = map f ns"
  by (rule nth_equalityI) (simp_all add: map_nodes_nth)

lemma lineage_distinct:
  assumes "tree_ok t" "lineage t (Some i) = Some path"
  shows "distinct path"
proof (cases "i < length (nodes t)")
  case True
  then show ?thesis using tree_ok_up [OF assms(1) True] assms(2) by simp
next
  case False
  then show ?thesis using assms(2) by (auto simp: lineage_def)
qed

lemma set_state_ok: "tree_ok t \<Longrightarrow> set_state t i st = (ok, t') \<Longrightarrow> tree_ok t'"
  using relabels_ok [of t "[i]" "\<lambda>r. r\<lparr>state := node_state_from st\<rparr>"]
  by (auto simp: set_state_def relabels_def same_links_def map_nodes_single split: if_splits)

lemma set_time_ok: "tree_ok t \<Longrightarrow> set_modified_time t i m = (ok, t') \<Longrightarrow> tree_ok t'"
  using relabels_ok [of t "[i]" "\<lambda>r. r\<lparr>modified_time := m\<rparr>"]
  by (auto simp: set_modified_time_def relabels_def same_links_def map_nodes_single split: if_splits)

lemma mark_incomplete_ok: "tree_ok t \<Longrightarrow> mark_incomplete_to_root t i = Some t' \<Longrightarrow> tree_ok t'"
  by (auto simp: mark_incomplete_to_root_def relabels_def same_links_def lineage_distinct intro!: relabels_ok)

lemma mark_stale_ok: "tree_ok t \<Longrightarrow> mark_stale_to_root t i = Some t' \<Longrightarrow> tree_ok t'"
  by (auto simp: mark_stale_to_root_def relabels_def same_links_def lineage_distinct intro!: relabels_ok)

lemma mark_scanning_ok: "tree_ok t \<Longrightarrow> mark_scanning_incomplete t = (n, t') \<Longrightarrow> tree_ok t'"
  using relabels_ok [of t "[0..<length (nodes t)]" "\<lambda>r. if state r = Scanning then r\<lparr>state := Incomplete\<rparr> else r"]
  by (auto simp: mark_scanning_incomplete_def relabels_def same_links_def map_nodes_all)

text \<open>
  C23.  Every arena the scanner's operations build, in any order and with any arguments, is
  well-formed: parents come before their children, the child and sibling links list exactly the
  nodes with that parent, names are inside the name buffer and sizes fit 64 bits.  So the walk
  from any of its nodes to the root ends, and every path can be spelt out.
\<close>

theorem scanned_well_formed:
  assumes "scanned t"
  shows "tree_ok t \<and> (\<forall>i < length (nodes t). \<exists>path names. lineage t (Some i) = Some path \<and> last path = root t \<and>
    materialize_path t i = Some (Some names) \<and> children t i = Some (filter
      (\<lambda>j. parent (nodes t ! j) = Some i \<and> state (nodes t ! j) \<noteq> Tombstone) [0..<length (nodes t)]))"
proof -
  have ok: "tree_ok t"
    using assms
  proof (induction rule: scanned.induct)
    case (scan_append t p name et ident links ap al st i t')
    show ?case
      by (rule append_nodeD [OF scan_append.hyps(2)]) (use scan_append tree_ok_extended in blast)
  qed (auto dest: tree_new_ok set_state_ok set_time_ok add_to_ancestors_ok mark_incomplete_ok mark_stale_ok mark_scanning_ok)
  then show ?thesis
    using tree_ok_up(1) [OF ok] up_last [OF ok] materialize_total [OF ok] children_filter [OF ok] by blast
qed

lemma scanned_well_formed_witness:
  "let t = the (tree_new (bstr ''r'') \<lparr>device = 1, inode = 2\<rparr> 1);
       t' = snd (the (append_node t 0 (bstr ''a'') RegularFile \<lparr>device = 1, inode = 3\<rparr> 1 5 8 StatusComplete))
   in scanned t' \<and> tree_ok t'"
proof -
  define t where "t = the (tree_new (bstr ''r'') \<lparr>device = 1, inode = 2\<rparr> 1)"
  have t: "tree_new (bstr ''r'') \<lparr>device = 1, inode = 2\<rparr> 1 = Some t"
    by (simp add: t_def tree_new_def try_u32_def bstr_def)
  have "append_node t 0 (bstr ''a'') RegularFile \<lparr>device = 1, inode = 3\<rparr> 1 5 8 StatusComplete \<noteq> None"
    by (simp add: t_def tree_new_def try_u32_def bstr_def append_node_def id_from_index_def record_of_def)
  then obtain i t' where a: "append_node t 0 (bstr ''a'') RegularFile \<lparr>device = 1, inode = 3\<rparr> 1 5 8 StatusComplete = Some (i, t')"
    by auto
  have s: "scanned t'" by (rule scan_append [OF scan_root [OF t] a]) simp_all
  with scanned_well_formed [OF s] show ?thesis unfolding t_def [symmetric] Let_def a by simp
qed

end
