(* ===== verification/Capture.thy ===== *)
theory Capture
  imports Prelude
begin

text \<open>
  The captured output of a command (\<^verbatim>\<open>src/capture.rs\<close>): \<^verbatim>\<open>OutputBuffer\<close>, which keeps the
  last \<^verbatim>\<open>OUTPUT_LIMIT\<close> bytes a command wrote, and \<^verbatim>\<open>strip_controls\<close>, which removes the
  terminal's control sequences from them.  The relay threads and pseudo-terminals around the
  buffer are not modelled.
\<close>

definition OUTPUT_LIMIT :: nat where
  "OUTPUT_LIMIT = 1048576"

record output_buffer =
  contents :: bytes
  truncated :: bool

definition empty_buffer :: output_buffer where
  "empty_buffer = \<lparr>contents = [], truncated = False\<rparr>"

text \<open>\<^verbatim>\<open>VecDeque::drain(..n)\<close> panics when there are fewer than \<open>n\<close> bytes.\<close>

definition drain_front :: "nat \<Rightarrow> 'a list \<Rightarrow> 'a list option" where
  "drain_front n xs = (if n \<le> length xs then Some (drop n xs) else None)"

definition push :: "bytes \<Rightarrow> output_buffer \<Rightarrow> output_buffer option" where
  "push chunk b =
     (let (chunk, b) =
        (if OUTPUT_LIMIT \<le> length chunk
         then (drop (length chunk - OUTPUT_LIMIT) chunk, b\<lparr>truncated := True\<rparr>) else (chunk, b));
        overflow = length (contents b) + length chunk - OUTPUT_LIMIT
      in if 0 < overflow
         then map_option (\<lambda>kept. b\<lparr>contents := kept @ chunk, truncated := True\<rparr>) (drain_front overflow (contents b))
         else Some (b\<lparr>contents := contents b @ chunk\<rparr>))"

definition clear :: "output_buffer \<Rightarrow> output_buffer" where
  "clear b = b\<lparr>contents := [], truncated := False\<rparr>"

definition is_empty :: "output_buffer \<Rightarrow> bool" where
  "is_empty b \<longleftrightarrow> contents b = []"

definition is_truncated :: "output_buffer \<Rightarrow> bool" where
  "is_truncated b = truncated b"

subsection \<open>Stripping control sequences\<close>

datatype strip_state = Text | Escape | Intermediate | Csi | String | StringEscape

definition strip_step :: "u8 \<Rightarrow> strip_state \<times> bytes \<Rightarrow> strip_state \<times> bytes" where
  "strip_step b = (\<lambda>(st, out). case st of
     Text \<Rightarrow>
       if b = 0x1b then (Escape, out)
       else if b = 10 then (Text, (if out \<noteq> [] \<and> last out = 13 then butlast out else out) @ [b])
       else (Text, out @ [b])
   | Escape \<Rightarrow>
       if b = of_char CHR ''['' then (Csi, out)
       else if b \<in> {of_char CHR '']'', of_char CHR ''P'', of_char CHR ''X'', of_char CHR ''^'', of_char CHR ''_''}
       then (String, out)
       else if 0x20 \<le> b \<and> b \<le> 0x2f then (Intermediate, out)
       else if b = 0x1b then (Escape, out)
       else (Text, out)
   | Intermediate \<Rightarrow> if 0x20 \<le> b \<and> b \<le> 0x2f then (Intermediate, out) else (Text, out)
   | Csi \<Rightarrow>
       if 0x20 \<le> b \<and> b \<le> 0x3f then (Csi, out) else if b = 0x1b then (Escape, out) else (Text, out)
   | String \<Rightarrow> if b = 0x07 then (Text, out) else if b = 0x1b then (StringEscape, out) else (String, out)
   | StringEscape \<Rightarrow>
       if b = 0x5c then (Text, out) else if b = 0x1b then (StringEscape, out) else (String, out))"

definition strip_controls :: "bytes \<Rightarrow> bytes" where
  "strip_controls bs = snd (fold strip_step bs (Text, []))"

definition plain_text :: "output_buffer \<Rightarrow> bytes" where
  "plain_text b =
     (let skip = (if truncated b then (case position (\<lambda>x. x = 10) (contents b) of None \<Rightarrow> 0 | Some at \<Rightarrow> at + 1) else 0)
      in strip_controls (drop skip (contents b)))"

subsection \<open>The buffer is the tail of what was written\<close>

datatype buffer_op = Push bytes | Clear

primrec apply_op :: "buffer_op \<Rightarrow> output_buffer \<Rightarrow> output_buffer option" where
  "apply_op (Push chunk) b = push chunk b"
| "apply_op Clear b = Some (clear b)"

text \<open>The specification: everything written since the last clear.\<close>

primrec written_op :: "buffer_op \<Rightarrow> bytes \<Rightarrow> bytes" where
  "written_op (Push chunk) w = w @ chunk"
| "written_op Clear w = []"

definition tail_bytes :: "bytes \<Rightarrow> bytes" where
  "tail_bytes w = drop (length w - OUTPUT_LIMIT) w"

definition holds_tail :: "output_buffer \<Rightarrow> bytes \<Rightarrow> bool" where
  "holds_tail b w \<longleftrightarrow> contents b = tail_bytes w \<and> (OUTPUT_LIMIT < length w \<longrightarrow> truncated b)"

lemma length_tail: "length (tail_bytes w) = min (length w) OUTPUT_LIMIT"
  by (simp add: tail_bytes_def)

lemma tail_append_long: "OUTPUT_LIMIT \<le> length c \<Longrightarrow> tail_bytes (w @ c) = tail_bytes c"
  by (simp add: tail_bytes_def)

lemma tail_append_short:
  "length c < OUTPUT_LIMIT \<Longrightarrow>
     tail_bytes (w @ c) = drop (length (tail_bytes w) + length c - OUTPUT_LIMIT) (tail_bytes w) @ c"
  by (cases "OUTPUT_LIMIT \<le> length w") (simp_all add: tail_bytes_def add.commute)

lemma holds_tail_push: "holds_tail b w \<Longrightarrow> \<exists>b'. push c b = Some b' \<and> holds_tail b' (w @ c)"
proof (cases "OUTPUT_LIMIT \<le> length c")
  case True
  assume "holds_tail b w"
  then have b: "contents b = tail_bytes w" by (simp add: holds_tail_def)
  have len: "length (tail_bytes c) = OUTPUT_LIMIT" using True by (simp add: length_tail)
  show ?thesis
    using True len tail_append_long [OF True, of w]
    by (auto simp: push_def Let_def b drain_front_def holds_tail_def tail_bytes_def [of c, symmetric])
next
  case False
  assume "holds_tail b w"
  then have b: "contents b = tail_bytes w" "OUTPUT_LIMIT < length w \<Longrightarrow> truncated b" by (simp_all add: holds_tail_def)
  show ?thesis
    using False b(2) tail_append_short [of c w]
    by (auto simp: push_def Let_def b(1) drain_front_def holds_tail_def length_tail)
qed

interpretation buffer: simulation holds_tail "\<lambda>_. True" apply_op written_op
proof
  fix p :: buffer_op and c a
  assume "holds_tail c a"
  then show "\<exists>c'. apply_op p c = Some c' \<and> holds_tail c' (written_op p a)"
    by (cases p) (simp_all add: holds_tail_push, simp add: clear_def holds_tail_def tail_bytes_def)
qed

lemma holds_tail_empty: "holds_tail empty_buffer []"
  by (simp add: holds_tail_def empty_buffer_def tail_bytes_def)

text \<open>
  C30.  However a command's output arrives in chunks, no push panics, and the buffer then holds
  the last \<^verbatim>\<open>OUTPUT_LIMIT\<close> bytes of everything written since the last clear; when bytes were
  lost it says so.
\<close>

theorem output_buffer_tail:
  "\<exists>b. run_option apply_op ops empty_buffer = Some b \<and>
     contents b = tail_bytes (fold written_op ops []) \<and> length (contents b) \<le> OUTPUT_LIMIT \<and>
     (is_truncated b \<or> contents b = fold written_op ops [])"
proof -
  obtain b where b: "run_option apply_op ops empty_buffer = Some b" "holds_tail b (fold written_op ops [])"
    using buffer.runs_simulate [of ops, OF _ holds_tail_empty] by (auto simp: list_all_iff)
  have "is_truncated b \<or> contents b = fold written_op ops []"
    using b(2) by (cases "OUTPUT_LIMIT < length (fold written_op ops [])") (auto simp: holds_tail_def is_truncated_def tail_bytes_def)
  then show ?thesis using b by (auto simp: holds_tail_def length_tail)
qed

subsection \<open>What stripping leaves\<close>

text \<open>The control sequences of a terminal, as the standard delimits them: a control sequence
  introducer with parameters and a final byte, a string up to the bell or the string terminator,
  and an escape with intermediates and a final byte.\<close>

inductive control_sequence :: "bytes \<Rightarrow> bool" where
  csi: "list_all (\<lambda>b. 0x20 \<le> b \<and> b \<le> 0x3f) ps \<Longrightarrow> \<not> (0x20 \<le> f \<and> f \<le> 0x3f) \<Longrightarrow> f \<noteq> 0x1b \<Longrightarrow>
    control_sequence ([0x1b, of_char CHR ''[''] @ ps @ [f])"
| string_bell: "s \<in> {of_char CHR '']'', of_char CHR ''P'', of_char CHR ''X'', of_char CHR ''^'', of_char CHR ''_''} \<Longrightarrow>
    0x1b \<notin> set body \<Longrightarrow> 0x07 \<notin> set body \<Longrightarrow> control_sequence ([0x1b, s] @ body @ [0x07])"
| string_st: "s \<in> {of_char CHR '']'', of_char CHR ''P'', of_char CHR ''X'', of_char CHR ''^'', of_char CHR ''_''} \<Longrightarrow>
    0x1b \<notin> set body \<Longrightarrow> 0x07 \<notin> set body \<Longrightarrow> control_sequence ([0x1b, s] @ body @ [0x1b, 0x5c])"
| escape_final: "\<not> (0x20 \<le> f \<and> f \<le> 0x2f) \<Longrightarrow> f \<notin> {0x1b, of_char CHR ''['', of_char CHR '']'', of_char CHR ''P'', of_char CHR ''X'',
      of_char CHR ''^'', of_char CHR ''_''} \<Longrightarrow> control_sequence [0x1b, f]"
| escape_intermediate: "list_all (\<lambda>b. 0x20 \<le> b \<and> b \<le> 0x2f) is \<Longrightarrow> is \<noteq> [] \<Longrightarrow>
    \<not> (0x20 \<le> f \<and> f \<le> 0x2f) \<Longrightarrow> control_sequence ([0x1b] @ is @ [f])"

lemma strip_steps:
  "strip_step 0x1b (Text, out) = (Escape, out)"
  "strip_step b (Intermediate, out) = (if 0x20 \<le> b \<and> b \<le> 0x2f then Intermediate else Text, out)"
  "strip_step b (Csi, out) = (if 0x20 \<le> b \<and> b \<le> 0x3f then Csi else if b = 0x1b then Escape else Text, out)"
  "strip_step b (String, out) = (if b = 0x07 then Text else if b = 0x1b then StringEscape else String, out)"
  "strip_step 0x5c (StringEscape, out) = (Text, out)"
  by (simp_all add: strip_step_def)

lemma escape_steps:
  "strip_step (of_char CHR ''['') (Escape, out) = (Csi, out)"
  "b \<in> {of_char CHR '']'', of_char CHR ''P'', of_char CHR ''X'', of_char CHR ''^'', of_char CHR ''_''} \<Longrightarrow>
     strip_step b (Escape, out) = (String, out)"
  "0x20 \<le> b \<and> b \<le> 0x2f \<Longrightarrow> strip_step b (Escape, out) = (Intermediate, out)"
  "\<not> (0x20 \<le> b \<and> b \<le> 0x2f) \<Longrightarrow> b \<notin> {0x1b, of_char CHR ''['', of_char CHR '']'', of_char CHR ''P'',
     of_char CHR ''X'', of_char CHR ''^'', of_char CHR ''_''} \<Longrightarrow> strip_step b (Escape, out) = (Text, out)"
  by (auto simp: strip_step_def)

lemma fold_csi:
  "list_all (\<lambda>b. 0x20 \<le> b \<and> b \<le> 0x3f) ps \<Longrightarrow> fold strip_step ps (Csi, out) = (Csi, out)"
  by (induction ps) (simp_all add: strip_step_def)

lemma fold_intermediate:
  "list_all (\<lambda>b. 0x20 \<le> b \<and> b \<le> 0x2f) ps \<Longrightarrow> fold strip_step ps (Intermediate, out) = (Intermediate, out)"
  by (induction ps) (simp_all add: strip_step_def)

lemma fold_string:
  "0x1b \<notin> set body \<Longrightarrow> 0x07 \<notin> set body \<Longrightarrow> fold strip_step body (String, out) = (String, out)"
  by (induction body) (auto simp: strip_step_def)

lemma fold_control:
  "control_sequence s \<Longrightarrow> fold strip_step s (Text, out) = (Text, out)"
proof (induction rule: control_sequence.induct)
  case (csi ps f)
  then show ?case using fold_csi [of ps out] escape_steps(1) [of out] by (simp add: strip_steps)
next
  case (string_bell s body)
  then show ?case using fold_string [of body out] escape_steps(2) [of s out] by (simp add: strip_steps)
next
  case (string_st s body)
  then show ?case using fold_string [of body out] escape_steps(2) [of s out] by (simp add: strip_steps)
next
  case (escape_final f)
  then show ?case using escape_steps(4) [of f out] by (simp add: strip_steps)
next
  case (escape_intermediate "is" f)
  then obtain i is' where i: "is = i # is'" by (cases "is") auto
  then show ?case using escape_intermediate fold_intermediate [of is' out] escape_steps(3) [of i out]
    by (simp add: strip_steps)
qed

text \<open>Plain text: a carriage return before a line feed goes, all else stays.\<close>

fun newlines :: "bytes \<Rightarrow> bytes" where
  "newlines [] = []"
| "newlines [b] = [b]"
| "newlines (b # c # bs) = (if b = 13 \<and> c = 10 then newlines (c # bs) else b # newlines (c # bs))"

lemma last_newlines: "bs \<noteq> [] \<Longrightarrow> newlines bs \<noteq> [] \<and> last (newlines bs) = last bs"
  by (induction bs rule: newlines.induct) auto

lemma newlines_snoc:
  "newlines (bs @ [b]) =
     (if b = 10 \<and> bs \<noteq> [] \<and> last bs = 13 then butlast (newlines bs) else newlines bs) @ [b]"
  using last_newlines by (induction bs rule: newlines.induct) auto

lemma fold_text:
  "0x1b \<notin> set bs \<Longrightarrow> fold strip_step bs (Text, newlines pre) = (Text, newlines (pre @ bs))"
proof (induction bs arbitrary: pre)
  case (Cons b bs)
  have "strip_step b (Text, newlines pre) = (Text, newlines (pre @ [b]))"
    using Cons.prems last_newlines [of pre] by (cases "pre = []") (auto simp: strip_step_def newlines_snoc)
  then show ?case using Cons by simp
qed simp

datatype segment = Plain bytes | Control bytes

primrec segment_ok :: "segment \<Rightarrow> bool" where
  "segment_ok (Plain bs) \<longleftrightarrow> 0x1b \<notin> set bs"
| "segment_ok (Control bs) \<longleftrightarrow> control_sequence bs"

primrec segment_bytes :: "segment \<Rightarrow> bytes" where
  "segment_bytes (Plain bs) = bs"
| "segment_bytes (Control bs) = bs"

primrec segment_text :: "segment \<Rightarrow> bytes" where
  "segment_text (Plain bs) = bs"
| "segment_text (Control bs) = []"

lemma fold_segments:
  "list_all segment_ok segs \<Longrightarrow>
     fold strip_step (concat (map segment_bytes segs)) (Text, newlines pre) =
       (Text, newlines (pre @ concat (map segment_text segs)))"
proof (induction segs arbitrary: pre)
  case (Cons s segs)
  then show ?case by (cases s) (simp_all add: fold_text fold_control)
qed simp

lemma fold_no_escape:
  "0x1b \<notin> set out \<Longrightarrow> 0x1b \<notin> set (snd (fold strip_step bs (st, out)))"
proof (induction bs arbitrary: st out)
  case (Cons b bs)
  have "0x1b \<notin> set (snd (strip_step b (st, out)))"
    using Cons.prems in_set_butlastD [of "0x1b" out] by (cases st) (auto simp: strip_step_def)
  then show ?case using Cons.IH [of "snd (strip_step b (st, out))" "fst (strip_step b (st, out))"] by simp
qed simp

text \<open>
  C31.  Of output made of plain text and complete control sequences, in any order, stripping
  leaves exactly the text, with line ends normalised; and whatever the bytes were, no escape byte
  survives, so nothing that is left can start a control sequence.
\<close>

theorem strip_controls_correct:
  "(list_all segment_ok segs \<longrightarrow>
     strip_controls (concat (map segment_bytes segs)) = newlines (concat (map segment_text segs))) \<and>
   0x1b \<notin> set (strip_controls bs)"
  using fold_segments [of segs "[]"] fold_no_escape [of "[]" bs Text] by (auto simp: strip_controls_def)

lemma strip_controls_correct_witness:
  "strip_controls (bstr ''a'' @ [0x1b, 0x5b, 0x33, 0x31, 0x6d] @ [98, 13, 10]) = [97, 98, 10]"
  using strip_controls_correct [of "[Plain (bstr ''a''), Control [0x1b, 0x5b, 0x33, 0x31, 0x6d], Plain [98, 13, 10]]" "[]"]
    control_sequence.csi [of "[0x33, 0x31]" "0x6d"]
  by simp

text \<open>A buffer that was cut in the middle of a sequence and holds no line feed is shown from its
  start: the rest of the sequence appears as text.\<close>

lemma cut_sequence_shown: "plain_text \<lparr>contents = bstr ''31mred'', truncated = True\<rparr> = bstr ''31mred''"
  by (simp add: plain_text_def strip_controls_def strip_step_def)

text \<open>One chunk of exactly the limit loses nothing and is yet marked as truncated.\<close>

lemma full_chunk_marked:
  "push (replicate OUTPUT_LIMIT x) empty_buffer = Some \<lparr>contents = replicate OUTPUT_LIMIT x, truncated = True\<rparr>"
  by (simp add: push_def empty_buffer_def Let_def)

end
