(* ===== verification/Byte_Codec.thy ===== *)
theory Byte_Codec
  imports Prelude
begin

text \<open>
  What the binary formats of the repository share (the history log, the recovery records of
  \<^verbatim>\<open>fdu-posix\<close> and the spool records of \<^verbatim>\<open>ish-fs\<close>): little-endian integers, decoders that
  take a field off the front of the remaining bytes, and the checksum of the history log.

  The locale \<open>field_codec\<close> is the contract between an encoder of a field and the decoder that
  takes it off again; the codecs of the components are built from such fields.
\<close>

unbundle bit_operations_syntax

subsection \<open>Little-endian integers\<close>

primrec to_le :: "nat \<Rightarrow> nat \<Rightarrow> bytes" where
  "to_le 0 v = []"
| "to_le (Suc n) v = byte (v mod 256) # to_le n (v div 256)"

primrec from_le :: "bytes \<Rightarrow> nat" where
  "from_le [] = 0"
| "from_le (b # bs) = unat b + 256 * from_le bs"

lemma length_to_le [simp, len_simps]: "length (to_le n v) = n"
  by (induction n arbitrary: v) simp_all

lemma from_to_le: "v < 256 ^ n \<Longrightarrow> from_le (to_le n v) = v"
proof (induction n arbitrary: v)
  case (Suc n)
  then have "v div 256 < 256 ^ n" by (simp add: less_mult_imp_div_less mult.commute)
  then show ?case using Suc.IH [of "v div 256"] by simp
qed simp

lemma from_le_less: "from_le bs < 256 ^ length bs"
proof (induction bs)
  case (Cons b bs)
  then show ?case using unat_u8_less [of b] by (simp add: mult.commute)
qed simp

lemma to_from_le: "length bs = n \<Longrightarrow> to_le n (from_le bs) = bs"
  by (induction bs arbitrary: n) (auto simp: unat_u8_less)

text \<open>Two's complement: \<^verbatim>\<open>i64::to_le_bytes\<close> and \<^verbatim>\<open>from_le_bytes\<close>.\<close>

definition i64_to_nat :: "int \<Rightarrow> nat" where
  "i64_to_nat i = nat (i mod 2 ^ 64)"

definition i64_of_nat :: "nat \<Rightarrow> int" where
  "i64_of_nat n = (if n < 2 ^ 63 then int n else int n - 2 ^ 64)"

definition is_i64 :: "int \<Rightarrow> bool" where
  "is_i64 i \<longleftrightarrow> - (2 ^ 63) \<le> i \<and> i < 2 ^ 63"

lemma i64_to_nat_less: "i64_to_nat i < 2 ^ 64"
  using pos_mod_bound [of "2 ^ 64" i] pos_mod_sign [of "2 ^ 64" i] by (simp add: i64_to_nat_def nat_less_iff)

lemma i64_of_to_nat: "is_i64 i \<Longrightarrow> i64_of_nat (i64_to_nat i) = i"
proof (cases "0 \<le> i")
  case True
  assume "is_i64 i"
  then have "i mod 2 ^ 64 = i" using True by (intro mod_pos_pos_trivial) (simp_all add: is_i64_def)
  then show ?thesis using True \<open>is_i64 i\<close> by (simp add: i64_of_nat_def i64_to_nat_def is_i64_def nat_less_iff)
next
  case False
  assume "is_i64 i"
  then have "i mod 2 ^ 64 = i + 2 ^ 64"
    using False mod_pos_pos_trivial [of "i + 2 ^ 64" "2 ^ 64"] by (simp add: is_i64_def)
  then show ?thesis using False \<open>is_i64 i\<close> by (simp add: i64_of_nat_def i64_to_nat_def is_i64_def nat_less_iff)
qed

lemma i64_of_nat_is_i64: "n < 2 ^ 64 \<Longrightarrow> is_i64 (i64_of_nat n)"
  by (simp add: is_i64_def i64_of_nat_def)

abbreviation u32_le :: "nat \<Rightarrow> bytes" where "u32_le \<equiv> to_le 4"
abbreviation u64_le :: "nat \<Rightarrow> bytes" where "u64_le \<equiv> to_le 8"
abbreviation i64_le :: "int \<Rightarrow> bytes" where "i64_le i \<equiv> to_le 8 (i64_to_nat i)"

definition i64_from_le :: "bytes \<Rightarrow> int" where
  "i64_from_le bs = i64_of_nat (from_le bs)"

lemma from_u32_le: "v < 2 ^ 32 \<Longrightarrow> from_le (u32_le v) = v"
  and from_u64_le: "v < 2 ^ 64 \<Longrightarrow> from_le (u64_le v) = v"
  by (simp_all add: from_to_le)

lemma i64_from_le_le: "is_i64 i \<Longrightarrow> i64_from_le (i64_le i) = i"
  using from_u64_le [OF i64_to_nat_less] by (simp add: i64_from_le_def i64_of_to_nat)

subsection \<open>Fields\<close>

text \<open>A decoder takes a field off the front or fails.\<close>

type_synonym ('e, 'a) decoder = "bytes \<Rightarrow> 'e + 'a \<times> bytes"

definition take_bytes :: "'e \<Rightarrow> nat \<Rightarrow> ('e, bytes) decoder" where
  "take_bytes e n bs = (if length bs < n then Inl e else Inr (take n bs, drop n bs))"

definition dbind :: "('e, 'a) decoder \<Rightarrow> ('a \<Rightarrow> ('e, 'b) decoder) \<Rightarrow> ('e, 'b) decoder" where
  "dbind d f bs = (case d bs of Inl e \<Rightarrow> Inl e | Inr (a, rest) \<Rightarrow> f a rest)"

definition dret :: "'a \<Rightarrow> ('e, 'a) decoder" where
  "dret a bs = Inr (a, bs)"

definition dfail :: "'e \<Rightarrow> ('e, 'a) decoder" where
  "dfail e bs = Inl e"

definition dmap :: "('a \<Rightarrow> 'b) \<Rightarrow> ('e, 'a) decoder \<Rightarrow> ('e, 'b) decoder" where
  "dmap f d = dbind d (\<lambda>a. dret (f a))"

primrec drepeat :: "nat \<Rightarrow> ('e, 'a) decoder \<Rightarrow> ('e, 'a list) decoder" where
  "drepeat 0 d = dret []"
| "drepeat (Suc n) d = dbind d (\<lambda>a. dbind (drepeat n d) (\<lambda>as. dret (a # as)))"

lemma dec_simps [simp]:
  "dret a bs = Inr (a, bs)" "dfail e bs = Inl e"
  "dbind (dret a) f = f a"
  by (simp_all add: dret_def dfail_def dbind_def fun_eq_iff)

locale field_codec =
  fixes put :: "'a \<Rightarrow> bytes"
    and get :: "('e, 'a) decoder"
    and good :: "'a \<Rightarrow> bool"
  assumes get_put: "good a \<Longrightarrow> get (put a @ rest) = Inr (a, rest)"
begin

lemma bind_put: "good a \<Longrightarrow> dbind get f (put a @ rest) = f a rest"
  by (simp add: dbind_def get_put)

lemma repeat_put:
  "list_all good as \<Longrightarrow> drepeat (length as) get (concat (map put as) @ rest) = Inr (as, rest)"
  by (induction as) (simp_all add: dbind_def get_put)

lemma bind_repeat_put:
  "list_all good as \<Longrightarrow> dbind (drepeat (length as) get) f (concat (map put as) @ rest) = f as rest"
  by (simp add: dbind_def repeat_put)

lemma put_inj: "good a \<Longrightarrow> good b \<Longrightarrow> put a @ r = put b @ s \<Longrightarrow> a = b \<and> r = s"
  by (metis Pair_inject get_put sum.inject(2))

end

lemma take_bytes_put: "length bs = n \<Longrightarrow> dbind (take_bytes e n) f (bs @ rest) = f bs rest"
  by (simp add: dbind_def take_bytes_def)

lemma take_bytes_Cons: "dbind (take_bytes e 1) f (b # rest) = f [b] rest"
  by (simp add: dbind_def take_bytes_def)

definition take_u32 :: "'e \<Rightarrow> ('e, nat) decoder" where
  "take_u32 e = dmap from_le (take_bytes e 4)"

definition take_u64 :: "'e \<Rightarrow> ('e, nat) decoder" where
  "take_u64 e = dmap from_le (take_bytes e 8)"

definition take_i64 :: "'e \<Rightarrow> ('e, int) decoder" where
  "take_i64 e = dmap i64_from_le (take_bytes e 8)"

interpretation u32: field_codec u32_le "take_u32 e" "\<lambda>v. v < 2 ^ 32" for e
  by unfold_locales (simp add: take_u32_def dmap_def take_bytes_put from_u32_le)

interpretation u64: field_codec u64_le "take_u64 e" "\<lambda>v. v < 2 ^ 64" for e
  by unfold_locales (simp add: take_u64_def dmap_def take_bytes_put from_u64_le)

interpretation i64: field_codec i64_le "take_i64 e" is_i64 for e
  by unfold_locales (simp add: take_i64_def dmap_def take_bytes_put i64_from_le_le)

subsection \<open>The checksum\<close>

text \<open>\<^verbatim>\<open>crc32\<close> of \<^verbatim>\<open>history/store.rs\<close>: a table of the remainders of the 256 bytes, and one look-up
  per byte.\<close>

definition crc_step :: "u32 \<Rightarrow> u32" where
  "crc_step v = (if v AND 1 \<noteq> 0 then drop_bit 1 v XOR 0xedb88320 else drop_bit 1 v)"

definition crc_table :: "u32 list" where
  "crc_table = map (\<lambda>index. (crc_step ^^ 8) (of_nat index)) [0..<256]"

definition crc_byte :: "u8 \<Rightarrow> u32 \<Rightarrow> u32" where
  "crc_byte b crc = drop_bit 8 crc XOR crc_table ! unat ((ucast crc :: u8) XOR b)"

definition crc32 :: "bytes \<Rightarrow> u32" where
  "crc32 bs = NOT (fold crc_byte bs (NOT 0))"

text \<open>The definition the table implements: the message is divided bit by bit.\<close>

definition crc32_spec :: "bytes \<Rightarrow> u32" where
  "crc32_spec bs = NOT (fold (\<lambda>b crc. (crc_step ^^ 8) (crc XOR ucast b)) bs (NOT 0))"

lemma crc_step_bit:
  "bit (crc_step v) n = (bit v (Suc n) \<noteq> (bit v 0 \<and> bit (0xedb88320 :: u32) n))"
proof -
  have "v AND 1 \<noteq> 0 \<longleftrightarrow> bit v 0" by (simp add: and_one_eq bit_0 odd_iff_mod_2_eq_one)
  then show ?thesis by (auto simp: crc_step_def bit_xor_iff bit_drop_bit_eq)
qed

lemma crc_step_xor: "crc_step (a XOR b) = crc_step a XOR crc_step b"
  by (rule bit_eqI) (auto simp: crc_step_bit bit_xor_iff)

lemma crc_steps_xor: "(crc_step ^^ n) (a XOR b) = (crc_step ^^ n) a XOR (crc_step ^^ n) b"
  by (induction n) (simp_all add: crc_step_xor)

text \<open>A word whose low bits are zero is only shifted.\<close>

lemma crc_steps_shift:
  "(\<And>i. i < n \<Longrightarrow> \<not> bit (v :: u32) i) \<Longrightarrow> (crc_step ^^ n) v = drop_bit n v"
proof (induction n)
  case (Suc n)
  have "crc_step (drop_bit n v) = drop_bit (Suc n) v"
    using Suc.prems [of n] by (intro bit_eqI) (auto simp: crc_step_bit bit_drop_bit_eq)
  then show ?case using Suc by simp
qed simp

lemma bit_high: "bit (v AND NOT (mask 8) :: u32) i \<longleftrightarrow> bit v i \<and> 8 \<le> i"
  by (auto simp: bit_and_iff bit_not_iff bit_mask_iff dest: bit_imp_le_length)

lemma crc_byte_spec: "crc_byte b crc = (crc_step ^^ 8) (crc XOR ucast b)"
proof -
  let ?low = "ucast ((ucast crc :: u8) XOR b) :: u32" and ?high = "crc AND NOT (mask 8)"
  have split: "crc XOR ucast b = ?high XOR ?low"
    by (rule bit_eqI) (auto simp: bit_xor_iff bit_high bit_ucast_iff bit_take_bit_iff bit_and_iff bit_not_iff bit_mask_iff dest: bit_imp_le_length)
  have "(crc_step ^^ 8) ?high = drop_bit 8 ?high"
    by (rule crc_steps_shift) (simp add: bit_high)
  also have "drop_bit 8 ?high = drop_bit 8 crc"
    by (rule bit_eqI)
      (auto simp: bit_drop_bit_eq bit_and_iff bit_not_iff bit_mask_iff dest: bit_imp_le_length)
  finally have high: "(crc_step ^^ 8) ?high = drop_bit 8 crc" .
  have "unat ((ucast crc :: u8) XOR b) < 256" by (rule unat_u8_less)
  then have "crc_table ! unat ((ucast crc :: u8) XOR b) = (crc_step ^^ 8) (of_nat (unat ((ucast crc :: u8) XOR b)))"
    by (simp add: crc_table_def)
  also have "of_nat (unat ((ucast crc :: u8) XOR b)) = ?low" by simp
  finally show ?thesis unfolding crc_byte_def split crc_steps_xor high by simp
qed

lemma crc_step_numeral:
  "crc_step (numeral w) = (if numeral w AND 1 = (0 :: u32) then drop_bit 1 (numeral w) else drop_bit 1 (numeral w) XOR 0xedb88320)"
  by (simp add: crc_step_def)

lemma crc_steps_8: "(crc_step ^^ 8) v = crc_step (crc_step (crc_step (crc_step (crc_step (crc_step (crc_step (crc_step v)))))))"
  by (simp add: numeral_eq_Suc)

text \<open>
  C29.  The table-driven checksum of the history log is the bit-by-bit division by the
  polynomial \<^verbatim>\<open>0xedb88320\<close>.
\<close>

theorem crc32_eq_spec: "crc32 bs = crc32_spec bs"
  unfolding crc32_def crc32_spec_def crc_byte_spec ..

end
