(* ===== verification/History_Store.thy ===== *)
theory History_Store
  imports Byte_Codec Utf8 "HOL-Library.Product_Lexorder"
begin

text \<open>
  The history log (\<^verbatim>\<open>src/history/store.rs\<close>): a file of a header and one checksummed frame per
  command, appended to under a lock, read incrementally from a cursor, and repaired when its last
  frame was not written completely.

  The file is its bytes and its identity (device and inode).  A file that replaces it by
  \<^verbatim>\<open>rename\<close> has an identity the system chooses: an argument.  Opening, locking and syncing
  succeed; of the writes of \<^verbatim>\<open>append\<close> the model has success, failure after any number of bytes, and
  failure of the rollback.  Running out of memory is not modelled.
\<close>

definition HEADER :: bytes where
  "HEADER = bstr ''ISHLOG'' @ [0, 1]"

definition HEADER_SIZE :: nat where
  "HEADER_SIZE = 16"

definition FRAME_HEADER_SIZE :: nat where
  "FRAME_HEADER_SIZE = 16"

record occurrence =
  occ_id :: int
  command :: ustring
  timestamp :: nat
  session_id :: nat
  cwd :: "bytes option"

record snapshot =
  snap_generation :: int
  occurrences :: "occurrence list"

record cursor =
  cur_identity :: "(nat \<times> nat) option"
  cur_generation :: int
  cur_offset :: nat
  cur_last_id :: int

definition default_cursor :: cursor where
  "default_cursor = \<lparr>cur_identity = None, cur_generation = 0, cur_offset = HEADER_SIZE, cur_last_id = 0\<rparr>"

record log_file =
  file_data :: bytes
  file_identity :: "nat \<times> nat"

text \<open>\<^verbatim>\<open>invalid\<close> and \<^verbatim>\<open>corrupt\<close>; the latter carries the offset that \<^verbatim>\<open>salvage\<close> uses.\<close>

datatype log_error = Invalid string | FrameCorruption nat string | WriteFailed | RollbackFailed

definition u32_max :: nat where
  "u32_max = 2 ^ 32 - 1"

definition try_cwd_len :: "bytes option \<Rightarrow> log_error + nat" where
  "try_cwd_len d = (case d of
     Some bs \<Rightarrow> if length bs < 2 ^ 32 \<and> length bs \<noteq> u32_max then Inr (length bs) else Inl (Invalid ''directory is too long'')
   | None \<Rightarrow> Inr u32_max)"

definition cwd_bytes :: "bytes option \<Rightarrow> bytes" where
  "cwd_bytes d = (case d of None \<Rightarrow> [] | Some bs \<Rightarrow> bs)"

definition encode_payload :: "nat \<Rightarrow> occurrence \<Rightarrow> bytes" where
  "encode_payload cwd_len oc = i64_le (occ_id oc) @ u64_le (timestamp oc) @ u64_le (session_id oc) @
     u32_le cwd_len @ u32_le (length (utf8 (command oc))) @ cwd_bytes (cwd oc) @ utf8 (command oc)"

text \<open>The frame is written with four zero bytes in place of the payload's checksum, which is then
  copied into bytes 12 to 16.\<close>

definition frame_of :: "bytes \<Rightarrow> bytes" where
  "frame_of payload =
     (let len = u64_le (length payload);
          frame = len @ u32_le (unat (crc32 len)) @ [0, 0, 0, 0] @ payload
      in take 12 frame @ u32_le (unat (crc32 (drop FRAME_HEADER_SIZE frame))) @ drop 16 frame)"

definition encode :: "occurrence \<Rightarrow> log_error + bytes" where
  "encode oc =
     (if occ_id oc \<le> 0 \<or> command oc = [] then Inl (Invalid ''invalid occurrence'')
      else case try_cwd_len (cwd oc) of
        Inl e \<Rightarrow> Inl e
      | Inr cwd_len \<Rightarrow>
          if \<not> length (utf8 (command oc)) < 2 ^ 32 then Inl (Invalid ''command is too long'')
          else Inr (frame_of (encode_payload cwd_len oc)))"

definition decode :: "bytes \<Rightarrow> log_error + occurrence" where
  "decode payload =
     (let oid = i64_from_le (slice 0 8 payload) in
      if oid \<le> 0 then Inl (Invalid ''nonpositive occurrence id'')
      else
        let ts = from_le (slice 8 16 payload);
            sid = from_le (slice 16 24 payload);
            cwd_len = from_le (slice 24 28 payload);
            command_len = from_le (slice 28 32 payload);
            command_start = 32 + (if cwd_len = u32_max then 0 else cwd_len)
        in if command_len = 0 \<or> command_start + command_len \<noteq> length payload
           then Inl (Invalid ''invalid payload field lengths'')
           else case from_utf8 (drop command_start payload) of
             Inl _ \<Rightarrow> Inl (Invalid ''command is not UTF-8'')
           | Inr cmd \<Rightarrow> Inr \<lparr>occ_id = oid, command = cmd, timestamp = ts, session_id = sid,
               cwd = (if cwd_len \<noteq> u32_max then Some (slice 32 command_start payload) else None)\<rparr>)"

definition read_header :: "log_file \<Rightarrow> log_error + int" where
  "read_header f =
     (if length (file_data f) < HEADER_SIZE then Inl (Invalid ''incomplete file header'')
      else if take 8 (file_data f) \<noteq> HEADER then Inl (Invalid ''unsupported or corrupt file header'')
      else let current = i64_from_le (slice 8 16 (file_data f)) in
        if current < 0 then Inl (Invalid ''negative generation'') else Inr current)"

text \<open>One round of the loop of \<^verbatim>\<open>read_snapshot\<close>: the rest of the file is a torn tail, a corrupt frame,
  or a frame of the given size.\<close>

datatype frame_result = TornTail | BadFrame log_error | Frame occurrence nat

definition read_frame :: "nat \<Rightarrow> int \<Rightarrow> bytes \<Rightarrow> frame_result" where
  "read_frame off prev_id rest =
     (if length rest < FRAME_HEADER_SIZE then TornTail
      else
        let frame_header = take 16 rest;
            len = from_le (take 8 rest);
            length_crc = from_le (slice 8 12 rest);
            frame_size = FRAME_HEADER_SIZE + len;
            payload = slice 16 (16 + len) rest
        in if unat (crc32 (take 8 rest)) \<noteq> length_crc then
             (if list_all (\<lambda>b. b = 0) frame_header \<and> list_all (\<lambda>b. b = 0) (drop 16 rest) then TornTail
              else BadFrame (FrameCorruption off ''frame length checksum mismatch''))
           else if len < 32 then BadFrame (FrameCorruption off ''frame payload is too short'')
           else if \<not> frame_size < 2 ^ 64 then BadFrame (Invalid ''frame length overflow'')
           else if length rest < frame_size then TornTail
           else if unat (crc32 payload) \<noteq> from_le (slice 12 16 rest) then
             (if frame_size = length rest then TornTail
              else BadFrame (FrameCorruption off ''frame payload checksum mismatch''))
           else case decode payload of
             Inl _ \<Rightarrow> BadFrame (FrameCorruption off ''invalid record'')
           | Inr oc \<Rightarrow>
               if occ_id oc \<le> prev_id
               then BadFrame (FrameCorruption off ''occurrence ids are not strictly increasing'')
               else if \<not> off + frame_size < 2 ^ 64 then BadFrame (Invalid ''file offset overflow'')
               else Frame oc frame_size)"

lemma read_frame_size: "read_frame off prev_id rest = Frame oc n \<Longrightarrow> 0 < n \<and> n \<le> length rest"
  by (auto simp: read_frame_def Let_def FRAME_HEADER_SIZE_def split: if_splits sum.splits)

text \<open>The loop; the flag of the result is \<^verbatim>\<open>discarded_tail\<close>.\<close>

function read_frames :: "int \<Rightarrow> cursor \<Rightarrow> bytes \<Rightarrow> occurrence list \<Rightarrow>
    log_error + bool \<times> cursor \<times> occurrence list" where
  "read_frames cutoff c rest occs =
     (if rest = [] then Inr (False, c, occs)
      else case read_frame (cur_offset c) (cur_last_id c) rest of
        TornTail \<Rightarrow> Inr (True, c, occs)
      | BadFrame e \<Rightarrow> Inl e
      | Frame oc n \<Rightarrow>
          read_frames cutoff (c\<lparr>cur_last_id := occ_id oc, cur_offset := cur_offset c + n\<rparr>) (drop n rest)
            (if cutoff < occ_id oc then occs @ [oc] else occs))"
  by pat_completeness auto
termination
  by (relation "measure (\<lambda>(_, _, rest, _). length rest)") (auto dest: read_frame_size)

declare read_frames.simps [simp del]

definition publish :: "nat \<times> nat \<Rightarrow> int \<Rightarrow> bytes \<Rightarrow> log_file" where
  "publish fid generation records =
     \<lparr>file_data = HEADER @ i64_le generation @ records, file_identity = fid\<rparr>"

definition start_cursor :: "log_file \<Rightarrow> cursor \<Rightarrow> int \<Rightarrow> int \<Rightarrow> int \<Rightarrow> cursor" where
  "start_cursor f c current generation last_id =
     (let c = (if cur_identity c \<noteq> Some (file_identity f) \<or> cur_generation c \<noteq> current \<or>
                  length (file_data f) < cur_offset c \<or> last_id < cur_last_id c
               then default_cursor\<lparr>cur_identity := Some (file_identity f), cur_generation := current\<rparr> else c)
      in if current \<noteq> generation \<and> cur_offset c \<noteq> HEADER_SIZE
         then c\<lparr>cur_offset := HEADER_SIZE, cur_last_id := 0\<rparr> else c)"

text \<open>\<open>None\<close>: the fuel is used up.  \<open>fids\<close> gives the identities of the files the calls publish.\<close>

fun read_snapshot :: "nat \<Rightarrow> (nat \<Rightarrow> nat \<times> nat) \<Rightarrow> log_file \<Rightarrow> cursor \<Rightarrow> int \<Rightarrow> int \<Rightarrow>
    ((log_error + snapshot \<times> cursor) \<times> log_file) option" where
  "read_snapshot 0 fids f c generation last_id = None"
| "read_snapshot (Suc fuel) fids f c generation last_id =
     (case read_header f of
        Inl e \<Rightarrow> Some (Inl e, f)
      | Inr current \<Rightarrow>
          let c = start_cursor f c current generation last_id;
              cutoff = (if current = generation then last_id else 0)
          in if cur_offset c = length (file_data f)
             then Some (Inr (\<lparr>snap_generation = current, occurrences = []\<rparr>, c), f)
             else case read_frames cutoff c (drop (cur_offset c) (file_data f)) [] of
               Inl e \<Rightarrow> Some (Inl e, f)
             | Inr (False, c, occs) \<Rightarrow> Some (Inr (\<lparr>snap_generation = current, occurrences = occs\<rparr>, c), f)
             | Inr (True, c, occs) \<Rightarrow>
                 if \<not> current + 1 < 2 ^ 63 then Some (Inl (Invalid ''generation exhausted''), f)
                 else read_snapshot fuel fids
                   (publish (fids fuel) (current + 1) (slice HEADER_SIZE (cur_offset c) (file_data f)))
                   default_cursor generation last_id)"

declare read_snapshot.simps [simp del]

subsection \<open>The operations of the store\<close>

text \<open>\<open>st_aside\<close>: the contents of the files that \<^verbatim>\<open>reset\<close> and \<^verbatim>\<open>salvage\<close> keep under a new name.\<close>

record store =
  st_file :: log_file
  st_cursor :: cursor
  st_aside :: "bytes list"

datatype write_outcome = Written | Failed nat bool

definition write_at :: "nat \<Rightarrow> bytes \<Rightarrow> bytes \<Rightarrow> bytes" where
  "write_at off bs d = take off d @ bs @ drop (off + length bs) d"

definition store_snapshot :: "nat \<Rightarrow> (nat \<Rightarrow> nat \<times> nat) \<Rightarrow> store \<Rightarrow> int \<Rightarrow> int \<Rightarrow>
    ((log_error + snapshot) \<times> store) option" where
  "store_snapshot fuel fids st generation last_id =
     map_option (\<lambda>(r, f). case r of
         Inl e \<Rightarrow> (Inl e, st\<lparr>st_file := f\<rparr>)
       | Inr (snap, c) \<Rightarrow> (Inr snap, st\<lparr>st_file := f, st_cursor := c\<rparr>))
       (read_snapshot fuel fids (st_file st) (st_cursor st) generation last_id)"

definition write_frame :: "write_outcome \<Rightarrow> store \<Rightarrow> log_file \<Rightarrow> cursor \<Rightarrow> snapshot \<Rightarrow> occurrence \<Rightarrow> bytes \<Rightarrow>
    (log_error + snapshot \<times> int) \<times> store" where
  "write_frame out st f c snap oc frame =
     (let off = cur_offset c in
      case out of
        Written \<Rightarrow>
          (Inr (snap\<lparr>occurrences := occurrences snap @ [oc]\<rparr>, occ_id oc),
           st\<lparr>st_file := f\<lparr>file_data := write_at off frame (file_data f)\<rparr>,
              st_cursor := c\<lparr>cur_offset := off + length frame, cur_last_id := occ_id oc\<rparr>\<rparr>)
      | Failed n rolled_back \<Rightarrow>
          let d = write_at off (take n frame) (file_data f) in
          if rolled_back then (Inl WriteFailed, st\<lparr>st_file := f\<lparr>file_data := take off d\<rparr>\<rparr>)
          else (Inl RollbackFailed, st\<lparr>st_file := f\<lparr>file_data := d\<rparr>\<rparr>))"

definition store_append :: "nat \<Rightarrow> (nat \<Rightarrow> nat \<times> nat) \<Rightarrow> write_outcome \<Rightarrow> store \<Rightarrow> int \<Rightarrow> int \<Rightarrow> occurrence \<Rightarrow>
    ((log_error + snapshot \<times> int) \<times> store) option" where
  "store_append fuel fids out st generation last_id oc =
     map_option (\<lambda>(r, f). case r of
         Inl e \<Rightarrow> (Inl e, st\<lparr>st_file := f\<rparr>)
       | Inr (snap, c) \<Rightarrow>
           if \<not> cur_last_id c + 1 < 2 ^ 63 then (Inl (Invalid ''occurrence id exhausted''), st\<lparr>st_file := f\<rparr>)
           else
             let oc = oc\<lparr>occ_id := cur_last_id c + 1\<rparr> in
             case encode oc of
               Inl e \<Rightarrow> (Inl e, st\<lparr>st_file := f\<rparr>)
             | Inr frame \<Rightarrow>
                 if \<not> cur_offset c + length frame < 2 ^ 64
                 then (Inl (Invalid ''file offset overflow''), st\<lparr>st_file := f\<rparr>)
                 else write_frame out st f c snap oc frame)
       (read_snapshot fuel fids (st_file st) (st_cursor st) generation last_id)"

definition store_reset :: "nat \<times> nat \<Rightarrow> nat \<Rightarrow> store \<Rightarrow> (log_error + int) \<times> store" where
  "store_reset fid now_millis st =
     (let fresh = (\<lambda>g st. (Inr g, st\<lparr>st_file := publish fid g [], st_cursor := default_cursor\<rparr>)) in
      case read_header (st_file st) of
        Inr current \<Rightarrow>
          if current + 1 < 2 ^ 63 then fresh (current + 1) st else (Inl (Invalid ''generation exhausted''), st)
      | Inl _ \<Rightarrow>
          let st = st\<lparr>st_aside := st_aside st @ [file_data (st_file st)]\<rparr> in
          if now_millis < 2 ^ 63 then fresh (int now_millis) st else (Inl (Invalid ''clock out of range''), st))"

text \<open>The result of \<^verbatim>\<open>salvage\<close> is the offset up to which the log is kept.\<close>

definition store_salvage :: "nat \<Rightarrow> (nat \<Rightarrow> nat \<times> nat) \<Rightarrow> nat \<times> nat \<Rightarrow> store \<Rightarrow> ((log_error + nat) \<times> store) option" where
  "store_salvage fuel fids fid st =
     map_option (\<lambda>(r, f). let st = st\<lparr>st_file := f\<rparr> in
       case r of
         Inr _ \<Rightarrow> (Inl (Invalid ''salvage requested but the log is intact''), st)
       | Inl (FrameCorruption kept m) \<Rightarrow>
           (case read_header f of
              Inl e \<Rightarrow> (Inl e, st)
            | Inr current \<Rightarrow>
                if \<not> current + 1 < 2 ^ 63 then (Inl (Invalid ''generation exhausted''), st)
                else (Inr kept, st\<lparr>st_aside := st_aside st @ [drop kept (file_data f)],
                  st_file := publish fid (current + 1) (slice HEADER_SIZE kept (file_data f)),
                  st_cursor := default_cursor\<rparr>))
       | Inl e \<Rightarrow> (Inl e, st))
       (read_snapshot fuel fids (st_file st) default_cursor (- 1) 0)"

fun encode_all :: "occurrence list \<Rightarrow> log_error + bytes" where
  "encode_all [] = Inr []"
| "encode_all (oc # ocs) =
     (case encode oc of Inl e \<Rightarrow> Inl e
      | Inr frame \<Rightarrow> (case encode_all ocs of Inl e \<Rightarrow> Inl e | Inr rest \<Rightarrow> Inr (frame @ rest)))"

definition replace :: "nat \<times> nat \<Rightarrow> int \<Rightarrow> occurrence list \<Rightarrow> log_error + log_file" where
  "replace fid generation ocs =
     (case encode_all ocs of Inl e \<Rightarrow> Inl e | Inr records \<Rightarrow> Inr (publish fid generation records))"

fun number_occurrences :: "nat \<Rightarrow> occurrence list \<Rightarrow> log_error + occurrence list" where
  "number_occurrences n [] = Inr []"
| "number_occurrences n (oc # ocs) =
     (if \<not> int n + 1 < 2 ^ 63 then Inl (Invalid ''too many occurrences'')
      else case number_occurrences (Suc n) ocs of Inl e \<Rightarrow> Inl e
        | Inr ocs \<Rightarrow> Inr (oc\<lparr>occ_id := int n + 1\<rparr> # ocs))"

text \<open>\<^verbatim>\<open>Store::open\<close>: \<open>existing\<close> is the log that is there, \<open>legacy\<close> what \<^verbatim>\<open>legacy::read\<close> returns.\<close>

definition store_open :: "nat \<times> nat \<Rightarrow> log_file option \<Rightarrow> log_error + occurrence list \<Rightarrow> log_error + store" where
  "store_open fid existing legacy =
     (let opened = (\<lambda>f. Inr \<lparr>st_file = f, st_cursor = default_cursor, st_aside = []\<rparr>) in
      case existing of
        Some f \<Rightarrow> opened f
      | None \<Rightarrow>
          (case legacy of Inl e \<Rightarrow> Inl e
           | Inr ocs \<Rightarrow>
               (case number_occurrences 0 ocs of Inl e \<Rightarrow> Inl e
                | Inr ocs \<Rightarrow> (case replace fid 0 ocs of Inl e \<Rightarrow> Inl e | Inr f \<Rightarrow> opened f))))"

subsection \<open>Frames\<close>

definition cwd_len_of :: "occurrence \<Rightarrow> nat" where
  "cwd_len_of oc = (case cwd oc of None \<Rightarrow> u32_max | Some d \<Rightarrow> length d)"

definition occ_ok :: "occurrence \<Rightarrow> bool" where
  "occ_ok oc \<longleftrightarrow> 0 < occ_id oc \<and> occ_id oc < 2 ^ 63 \<and> command oc \<noteq> [] \<and> wf_str (command oc) \<and>
     timestamp oc < 2 ^ 64 \<and> session_id oc < 2 ^ 64 \<and> length (utf8 (command oc)) < 2 ^ 32 \<and>
     length (cwd_bytes (cwd oc)) < u32_max"

definition payload :: "occurrence \<Rightarrow> bytes" where
  "payload oc = encode_payload (cwd_len_of oc) oc"

definition frame :: "occurrence \<Rightarrow> bytes" where
  "frame oc = frame_of (payload oc)"

lemma encode_ok: "occ_ok oc \<Longrightarrow> encode oc = Inr (frame oc)"
  by (auto simp: occ_ok_def encode_def try_cwd_len_def cwd_len_of_def frame_def payload_def cwd_bytes_def
      u32_max_def split: option.splits)

lemma length_payload: "length (payload oc) = 32 + length (cwd_bytes (cwd oc)) + length (utf8 (command oc))"
  by (simp add: payload_def encode_payload_def)

lemma frame_of_eq: "frame_of p = u64_le (length p) @ u32_le (unat (crc32 (u64_le (length p)))) @ u32_le (unat (crc32 p)) @ p"
  by (simp add: frame_of_def Let_def FRAME_HEADER_SIZE_def)

lemma length_frame: "length (frame oc) = 16 + length (payload oc)"
  by (simp add: frame_def frame_of_eq)

lemma unat_crc32 [simp]: "unat (crc32 bs) < 2 ^ 32"
  using unsigned_less [of "crc32 bs"] by simp

lemma slice_skip: "length xs = a \<Longrightarrow> slice a b (xs @ ys) = take (b - a) ys"
  by (simp add: slice_def)

lemma slice_first: "slice 0 n xs = take n xs"
  by (simp add: slice_def)

lemma payload_fields:
  assumes "length a = 8" "length b = 8" "length c = 8" "length d = 4" "length e = 4"
  shows "slice 0 8 (a @ b @ c @ d @ e @ r) = a" "slice 8 16 (a @ b @ c @ d @ e @ r) = b"
    "slice 16 24 (a @ b @ c @ d @ e @ r) = c" "slice 24 28 (a @ b @ c @ d @ e @ r) = d"
    "slice 28 32 (a @ b @ c @ d @ e @ r) = e" "32 \<le> n \<Longrightarrow> drop n (a @ b @ c @ d @ e @ r) = drop (n - 32) r"
    "slice 32 (32 + n) (a @ b @ c @ d @ e @ r) = take n r"
  using assms by (simp_all add: slice_def)

lemma decode_payload:
  assumes "occ_ok oc"
  shows "decode (payload oc) = Inr oc"
proof -
  have i: "is_i64 (occ_id oc)" using assms by (simp add: occ_ok_def is_i64_def)
  have c: "cwd_len_of oc < 2 ^ 32" "cwd_len_of oc = u32_max \<longleftrightarrow> cwd oc = None"
    "(if cwd_len_of oc = u32_max then 0 else cwd_len_of oc) = length (cwd_bytes (cwd oc))"
    using assms by (auto simp: occ_ok_def cwd_len_of_def cwd_bytes_def u32_max_def split: option.splits)
  have m: "0 < length (utf8 (command oc))" "length (utf8 (command oc)) < 2 ^ 32" "wf_str (command oc)"
    "0 < occ_id oc" "timestamp oc < 2 ^ 64" "session_id oc < 2 ^ 64"
    using assms by (auto simp: occ_ok_def)
  note fields = payload_fields [of "i64_le (occ_id oc)" "u64_le (timestamp oc)" "u64_le (session_id oc)"
      "u32_le (cwd_len_of oc)" "u32_le (length (utf8 (command oc)))", simplified]
  have dir: "cwd oc \<noteq> None \<Longrightarrow> Some (cwd_bytes (cwd oc)) = cwd oc" by (auto simp: cwd_bytes_def)
  show ?thesis
    unfolding decode_def Let_def length_payload
    unfolding payload_def encode_payload_def fields i64_from_le_le [OF i] from_u64_le [OF m(5)] from_u64_le [OF m(6)]
      from_u32_le [OF c(1)] from_u32_le [OF m(2)] c(3)
    using m dir by (cases "cwd oc") (auto simp: c(2))
qed

lemma read_frame_ok:
  assumes "decode p = Inr oc" "prev_id < occ_id oc" "32 \<le> length p" "off + (16 + length p) < 2 ^ 64"
  shows "read_frame off prev_id (frame_of p @ rest) = Frame oc (16 + length p)"
proof -
  let ?len = "u64_le (length p)"
  have len: "length p < 2 ^ 64" "16 + length p < 2 ^ 64" using assms(4) by simp_all
  have parts: "take 8 (frame_of p @ rest) = ?len" "slice 8 12 (frame_of p @ rest) = u32_le (unat (crc32 ?len))"
    "slice 12 16 (frame_of p @ rest) = u32_le (unat (crc32 p))" "slice 16 (16 + length p) (frame_of p @ rest) = p"
    "length (frame_of p @ rest) = 16 + length p + length rest"
    unfolding frame_of_eq by (simp_all add: slice_def)
  show ?thesis
    unfolding read_frame_def Let_def FRAME_HEADER_SIZE_def parts from_u64_le [OF len(1)] from_u32_le [OF unat_crc32]
    using assms len by simp
qed

subsection \<open>Whole logs\<close>

definition records :: "occurrence list \<Rightarrow> bytes" where
  "records ocs = concat (map frame ocs)"

definition log_data :: "int \<Rightarrow> occurrence list \<Rightarrow> bytes" where
  "log_data g ocs = HEADER @ i64_le g @ records ocs"

definition valid_log :: "int \<Rightarrow> occurrence list \<Rightarrow> bool" where
  "valid_log g ocs \<longleftrightarrow> 0 \<le> g \<and> g < 2 ^ 63 \<and> list_all occ_ok ocs \<and> sorted_wrt (<) (map occ_id ocs) \<and>
     length (log_data g ocs) < 2 ^ 64"

definition last_occ_id :: "occurrence list \<Rightarrow> int" where
  "last_occ_id ocs = (if ocs = [] then 0 else occ_id (last ocs))"

lemma records_simps [simp]:
  "records [] = []" "records (oc # ocs) = frame oc @ records ocs" "records (as @ bs) = records as @ records bs"
  by (simp_all add: records_def)

lemma length_HEADER [simp]: "length HEADER = 8"
  by (simp add: HEADER_def)

lemma length_log_data: "length (log_data g ocs) = 16 + length (records ocs)"
  by (simp add: log_data_def)

lemma drop_log_data: "drop 16 (log_data g ocs @ tail) = records ocs @ tail"
  by (simp add: log_data_def)

lemma frame_not_Nil [simp]: "frame oc \<noteq> []"
  using length_frame [of oc] by auto

lemma read_frames_log:
  assumes "list_all occ_ok ocs" "sorted_wrt (<) (map occ_id ocs)" "\<And>oc. oc \<in> set ocs \<Longrightarrow> cur_last_id c < occ_id oc"
    and "cur_offset c + length (records ocs) < 2 ^ 64"
  shows "read_frames cutoff c (records ocs @ tail) acc =
    read_frames cutoff (c\<lparr>cur_last_id := (if ocs = [] then cur_last_id c else occ_id (last ocs)),
        cur_offset := cur_offset c + length (records ocs)\<rparr>) tail (acc @ filter (\<lambda>oc. cutoff < occ_id oc) ocs)"
  using assms
proof (induction ocs arbitrary: c acc)
  case (Cons oc ocs)
  have "read_frame (cur_offset c) (cur_last_id c) (frame oc @ records ocs @ tail) = Frame oc (length (frame oc))"
    using Cons.prems read_frame_ok [of "payload oc" oc "cur_last_id c" "cur_offset c" "records ocs @ tail"] decode_payload [of oc]
    by (simp add: frame_def [symmetric] length_frame length_payload)
  then show ?case
    using Cons.prems Cons.IH [of "c\<lparr>cur_last_id := occ_id oc, cur_offset := cur_offset c + length (frame oc)\<rparr>"]
    by (simp add: read_frames.simps [of cutoff c] add.assoc)
qed simp

text \<open>What an append that was cut off leaves behind the last whole frame: a part of a frame, or
  zeros where the file had grown and the data never arrived.\<close>

definition torn :: "bytes \<Rightarrow> bool" where
  "torn tail \<longleftrightarrow> tail \<noteq> [] \<and>
     ((\<exists>oc k. occ_ok oc \<and> k < length (frame oc) \<and> tail = take k (frame oc)) \<or> list_all (\<lambda>b. b = 0) tail)"

lemma zeros_replicate: "list_all (\<lambda>b. b = 0) bs \<Longrightarrow> bs = replicate (length bs) (0 :: u8)"
  by (induction bs) auto

lemma crc32_zeros: "crc32 [0, 0, 0, 0, 0, 0, 0, 0] \<noteq> 0"
proof -
  have "crc_step (- 1) = 0x92477CDF" by code_simp
  then show ?thesis unfolding crc32_def fold_simps crc_byte_spec crc_steps_8
    by (simp add: crc_step_numeral)
qed

lemma read_frame_short: "length rest < 16 \<Longrightarrow> read_frame off prev_id rest = TornTail"
  by (simp only: read_frame_def FRAME_HEADER_SIZE_def if_True)

lemma read_frame_zeros:
  assumes "list_all (\<lambda>b. b = 0) tail"
  shows "read_frame off prev_id tail = TornTail"
proof (cases "length tail < 16")
  case False
  define m where "m = length tail - 16"
  have "tail = replicate (16 + m) 0" using zeros_replicate [OF assms] False by (simp add: m_def)
  also have "\<dots> = replicate 16 0 @ replicate m 0" by (rule replicate_add)
  also have "replicate 16 (0 :: u8) = [0, 0, 0, 0, 0, 0, 0, 0, 0, 0, 0, 0, 0, 0, 0, 0]" by (simp add: numeral_eq_Suc)
  finally have tail: "tail = [0, 0, 0, 0, 0, 0, 0, 0, 0, 0, 0, 0, 0, 0, 0, 0] @ replicate m 0" .
  have t: "take 8 tail = [0, 0, 0, 0, 0, 0, 0, 0]" "slice 8 12 tail = [0, 0, 0, 0]" "list_all (\<lambda>b. b = 0) (take 16 tail)"
    "list_all (\<lambda>b. b = 0) (drop 16 tail)"
    unfolding tail slice_def by (simp_all add: list_all_iff)
  have z: "from_le [0, 0, 0, 0] = 0" by simp
  have "unat (crc32 [0, 0, 0, 0, 0, 0, 0, 0]) \<noteq> 0" using crc32_zeros unsigned_eq_0_iff by blast
  then show ?thesis using False t(3,4) unfolding read_frame_def Let_def FRAME_HEADER_SIZE_def t(1,2) z by simp
qed (rule read_frame_short)

lemma read_frame_cut:
  assumes "occ_ok oc" "k < length (frame oc)"
  shows "read_frame off prev_id (take k (frame oc)) = TornTail"
proof (cases "k < 16")
  case False
  let ?p = "payload oc" and ?len = "u64_le (length (payload oc))"
  have len: "32 \<le> length ?p" "length ?p < 2 ^ 64" "16 + length ?p < 2 ^ 64"
    using assms(1) by (auto simp: length_payload occ_ok_def u32_max_def)
  have parts: "take 8 (take k (frame oc)) = ?len" "slice 8 12 (take k (frame oc)) = u32_le (unat (crc32 ?len))"
    "length (take k (frame oc)) = k" "k < 16 + length ?p"
    using False assms(2) unfolding frame_def frame_of_eq by (simp_all add: slice_def min_def)
  show ?thesis
    unfolding read_frame_def Let_def FRAME_HEADER_SIZE_def parts(1,2,3) from_u64_le [OF len(2)] from_u32_le [OF unat_crc32]
    using len parts(4) False by simp
qed (simp add: read_frame_short)

lemma read_frame_torn: "torn tail \<Longrightarrow> read_frame off prev_id tail = TornTail"
  using read_frame_zeros read_frame_cut by (auto simp: torn_def)

lemma read_frames_end: "read_frames cutoff c [] acc = Inr (False, c, acc)"
  and read_frames_torn: "torn tail \<Longrightarrow> read_frames cutoff c tail acc = Inr (True, c, acc)"
  by (simp_all add: read_frames.simps [of cutoff c] read_frame_torn) (simp add: torn_def)

lemma read_header_log:
  assumes "valid_log g ocs" "file_data f = log_data g ocs @ tail"
  shows "read_header f = Inr g"
proof -
  have "is_i64 g" "0 \<le> g" using assms(1) by (simp_all add: valid_log_def is_i64_def)
  moreover have "slice 8 16 (file_data f) = i64_le g" "take 8 (file_data f) = HEADER" "\<not> length (file_data f) < 16"
    unfolding assms(2) log_data_def by (simp_all add: slice_def)
  ultimately show ?thesis by (simp add: read_header_def HEADER_SIZE_def i64_from_le_le)
qed

subsection \<open>Reading and repairing\<close>

text \<open>A cursor that was left on this file stands behind some whole frames of it.\<close>

definition stands :: "cursor \<Rightarrow> occurrence list \<Rightarrow> bool" where
  "stands c ocs \<longleftrightarrow> (\<exists>n \<le> length ocs. cur_offset c = 16 + length (records (take n ocs)) \<and>
     cur_last_id c = last_occ_id (take n ocs))"

definition cursor_ok :: "cursor \<Rightarrow> log_file \<Rightarrow> int \<Rightarrow> occurrence list \<Rightarrow> bool" where
  "cursor_ok c f g ocs \<longleftrightarrow> (cur_identity c = Some (file_identity f) \<and> cur_generation c = g \<longrightarrow> stands c ocs)"

definition end_cursor :: "log_file \<Rightarrow> int \<Rightarrow> occurrence list \<Rightarrow> cursor" where
  "end_cursor f g ocs = \<lparr>cur_identity = Some (file_identity f), cur_generation = g,
     cur_offset = 16 + length (records ocs), cur_last_id = last_occ_id ocs\<rparr>"

text \<open>The commands a reader gets that has seen those up to \<open>last_id\<close> of the given generation.\<close>

definition unseen :: "int \<Rightarrow> int \<Rightarrow> int \<Rightarrow> occurrence list \<Rightarrow> occurrence list" where
  "unseen g generation last_id ocs = filter (\<lambda>oc. (if g = generation then last_id else 0) < occ_id oc) ocs"

lemma last_occ_id_max:
  assumes "sorted_wrt (<) (map occ_id ocs)" "oc \<in> set ocs"
  shows "occ_id oc \<le> last_occ_id ocs"
  using assms by (cases ocs rule: rev_cases) (auto simp: last_occ_id_def sorted_wrt_append)

lemma last_occ_id_append: "last_occ_id (as @ bs) = (if bs = [] then last_occ_id as else occ_id (last bs))"
  by (simp add: last_occ_id_def)

lemma records_Nil: "records ocs = [] \<longleftrightarrow> ocs = []"
  by (cases ocs) auto

lemma start_cursor_stands:
  assumes v: "valid_log g ocs" and c: "cursor_ok c f g ocs"
  obtains n where "n \<le> length ocs"
    "start_cursor f c g generation last_id = end_cursor f g (take n ocs)"
    "\<And>oc. oc \<in> set (take n ocs) \<Longrightarrow> generation = g \<and> occ_id oc \<le> last_id"
proof -
  let ?reset = "cur_identity c \<noteq> Some (file_identity f) \<or> cur_generation c \<noteq> g \<or>
      length (file_data f) < cur_offset c \<or> last_id < cur_last_id c"
  have start: "end_cursor f g [] = default_cursor\<lparr>cur_identity := Some (file_identity f), cur_generation := g\<rparr>"
    by (simp add: end_cursor_def default_cursor_def HEADER_SIZE_def last_occ_id_def)
  show ?thesis
  proof (cases "?reset \<or> generation \<noteq> g")
    case True
    have "start_cursor f c g generation last_id = end_cursor f g []"
    proof (cases ?reset)
      case False
      then obtain m where "cur_offset c = 16 + length (records (take m ocs))" "cur_last_id c = last_occ_id (take m ocs)"
        using c by (auto simp: cursor_ok_def stands_def)
      with True False show ?thesis
        unfolding start_cursor_def start by (auto simp: HEADER_SIZE_def default_cursor_def records_Nil last_occ_id_def)
    qed (simp add: start_cursor_def start default_cursor_def Let_def)
    then show ?thesis using that [of 0] by simp
  next
    case False
    then obtain m where m: "m \<le> length ocs" "cur_offset c = 16 + length (records (take m ocs))"
      "cur_last_id c = last_occ_id (take m ocs)"
      using c by (auto simp: cursor_ok_def stands_def)
    have "start_cursor f c g generation last_id = c" using False by (simp add: start_cursor_def Let_def)
    moreover have "c = end_cursor f g (take m ocs)" using m False by (simp add: end_cursor_def)
    moreover have "sorted_wrt (<) (map occ_id (take m ocs))"
      using v by (simp add: valid_log_def take_map [symmetric] sorted_wrt_take)
    ultimately show ?thesis using that [OF m(1)] last_occ_id_max [of "take m ocs"] False m(3) by fastforce
  qed
qed

lemma read_from_start:
  assumes v: "valid_log g ocs" and c: "cursor_ok c f g ocs" and d: "file_data f = log_data g ocs @ tail"
    and c'_def: "c' = start_cursor f c g generation last_id"
  shows "read_frames (if g = generation then last_id else 0) c' (drop (cur_offset c') (file_data f)) [] =
      read_frames (if g = generation then last_id else 0) (end_cursor f g ocs) tail (unseen g generation last_id ocs)"
    and "16 \<le> cur_offset c'" and "cur_offset c' \<le> length (log_data g ocs)"
    and "tail = [] \<Longrightarrow> cur_offset c' = length (file_data f) \<Longrightarrow>
      c' = end_cursor f g ocs \<and> unseen g generation last_id ocs = []"
proof -
  obtain n where n: "n \<le> length ocs" "c' = end_cursor f g (take n ocs)"
    and seen: "\<And>oc. oc \<in> set (take n ocs) \<Longrightarrow> generation = g \<and> occ_id oc \<le> last_id"
    using start_cursor_stands [OF v c, of generation last_id] unfolding c'_def by blast
  let ?old = "take n ocs" and ?new = "drop n ocs" and ?cut = "if g = generation then last_id else 0"
  have ocs: "ocs = ?old @ ?new" by simp
  have rec: "records ocs = records ?old @ records ?new" by (metis append_take_drop_id records_simps(3))
  have ok: "list_all occ_ok ?new" "sorted_wrt (<) (map occ_id ocs)" "16 + length (records ocs) < 2 ^ 64"
    using v by (auto simp: valid_log_def length_log_data list_all_iff dest: in_set_dropD)
  have srt: "sorted_wrt (<) (map occ_id ?old @ map occ_id ?new)" using ok(2) by (simp flip: map_append)
  have above: "last_occ_id ?old < occ_id oc" if "oc \<in> set ?new" for oc
    using that srt ok(1) by (cases "?old = []") (auto simp: last_occ_id_def sorted_wrt_append list_all_iff occ_ok_def)
  have off: "cur_offset c' = 16 + length (records ?old)" "cur_last_id c' = last_occ_id ?old"
    by (simp_all add: n(2) end_cursor_def)
  have rest: "drop (cur_offset c') (file_data f) = records ?new @ tail"
    by (simp add: off d log_data_def rec)
  have filt: "unseen g generation last_id ocs = filter (\<lambda>oc. ?cut < occ_id oc) ?new"
  proof -
    have "filter (\<lambda>oc. ?cut < occ_id oc) ?old = []" using seen by (fastforce simp: filter_empty_conv)
    then show ?thesis unfolding unseen_def by (subst ocs) (simp del: append_take_drop_id)
  qed
  have lst: "last_occ_id ocs = (if ?new = [] then last_occ_id ?old else occ_id (last ?new))"
    using last_occ_id_append [of ?old ?new] by (simp only: append_take_drop_id)
  have len: "length (records ocs) = length (records ?old) + length (records ?new)" by (simp only: rec length_append)
  have fin: "end_cursor f g ocs = c'\<lparr>cur_last_id := (if ?new = [] then cur_last_id c' else occ_id (last ?new)),
      cur_offset := cur_offset c' + length (records ?new)\<rparr>"
    unfolding n(2) end_cursor_def lst len by simp
  have srt': "sorted_wrt (<) (map occ_id ?new)" using srt by (simp add: sorted_wrt_append)
  have lim: "cur_offset c' + length (records ?new) < 2 ^ 64" using ok(3) off rec by simp
  show "read_frames ?cut c' (drop (cur_offset c') (file_data f)) [] =
      read_frames ?cut (end_cursor f g ocs) tail (unseen g generation last_id ocs)"
    unfolding rest filt fin
    using read_frames_log [OF ok(1) srt' _ lim, of ?cut tail "[]"] above off(2) by simp
  show "16 \<le> cur_offset c'" "cur_offset c' \<le> length (log_data g ocs)" by (simp_all add: off length_log_data rec)
  assume "tail = []" "cur_offset c' = length (file_data f)"
  then have "records ?new = []" using rest by simp
  then have "?new = []" by (simp add: records_Nil)
  then show "c' = end_cursor f g ocs \<and> unseen g generation last_id ocs = []" using fin filt rec by simp
qed

lemma read_snapshot_intact:
  assumes v: "valid_log g ocs" and c: "cursor_ok c f g ocs" and d: "file_data f = log_data g ocs"
  shows "read_snapshot (Suc fuel) fids f c generation last_id =
    Some (Inr (\<lparr>snap_generation = g, occurrences = unseen g generation last_id ocs\<rparr>, end_cursor f g ocs), f)"
proof -
  have d': "file_data f = log_data g ocs @ []" using d by simp
  note r = read_from_start [OF v c d' refl, of generation last_id]
  show ?thesis
    using r(1,4) read_frames_end
    by (simp add: read_snapshot.simps read_header_log [OF v d'] Let_def)
qed

lemma cursor_ok_default: "cursor_ok default_cursor f g ocs"
  by (simp add: cursor_ok_def default_cursor_def)

lemma cursor_ok_end: "cursor_ok (end_cursor f g ocs) f' g' (ocs @ later)"
  unfolding cursor_ok_def stands_def by (auto simp: end_cursor_def intro!: exI [of _ "length ocs"])

lemma publish_log: "file_data (publish fid g (records ocs)) = log_data g ocs"
  by (simp add: publish_def log_data_def)

lemma valid_log_next: "valid_log g ocs \<Longrightarrow> g + 1 < 2 ^ 63 \<Longrightarrow> valid_log (g + 1) ocs"
  by (simp add: valid_log_def length_log_data)

lemma read_snapshot_torn:
  assumes v: "valid_log g ocs" "g + 1 < 2 ^ 63" and c: "cursor_ok c f g ocs"
    and d: "file_data f = log_data g ocs @ tail" and t: "torn tail"
  shows "read_snapshot (Suc (Suc fuel)) fids f c generation last_id =
    (let f' = publish (fids (Suc fuel)) (g + 1) (records ocs) in
     Some (Inr (\<lparr>snap_generation = g + 1, occurrences = unseen (g + 1) generation last_id ocs\<rparr>,
       end_cursor f' (g + 1) ocs), f'))"
proof -
  let ?f = "publish (fids (Suc fuel)) (g + 1) (records ocs)"
  note r = read_from_start [OF v(1) c d refl, of generation last_id]
  have "tail \<noteq> []" using t by (simp add: torn_def)
  then have long: "cur_offset (start_cursor f c g generation last_id) \<noteq> length (file_data f)" using r(3) d by auto
  have kept: "slice HEADER_SIZE (cur_offset (end_cursor f g ocs)) (file_data f) = records ocs"
    by (simp add: HEADER_SIZE_def end_cursor_def d log_data_def slice_def)
  have again: "read_snapshot (Suc fuel) fids ?f default_cursor generation last_id =
      Some (Inr (\<lparr>snap_generation = g + 1, occurrences = unseen (g + 1) generation last_id ocs\<rparr>,
        end_cursor ?f (g + 1) ocs), ?f)"
    by (rule read_snapshot_intact [OF valid_log_next [OF v] cursor_ok_default publish_log])
  show ?thesis
    using long r(1) v(2) unfolding read_snapshot.simps(2) [of "Suc fuel"] read_header_log [OF v(1) d]
    by (simp add: Let_def read_frames_torn [OF t] kept again)
qed

lemma frame_corruption_offset:
  "read_frame off prev_id rest = BadFrame (FrameCorruption k m) \<Longrightarrow> k = off"
  by (auto simp: read_frame_def Let_def split: if_splits sum.splits)

lemma read_snapshot_corrupt:
  assumes v: "valid_log g ocs" and c: "cursor_ok c f g ocs" and d: "file_data f = log_data g ocs @ bad"
    and b: "bad \<noteq> []" "read_frame (length (log_data g ocs)) (last_occ_id ocs) bad = BadFrame e"
  shows "read_snapshot (Suc fuel) fids f c generation last_id = Some (Inl e, f)"
proof -
  note r = read_from_start [OF v c d refl, of generation last_id]
  have long: "cur_offset (start_cursor f c g generation last_id) \<noteq> length (file_data f)" using r(3) d b(1) by auto
  have "read_frames cut (end_cursor f g ocs) bad acc = Inl e" for cut acc
    using b by (simp add: read_frames.simps [of cut "end_cursor f g ocs"]) (simp add: end_cursor_def length_log_data)
  then show ?thesis
    using long r(1) unfolding read_snapshot.simps(2) read_header_log [OF v d] by (simp add: Let_def)
qed

subsection \<open>Properties\<close>

text \<open>A store whose file is the log of \<open>ocs\<close>.\<close>

definition holds_log :: "store \<Rightarrow> int \<Rightarrow> occurrence list \<Rightarrow> bool" where
  "holds_log st g ocs \<longleftrightarrow> valid_log g ocs \<and> file_data (st_file st) = log_data g ocs \<and>
     cursor_ok (st_cursor st) (st_file st) g ocs"

definition fits_log :: "int \<Rightarrow> occurrence list \<Rightarrow> occurrence \<Rightarrow> bool" where
  "fits_log g ocs oc \<longleftrightarrow> occ_ok (oc\<lparr>occ_id := last_occ_id ocs + 1\<rparr>) \<and>
     length (log_data g ocs) + length (frame (oc\<lparr>occ_id := last_occ_id ocs + 1\<rparr>)) < 2 ^ 64"

lemma valid_log_snoc:
  assumes "valid_log g ocs" "fits_log g ocs oc"
  shows "valid_log g (ocs @ [oc\<lparr>occ_id := last_occ_id ocs + 1\<rparr>])"
  using assms last_occ_id_max [of ocs]
  by (fastforce simp: valid_log_def fits_log_def length_log_data sorted_wrt_append)

lemma append_writes:
  assumes h: "holds_log st g ocs" and oc: "fits_log g ocs oc"
  defines "new \<equiv> oc\<lparr>occ_id := last_occ_id ocs + 1\<rparr>"
  shows "store_append (Suc fuel) fids out st generation last_id oc =
    Some (write_frame out st (st_file st) (end_cursor (st_file st) g ocs)
      \<lparr>snap_generation = g, occurrences = unseen g generation last_id ocs\<rparr> new (frame new))"
proof -
  have ok: "occ_ok new" "last_occ_id ocs + 1 < 2 ^ 63" "16 + length (records ocs) + length (frame new) < 2 ^ 64"
    using oc by (auto simp: fits_log_def new_def occ_ok_def length_log_data)
  have r: "read_snapshot (Suc fuel) fids (st_file st) (st_cursor st) generation last_id =
      Some (Inr (\<lparr>snap_generation = g, occurrences = unseen g generation last_id ocs\<rparr>, end_cursor (st_file st) g ocs), st_file st)"
    using h by (intro read_snapshot_intact) (simp_all add: holds_log_def)
  have e: "cur_last_id (end_cursor (st_file st) g ocs) = last_occ_id ocs"
    "cur_offset (end_cursor (st_file st) g ocs) = 16 + length (records ocs)" by (simp_all add: end_cursor_def)
  show ?thesis
    using ok(2,3) encode_ok [OF ok(1)] by (simp add: store_append_def r e Let_def new_def)
qed

lemma append_read_back:
  assumes "holds_log st g ocs" and "fits_log g ocs oc" and "cursor_ok c (st_file st) g ocs"
  shows "\<exists>st'. let new = oc\<lparr>occ_id := last_occ_id ocs + 1\<rparr>; seen = unseen g generation last_id ocs @ [new] in
    store_append (Suc fuel) fids Written st generation last_id oc =
      Some (Inr (\<lparr>snap_generation = g, occurrences = seen\<rparr>, occ_id new), st') \<and>
    holds_log st' g (ocs @ [new]) \<and>
    read_snapshot (Suc fuel) fids (st_file st') c g 0 =
      Some (Inr (\<lparr>snap_generation = g, occurrences = ocs @ [new]\<rparr>, end_cursor (st_file st') g (ocs @ [new])), st_file st')"
proof -
  define new where "new = oc\<lparr>occ_id := last_occ_id ocs + 1\<rparr>"
  let ?c = "end_cursor (st_file st) g ocs"
  define st' where "st' = st\<lparr>st_file := (st_file st)\<lparr>file_data := log_data g (ocs @ [new])\<rparr>,
      st_cursor := ?c\<lparr>cur_offset := cur_offset ?c + length (frame new), cur_last_id := occ_id new\<rparr>\<rparr>"
  have v: "valid_log g (ocs @ [new])" using assms(1,2) valid_log_snoc by (simp add: holds_log_def new_def)
  have d: "write_at (cur_offset ?c) (frame new) (file_data (st_file st)) = log_data g (ocs @ [new])"
    using assms(1) by (simp add: holds_log_def write_at_def log_data_def end_cursor_def)
  have cur: "st_cursor st' = end_cursor (st_file st') g (ocs @ [new])"
    by (simp add: st'_def end_cursor_def last_occ_id_def)
  have h: "holds_log st' g (ocs @ [new])"
    using v cursor_ok_end [of "st_file st'" g "ocs @ [new]" _ _ "[]"] unfolding holds_log_def cur by (simp add: st'_def)
  have ex: "cursor_ok c (st_file st') g (ocs @ [new])"
  proof -
    have "stands c ocs \<Longrightarrow> stands c (ocs @ [new])"
      unfolding stands_def by (metis append_eq_conv_conj le_SucI length_append_singleton take_append trans_le_add1
          diff_is_0_eq' take0 append_Nil2)
    then show ?thesis using assms(3) by (auto simp: cursor_ok_def st'_def)
  qed
  have all: "unseen g g 0 (ocs @ [new]) = ocs @ [new]"
    using v by (auto simp: unseen_def valid_log_def occ_ok_def list_all_iff)
  have "store_append (Suc fuel) fids Written st generation last_id oc =
      Some (Inr (\<lparr>snap_generation = g, occurrences = unseen g generation last_id ocs @ [new]\<rparr>, occ_id new), st')"
    unfolding append_writes [OF assms(1,2), folded new_def] write_frame_def by (simp add: d st'_def)
  with h read_snapshot_intact [OF v ex, of fuel fids g 0] all show ?thesis
    unfolding Let_def new_def [symmetric] by (intro exI [of _ st']) (simp add: st'_def)
qed

text \<open>
  C26.  Appending writes through: from a store that holds a log, an append that the system carries
  out gives the command the next identifier, leaves the file the log with that command at its
  end, and returns what the caller had not seen and the new command; a later reader with any
  cursor of the old log gets the same commands.
\<close>

theorem append_then_read:
  assumes "holds_log st g ocs" and "fits_log g ocs oc" and "cursor_ok c (st_file st) g ocs"
  shows "\<exists>st'. let new = oc\<lparr>occ_id := last_occ_id ocs + 1\<rparr>; seen = unseen g generation last_id ocs @ [new] in
    store_append (Suc fuel) fids Written st generation last_id oc =
      Some (Inr (\<lparr>snap_generation = g, occurrences = seen\<rparr>, occ_id new), st') \<and>
    holds_log st' g (ocs @ [new]) \<and>
    read_snapshot (Suc fuel) fids (st_file st') c g 0 =
      Some (Inr (\<lparr>snap_generation = g, occurrences = ocs @ [new]\<rparr>, end_cursor (st_file st') g (ocs @ [new])), st_file st')"
  using assms by (rule append_read_back)

definition demo_occurrence :: occurrence where
  "demo_occurrence = \<lparr>occ_id = 0, command = [108, 115], timestamp = 5, session_id = 1, cwd = Some [47]\<rparr>"

definition demo_store :: store where
  "demo_store = \<lparr>st_file = \<lparr>file_data = log_data 0 [], file_identity = (1, 2)\<rparr>, st_cursor = default_cursor, st_aside = []\<rparr>"

lemma demo_holds: "holds_log demo_store 0 []" "fits_log 0 [] demo_occurrence"
  by (simp_all add: holds_log_def demo_store_def valid_log_def length_log_data cursor_ok_default fits_log_def
      demo_occurrence_def occ_ok_def last_occ_id_def is_scalar_def u32_max_def cwd_bytes_def length_frame length_payload
      encode_utf8_def)

lemma append_then_read_witness:
  "\<exists>st'. store_append 1 (\<lambda>n. (1, 3 + n)) Written demo_store 0 0 demo_occurrence =
     Some (Inr (\<lparr>snap_generation = 0, occurrences = [demo_occurrence\<lparr>occ_id := 1\<rparr>]\<rparr>, 1), st')"
  using append_then_read [OF demo_holds cursor_ok_default, of 0 0 0 "\<lambda>n. (1, 3 + n)"]
  by (auto simp: Let_def last_occ_id_def unseen_def)

text \<open>
  C27.  An append that fails part way loses no command that was in the log.  Whatever number of
  bytes of the new frame reached the file, and whether the file could be cut back or not, the
  append reports the error, and the next reader, with any cursor of the old log, gets exactly
  the old commands from a well-formed file: the old one, or a new generation of it without the
  torn frame.
\<close>

theorem torn_append_repaired:
  assumes "holds_log st g ocs" and "fits_log g ocs oc" and "g + 1 < 2 ^ 63"
    and "k < length (frame (oc\<lparr>occ_id := last_occ_id ocs + 1\<rparr>))" and "cursor_ok c (st_file st) g ocs"
  shows "\<exists>e st' f'. let g' = (if rolled_back \<or> k = 0 then g else g + 1) in
    store_append (Suc fuel) fids (Failed k rolled_back) st generation last_id oc = Some (Inl e, st') \<and>
    read_snapshot (Suc (Suc fuel)) fids' (st_file st') c generation' last_id' =
      Some (Inr (\<lparr>snap_generation = g', occurrences = unseen g' generation' last_id' ocs\<rparr>, end_cursor f' g' ocs), f') \<and>
    file_data f' = log_data g' ocs"
proof -
  define new where "new = oc\<lparr>occ_id := last_occ_id ocs + 1\<rparr>"
  define tail where "tail = (if rolled_back then [] else take k (frame new))"
  define st' where "st' = st\<lparr>st_file := (st_file st)\<lparr>file_data := log_data g ocs @ tail\<rparr>\<rparr>"
  have h: "valid_log g ocs" "file_data (st_file st) = log_data g ocs" using assms(1) by (simp_all add: holds_log_def)
  have "\<exists>e. store_append (Suc fuel) fids (Failed k rolled_back) st generation last_id oc = Some (Inl e, st')"
    unfolding append_writes [OF assms(1,2), folded new_def] write_frame_def
    by (simp add: end_cursor_def write_at_def h(2) st'_def tail_def length_log_data)
  moreover have cur: "cursor_ok c (st_file st') g ocs" using assms(5) by (simp add: cursor_ok_def st'_def)
  moreover have data: "file_data (st_file st') = log_data g ocs @ tail" by (simp add: st'_def)
  moreover have "tail = [] \<or> torn tail"
    using assms(2,4) by (auto simp: tail_def torn_def fits_log_def new_def)
  moreover have "tail = [] \<longleftrightarrow> rolled_back \<or> k = 0" by (auto simp: tail_def)
  ultimately show ?thesis
    using read_snapshot_intact [OF h(1) cur, of "Suc fuel" fids' generation' last_id']
      read_snapshot_torn [OF h(1) assms(3) cur, of tail fuel fids' generation' last_id']
      publish_log [of "fids' (Suc fuel)" "g + 1" ocs]
    by (cases "tail = []") (auto simp: Let_def)
qed

lemma torn_append_repaired_witness:
  "\<exists>e st' f'. store_append 1 (\<lambda>n. (1, 3 + n)) (Failed 20 False) demo_store 0 0 demo_occurrence = Some (Inl e, st') \<and>
     read_snapshot 2 (\<lambda>n. (1, 9 + n)) (st_file st') default_cursor 0 0 =
       Some (Inr (\<lparr>snap_generation = 1, occurrences = []\<rparr>, end_cursor f' 1 []), f')"
proof -
  have "20 < length (frame (demo_occurrence\<lparr>occ_id := last_occ_id [] + 1\<rparr>))"
    by (simp add: length_frame length_payload)
  from torn_append_repaired [OF demo_holds _ this cursor_ok_default,
      of False 0 "\<lambda>n. (1, 3 + n)" 0 0 "\<lambda>n. (1, 9 + n)" 0 0]
  show ?thesis by (simp add: Let_def unseen_def numeral_2_eq_2) blast
qed

text \<open>
  C28.  Salvaging a log with a corrupt frame keeps every command before that frame, in a new
  generation, and moves the rest of the file aside byte for byte.
\<close>

theorem salvage_keeps_prefix:
  assumes "valid_log g ocs" and "g + 1 < 2 ^ 63" and "file_data (st_file st) = log_data g ocs @ bad"
    and "read_frame (length (log_data g ocs)) (last_occ_id ocs) bad = BadFrame (FrameCorruption k m)"
  shows "store_salvage (Suc fuel) fids fid st =
    Some (Inr (length (log_data g ocs)),
      st\<lparr>st_file := \<lparr>file_data = log_data (g + 1) ocs, file_identity = fid\<rparr>, st_cursor := default_cursor,
         st_aside := st_aside st @ [bad]\<rparr>)"
proof -
  have "bad \<noteq> []" using assms(4) read_frame_short [of bad] by auto
  from read_snapshot_corrupt [OF assms(1) cursor_ok_default assms(3) this assms(4)]
  have r: "read_snapshot (Suc fuel) fids (st_file st) default_cursor (- 1) 0 =
      Some (Inl (FrameCorruption (length (log_data g ocs)) m), st_file st)"
    using frame_corruption_offset [OF assms(4)] by simp
  show ?thesis
    using assms(2,3) unfolding store_salvage_def r
    by (simp add: read_header_log [OF assms(1,3)] Let_def publish_def log_data_def slice_def HEADER_SIZE_def)
qed

lemma salvage_keeps_prefix_witness:
  "let bad = [0, 0, 0, 0, 0, 0, 0, 0, 0, 0, 0, 0, 1, 0, 0, 0] in
   store_salvage 1 (\<lambda>n. (1, 3 + n)) (1, 7) (demo_store\<lparr>st_file := \<lparr>file_data = log_data 0 [] @ bad, file_identity = (1, 2)\<rparr>\<rparr>) =
     Some (Inr 16, demo_store\<lparr>st_file := \<lparr>file_data = log_data 1 [], file_identity = (1, 7)\<rparr>, st_aside := [bad]\<rparr>)"
proof -
  let ?bad = "[0, 0, 0, 0, 0, 0, 0, 0, 0, 0, 0, 0, 1, 0, 0, 0] :: bytes"
  have "unat (crc32 [0, 0, 0, 0, 0, 0, 0, 0]) \<noteq> 0" using crc32_zeros unsigned_eq_0_iff by blast
  then have b: "read_frame (length (log_data 0 [])) (last_occ_id []) ?bad =
      BadFrame (FrameCorruption (length (log_data 0 [])) ''frame length checksum mismatch'')"
    by (simp add: read_frame_def FRAME_HEADER_SIZE_def slice_def Let_def)
  have v: "valid_log 0 []" by (simp add: valid_log_def length_log_data)
  show ?thesis
    unfolding Let_def using salvage_keeps_prefix [OF v _ _ b, of "demo_store\<lparr>st_file := \<lparr>file_data = log_data 0 [] @ ?bad, file_identity = (1, 2)\<rparr>\<rparr>" 0]
    by (simp add: demo_store_def length_log_data)
qed

end
