(* ===== verification/Byte_Scan.thy ===== *)
theory Byte_Scan
  imports Byte_Codec
begin

text \<open>
  Two routines on bytes that make the search through the history fast (\<^verbatim>\<open>src/history.rs\<close>): the
  letters of a command as a mask of 32 bits, and the scan for a byte that tests eight bytes at a
  time with arithmetic on a 64-bit word. The scan is shown to be exact: it returns the position of
  the first of the two bytes.
\<close>

unbundle bit_operations_syntax

subsection \<open>Letters\<close>

definition lower8 :: "u8 \<Rightarrow> u8" where
  "lower8 b = (if 65 \<le> b \<and> b \<le> 90 then b + 32 else b)"

definition upper8 :: "u8 \<Rightarrow> u8" where
  "upper8 b = (if 97 \<le> b \<and> b \<le> 122 then b - 32 else b)"

definition letter_step :: "u8 \<Rightarrow> u32 \<Rightarrow> u32" where
  "letter_step b letters =
     (let lower = lower8 b in
      if 97 \<le> lower \<and> lower \<le> 122 then letters OR push_bit (unat (lower - 97)) 1 else letters)"

definition letter_mask :: "bytes \<Rightarrow> u32" where
  "letter_mask bs = fold letter_step bs 0"

lemma letter_step_bit:
  "bit (letter_step b m) n \<longleftrightarrow> bit m n \<or> n < 26 \<and> unat (lower8 b) = 97 + n"
proof (cases "97 \<le> lower8 b \<and> lower8 b \<le> 122")
  case True
  define k where "k = unat (lower8 b - 97)"
  then have k: "unat (lower8 b) = 97 + k" "k < 26" using True by (auto simp: word_le_nat_alt unat_sub)
  then have "bit (push_bit k 1 :: u32) n \<longleftrightarrow> n = k" by (auto simp: bit_exp_iff)
  then show ?thesis using True k by (auto simp: letter_step_def Let_def bit_or_iff k_def [symmetric])
next
  case False
  then have "unat (lower8 b) < 97 \<or> 122 < unat (lower8 b)" by (auto simp: word_le_nat_alt)
  then show ?thesis using False by (auto simp: letter_step_def Let_def)
qed

lemma letter_mask_bit: "bit (letter_mask bs) n \<longleftrightarrow> n < 26 \<and> (\<exists>b \<in> set bs. unat (lower8 b) = 97 + n)"
proof -
  have "bit (fold letter_step bs m) n \<longleftrightarrow> bit m n \<or> n < 26 \<and> (\<exists>b \<in> set bs. unat (lower8 b) = 97 + n)" for m
    by (induction bs arbitrary: m) (auto simp: letter_step_bit)
  then show ?thesis by (simp add: letter_mask_def)
qed

text \<open>A mask of letters rejects only texts that lack a letter of the query.\<close>

lemma letter_mask_subset:
  assumes "lower8 ` set q \<subseteq> lower8 ` set t"
  shows "letter_mask t AND letter_mask q = letter_mask q"
proof (rule bit_eqI)
  fix n
  show "bit (letter_mask t AND letter_mask q) n = bit (letter_mask q) n"
    using assms by (auto simp: bit_and_iff letter_mask_bit image_iff subset_eq) (metis imageE)
qed

subsection \<open>Scanning eight bytes at a time\<close>

definition BYTE_WORD_ONES :: u64 where
  "BYTE_WORD_ONES = 0x0101010101010101"

definition BYTE_WORD_HIGHS :: u64 where
  "BYTE_WORD_HIGHS = 0x8080808080808080"

definition zero_byte_mask :: "u64 \<Rightarrow> u64" where
  "zero_byte_mask word = (word - BYTE_WORD_ONES) AND NOT word AND BYTE_WORD_HIGHS"

text \<open>\<^verbatim>\<open>u64::trailing_zeros\<close>.\<close>

definition trailing_zeros :: "u64 \<Rightarrow> nat" where
  "trailing_zeros w = length (takeWhile (\<lambda>i. \<not> bit w i) [0..<64])"

definition chunk_matches :: "u8 \<Rightarrow> u8 \<Rightarrow> bytes \<Rightarrow> u64" where
  "chunk_matches first second chunk =
     (let word = of_nat (from_le chunk);
          first_word = ucast first * BYTE_WORD_ONES;
          second_word = ucast second * BYTE_WORD_ONES
      in zero_byte_mask (word XOR first_word) OR zero_byte_mask (word XOR second_word))"

function find_in_words :: "u8 \<Rightarrow> u8 \<Rightarrow> nat \<Rightarrow> bytes \<Rightarrow> nat option" where
  "find_in_words first second offset rest =
     (if length rest < 8 then map_option ((+) offset) (position (\<lambda>b. b = first \<or> b = second) rest)
      else
        let matches = chunk_matches first second (take 8 rest) in
        if matches \<noteq> 0 then Some (offset + trailing_zeros matches div 8)
        else find_in_words first second (offset + 8) (drop 8 rest))"
  by pat_completeness auto
termination by (relation "measure (\<lambda>(_, _, _, rest). length rest)") auto

declare find_in_words.simps [simp del]

definition find_either_byte :: "bytes \<Rightarrow> u8 \<Rightarrow> u8 \<Rightarrow> nat option" where
  "find_either_byte haystack first second = find_in_words first second 0 haystack"

subsection \<open>The scan is exact\<close>

text \<open>The bit trick on numbers of any width: split off the lowest byte.\<close>

lemma as_concat_bit: "0 \<le> (a :: int) \<Longrightarrow> a < 256 \<Longrightarrow> a + 256 * b = concat_bit 8 a b"
  by (simp add: concat_bit_eq take_bit_int_eq_self push_bit_eq_mult)

lemma bytes_AND:
  assumes "0 \<le> (x :: int)" "x < 256" "0 \<le> x'" "x' < 256"
  shows "(x + 256 * y) AND (x' + 256 * y') = (x AND x') + 256 * (y AND y')"
proof -
  have "(x AND x') < 256" "0 \<le> (x AND x')" using assms by (simp_all add: AND_upper1')
  then show ?thesis using assms
    by (simp add: as_concat_bit) (rule bit_eqI, auto simp: bit_concat_bit_iff bit_and_iff)
qed

lemma bytes_XOR:
  assumes "0 \<le> (x :: int)" "x < 256" "0 \<le> x'" "x' < 256"
  shows "(x + 256 * y) XOR (x' + 256 * y') = (x XOR x') + 256 * (y XOR y')"
proof -
  have "(x XOR x') < 256" "0 \<le> (x XOR x')" using assms XOR_upper [of x 8 x'] by simp_all
  then show ?thesis using assms
    by (simp add: as_concat_bit) (rule bit_eqI, auto simp: bit_concat_bit_iff bit_xor_iff)
qed

lemma bytes_AND3:
  assumes "0 \<le> (x :: int)" "x < 256" "0 \<le> x'" "x' < 256" "0 \<le> x''" "x'' < 256"
  shows "(x + 256 * y) AND ((x' + 256 * y') AND (x'' + 256 * y'')) =
    (x AND (x' AND x'')) + 256 * (y AND (y' AND y''))"
proof -
  have "0 \<le> (x' AND x'')" "(x' AND x'') < 256" using assms by (simp_all add: AND_upper1')
  then show ?thesis using assms by (simp only: bytes_AND)
qed

definition zero_mask :: "int \<Rightarrow> nat \<Rightarrow> int" where
  "zero_mask w n = (w - int (from_le (replicate n 1))) AND NOT w AND int (from_le (replicate n 128))"

lemma high_bit_clear: "0 \<le> (x :: int) \<Longrightarrow> x < 128 \<Longrightarrow> x AND 128 = 0"
proof -
  assume "0 \<le> x" "x < 128"
  then have "x = take_bit 7 x" by (simp add: take_bit_int_eq_self)
  then have "\<not> bit x 7" by (metis bit_take_bit_iff less_irrefl)
  then show ?thesis using and_exp_eq_0_iff_not_bit [of x 7] by simp
qed

lemma from_le_ones: "int (from_le (replicate (Suc n) 1)) = 1 + 256 * int (from_le (replicate n 1))"
  and from_le_highs: "int (from_le (replicate (Suc n) 128)) = 128 + 256 * int (from_le (replicate n 128))"
  by simp_all

lemma NOT_byte: "NOT (b + 256 * w) = (255 - b) + 256 * NOT (w :: int)"
  by (simp add: not_int_def)

lemma zero_mask_Cons:
  assumes "0 < (b :: int)" "b < 256"
  shows "zero_mask (b + 256 * w') (Suc n) = 256 * zero_mask w' n"
proof -
  let ?o = "int (from_le (replicate n 1))" and ?h = "int (from_le (replicate n 128))"
  have low: "(b - 1) AND ((255 - b) AND 128) = 0"
  proof (cases "b \<le> 128")
    case True
    then have "(b - 1) AND 128 = 0" using assms by (intro high_bit_clear) auto
    then show ?thesis by (metis and.commute and.left_commute and_zero_eq)
  next
    case False
    then have "(255 - b) AND 128 = 0" using assms by (intro high_bit_clear) auto
    then show ?thesis by simp
  qed
  have "zero_mask (b + 256 * w') (Suc n) =
      ((b - 1) + 256 * (w' - ?o)) AND (((255 - b) + 256 * NOT w') AND (128 + 256 * ?h))"
    unfolding zero_mask_def from_le_ones from_le_highs NOT_byte and.assoc
    by (rule arg_cong2 [where f = "(AND)"]) simp_all
  also have "\<dots> = ((b - 1) AND ((255 - b) AND 128)) + 256 * ((w' - ?o) AND (NOT w' AND ?h))"
    using assms by (intro bytes_AND3) auto
  finally show ?thesis by (simp add: low zero_mask_def and.assoc)
qed

lemma zero_mask_zero: "\<exists>y. zero_mask (256 * w') (Suc n) = 128 + 256 * y"
proof -
  let ?o = "int (from_le (replicate n 1))" and ?h = "int (from_le (replicate n 128))"
  have "zero_mask (0 + 256 * w') (Suc n) =
      (255 + 256 * (w' - ?o - 1)) AND (((255 - 0) + 256 * NOT w') AND (128 + 256 * ?h))"
    unfolding zero_mask_def from_le_ones from_le_highs NOT_byte and.assoc
    by (rule arg_cong2 [where f = "(AND)"]) simp_all
  also have "\<dots> = (255 AND ((255 - 0) AND 128)) + 256 * ((w' - ?o - 1) AND (NOT w' AND ?h))"
    by (rule bytes_AND3) auto
  finally show ?thesis by auto
qed

text \<open>The lowest set bit of the mask is in the first byte that is zero.\<close>

definition lowest_bit :: "int \<Rightarrow> nat \<Rightarrow> bool" where
  "lowest_bit z k \<longleftrightarrow> bit z k \<and> (\<forall>j < k. \<not> bit z j)"

lemma lowest_bit_128: "lowest_bit (128 + 256 * y) 7"
proof -
  have "128 + 256 * y = push_bit 7 (1 + 2 * y)" by (simp add: push_bit_eq_mult)
  moreover have "bit (1 + 2 * y) 0" by (simp add: bit_0)
  ultimately show ?thesis by (auto simp: lowest_bit_def bit_push_bit_iff)
qed

lemma lowest_bit_shift: "lowest_bit z k \<Longrightarrow> lowest_bit (256 * z) (k + 8)"
proof -
  have "256 * z = push_bit 8 z" by (simp add: push_bit_eq_mult)
  then show "lowest_bit z k \<Longrightarrow> ?thesis" by (auto simp: lowest_bit_def bit_push_bit_iff)
qed

lemma zero_mask_lowest:
  "if \<forall>b \<in> set bs. b \<noteq> 0 then zero_mask (int (from_le bs)) (length bs) = 0
   else lowest_bit (zero_mask (int (from_le bs)) (length bs)) (8 * length (takeWhile (\<lambda>b. b \<noteq> 0) bs) + 7)"
proof (induction bs)
  case (Cons b bs)
  show ?case
  proof (cases "b = 0")
    case True
    then show ?thesis using zero_mask_zero [of "int (from_le bs)" "length bs"] lowest_bit_128 by auto
  next
    case False
    then have "0 < int (unat b)" "int (unat b) < 256"
      using unat_u8_less [of b] by (simp_all only: of_nat_0_less_iff of_nat_less_numeral_iff unat_gt_0 not_False_eq_True)
    then have step: "zero_mask (int (from_le (b # bs))) (length (b # bs)) = 256 * zero_mask (int (from_le bs)) (length bs)"
      using zero_mask_Cons [of "int (unat b)" "int (from_le bs)" "length bs"] by simp
    show ?thesis unfolding step
      using Cons False lowest_bit_shift [of "zero_mask (int (from_le bs)) (length bs)"]
      by (auto simp: add.commute [of _ 8] simp flip: add_Suc_right split: if_splits) fastforce?
  qed
qed (simp add: zero_mask_def)

text \<open>The words of the code.\<close>

lemma uint_word_of_le: "length bs = 8 \<Longrightarrow> uint (of_nat (from_le bs) :: u64) = int (from_le bs)"
  using from_le_less [of bs] by (simp add: unsigned_of_nat take_bit_nat_eq_self)

lemma from_le_replicate8: "from_le (replicate 8 c) = unat c * 0x0101010101010101"
proof -
  have "replicate 8 c = [c, c, c, c, c, c, c, c]" by (simp add: eval_nat_numeral)
  then show ?thesis by simp
qed

lemma ones_highs:
  "int (from_le (replicate 8 1)) = 0x0101010101010101" "int (from_le (replicate 8 128)) = 0x8080808080808080"
  by (simp_all add: from_le_replicate8)

lemma uint_zero_byte_mask: "uint (zero_byte_mask w) = zero_mask (uint w) 8"
proof -
  let ?h = "0x8080808080808080 :: int"
  have c: "uint BYTE_WORD_ONES = 0x0101010101010101" "uint BYTE_WORD_HIGHS = ?h"
    by (simp_all add: BYTE_WORD_ONES_def BYTE_WORD_HIGHS_def)
  have h: "?h = take_bit 64 ?h" by simp
  have "uint (zero_byte_mask w) =
      take_bit 64 (uint w - 0x0101010101010101) AND take_bit 64 (NOT (uint w)) AND take_bit 64 ?h"
    unfolding zero_byte_mask_def unsigned_and_eq unsigned_not_eq uint_word_arith_bintrs c by simp
  also have "\<dots> = take_bit 64 ((uint w - 0x0101010101010101) AND NOT (uint w) AND ?h)"
    by (simp only: take_bit_and)
  also have "\<dots> = (uint w - 0x0101010101010101) AND NOT (uint w) AND ?h"
    by (rule take_bit_int_eq_self) (simp_all add: AND_upper2')
  finally show ?thesis by (simp only: zero_mask_def ones_highs)
qed

lemma broadcast_byte: "uint (ucast (b :: u8) * BYTE_WORD_ONES) = int (from_le (replicate 8 b))"
proof -
  have "ucast b * BYTE_WORD_ONES = (of_nat (from_le (replicate 8 b)) :: u64)"
    by (simp add: BYTE_WORD_ONES_def from_le_replicate8)
  then show ?thesis using uint_word_of_le [of "replicate 8 b"] by simp
qed

lemma from_le_XOR:
  "int (from_le bs) XOR int (from_le (replicate (length bs) c)) = int (from_le (map (\<lambda>b. b XOR c) bs))"
proof (induction bs)
  case (Cons b bs)
  have u: "int (unat b) XOR int (unat c) = int (unat (b XOR c))"
    by (simp add: unsigned_xor_eq of_nat_xor_eq flip: uint_nat)
  have "int (from_le (b # bs)) XOR int (from_le (replicate (length (b # bs)) c)) =
    (int (unat b) + 256 * int (from_le bs)) XOR (int (unat c) + 256 * int (from_le (replicate (length bs) c)))"
    by simp
  also have "\<dots> = (int (unat b) XOR int (unat c)) + 256 * int (from_le (map (\<lambda>b. b XOR c) bs))"
    using unat_u8_less [of b] unat_u8_less [of c] Cons by (subst bytes_XOR) (simp_all del: of_nat_unat)
  finally show ?case unfolding u by simp
qed simp

lemma chunk_mask:
  assumes "length bs = 8"
  shows "if \<forall>b \<in> set bs. b \<noteq> c then zero_byte_mask (of_nat (from_le bs) XOR ucast c * BYTE_WORD_ONES) = 0
    else lowest_bit (uint (zero_byte_mask (of_nat (from_le bs) XOR ucast c * BYTE_WORD_ONES)))
      (8 * length (takeWhile (\<lambda>b. b \<noteq> c) bs) + 7)"
proof -
  have zero: "b XOR c = 0 \<longleftrightarrow> b = c" for b by (metis xor.right_neutral xor_self_eq xor.assoc)
  have "uint (zero_byte_mask (of_nat (from_le bs) XOR ucast c * BYTE_WORD_ONES)) =
    zero_mask (int (from_le (map (\<lambda>b. b XOR c) bs))) 8"
    using from_le_XOR [of bs c] assms
    by (simp only: uint_zero_byte_mask unsigned_xor_eq uint_word_of_le broadcast_byte)
  then show ?thesis using zero_mask_lowest [of "map (\<lambda>b. b XOR c) bs"] assms
    by (auto simp: zero takeWhile_map comp_def uint_0_iff split: if_splits)
qed

lemma trailing_zeros_lowest: "lowest_bit (uint w) k \<Longrightarrow> k < 64 \<Longrightarrow> trailing_zeros w = k"
proof -
  assume "lowest_bit (uint w) k" "k < 64"
  then have "bit w k" "\<And>j. j < k \<Longrightarrow> \<not> bit w j" by (auto simp: lowest_bit_def bit_uint_iff)
  then have "takeWhile (\<lambda>i. \<not> bit w i) ([0..<k] @ k # [Suc k..<64]) = [0..<k]"
    by (subst takeWhile_append2) auto
  moreover have "[0..<k] @ k # [Suc k..<64] = [0..<64]"
    using \<open>k < 64\<close> by (metis le_add1 le_add_same_cancel1 less_imp_le_nat upt_add_eq_append upt_conv_Cons add.left_neutral le_add_diff_inverse)
  ultimately show ?thesis by (simp add: trailing_zeros_def)
qed

lemma position_takeWhile:
  "position P xs = (if \<forall>x \<in> set xs. \<not> P x then None else Some (length (takeWhile (\<lambda>x. \<not> P x) xs)))"
  by (induction xs) auto

lemma lowest_bit_OR:
  assumes "lowest_bit x k" "y = 0 \<or> (\<exists>l \<ge> k. lowest_bit y l)"
  shows "lowest_bit (x OR y) k"
  using assms by (auto simp: lowest_bit_def bit_or_iff)

lemma lowest_bit_min:
  assumes x: "x = 0 \<and> k = 8 \<or> lowest_bit x (8 * k + 7) \<and> k < 8"
    and y: "y = 0 \<and> l = 8 \<or> lowest_bit y (8 * l + 7) \<and> l < 8" and "min k l < 8"
  shows "lowest_bit (x OR y) (8 * min k l + 7)"
proof (cases "k \<le> l")
  case True
  then have "y = 0 \<or> (\<exists>m \<ge> 8 * k + 7. lowest_bit y m)" using y by (auto intro!: exI [of _ "8 * l + 7"])
  then show ?thesis using True assms lowest_bit_OR [of x "8 * k + 7" y] by (auto simp: min_def)
next
  case False
  then have "x = 0 \<or> (\<exists>m \<ge> 8 * l + 7. lowest_bit x m)" using x by (auto intro!: exI [of _ "8 * k + 7"])
  then show ?thesis using False assms lowest_bit_OR [of y "8 * l + 7" x] by (auto simp: min_def or.commute)
qed

lemma takeWhile_both: 
  "length (takeWhile (\<lambda>b. b \<noteq> c \<and> b \<noteq> d) bs) = min (length (takeWhile (\<lambda>b. b \<noteq> c) bs)) (length (takeWhile (\<lambda>b. b \<noteq> d) bs))"
  by (induction bs) auto

lemma takeWhile_less: "length (takeWhile P xs) < length xs \<longleftrightarrow> \<not> (\<forall>x \<in> set xs. P x)"
  by (metis takeWhile_eq_all_conv length_takeWhile_le linorder_neqE_nat not_less takeWhile_eq_take take_all_iff)

lemma chunk_matches_position:
  assumes "length bs = 8"
  shows "position (\<lambda>b. b = c \<or> b = d) bs =
    (if chunk_matches c d bs \<noteq> 0 then Some (trailing_zeros (chunk_matches c d bs) div 8) else None)"
proof -
  let ?m = "\<lambda>c. zero_byte_mask (of_nat (from_le bs) XOR ucast c * BYTE_WORD_ONES)"
  let ?t = "\<lambda>c. length (takeWhile (\<lambda>b. b \<noteq> c) bs)"
  have m: "chunk_matches c d bs = ?m c OR ?m d" by (simp add: chunk_matches_def Let_def)
  have none: "?m e = 0 \<and> ?t e = 8 \<or> lowest_bit (uint (?m e)) (8 * ?t e + 7) \<and> ?t e < 8" for e
    using chunk_mask [OF assms, of e] takeWhile_less [of "\<lambda>b. b \<noteq> e" bs] assms
    by (auto split: if_splits simp: takeWhile_eq_all_conv [THEN iffD2])
  have one: "lowest_bit (uint (?m c OR ?m d)) (8 * min (?t c) (?t d) + 7)" if "min (?t c) (?t d) < 8"
    unfolding unsigned_or_eq using none [of c] none [of d] that by (intro lowest_bit_min) auto
  show ?thesis
  proof (cases "min (?t c) (?t d) < 8")
    case True
    then have "trailing_zeros (?m c OR ?m d) = 8 * min (?t c) (?t d) + 7"
      using one by (intro trailing_zeros_lowest) auto
    moreover have "?m c OR ?m d \<noteq> 0" using one [OF True] by (auto simp: lowest_bit_def)
    moreover have "\<not> (\<forall>b \<in> set bs. \<not> (b = c \<or> b = d))"
      using True takeWhile_less [of "\<lambda>b. b \<noteq> c \<and> b \<noteq> d" bs] assms by (auto simp: takeWhile_both)
    ultimately show ?thesis by (simp add: m position_takeWhile takeWhile_both)
  next
    case False
    then have "?m c OR ?m d = 0" using none [of c] none [of d] by auto
    moreover have "\<forall>b \<in> set bs. \<not> (b = c \<or> b = d)"
      using False takeWhile_less [of "\<lambda>b. b \<noteq> c \<and> b \<noteq> d" bs] assms by (auto simp: takeWhile_both)
    ultimately show ?thesis by (simp add: m position_takeWhile)
  qed
qed

lemma find_in_words_position:
  "find_in_words c d offset rest = map_option ((+) offset) (position (\<lambda>b. b = c \<or> b = d) rest)"
proof (induction c d offset rest rule: find_in_words.induct)
  case (1 c d offset rest)
  show ?case
  proof (cases "length rest < 8")
    case False
    then have "length (take 8 rest) = 8" by simp
    note chunk_matches_position [OF this, of c d]
    moreover have "position (\<lambda>b. b = c \<or> b = d) rest = position (\<lambda>b. b = c \<or> b = d) (take 8 rest @ drop 8 rest)" by simp
    ultimately show ?thesis using 1 False
      by (simp only: find_in_words.simps [of c d offset rest] position_append)
        (auto simp: Let_def option.map_comp comp_def ac_simps split: option.splits)
  qed (simp add: find_in_words.simps [of c d offset rest])
qed

lemma find_either_byte_correct: "find_either_byte haystack c d = position (\<lambda>b. b = c \<or> b = d) haystack"
  by (cases "position (\<lambda>b. b = c \<or> b = d) haystack") (simp_all add: find_either_byte_def find_in_words_position)

text \<open>
  C17.  The scan with words is exact: it returns the position of the first byte of the haystack that
  is one of the two, whatever the length of the haystack and wherever the byte stands in its word,
  and nothing when there is none.
\<close>

theorem byte_scan_exact: "find_either_byte haystack c d = position (\<lambda>b. b = c \<or> b = d) haystack"
  by (rule find_either_byte_correct)

end
