(* ===== verification/Fuzzy_Match.thy ===== *)
theory Fuzzy_Match
  imports Byte_Scan Utf8 "HOL-Library.Sublist"
begin

text \<open>
  Matching a query against one command of the history (\<^verbatim>\<open>src/history.rs\<close>): prefix, substring
  and subsequence matches on bytes and on characters, the tier a command matches at, and the
  positions of the matched characters.

  The routines on bytes exist for speed. The theory shows that they compute what the routines on
  characters compute, and that both decide the relations of \<^verbatim>\<open>HOL-Library.Sublist\<close>.

  The lower case of a character, \<^verbatim>\<open>c.to_lowercase().next()\<close>, is a table of Unicode: an argument
  \<open>lower\<close>, of which the proofs use that it is the ASCII lower case on ASCII. A function that may
  panic returns an option; \<open>None\<close> is the panic.
\<close>

subsection \<open>Prefixes, substrings, subsequences\<close>

definition is_ascii :: "ustring \<Rightarrow> bool" where
  "is_ascii s \<longleftrightarrow> list_all (\<lambda>c. c < 128) s"

definition is_word_boundary_char :: "cp \<Rightarrow> bool" where
  "is_word_boundary_char c \<longleftrightarrow> c = 47 \<or> c = 45 \<or> c = 95 \<or> c = 46 \<or> c = 32 \<or> c = 9"

definition is_word_boundary_byte :: "u8 \<Rightarrow> bool" where
  "is_word_boundary_byte b \<longleftrightarrow> b = 47 \<or> b = 45 \<or> b = 95 \<or> b = 46 \<or> b = 32 \<or> b = 9"

fun starts_with_icase :: "(cp \<Rightarrow> cp) \<Rightarrow> ustring \<Rightarrow> ustring \<Rightarrow> bool" where
  "starts_with_icase lower [] text = True"
| "starts_with_icase lower (q # qs) [] = False"
| "starts_with_icase lower (q # qs) (tc # text) \<longleftrightarrow> lower tc = q \<and> starts_with_icase lower qs text"

definition starts_with_icase_ascii :: "bytes \<Rightarrow> bytes \<Rightarrow> bool" where
  "starts_with_icase_ascii query text \<longleftrightarrow>
     length query \<le> length text \<and> list_all (\<lambda>(t, q). lower8 t = q) (zip (take (length query) text) query)"

definition find_substring_icase_ascii :: "ustring \<Rightarrow> bytes \<Rightarrow> bool \<Rightarrow> nat option" where
  "find_substring_icase_ascii query text boundary_only =
     (if length text < length query then None
      else List.find (\<lambda>start.
          \<not> (boundary_only \<and> 0 < start \<and> \<not> is_word_boundary_byte (text ! (start - 1))) \<and>
          list_all (\<lambda>(offset, q). lower8 (text ! (start + offset)) = byte q) (enumerate 0 query))
        [0..<length text - length query + 1])"

definition find_substring_icase :: "(cp \<Rightarrow> cp) \<Rightarrow> ustring \<Rightarrow> ustring \<Rightarrow> bool \<Rightarrow> nat option" where
  "find_substring_icase lower query text boundary_only =
     (if query = [] then Some 0
      else if is_ascii text \<and> is_ascii query then find_substring_icase_ascii query (utf8 text) boundary_only
      else if length text < length query then None
      else List.find (\<lambda>start.
          \<not> (boundary_only \<and> 0 < start \<and> \<not> is_word_boundary_char (text ! (start - 1))) \<and>
          list_all (\<lambda>(tc, q). lower tc = q) (zip (slice start (start + length query) text) query))
        [0..<length text - length query + 1])"

text \<open>The scan from \<open>start\<close>; \<open>q # qs\<close> is the query, and every slice is in range.\<close>

function find_from :: "u8 \<Rightarrow> bytes \<Rightarrow> bytes \<Rightarrow> bool \<Rightarrow> nat \<Rightarrow> nat option" where
  "find_from q qs text boundary_only start =
     (let last_start = length text - length (q # qs) in
      if last_start < start then None
      else case find_either_byte (slice start (last_start + 1) text) q (upper8 q) of
        None \<Rightarrow> None
      | Some skip \<Rightarrow>
          let start = start + skip;
              at_boundary = (start = 0 \<or> is_word_boundary_byte (text ! (start - 1)))
          in if (at_boundary \<or> \<not> boundary_only) \<and>
                list_all (\<lambda>(b, q). lower8 b = q) (zip (slice (start + 1) (start + length (q # qs)) text) qs)
             then Some start
             else find_from q qs text boundary_only (start + 1))"
  by pat_completeness auto
termination by (relation "measure (\<lambda>(q, qs, text, _, start). Suc (length text) - start)") auto

declare find_from.simps [simp del]

text \<open>An empty query would panic at \<^verbatim>\<open>query[0]\<close>.\<close>

definition find_substring_icase_ascii_bytes :: "bytes \<Rightarrow> bytes \<Rightarrow> bool \<Rightarrow> nat option option" where
  "find_substring_icase_ascii_bytes query text boundary_only =
     (if length text < length query then Some None
      else case query of [] \<Rightarrow> None | q # qs \<Rightarrow> Some (find_from q qs text boundary_only 0))"

fun is_subsequence_ascii_bytes :: "bytes \<Rightarrow> bytes \<Rightarrow> bool" where
  "is_subsequence_ascii_bytes [] text = True"
| "is_subsequence_ascii_bytes (b # query) text =
     (let uppercase = upper8 b in
      if text \<noteq> [] \<and> (hd text = b \<or> hd text = uppercase) then is_subsequence_ascii_bytes query (tl text)
      else case find_either_byte text b uppercase of
        None \<Rightarrow> False
      | Some at \<Rightarrow> is_subsequence_ascii_bytes query (drop (at + 1) text))"

subsection \<open>The positions of a subsequence\<close>

text \<open>The three routines of the code (characters that are ASCII, bytes, characters) are one routine
  on a list of elements \<open>'a\<close> with a folding function \<open>low\<close>; the query is not empty.

  The forward pass returns the index of the element that completes the first match.\<close>

fun forward :: "('a \<Rightarrow> 'c) \<Rightarrow> 'c list \<Rightarrow> nat \<Rightarrow> 'a list \<Rightarrow> nat option" where
  "forward low (q # qs) ti (b # bs) =
     (if low b = q then (if qs = [] then Some ti else forward low qs (ti + 1) bs) else forward low (q # qs) (ti + 1) bs)"
| "forward low _ ti _ = None"

definition last_end :: "('a \<Rightarrow> 'c) \<Rightarrow> 'c \<Rightarrow> nat \<Rightarrow> 'a list \<Rightarrow> nat" where
  "last_end low last_q first_end text =
     fold (\<lambda>(ti, b) found. if low b = last_q then ti else found) (drop (first_end + 1) (enumerate 0 text)) first_end"

fun backward_from :: "('a \<Rightarrow> 'c) \<Rightarrow> 'c list \<Rightarrow> (nat \<times> 'a) list \<Rightarrow> nat" where
  "backward_from low (q # qs) ((ti, b) # rest) =
     (if low b = q then (if qs = [] then ti else backward_from low qs rest) else backward_from low (q # qs) rest)"
| "backward_from low _ _ = 0"

definition backward :: "('a \<Rightarrow> 'c) \<Rightarrow> 'a list \<Rightarrow> 'c list \<Rightarrow> nat \<Rightarrow> nat" where
  "backward low text query end_at = backward_from low (rev query) (rev (take (end_at + 1) (enumerate 0 text)))"

text \<open>The last pass records at most 32 positions.\<close>

fun record_positions :: "('a \<Rightarrow> 'c) \<Rightarrow> 'c list \<Rightarrow> (nat \<times> 'a) list \<Rightarrow> nat \<Rightarrow> nat list \<Rightarrow> nat list" where
  "record_positions low (q # qs) ((ti, b) # rest) qi positions =
     (if low b = q then
        (let positions = (if qi < 32 then positions[qi := ti] else positions) in
         if qs = [] then positions else record_positions low qs rest (qi + 1) positions)
      else record_positions low (q # qs) rest qi positions)"
| "record_positions low _ _ qi positions = positions"

definition match_window :: "('a \<Rightarrow> 'c) \<Rightarrow> 'c list \<Rightarrow> 'a list \<Rightarrow> nat \<Rightarrow> nat \<times> nat" where
  "match_window low query text first_end =
     (let last_at = last_end low (last query) first_end text in
      if last_at = first_end then (backward low text query first_end, first_end)
      else
        let start1 = backward low text query first_end;
            start2 = backward low text query last_at
        in if last_at - start2 < first_end - start1 then (start2, last_at) else (start1, first_end))"

definition subsequence_positions :: "('a \<Rightarrow> 'c) \<Rightarrow> 'c list \<Rightarrow> 'a list \<Rightarrow> (nat list \<times> nat) option" where
  "subsequence_positions low query text =
     (case forward low query 0 text of
        None \<Rightarrow> None
      | Some first_end \<Rightarrow>
          (case match_window low query text first_end of (window_start, window_end) \<Rightarrow>
             Some (record_positions low query (drop window_start (take (window_end + 1) (enumerate 0 text))) 0 (replicate 32 0),
                   min (length query) 32)))"

definition subsequence_match :: "(cp \<Rightarrow> cp) \<Rightarrow> ustring \<Rightarrow> ustring \<Rightarrow> (nat list \<times> nat) option" where
  "subsequence_match lower query text =
     (if query = [] then Some (replicate 32 0, 0)
      else if is_ascii text \<and> is_ascii query then subsequence_positions lower8 (map byte query) (utf8 text)
      else subsequence_positions lower query text)"

definition subsequence_match_ascii_bytes :: "bytes \<Rightarrow> bytes \<Rightarrow> (nat list \<times> nat) option" where
  "subsequence_match_ascii_bytes query text = subsequence_positions lower8 query text"

subsection \<open>Tiers\<close>

datatype match_rank = MatchEmpty | MatchPrefix | BoundarySubstring nat | MatchSubstring nat | MatchSubsequence

fun rank_score :: "match_rank \<Rightarrow> nat" where
  "rank_score MatchEmpty = 0"
| "rank_score MatchSubsequence = 0"
| "rank_score (MatchSubstring _) = 1"
| "rank_score (BoundarySubstring _) = 2"
| "rank_score MatchPrefix = 3"

definition rank_match :: "(cp \<Rightarrow> cp) \<Rightarrow> ustring \<Rightarrow> ustring \<Rightarrow> match_rank option" where
  "rank_match lower query text =
     (if starts_with_icase lower query text then Some MatchPrefix
      else case find_substring_icase lower query text True of
        Some start \<Rightarrow> Some (BoundarySubstring start)
      | None \<Rightarrow> (case find_substring_icase lower query text False of
          Some start \<Rightarrow> Some (MatchSubstring start)
        | None \<Rightarrow> map_option (\<lambda>_. MatchSubsequence) (subsequence_match lower query text)))"

definition rank_match_ascii :: "bytes \<Rightarrow> ustring \<Rightarrow> match_rank option option" where
  "rank_match_ascii query text =
     (if starts_with_icase_ascii query (utf8 text) then Some (Some MatchPrefix)
      else if \<not> is_subsequence_ascii_bytes query (utf8 text) then Some None
      else Option.bind (find_substring_icase_ascii_bytes query (utf8 text) True) (\<lambda>boundary.
        case boundary of
          Some start \<Rightarrow> Some (Some (BoundarySubstring start))
        | None \<Rightarrow> Option.bind (find_substring_icase_ascii_bytes query (utf8 text) False) (\<lambda>plain.
            case plain of
              Some start \<Rightarrow> Some (Some (MatchSubstring start))
            | None \<Rightarrow> Some (Some MatchSubsequence))))"

record fuzzy_match =
  entry_idx :: nat
  match_positions :: "nat list"
  match_count :: nat
  score :: int

definition contiguous_match :: "nat \<Rightarrow> int \<Rightarrow> nat \<Rightarrow> nat \<Rightarrow> fuzzy_match" where
  "contiguous_match idx sc start len =
     (let count = min (min len 32) 255 in
      \<lparr>entry_idx = idx, match_positions = map (\<lambda>offset. if offset < count then start + offset else 0) [0..<32],
       match_count = count, score = sc\<rparr>)"

definition materialize_match :: "(cp \<Rightarrow> cp) \<Rightarrow> match_rank \<Rightarrow> nat \<Rightarrow> ustring \<Rightarrow> bytes \<Rightarrow> ustring option \<Rightarrow> fuzzy_match option" where
  "materialize_match lower rank idx text bytes chars =
     (let len = (case chars of None \<Rightarrow> length bytes | Some query \<Rightarrow> length query) in
      case rank of
        MatchEmpty \<Rightarrow> Some (contiguous_match idx 0 0 0)
      | MatchPrefix \<Rightarrow> Some (contiguous_match idx 3 0 len)
      | BoundarySubstring start \<Rightarrow> Some (contiguous_match idx 2 start len)
      | MatchSubstring start \<Rightarrow> Some (contiguous_match idx 1 start len)
      | MatchSubsequence \<Rightarrow>
          map_option (\<lambda>(positions, count).
              \<lparr>entry_idx = idx, match_positions = positions, match_count = count, score = 0\<rparr>)
            (case chars of
               None \<Rightarrow> subsequence_match_ascii_bytes bytes (utf8 text)
             | Some query \<Rightarrow> subsequence_match lower query text))"

subsection \<open>Bytes and characters agree\<close>

definition ascii_lower :: "cp \<Rightarrow> cp" where
  "ascii_lower c = (if 65 \<le> c \<and> c \<le> 90 then c + 32 else c)"

text \<open>What the proofs use of the Unicode table.\<close>

definition folds_ascii :: "(cp \<Rightarrow> cp) \<Rightarrow> bool" where
  "folds_ascii lower \<longleftrightarrow> (\<forall>c < 128. lower c = ascii_lower c)"

lemma lower8_byte: "c < 128 \<Longrightarrow> lower8 (byte c) = byte (ascii_lower c)"
proof -
  assume "c < 128"
  then have "65 \<le> byte c \<longleftrightarrow> 65 \<le> c" "byte c \<le> 90 \<longleftrightarrow> c \<le> 90" by (simp_all add: word_le_nat_alt)
  moreover have "byte c + 32 = byte (c + 32)" by (simp add: byte_def)
  ultimately show ?thesis by (simp add: lower8_def ascii_lower_def)
qed

lemma ascii_lower_less: "c < 128 \<Longrightarrow> ascii_lower c < 128"
  by (simp add: ascii_lower_def)

lemma lower8_fold: "folds_ascii lower \<Longrightarrow> c < 128 \<Longrightarrow> lower8 (byte c) = byte (lower c)"
  by (simp add: folds_ascii_def lower8_byte)

lemma lower_less: "folds_ascii lower \<Longrightarrow> c < 128 \<Longrightarrow> lower c < 128"
  by (simp add: folds_ascii_def ascii_lower_less)

lemma unat_lower8: "unat (lower8 b) = ascii_lower (unat b)"
proof -
  have "b \<le> 90 \<Longrightarrow> unat (b + 32) = unat b + 32" by (subst unat_add_lem [THEN iffD1]) (simp_all add: word_le_nat_alt)
  then show ?thesis by (simp add: lower8_def ascii_lower_def word_le_nat_alt)
qed

lemma unat_upper8: "unat (upper8 b) = (if 97 \<le> unat b \<and> unat b \<le> 122 then unat b - 32 else unat b)"
proof -
  have "97 \<le> b \<Longrightarrow> unat (b - 32) = unat b - 32" by (subst unat_sub) (simp_all add: word_le_nat_alt)
  then show ?thesis by (simp add: upper8_def word_le_nat_alt)
qed

lemma lower8_fixed: "lower8 q = q \<Longrightarrow> b = q \<or> b = upper8 q \<longleftrightarrow> lower8 b = q"
  unfolding word_unat_eq_iff unat_lower8 unat_upper8 ascii_lower_def
  by (cases "97 \<le> unat q \<and> unat q \<le> 122") (auto split: if_splits)

lemma utf8_ascii: "is_ascii s \<Longrightarrow> utf8 s = map byte s"
  by (induction s) (auto simp: is_ascii_def encode_utf8_def)

lemma map_unat_byte: "is_ascii s \<Longrightarrow> map unat (map byte s) = s"
  by (induction s) (auto simp: is_ascii_def)

lemma map_lower8: "folds_ascii lower \<Longrightarrow> is_ascii t \<Longrightarrow> map lower8 (map byte t) = map byte (map lower t)"
  by (auto simp: is_ascii_def list_all_iff lower8_fold)

lemma is_ascii_lower: "folds_ascii lower \<Longrightarrow> is_ascii t \<Longrightarrow> is_ascii (map lower t)"
  by (auto simp: is_ascii_def list_all_iff lower_less)

lemma byte_eq: "c < 256 \<Longrightarrow> d < 256 \<Longrightarrow> byte c = byte d \<longleftrightarrow> c = d"
  by (metis unat_byte)

lemma boundary_byte: "c < 128 \<Longrightarrow> is_word_boundary_byte (byte c) = is_word_boundary_char c"
  using byte_eq [of c 47] byte_eq [of c 45] byte_eq [of c 95] byte_eq [of c 46] byte_eq [of c 32] byte_eq [of c 9]
  by (simp add: is_word_boundary_byte_def is_word_boundary_char_def byte_def [of "numeral _"])

lemma prefix_bytes: "is_ascii q \<Longrightarrow> is_ascii t \<Longrightarrow> prefix (map byte q) (map byte t) = prefix q t"
  by (metis map_mono_prefix map_unat_byte)

lemma subseq_bytes: "is_ascii q \<Longrightarrow> is_ascii t \<Longrightarrow> subseq (map byte q) (map byte t) = subseq q t"
  by (metis subseq_map map_unat_byte)

lemma starts_with_icase_prefix: "starts_with_icase lower q t \<longleftrightarrow> prefix q (map lower t)"
  by (induction lower q t rule: starts_with_icase.induct) auto

lemma list_all_zip: "length xs = length ys \<Longrightarrow> list_all (\<lambda>(x, y). f x = y) (zip xs ys) \<longleftrightarrow> map f xs = ys"
  by (induction xs ys rule: list_induct2) auto

lemma starts_with_icase_ascii_prefix: "starts_with_icase_ascii q t \<longleftrightarrow> prefix q (map lower8 t)"
proof -
  have "length q \<le> length t \<Longrightarrow> map lower8 (take (length q) t) = q \<longleftrightarrow> prefix q (map lower8 t)"
    by (metis take_map prefix_def append_take_drop_id append_eq_conv_conj)
  then show ?thesis
    using list_all_zip [of "take (length q) t" q lower8] prefix_length_le [of q "map lower8 t"]
    by (auto simp: starts_with_icase_ascii_def)
qed

lemma starts_with_bytes:
  assumes "folds_ascii lower" "is_ascii q" "is_ascii t"
  shows "starts_with_icase_ascii (map byte q) (utf8 t) = starts_with_icase lower q t"
  using assms by (simp only: starts_with_icase_ascii_prefix starts_with_icase_prefix utf8_ascii map_lower8
      prefix_bytes is_ascii_lower)

subsection \<open>The first start of a substring\<close>

definition matches_at :: "('a \<Rightarrow> 'c) \<Rightarrow> 'c list \<Rightarrow> 'a list \<Rightarrow> nat \<Rightarrow> bool" where
  "matches_at low query text start \<longleftrightarrow> map low (slice start (start + length query) text) = query"

definition starts_word :: "ustring \<Rightarrow> nat \<Rightarrow> bool" where
  "starts_word text start \<longleftrightarrow> start = 0 \<or> is_word_boundary_char (text ! (start - 1))"

definition first_match :: "(cp \<Rightarrow> cp) \<Rightarrow> ustring \<Rightarrow> ustring \<Rightarrow> bool \<Rightarrow> nat option" where
  "first_match lower query text boundary_only =
     List.find (\<lambda>start. (boundary_only \<longrightarrow> starts_word text start) \<and> matches_at lower query text start)
       [0..<length text + 1 - length query]"

lemma matches_at_zip:
  "start + length q \<le> length text \<Longrightarrow>
   list_all (\<lambda>(b, q). low b = q) (zip (slice start (start + length q) text) q) = matches_at low q text start"
  using list_all_zip [of "slice start (start + length q) text" q low] by (simp add: matches_at_def length_slice)

lemma matches_at_enumerate:
  "start + length q \<le> length text \<Longrightarrow>
   list_all (\<lambda>(offset, q). low (text ! (start + offset)) = f q) (enumerate 0 q) = matches_at low (map f q) text start"
  by (auto simp: list_all_length matches_at_def list_eq_iff_nth_eq slice_def nth_enumerate_eq)

lemma matches_at_bytes:
  assumes "folds_ascii lower" "is_ascii q" "is_ascii t"
  shows "matches_at lower8 (map byte q) (map byte t) start = matches_at lower q t start"
proof -
  let ?s = "slice start (start + length q) t"
  have s: "is_ascii ?s" using assms(3) by (auto simp: is_ascii_def list_all_iff slice_def dest: in_set_takeD in_set_dropD)
  have "map lower8 (slice start (start + length q) (map byte t)) = map byte (map lower ?s)"
    using map_lower8 [OF assms(1) s] by (simp add: slice_def take_map drop_map)
  moreover have "map byte (map lower ?s) = map byte q \<longleftrightarrow> map lower ?s = q"
    using map_unat_byte [OF assms(2)] map_unat_byte [OF is_ascii_lower [OF assms(1) s]] by metis
  ultimately show ?thesis by (simp add: matches_at_def)
qed

lemma starts_word_bytes:
  assumes "is_ascii t" "start \<le> length t"
  shows "(start = 0 \<or> is_word_boundary_byte (map byte t ! (start - 1))) = starts_word t start"
proof (cases start)
  case (Suc n)
  then have "t ! n < 128" using assms by (auto simp: is_ascii_def list_all_length)
  then show ?thesis using Suc assms by (simp add: starts_word_def boundary_byte)
qed (simp add: starts_word_def)

lemma find_none_range: "n \<le> m \<Longrightarrow> List.find P [m..<n] = None"
  by simp

lemma find_substring_icase_correct:
  assumes "folds_ascii lower"
  shows "find_substring_icase lower q t b = first_match lower q t b"
proof (cases "q = []")
  case True
  then have "[0..<length t + 1 - length q] = 0 # [1..<length t + 1]" by (simp add: upt_conv_Cons del: upt_Suc)
  then show ?thesis unfolding first_match_def using True
    by (simp add: find_substring_icase_def starts_word_def matches_at_def slice_def)
next
  case False
  show ?thesis
  proof (cases "length t < length q")
    case True
    then show ?thesis using False
      by (auto simp: find_substring_icase_def find_substring_icase_ascii_def first_match_def utf8_ascii)
  next
    case long: False
    then have range: "length t - length q + 1 = length t + 1 - length q" by simp
    show ?thesis
    proof (cases "is_ascii t \<and> is_ascii q")
      case True
      let ?ok = "\<lambda>start. \<not> (b \<and> 0 < start \<and> \<not> is_word_boundary_byte (map byte t ! (start - 1))) \<and>
        list_all (\<lambda>(offset, q). lower8 (map byte t ! (start + offset)) = byte q) (enumerate 0 q)"
      have ok: "?ok start = ((b \<longrightarrow> starts_word t start) \<and> matches_at lower q t start)"
        if "start \<in> set [0..<length t - length q + 1]" for start
      proof -
        have "start + length q \<le> length (map byte t)" "start \<le> length t" using that long by auto
        then show ?thesis using True assms
          by (simp only: matches_at_enumerate matches_at_bytes starts_word_bytes [symmetric]) auto
      qed
      have "find_substring_icase lower q t b = List.find ?ok [0..<length t - length q + 1]"
        using True False long by (simp add: find_substring_icase_def find_substring_icase_ascii_def utf8_ascii del: upt_Suc)
      also have "\<dots> = first_match lower q t b"
        unfolding first_match_def range [symmetric] by (rule find_cong [OF refl ok])
      finally show ?thesis .
    next
      case not_ascii: False
      let ?ok = "\<lambda>start. \<not> (b \<and> 0 < start \<and> \<not> is_word_boundary_char (t ! (start - 1))) \<and>
        list_all (\<lambda>(tc, q). lower tc = q) (zip (slice start (start + length q) t) q)"
      have ok: "?ok start = ((b \<longrightarrow> starts_word t start) \<and> matches_at lower q t start)"
        if "start \<in> set [0..<length t - length q + 1]" for start
      proof -
        have "start + length q \<le> length t" using that long by auto
        then show ?thesis by (simp only: matches_at_zip starts_word_def) auto
      qed
      have "find_substring_icase lower q t b = List.find ?ok [0..<length t - length q + 1]"
        using not_ascii False long by (auto simp: find_substring_icase_def simp del: upt_Suc)
      also have "\<dots> = first_match lower q t b"
        unfolding first_match_def range [symmetric] by (rule find_cong [OF refl ok])
      finally show ?thesis .
    qed
  qed
qed

lemma find_skip:
  assumes "\<And>i. m \<le> i \<Longrightarrow> i < k \<Longrightarrow> \<not> P i" "m \<le> k" "k < n"
  shows "List.find P [m..<n] = (if P k then Some k else List.find P [Suc k..<n])"
  using assms
proof (induction "k - m" arbitrary: m)
  case 0
  then show ?case by (simp add: upt_conv_Cons)
next
  case (Suc d)
  then have "\<not> P m" "m < n" by auto
  then show ?case using Suc.hyps(1) [of "Suc m"] Suc.prems Suc.hyps(2) by (simp add: upt_conv_Cons)
qed

lemma matches_at_Cons:
  "start < length text \<Longrightarrow>
   matches_at low (q # qs) text start \<longleftrightarrow> low (text ! start) = q \<and> matches_at low qs text (start + 1)"
  by (auto simp: matches_at_def slice_def Cons_nth_drop_Suc [symmetric])

lemma find_from_correct:
  assumes "lower8 q = q" "length (q # qs) \<le> length t"
  shows "find_from q qs t b start =
    List.find (\<lambda>s. (b \<longrightarrow> s = 0 \<or> is_word_boundary_byte (t ! (s - 1))) \<and> matches_at lower8 (q # qs) t s)
      [start..<length t + 1 - length (q # qs)]"
  using assms
proof (induction q qs t b start rule: find_from.induct)
  case (1 q qs t b start)
  let ?last = "length t - length (q # qs)"
  let ?P = "\<lambda>s. (b \<longrightarrow> s = 0 \<or> is_word_boundary_byte (t ! (s - 1))) \<and> matches_at lower8 (q # qs) t s"
  have n: "length t + 1 - length (q # qs) = ?last + 1" using 1(3) by simp
  have first: "matches_at lower8 (q # qs) t s \<Longrightarrow> lower8 (t ! s) = q" if "s \<le> ?last" for s
    using that 1(3) by (subst (asm) matches_at_Cons) auto
  show ?case
  proof (cases "?last < start")
    case True
    then show ?thesis unfolding n by (simp add: find_from.simps [of q qs t b start])
  next
    case False
    show ?thesis
    proof (cases "position (\<lambda>b. b = q \<or> b = upper8 q) (slice start (?last + 1) t)")
      case None
      have "\<not> ?P s" if "s \<in> set [start..<?last + 1]" for s
      proof
        assume "?P s"
        then have "lower8 (t ! s) = q" using first that by auto
        moreover have "t ! s \<in> set (slice start (?last + 1) t)"
          using that 1(3) by (auto simp: slice_def in_set_conv_nth intro!: exI [of _ "s - start"])
        ultimately show False using None lower8_fixed [OF 1(2)] by (auto simp: position_None)
      qed
      then have "List.find ?P [start..<?last + 1] = None" by (subst find_None_iff) auto
      then show ?thesis unfolding n using None False
        by (simp add: find_from.simps [of q qs t b start] find_either_byte_correct Let_def del: upt_Suc)
    next
      case (Some skip)
      let ?s = "start + skip"
      have at: "skip < ?last + 1 - start" "lower8 (t ! ?s) = q"
        and none: "\<And>j. j < skip \<Longrightarrow> lower8 (t ! (start + j)) \<noteq> q"
        using Some lower8_fixed [OF 1(2)] 1(3) False by (auto simp: position_Some slice_def)
      have s: "?s < ?last + 1" using at(1) by simp
      have "\<not> ?P i" if "start \<le> i" "i < ?s" for i
        using none [of "i - start"] first [of i] that s by auto
      then have find: "List.find ?P [start..<?last + 1] = (if ?P ?s then Some ?s else List.find ?P [Suc ?s..<?last + 1])"
        using s by (intro find_skip) auto
      have len: "?s + 1 + length qs \<le> length t" using s 1(3) by simp
      let ?ok = "((?s = 0 \<or> is_word_boundary_byte (t ! (?s - 1))) \<or> \<not> b) \<and>
        list_all (\<lambda>(b, q). lower8 b = q) (zip (slice (?s + 1) (?s + length (q # qs)) t) qs)"
      have "matches_at lower8 (q # qs) t ?s \<longleftrightarrow> matches_at lower8 qs t (?s + 1)"
        using at(2) s 1(3) by (subst matches_at_Cons) auto
      then have ok: "?ok \<longleftrightarrow> ?P ?s" using matches_at_zip [OF len, of lower8] by auto
      have step: "find_from q qs t b start = (if ?ok then Some ?s else find_from q qs t b (?s + 1))"
        using Some False by (simp add: find_from.simps [of q qs t b start] find_either_byte_correct Let_def)
      have IH: "\<not> ?ok \<Longrightarrow> find_from q qs t b (?s + 1) = List.find ?P [?s + 1..<?last + 1]"
        using 1(1) [OF refl False, unfolded find_either_byte_correct, OF Some refl refl] 1(2,3) unfolding n by blast
      show ?thesis unfolding n step find ok [symmetric] Suc_eq_plus1
        using IH by (cases ?ok) (simp_all only: simp_thms if_True if_False)
    qed
  qed
qed

lemma find_substring_bytes:
  assumes "folds_ascii lower" "is_ascii q" "is_ascii t" "q \<noteq> []" "map lower q = q"
  shows "find_substring_icase_ascii_bytes (map byte q) (utf8 t) b = Some (first_match lower q t b)"
proof (cases "length t < length q")
  case True
  then show ?thesis using assms by (simp add: find_substring_icase_ascii_bytes_def first_match_def utf8_ascii)
next
  case False
  obtain c cs where q: "q = c # cs" using assms(4) by (cases q) auto
  have low: "lower8 (byte c) = byte c" using assms q by (simp add: is_ascii_def lower8_fold)
  let ?P = "\<lambda>s. (b \<longrightarrow> s = 0 \<or> is_word_boundary_byte (map byte t ! (s - 1))) \<and> matches_at lower8 (map byte q) (map byte t) s"
  have "?P s = ((b \<longrightarrow> starts_word t s) \<and> matches_at lower q t s)" if "s \<in> set [0..<length t + 1 - length q]" for s
  proof -
    have "s \<le> length t" using that False by auto
    then show ?thesis using assms by (simp only: matches_at_bytes starts_word_bytes)
  qed
  then have "List.find ?P [0..<length t + 1 - length q] = first_match lower q t b"
    unfolding first_match_def by (rule find_cong [OF refl])
  then have "find_from (byte c) (map byte cs) (map byte t) b 0 = first_match lower q t b"
    using False q low find_from_correct [of "byte c" "map byte cs" "map byte t" b 0] by simp
  then show ?thesis using False q assms(3) by (simp add: find_substring_icase_ascii_bytes_def utf8_ascii)
qed

subsection \<open>Subsequences\<close>

lemma subseq_position:
  "subseq (c # q) t \<longleftrightarrow> (case position (\<lambda>b. b = c) t of None \<Rightarrow> False | Some at \<Rightarrow> subseq q (drop (at + 1) t))"
  by (induction t) (auto split: option.splits)

lemma is_subsequence_ascii_subseq:
  assumes "map lower8 q = q"
  shows "is_subsequence_ascii_bytes q t = subseq q (map lower8 t)"
  using assms
proof (induction q arbitrary: t)
  case (Cons c q)
  then have c: "b = c \<or> b = upper8 c \<longleftrightarrow> lower8 b = c" for b using lower8_fixed by simp
  then have find: "find_either_byte t c (upper8 c) = position (\<lambda>b. b = c) (map lower8 t)"
    by (simp add: find_either_byte_correct position_map comp_def)
  show ?case
  proof (cases "t \<noteq> [] \<and> lower8 (hd t) = c")
    case True
    then obtain b t' where t: "t = b # t'" "lower8 b = c" by (cases t) auto
    then have "is_subsequence_ascii_bytes (c # q) t = is_subsequence_ascii_bytes q t'" using c by (simp add: Let_def)
    then show ?thesis using Cons t by simp
  next
    case False
    then have "is_subsequence_ascii_bytes (c # q) t =
        (case position (\<lambda>b. b = c) (map lower8 t) of None \<Rightarrow> False | Some at \<Rightarrow> is_subsequence_ascii_bytes q (drop (at + 1) t))"
      using c find by (auto simp: Let_def)
    then show ?thesis unfolding subseq_position using Cons by (simp add: drop_map split: option.splits)
  qed
qed simp

lemma is_subsequence_bytes:
  assumes "folds_ascii lower" "is_ascii q" "is_ascii t" "map lower q = q"
  shows "is_subsequence_ascii_bytes (map byte q) (utf8 t) = subseq q (map lower t)"
proof -
  have "map lower8 (map byte q) = map byte q" using assms by (simp add: map_lower8 del: map_map)
  then show ?thesis using assms
    by (simp only: is_subsequence_ascii_subseq utf8_ascii map_lower8 subseq_bytes is_ascii_lower)
qed

lemma forward_subseq: "q \<noteq> [] \<Longrightarrow> forward low q ti t = None \<longleftrightarrow> \<not> subseq q (map low t)"
proof (induction low q ti t rule: forward.induct)
  case (1 low q qs ti b bs)
  then show ?case by (cases qs) auto
qed (auto simp: neq_Nil_conv)

lemma forward_shift: "forward low q (Suc ti) t = map_option Suc (forward low q ti t)"
  by (induction low q ti t rule: forward.induct) (auto split: if_splits)

text \<open>The result of the forward pass ends a match.\<close>

lemma forward_Some:
  "forward low q 0 t = Some e \<Longrightarrow> e < length t \<and> subseq q (map low (take (Suc e) t))"
proof (induction t arbitrary: q e)
  case Nil
  then show ?case by (cases q) auto
next
  case (Cons b t)
  show ?case
  proof (cases q)
    case (Cons c qs)
    then show ?thesis using Cons.prems Cons.IH forward_shift [of low _ 0 t]
      by (auto split: if_splits simp: One_nat_def [symmetric] simp del: One_nat_def)
  qed (use Cons.prems in simp)
qed

abbreviation fold_snd :: "('a \<Rightarrow> 'c) \<Rightarrow> (nat \<times> 'a) list \<Rightarrow> 'c list" where
  "fold_snd low ps \<equiv> map (\<lambda>p. low (snd p)) ps"

lemma backward_from_split:
  "q \<noteq> [] \<Longrightarrow> subseq q (fold_snd low ps) \<Longrightarrow>
   \<exists>us x vs. ps = us @ x # vs \<and> fst x = backward_from low q ps \<and> subseq q (fold_snd low (us @ [x]))"
proof (induction low q ps rule: backward_from.induct)
  case (1 low q qs ti b rest)
  show ?case
  proof (cases "low b = q \<and> qs = []")
    case True
    then have "(ti, b) # rest = [] @ (ti, b) # rest \<and> fst (ti, b) = backward_from low (q # qs) ((ti, b) # rest) \<and>
      subseq (q # qs) (fold_snd low ([] @ [(ti, b)]))" by simp
    then show ?thesis by blast
  next
    case False
    let ?q = "if low b = q then qs else q # qs"
    have "subseq ?q (fold_snd low rest)" "?q \<noteq> []" using 1(4) False by (auto split: if_splits)
    then have "\<exists>us x vs. rest = us @ x # vs \<and> fst x = backward_from low ?q rest \<and> subseq ?q (fold_snd low (us @ [x]))"
    proof (cases "low b = q")
      case True
      then show ?thesis using 1(1) [OF True] 1(3) False \<open>subseq ?q (fold_snd low rest)\<close> by simp
    next
      case other: False
      then show ?thesis using 1(2) [OF other] \<open>subseq ?q (fold_snd low rest)\<close> by simp
    qed
    then obtain us x vs where u: "rest = us @ x # vs" "fst x = backward_from low ?q rest"
        "subseq ?q (fold_snd low (us @ [x]))" by blast
    then have "(ti, b) # rest = ((ti, b) # us) @ x # vs \<and> fst x = backward_from low (q # qs) ((ti, b) # rest) \<and>
      subseq (q # qs) (fold_snd low (((ti, b) # us) @ [x]))" using False by (auto split: if_splits)
    then show ?thesis by blast
  qed
qed (auto simp: neq_Nil_conv)

lemma fold_snd_enumerate: "fold_snd low (enumerate n t) = map low t"
  by (induction t arbitrary: n) auto

lemma subseq_rev_mono: "subseq xs ys \<Longrightarrow> subseq (rev xs) (rev ys)"
  by (induction rule: list_emb.induct) (auto intro: subseq_rev_drop_many list_emb_append_mono)

lemma subseq_rev: "subseq (rev xs) (rev ys) = subseq xs ys"
  using subseq_rev_mono [of xs ys] subseq_rev_mono [of "rev xs" "rev ys"] by auto

lemma backward_window:
  assumes "q \<noteq> []" "subseq q (map low (take (Suc e) t))" "e < length t"
  shows "backward low t q e \<le> e \<and> subseq q (map low (drop (backward low t q e) (take (Suc e) t)))"
proof -
  let ?ps = "take (Suc e) (enumerate 0 t)"
  have "subseq (rev q) (fold_snd low (rev ?ps))"
    using assms(2) by (simp only: rev_map [symmetric] take_map [symmetric] fold_snd_enumerate subseq_rev)
  then obtain us x vs where s: "rev ?ps = us @ x # vs" "fst x = backward low t q e"
      "subseq (rev q) (fold_snd low (us @ [x]))"
    using backward_from_split [of "rev q" low "rev ?ps"] assms(1) by (auto simp: backward_def)
  then have ps: "?ps = rev vs @ x # rev us" by (metis append_assoc append_Cons append_Nil rev.simps(2) rev_append rev_rev_ident)
  then have k: "length vs < length ?ps" "?ps ! length vs = x" by (auto simp: nth_append)
  then have "fst x = length vs" using assms(3) by (auto simp: nth_enumerate_eq)
  moreover have "subseq q (fold_snd low (x # rev us))"
    using s(3) by (metis subseq_rev rev_map rev_rev_ident rev.simps(2))
  moreover have "x # rev us = drop (length vs) ?ps" using ps by simp
  ultimately show ?thesis using k(1) s(2)
    by (auto simp: take_map [symmetric] drop_map [symmetric] fold_snd_enumerate simp del: drop_take take_map drop_map)
qed

lemma last_end_range: "e < length t \<Longrightarrow> e \<le> last_end low c e t \<and> last_end low c e t < length t"
proof -
  assume e: "e < length t"
  have "fold (\<lambda>(ti, b) found. if low b = c then ti else found) ps found \<in> insert found (fst ` set ps)" for ps :: "(nat \<times> 'a) list" and found
    by (induction ps arbitrary: found) (fastforce split: if_splits)+
  moreover have "i \<in> fst ` set (drop (e + 1) (enumerate 0 t)) \<Longrightarrow> e < i \<and> i < length t" for i
    by (auto simp: in_set_conv_nth nth_enumerate_eq)
  ultimately show ?thesis using e by (metis insertE last_end_def less_imp_le order_refl)
qed

lemma match_window_subseq:
  assumes "q \<noteq> []" "subseq q (map low (take (Suc e) t))" "e < length t" "match_window low q t e = (ws, we)"
  shows "subseq q (map low (drop ws (take (Suc we) t)))"
proof -
  let ?l = "last_end low (last q) e t"
  have "take (Suc e) t = take (Suc e) (take (Suc ?l) t)" using last_end_range [OF assms(3), of low "last q"] by (simp add: min_def)
  then have "subseq (map low (take (Suc e) t)) (map low (take (Suc ?l) t))"
    by (metis prefix_imp_subseq subseq_map take_is_prefix)
  then have "subseq q (map low (take (Suc ?l) t))" using assms(2) subseq_order.trans by blast
  then show ?thesis
    using backward_window [OF assms(1,2,3)] backward_window [OF assms(1), of low ?l t] last_end_range [OF assms(3), of low "last q"] assms(4)
    by (auto simp: match_window_def Let_def split: if_splits)
qed

lemma record_positions_correct:
  assumes "length positions = 32" "subseq q (fold_snd low ps)"
  shows "\<exists>zs. subseq zs ps \<and> fold_snd low zs = q \<and> length (record_positions low q ps qi positions) = 32 \<and>
    (\<forall>j < 32. record_positions low q ps qi positions ! j =
      (if qi \<le> j \<and> j < qi + length q then fst (zs ! (j - qi)) else positions ! j))"
  using assms
proof (induction low q ps qi positions rule: record_positions.induct)
  case (1 low q qs ti b rest qi positions)
  show ?case
  proof (cases "low b = q")
    case False
    then have "subseq (q # qs) (fold_snd low rest)" using 1(4) by simp
    moreover have "record_positions low (q # qs) ((ti, b) # rest) qi positions = record_positions low (q # qs) rest qi positions"
      using False by simp
    ultimately show ?thesis using 1(2) [OF False 1(3)] by (metis list_emb_Cons)
  next
    case True
    let ?new = "if qi < 32 then positions[qi := ti] else positions"
    have sub: "subseq qs (fold_snd low rest)" using 1(4) True by (auto split: if_splits)
    obtain zs where z: "subseq zs rest" "fold_snd low zs = qs"
        "length (record_positions low qs rest (qi + 1) ?new) = 32"
        "\<forall>j < 32. record_positions low qs rest (qi + 1) ?new ! j =
          (if qi + 1 \<le> j \<and> j < qi + 1 + length qs then fst (zs ! (j - (qi + 1))) else ?new ! j)"
    proof (cases "qs = []")
      case True
      then show ?thesis using that [of "[]"] 1(3) by auto
    next
      case False
      have "length ?new = 32" using 1(3) by simp
      then show ?thesis using that 1(1) [OF True refl False _ sub] by blast
    qed
    have step: "record_positions low (q # qs) ((ti, b) # rest) qi positions = record_positions low qs rest (qi + 1) ?new"
      using True by (simp add: Let_def)
    have new: "?new ! j = (if j = qi then ti else positions ! j)" if "j < 32" for j using that 1(3) by auto
    have "record_positions low (q # qs) ((ti, b) # rest) qi positions ! j =
        (if qi \<le> j \<and> j < qi + length (q # qs) then fst (((ti, b) # zs) ! (j - qi)) else positions ! j)" if "j < 32" for j
    proof (cases "qi + 1 \<le> j \<and> j < qi + 1 + length qs")
      case True
      then have "j - qi = Suc (j - (qi + 1))" by linarith
      then show ?thesis unfolding step using z(4) that True by simp
    next
      case False
      then show ?thesis unfolding step using z(4) that new by (cases "j = qi") auto
    qed
    then show ?thesis using z True unfolding step by (intro exI [of _ "(ti, b) # zs"]) auto
  qed
qed (auto dest: list_emb_Nil2)

text \<open>The positions name, in order, characters of the text that match the query.\<close>

definition good_positions :: "('a \<Rightarrow> 'c) \<Rightarrow> 'c list \<Rightarrow> 'a list \<Rightarrow> nat list \<Rightarrow> nat \<Rightarrow> bool" where
  "good_positions low q t ps n \<longleftrightarrow> n = min (length q) 32 \<and> length ps = 32 \<and>
     (\<exists>is. sorted_wrt (<) is \<and> (\<forall>i \<in> set is. i < length t) \<and> map (\<lambda>i. low (t ! i)) is = q \<and> take n ps = take n is)"

lemma subseq_subset: "subseq xs ys \<Longrightarrow> set xs \<subseteq> set ys"
  by (induction rule: list_emb.induct) auto

lemma sorted_wrt_subseq: "subseq xs ys \<Longrightarrow> sorted_wrt P ys \<Longrightarrow> sorted_wrt P xs"
  by (induction rule: list_emb.induct) (auto dest: subseq_subset)

lemma subseq_enumerate:
  assumes "subseq zs (enumerate 0 t)"
  shows "sorted_wrt (<) (map fst zs) \<and> (\<forall>z \<in> set zs. fst z < length t \<and> t ! fst z = snd z)"
proof -
  have "subseq (map fst zs) [0..<length t]" using subseq_map [OF assms, of fst] by (simp add: map_fst_enumerate)
  then have "sorted_wrt (<) (map fst zs)"
    by (rule sorted_wrt_subseq) simp
  moreover have "set zs \<subseteq> set (enumerate 0 t)"
    using assms by (rule subseq_subset)
  ultimately show ?thesis by (auto simp: in_set_enumerate_eq)
qed

lemma subsequence_positions_Some:
  assumes "q \<noteq> []" "subsequence_positions low q t = Some (ps, n)"
  shows "good_positions low q t ps n"
proof -
  obtain e ws we where e: "forward low q 0 t = Some e" and w: "match_window low q t e = (ws, we)"
    and ps: "ps = record_positions low q (drop ws (take (we + 1) (enumerate 0 t))) 0 (replicate 32 0)"
    and n: "n = min (length q) 32"
    using assms(2) by (auto simp: subsequence_positions_def split: option.splits prod.splits)
  let ?ps = "drop ws (take (we + 1) (enumerate 0 t))"
  have "subseq q (fold_snd low ?ps)"
    using forward_Some [OF e] match_window_subseq [OF assms(1) _ _ w]
    by (simp add: drop_map [symmetric] take_map [symmetric] fold_snd_enumerate del: drop_map take_map)
  then obtain zs where z: "subseq zs ?ps" "fold_snd low zs = q" "length ps = 32"
      "\<forall>j < 32. ps ! j = (if j < length q then fst (zs ! j) else replicate 32 0 ! j)"
    using record_positions_correct [of "replicate 32 0" q low ?ps 0] unfolding ps by auto
  have "subseq zs (enumerate 0 t)"
    using z(1) by (meson subseq_order.trans suffix_imp_subseq suffix_drop prefix_imp_subseq take_is_prefix)
  note sub = subseq_enumerate [OF this]
  have "length zs = length q" using z(2) by (metis length_map)
  then have "take n ps = take n (map fst zs)" using z(3,4) by (intro nth_equalityI) (auto simp: n)
  moreover have "map (\<lambda>i. low (t ! i)) (map fst zs) = q" using sub z(2) by (auto simp: comp_def intro: map_cong)
  ultimately show ?thesis using sub z(3) n unfolding good_positions_def by (intro conjI exI [of _ "map fst zs"]) auto
qed

lemma subsequence_positions_None: "q \<noteq> [] \<Longrightarrow> subsequence_positions low q t = None \<longleftrightarrow> \<not> subseq q (map low t)"
  using forward_subseq [of q low 0 t] by (auto simp: subsequence_positions_def split: option.splits prod.splits)

lemma good_positions_bytes:
  assumes "folds_ascii lower" "is_ascii q" "is_ascii t"
  shows "good_positions lower8 (map byte q) (map byte t) ps n \<Longrightarrow> good_positions lower q t ps n"
proof -
  have "map (\<lambda>i. lower (t ! i)) is = q"
    if i: "\<forall>i \<in> set is. i < length t" "map (\<lambda>i. lower8 (map byte t ! i)) is = map byte q" for "is"
  proof -
    let ?s = "map ((!) t) is"
    have s: "is_ascii ?s" using assms(3) i(1) by (auto simp: is_ascii_def list_all_length list_all_iff)
    have "map lower8 (map byte ?s) = map byte q" using i by (auto simp: list_eq_iff_nth_eq)
    then show ?thesis using map_lower8 [OF assms(1) s] map_unat_byte [OF is_ascii_lower [OF assms(1) s]] map_unat_byte [OF assms(2)]
      by (metis (no_types, lifting) map_map comp_def map_eq_conv)
  qed
  then show "good_positions lower8 (map byte q) (map byte t) ps n \<Longrightarrow> ?thesis"
    unfolding good_positions_def by auto
qed

lemma subsequence_match_correct:
  assumes "folds_ascii lower"
  shows "case subsequence_match lower q t of
      None \<Rightarrow> \<not> subseq q (map lower t)
    | Some (ps, n) \<Rightarrow> subseq q (map lower t) \<and> good_positions lower q t ps n"
proof (cases "q = []")
  case True
  then show ?thesis by (auto simp: subsequence_match_def good_positions_def)
next
  case False
  show ?thesis
  proof (cases "is_ascii t \<and> is_ascii q")
    case True
    have "subseq (map byte q) (map lower8 (map byte t)) = subseq q (map lower t)"
      using True assms by (simp add: map_lower8 subseq_bytes is_ascii_lower del: map_map)
    then show ?thesis using True False
        subsequence_positions_None [of "map byte q" lower8 "map byte t"]
        subsequence_positions_Some [of "map byte q" lower8 "map byte t"] good_positions_bytes [OF assms, of q t]
      by (auto simp: subsequence_match_def utf8_ascii split: option.splits)
  next
    case other: False
    then show ?thesis using False subsequence_positions_None [of q lower t] subsequence_positions_Some [of q lower t]
      by (auto simp: subsequence_match_def split: option.splits)
  qed
qed

subsection \<open>Tiers are exact\<close>

lemma find_Some:
  "List.find P [0..<n] = Some s \<longleftrightarrow> s < n \<and> P s \<and> (\<forall>i < s. \<not> P i)"
  by (auto simp: find_Some_iff)

lemma matches_at_sublist: "start + length q \<le> length t \<Longrightarrow> matches_at low q t start \<Longrightarrow> sublist q (map low t)"
proof -
  assume "matches_at low q t start"
  then have "q = take (length q) (drop start (map low t))" by (simp add: matches_at_def slice_def take_map drop_map)
  then have "map low t = take start (map low t) @ q @ drop (length q) (drop start (map low t))"
    by (metis append_take_drop_id)
  then show ?thesis unfolding sublist_def by blast
qed

lemma sublist_matches_at:
  assumes "sublist q (map low t)"
  shows "\<exists>start. start + length q \<le> length t \<and> matches_at low q t start"
proof -
  obtain us vs where s: "map low t = us @ q @ vs" using assms by (auto simp: sublist_def)
  then have "length us + length q \<le> length t" by (metis add_le_mono1 length_append length_map le_add1 add.assoc)
  moreover have "matches_at low q t (length us)"
    using s by (simp add: matches_at_def slice_def take_map [symmetric] drop_map [symmetric])
  ultimately show ?thesis by blast
qed

lemma first_match_range:
  "first_match lower q t b = Some s \<Longrightarrow> s + length q \<le> length t \<and> matches_at lower q t s \<and> (b \<longrightarrow> starts_word t s)"
  by (auto simp: first_match_def find_Some)

lemma first_match_None: "first_match lower q t False = None \<longleftrightarrow> \<not> sublist q (map lower t)"
  using sublist_matches_at [of q lower t] matches_at_sublist [of _ q t lower]
  by (fastforce simp: first_match_def find_None_iff)

text \<open>The declarative meaning of a tier.\<close>

fun rank_means :: "(cp \<Rightarrow> cp) \<Rightarrow> ustring \<Rightarrow> ustring \<Rightarrow> match_rank option \<Rightarrow> bool" where
  "rank_means lower q t None \<longleftrightarrow> \<not> subseq q (map lower t)"
| "rank_means lower q t (Some MatchEmpty) \<longleftrightarrow> False"
| "rank_means lower q t (Some MatchPrefix) \<longleftrightarrow> prefix q (map lower t)"
| "rank_means lower q t (Some (BoundarySubstring s)) \<longleftrightarrow> \<not> prefix q (map lower t) \<and> s + length q \<le> length t \<and>
     starts_word t s \<and> matches_at lower q t s \<and> (\<forall>i < s. \<not> (starts_word t i \<and> matches_at lower q t i))"
| "rank_means lower q t (Some (MatchSubstring s)) \<longleftrightarrow> \<not> prefix q (map lower t) \<and> s + length q \<le> length t \<and>
     matches_at lower q t s \<and> (\<forall>i < s. \<not> matches_at lower q t i) \<and>
     (\<forall>i. i + length q \<le> length t \<longrightarrow> \<not> (starts_word t i \<and> matches_at lower q t i))"
| "rank_means lower q t (Some MatchSubsequence) \<longleftrightarrow> subseq q (map lower t) \<and> \<not> sublist q (map lower t)"

lemma rank_match_unfold:
  "folds_ascii lower \<Longrightarrow> rank_match lower q t =
    (if prefix q (map lower t) then Some MatchPrefix
     else case first_match lower q t True of
       Some start \<Rightarrow> Some (BoundarySubstring start)
     | None \<Rightarrow> (case first_match lower q t False of
         Some start \<Rightarrow> Some (MatchSubstring start)
       | None \<Rightarrow> if subseq q (map lower t) then Some MatchSubsequence else None))"
  using subsequence_match_correct [of lower q t]
  by (auto simp: rank_match_def starts_with_icase_prefix find_substring_icase_correct split: option.splits)

lemma rank_match_exact:
  assumes "folds_ascii lower"
  shows "rank_means lower q t (rank_match lower q t)"
proof -
  have bound: "s < length t + 1 - length q \<longleftrightarrow> s + length q \<le> length t" for s by auto
  show ?thesis
    using first_match_None [of lower q t] sublist_imp_subseq [of q "map lower t"]
    by (auto simp: rank_match_unfold [OF assms] first_match_def find_Some find_None_iff bound split: option.splits)
qed

lemma rank_match_ascii_exact:
  assumes "folds_ascii lower" "is_ascii q" "is_ascii t" "map lower q = q"
  shows "rank_match_ascii (map byte q) t = Some (rank_match lower q t)"
proof (cases "q = []")
  case True
  then show ?thesis using assms starts_with_bytes [OF assms(1-3)]
    by (simp add: rank_match_ascii_def rank_match_def starts_with_icase_prefix)
next
  case False
  have "prefix q (map lower t) \<Longrightarrow> subseq q (map lower t)" by (rule prefix_imp_subseq)
  moreover have "first_match lower q t b = Some s \<Longrightarrow> subseq q (map lower t)" for b s
    using first_match_range matches_at_sublist sublist_imp_subseq by blast
  ultimately show ?thesis
    using assms False starts_with_bytes [OF assms(1-3)]
    by (auto simp: rank_match_ascii_def rank_match_unfold is_subsequence_bytes find_substring_bytes
        starts_with_icase_prefix split: option.splits)
qed

text \<open>The mask of letters rejects no candidate that matches.\<close>

lemma letters_prefilter:
  assumes "folds_ascii lower" "is_ascii q" "is_ascii t" "map lower q = q" "rank_match lower q t \<noteq> None"
  shows "letter_mask (utf8 t) AND letter_mask (map byte q) = letter_mask (map byte q)"
proof (rule letter_mask_subset)
  have "subseq q (map lower t)" using rank_match_exact [OF assms(1), of q t] assms(5)
    by (cases "rank_match lower q t" rule: option.exhaust)
      (auto simp: rank_match_unfold [OF assms(1)] intro: prefix_imp_subseq sublist_imp_subseq matches_at_sublist
        dest!: first_match_range split: option.splits if_splits)
  then have "set q \<subseteq> set (map lower t)" by (rule subseq_subset)
  then have "lower8 ` set (map byte q) \<subseteq> set (map byte (map lower t))"
    using map_lower8 [OF assms(1,2)] assms(4) by (metis (no_types, opaque_lifting) image_mono list.set_map)
  then show "lower8 ` set (map byte q) \<subseteq> lower8 ` set (utf8 t)"
    using map_lower8 [OF assms(1,3)] assms(3) by (metis list.set_map utf8_ascii)
qed

end
