(* ===== verification/History_Index.thy ===== *)
theory History_Index
  imports History_Store Fuzzy_Match
begin

text \<open>
  The history in memory (\<^verbatim>\<open>struct History\<close> of \<^verbatim>\<open>src/history.rs\<close>): the packed texts of the
  commands, their usage counts, the table of latest occurrences, the directories they ran in and
  the list that recall walks.

  The hash of a text is an argument: nothing is assumed of it, so that colliding hashes are
  covered. A function that may panic (a table that outgrows 32 bits) returns an option.
\<close>

subsection \<open>Data\<close>

record usage =
  use_count :: nat
  use_time :: nat

definition no_usage :: usage where
  "no_usage = \<lparr>use_count = 0, use_time = 0\<rparr>"

definition u64_max :: nat where
  "u64_max = 2 ^ 64 - 1"

definition record_use :: "nat \<Rightarrow> usage \<Rightarrow> usage" where
  "record_use t u = \<lparr>use_count = min u64_max (use_count u + 1), use_time = max (use_time u) t\<rparr>"

definition DIRECTORY_NONE :: nat where
  "DIRECTORY_NONE = u32_max"

definition DIRECTORY_DETAILED :: nat where
  "DIRECTORY_DETAILED = u32_max - 1"

definition SESSION_REMOVED :: nat where
  "SESSION_REMOVED = u32_max"

text \<open>A hash map from codes to usages is a list of pairs, in the order the map is iterated.\<close>

datatype directory_detail = Tracked nat usage | Many "(nat \<times> usage) list"

record entry_usage =
  latest_id :: nat
  letters :: u32
  total_usage :: usage
  directories :: nat
  session_position :: "nat option"

record history =
  arena :: bytes
  offsets :: "(nat \<times> nat) list"
  usages :: "entry_usage list"
  index_by_hash :: "u64 \<Rightarrow> nat option"
  latest_occurrences :: "(int \<times> nat) list"
  directory_paths :: "bytes list"
  directory_codes :: "bytes list \<Rightarrow> nat option"
  directory_details :: "nat \<Rightarrow> directory_detail option"
  session :: "nat list"
  session_live :: nat
  hist_generation :: int
  last_id :: int

definition empty_history :: history where
  "empty_history = \<lparr>arena = [], offsets = [], usages = [], index_by_hash = (\<lambda>_. None), latest_occurrences = [],
     directory_paths = [], directory_codes = (\<lambda>_. None), directory_details = (\<lambda>_. None), session = [],
     session_live = 0, hist_generation = 0, last_id = 0\<rparr>"

text \<open>\<^verbatim>\<open>u32::try_from(n).expect(..)\<close>.\<close>

definition expect_u32 :: "nat \<Rightarrow> nat option" where
  "expect_u32 n = (if n \<le> u32_max then Some n else None)"

subsection \<open>Paths\<close>

text \<open>\<^verbatim>\<open>Path::components\<close>: the root is \<^verbatim>\<open>/\<close>; two paths are equal, as keys of a map too, when
  their components are.\<close>

fun split_slash :: "bytes \<Rightarrow> bytes list" where
  "split_slash [] = [[]]"
| "split_slash (b # bs) =
     (if b = 47 then [] # split_slash bs
      else case split_slash bs of [] \<Rightarrow> [[b]] | c # cs \<Rightarrow> (b # c) # cs)"

definition path_components :: "bytes \<Rightarrow> bytes list" where
  "path_components p =
     (if p \<noteq> [] \<and> hd p = 47 then [47] # filter (\<lambda>c. c \<noteq> [] \<and> c \<noteq> [46]) (split_slash p)
      else filter (\<lambda>c. c \<noteq> []) (take 1 (split_slash p)) @ filter (\<lambda>c. c \<noteq> [] \<and> c \<noteq> [46]) (drop 1 (split_slash p)))"

text \<open>\<^verbatim>\<open>Path::ancestors\<close>, as components: the path, its parent and so on, up to the root or, for a
  relative path, to the empty path.\<close>

definition path_ancestors :: "bytes \<Rightarrow> bytes list list" where
  "path_ancestors p =
     (let cs = path_components p; least = (if cs \<noteq> [] \<and> hd cs = [47] then 1 else 0)
      in map (\<lambda>n. take n cs) (rev [least..<length cs + 1]))"

definition ancestor_distance :: "bytes \<Rightarrow> bytes \<Rightarrow> nat option" where
  "ancestor_distance directory here =
     (if \<not> prefix directory here then None
      else if prefix (path_components directory) (path_components here)
      then Some (length (path_components here) - length (path_components directory)) else None)"

subsection \<open>Texts\<close>

definition entry_bytes :: "history \<Rightarrow> nat \<Rightarrow> bytes" where
  "entry_bytes h idx = (case offsets h ! idx of (start, len) \<Rightarrow> slice start (start + len) (arena h))"

text \<open>The text of an entry, as characters.\<close>

definition get_text :: "history \<Rightarrow> nat \<Rightarrow> ustring" where
  "get_text h idx = fst (utf8_chunk (entry_bytes h idx))"

definition find_entry_index :: "history \<Rightarrow> u64 \<Rightarrow> ustring \<Rightarrow> nat option" where
  "find_entry_index h hash t =
     (case index_by_hash h hash of
        None \<Rightarrow> None
      | Some idx \<Rightarrow>
          if entry_bytes h idx = utf8 t then Some idx
          else List.find (\<lambda>idx. entry_bytes h idx = utf8 t) [0..<length (offsets h)])"

subsection \<open>Latest occurrences\<close>

text \<open>\<^verbatim>\<open>binary_search_by_key\<close> on a sorted table: where the key is, or where it goes.\<close>

definition search_key :: "int \<Rightarrow> (int \<times> nat) list \<Rightarrow> nat + nat" where
  "search_key key table =
     (case position (\<lambda>row. fst row = key) table of
        Some at \<Rightarrow> Inr at
      | None \<Rightarrow> Inl (length (takeWhile (\<lambda>row. fst row < key) table)))"

definition record_latest_occurrence :: "int \<Rightarrow> nat \<Rightarrow> history \<Rightarrow> history" where
  "record_latest_occurrence key idx h =
     (let table = latest_occurrences h in
      h\<lparr>latest_occurrences := (case search_key key table of
          Inr at \<Rightarrow> table[at := (fst (table ! at), idx)]
        | Inl at \<Rightarrow> take at table @ (key, idx) # drop at table)\<rparr>)"

definition forget_latest_occurrence :: "int \<Rightarrow> history \<Rightarrow> history" where
  "forget_latest_occurrence key h =
     (let table = latest_occurrences h in
      h\<lparr>latest_occurrences := (case search_key key table of
          Inr at \<Rightarrow> take at table @ drop (at + 1) table
        | Inl _ \<Rightarrow> table)\<rparr>)"

definition update_entry :: "nat \<Rightarrow> (entry_usage \<Rightarrow> entry_usage) \<Rightarrow> history \<Rightarrow> history" where
  "update_entry idx f h = h\<lparr>usages := (usages h)[idx := f (usages h ! idx)]\<rparr>"

subsection \<open>Directories\<close>

definition intern_directory :: "bytes \<Rightarrow> history \<Rightarrow> (nat \<times> history) option" where
  "intern_directory path h =
     (case directory_codes h (path_components path) of
        Some code \<Rightarrow> Some (code, h)
      | None \<Rightarrow> map_option (\<lambda>code. (code,
            h\<lparr>directory_paths := directory_paths h @ [path],
              directory_codes := (directory_codes h)(path_components path \<mapsto> code)\<rparr>))
          (expect_u32 (length (directory_paths h))))"

text \<open>\<^verbatim>\<open>map.entry(code).or_default().record(timestamp)\<close>; a new key goes anywhere, here last.\<close>

definition record_code :: "nat \<Rightarrow> nat \<Rightarrow> (nat \<times> usage) list \<Rightarrow> (nat \<times> usage) list" where
  "record_code code t m =
     (case map_of m code of
        None \<Rightarrow> m @ [(code, record_use t no_usage)]
      | Some u \<Rightarrow> map (\<lambda>(c, v). if c = code then (c, record_use t u) else (c, v)) m)"

definition record_directory :: "nat \<Rightarrow> nat \<Rightarrow> nat \<Rightarrow> history \<Rightarrow> history" where
  "record_directory idx code t h =
     (let current = directories (usages h ! idx) in
      if current = code then h
      else if current = DIRECTORY_NONE then update_entry idx (\<lambda>u. u\<lparr>directories := code\<rparr>) h
      else
        let h = (if current \<noteq> DIRECTORY_DETAILED then
                   (update_entry idx (\<lambda>u. u\<lparr>directories := DIRECTORY_DETAILED\<rparr>) h)
                     \<lparr>directory_details := (directory_details h)(idx \<mapsto> Many [(current, total_usage (usages h ! idx))])\<rparr>
                 else h)
        in case directory_details h idx of
          Some (Tracked tracked u) \<Rightarrow>
            h\<lparr>directory_details := (directory_details h)(idx \<mapsto>
                (if tracked = code then Tracked tracked (record_use t u)
                 else Many (record_code code t [(tracked, u)])))\<rparr>
        | Some (Many m) \<Rightarrow> h\<lparr>directory_details := (directory_details h)(idx \<mapsto> Many (record_code code t m))\<rparr>
        | None \<Rightarrow> h)"

definition detach_shared_directory :: "nat \<Rightarrow> history \<Rightarrow> history" where
  "detach_shared_directory idx h =
     (let current = directories (usages h ! idx) in
      if current = DIRECTORY_NONE \<or> current = DIRECTORY_DETAILED then h
      else (update_entry idx (\<lambda>u. u\<lparr>directories := DIRECTORY_DETAILED\<rparr>) h)
        \<lparr>directory_details := (directory_details h)(idx \<mapsto> Tracked current (total_usage (usages h ! idx)))\<rparr>)"

subsection \<open>Occurrences\<close>

definition new_entry :: "u64 \<Rightarrow> ustring \<Rightarrow> history \<Rightarrow> (nat \<times> history) option" where
  "new_entry hash t h =
     (let idx = length (offsets h) in
      Option.bind (expect_u32 (length (arena h))) (\<lambda>start.
      Option.bind (expect_u32 (length (utf8 t))) (\<lambda>len.
      Option.bind (expect_u32 idx) (\<lambda>_.
        Some (idx,
          h\<lparr>arena := arena h @ utf8 t, offsets := offsets h @ [(start, len)],
            usages := usages h @ [\<lparr>latest_id = 0, letters = letter_mask (utf8 t), total_usage = no_usage,
              directories = DIRECTORY_NONE, session_position = None\<rparr>],
            index_by_hash := (index_by_hash h)(hash \<mapsto> idx)\<rparr>)))))"

definition note_directory :: "nat \<Rightarrow> occurrence \<Rightarrow> history \<Rightarrow> history option" where
  "note_directory idx oc h =
     (case cwd oc of
        None \<Rightarrow> Some (detach_shared_directory idx h)
      | Some path \<Rightarrow> map_option (\<lambda>(code, h). record_directory idx code (timestamp oc) h) (intern_directory path h))"

definition apply_occurrence :: "(ustring \<Rightarrow> u64) \<Rightarrow> occurrence \<Rightarrow> history \<Rightarrow> (nat \<times> history) option" where
  "apply_occurrence hash oc h =
     Option.bind (case find_entry_index h (hash (command oc)) (command oc) of
         Some idx \<Rightarrow> Some (idx, h)
       | None \<Rightarrow> new_entry (hash (command oc)) (command oc) h) (\<lambda>(idx, h).
     Option.bind (note_directory idx oc h) (\<lambda>h.
       let h = forget_latest_occurrence (int (latest_id (usages h ! idx))) h in
       if occ_id oc < 0 \<or> int u32_max < occ_id oc then None
       else
         let h = update_entry idx (\<lambda>u. u\<lparr>latest_id := nat (occ_id oc), total_usage := record_use (timestamp oc) (total_usage u)\<rparr>) h;
             h = record_latest_occurrence (occ_id oc) idx h
         in Some (idx, h\<lparr>last_id := max (last_id h) (occ_id oc)\<rparr>)))"

definition clear_history :: "history \<Rightarrow> history" where
  "clear_history h = empty_history\<lparr>hist_generation := hist_generation h\<rparr>"

fun apply_occurrences :: "(ustring \<Rightarrow> u64) \<Rightarrow> occurrence list \<Rightarrow> history \<Rightarrow> history option" where
  "apply_occurrences hash [] h = Some h"
| "apply_occurrences hash (oc # ocs) h = Option.bind (apply_occurrence hash oc h) (\<lambda>(_, h). apply_occurrences hash ocs h)"

definition apply_snapshot :: "(ustring \<Rightarrow> u64) \<Rightarrow> snapshot \<Rightarrow> history \<Rightarrow> history option" where
  "apply_snapshot hash snap h =
     (let h = (if snap_generation snap \<noteq> hist_generation h
               then (clear_history h)\<lparr>hist_generation := snap_generation snap\<rparr> else h)
      in apply_occurrences hash (occurrences snap) h)"

subsection \<open>The session\<close>

text \<open>The slots of a list with their new one-based positions are written back to the entries.\<close>

fun compact_slots :: "nat list \<Rightarrow> nat list \<Rightarrow> entry_usage list \<Rightarrow> nat list \<times> entry_usage list" where
  "compact_slots [] kept us = (kept, us)"
| "compact_slots (idx # slots) kept us =
     (if idx = SESSION_REMOVED then compact_slots slots kept us
      else compact_slots slots (kept @ [idx]) (us[idx := (us ! idx)\<lparr>session_position := Some (length kept + 1)\<rparr>]))"

definition compact_session :: "history \<Rightarrow> history" where
  "compact_session h =
     (if length (session h) \<le> 2 * session_live h \<or> length (session h) \<le> 64 then h
      else case compact_slots (session h) [] (usages h) of (slots, us) \<Rightarrow> h\<lparr>session := slots, usages := us\<rparr>)"

definition remember_session :: "nat \<Rightarrow> history \<Rightarrow> history option" where
  "remember_session idx h =
     (let h = (case session_position (usages h ! idx) of
          Some previous \<Rightarrow> h\<lparr>session := (session h)[previous - 1 := SESSION_REMOVED]\<rparr>
        | None \<Rightarrow> h\<lparr>session_live := session_live h + 1\<rparr>)
      in Option.bind (expect_u32 idx) (\<lambda>slot.
         let h = h\<lparr>session := session h @ [slot]\<rparr> in
         map_option (\<lambda>at. compact_session (update_entry idx (\<lambda>u. u\<lparr>session_position := Some at\<rparr>) h))
           (expect_u32 (length (session h)))))"

definition live_slots :: "history \<Rightarrow> nat list" where
  "live_slots h = filter (\<lambda>idx. idx \<noteq> SESSION_REMOVED) (rev (session h))"

definition nth_opt :: "nat \<Rightarrow> 'a list \<Rightarrow> 'a option" where
  "nth_opt n xs = (if n < length xs then Some (xs ! n) else None)"

definition session_get :: "history \<Rightarrow> nat \<Rightarrow> bytes option" where
  "session_get h skip = map_option (entry_bytes h) (nth_opt skip (live_slots h))"

definition session_prefix_search :: "history \<Rightarrow> ustring \<Rightarrow> nat \<Rightarrow> bytes option" where
  "session_prefix_search h pre skip = nth_opt skip (filter (\<lambda>c. prefix (utf8 pre) c) (map (entry_bytes h) (live_slots h)))"

definition prefix_search :: "history \<Rightarrow> ustring \<Rightarrow> nat \<Rightarrow> bytes option" where
  "prefix_search h pre skip =
     nth_opt skip (filter (\<lambda>c. prefix (utf8 pre) c) (map (\<lambda>(_, idx). entry_bytes h idx) (rev (latest_occurrences h))))"

definition search_entry_indices :: "history \<Rightarrow> nat list" where
  "search_entry_indices h = map snd (rev (latest_occurrences h))"

end
