(* ===== verification/History_Laws.thy ===== *)
theory History_Laws
  imports History_Index
begin

text \<open>
  What the index in memory promises: it is a function of the occurrences it was given. The
  relation \<open>indexes\<close> says which one, every operation keeps it, and recall and search read the
  order of the last uses off it.
\<close>

subsection \<open>First and last uses\<close>

definition first_uses :: "occurrence list \<Rightarrow> ustring list" where
  "first_uses ocs = rev (remdups (rev (map command ocs)))"

fun last_uses :: "occurrence list \<Rightarrow> occurrence list" where
  "last_uses [] = []"
| "last_uses (oc # ocs) = (if command oc \<in> command ` set ocs then last_uses ocs else oc # last_uses ocs)"

definition uses_of :: "ustring \<Rightarrow> occurrence list \<Rightarrow> occurrence list" where
  "uses_of c ocs = filter (\<lambda>oc. command oc = c) ocs"

definition entry_of :: "occurrence list \<Rightarrow> ustring \<Rightarrow> nat" where
  "entry_of ocs c = the (position (\<lambda>x. x = c) (first_uses ocs))"

lemma first_uses_snoc:
  "first_uses (ocs @ [oc]) = (if command oc \<in> command ` set ocs then first_uses ocs else first_uses ocs @ [command oc])"
  by (auto simp: first_uses_def)

lemma set_first_uses: "set (first_uses ocs) = command ` set ocs"
  by (auto simp: first_uses_def)

lemma distinct_first_uses: "distinct (first_uses ocs)"
  by (simp add: first_uses_def)

lemma last_uses_snoc: "last_uses (ocs @ [oc]) = filter (\<lambda>p. command p \<noteq> command oc) (last_uses ocs) @ [oc]"
  by (induction ocs) auto

lemma last_uses_subset: "set (last_uses ocs) \<subseteq> set ocs"
  by (induction ocs) auto

lemma last_uses_iff: "p \<in> set (last_uses ocs) \<longleftrightarrow> p \<in> set ocs \<and> p = last (uses_of (command p) ocs)"
proof (induction ocs rule: rev_induct)
  case (snoc oc ocs)
  then show ?case by (auto simp: last_uses_snoc uses_of_def)
qed simp

lemma command_last_uses: "map command (last_uses ocs) = remdups (map command ocs)"
  by (induction ocs) auto

lemma uses_of_snoc: "uses_of c (ocs @ [oc]) = (if command oc = c then uses_of c ocs @ [oc] else uses_of c ocs)"
  by (simp add: uses_of_def)

lemma uses_of_Nil: "uses_of c ocs = [] \<longleftrightarrow> c \<notin> command ` set ocs"
  by (auto simp: uses_of_def filter_empty_conv)

lemma entry_of_nth:
  assumes "c \<in> command ` set ocs"
  shows "entry_of ocs c < length (first_uses ocs)" "first_uses ocs ! entry_of ocs c = c"
proof -
  have "position (\<lambda>x. x = c) (first_uses ocs) \<noteq> None" using assms by (auto simp: position_None set_first_uses)
  then obtain i where i: "position (\<lambda>x. x = c) (first_uses ocs) = Some i" by auto
  then have "entry_of ocs c = i" by (simp add: entry_of_def)
  then show "entry_of ocs c < length (first_uses ocs)" "first_uses ocs ! entry_of ocs c = c"
    using i by (simp_all add: position_Some)
qed

lemma entry_of_eqI: "i < length (first_uses ocs) \<Longrightarrow> first_uses ocs ! i = c \<Longrightarrow> entry_of ocs c = i"
  using entry_of_nth [of c ocs] distinct_first_uses [of ocs]
  by (metis nth_eq_iff_index_eq nth_mem set_first_uses)

lemma entry_of_snoc: "c \<in> command ` set ocs \<Longrightarrow> entry_of (ocs @ [oc]) c = entry_of ocs c"
  using entry_of_nth [of c ocs] by (intro entry_of_eqI) (auto simp: first_uses_snoc nth_append)

lemma entry_of_new: "command oc \<notin> command ` set ocs \<Longrightarrow> entry_of (ocs @ [oc]) (command oc) = length (first_uses ocs)"
  by (intro entry_of_eqI) (auto simp: first_uses_snoc)

subsection \<open>The relation\<close>

definition entry_ok :: "occurrence list \<Rightarrow> ustring \<Rightarrow> entry_usage \<Rightarrow> bool" where
  "entry_ok ocs c u \<longleftrightarrow> int (latest_id u) = occ_id (last (uses_of c ocs)) \<and> letters u = letter_mask (utf8 c) \<and>
     total_usage u = fold record_use (map timestamp (uses_of c ocs)) no_usage"

definition indexes :: "(ustring \<Rightarrow> u64) \<Rightarrow> history \<Rightarrow> occurrence list \<Rightarrow> bool" where
  "indexes hash h ocs \<longleftrightarrow>
     (\<forall>(start, len) \<in> set (offsets h). start + len \<le> length (arena h)) \<and>
     map (entry_bytes h) [0..<length (offsets h)] = map utf8 (first_uses ocs) \<and>
     (\<forall>k i. index_by_hash h k = Some i \<longrightarrow> i < length (offsets h)) \<and>
     (\<forall>oc \<in> set ocs. index_by_hash h (hash (command oc)) \<noteq> None) \<and>
     list_all2 (entry_ok ocs) (first_uses ocs) (usages h) \<and>
     latest_occurrences h = map (\<lambda>oc. (occ_id oc, entry_of ocs (command oc))) (last_uses ocs) \<and>
     last_id h = last_occ_id ocs"

text \<open>Logs as the store keeps them, with identifiers that fit 32 bits.\<close>

definition log_ok :: "occurrence list \<Rightarrow> bool" where
  "log_ok ocs \<longleftrightarrow> sorted_wrt (<) (map occ_id ocs) \<and> (\<forall>oc \<in> set ocs. 0 < occ_id oc \<and> wf_str (command oc))"

lemma indexes_length: "indexes hash h ocs \<Longrightarrow> length (offsets h) = length (first_uses ocs)"
  unfolding indexes_def by (metis length_map length_upt diff_zero)

lemma indexes_get: "indexes hash h ocs \<Longrightarrow> i < length (first_uses ocs) \<Longrightarrow> entry_bytes h i = utf8 (first_uses ocs ! i)"
proof -
  assume h: "indexes hash h ocs" and i: "i < length (first_uses ocs)"
  have "map (entry_bytes h) [0..<length (offsets h)] ! i = map utf8 (first_uses ocs) ! i"
    using h by (simp add: indexes_def)
  then show ?thesis using i indexes_length [OF h] by simp
qed

lemma indexes_usages:
  "indexes hash h ocs \<Longrightarrow> length (usages h) = length (first_uses ocs) \<and>
     (\<forall>i < length (first_uses ocs). entry_ok ocs (first_uses ocs ! i) (usages h ! i))"
  by (simp add: indexes_def list_all2_conv_all_nth)

lemma log_ok_command: "log_ok ocs \<Longrightarrow> i < length (first_uses ocs) \<Longrightarrow> wf_str (first_uses ocs ! i)"
  by (metis (no_types, lifting) image_iff log_ok_def nth_mem set_first_uses)

text \<open>A text is found at its entry, whatever other texts have its hash.\<close>

lemma find_entry_index_correct:
  assumes h: "indexes hash h ocs" and ok: "log_ok ocs" and c: "wf_str c"
  shows "find_entry_index h (hash c) c = (if c \<in> command ` set ocs then Some (entry_of ocs c) else None)"
proof -
  have eq: "entry_bytes h i = utf8 c \<longleftrightarrow> first_uses ocs ! i = c" if "i < length (first_uses ocs)" for i
    using that indexes_get [OF h] utf8_inj [OF log_ok_command [OF ok that] c] by simp
  have n: "length (offsets h) = length (first_uses ocs)" by (rule indexes_length [OF h])
  have range: "index_by_hash h k = Some i \<Longrightarrow> i < length (first_uses ocs)" for k i
    using h n by (simp add: indexes_def)
  have find: "List.find (\<lambda>i. entry_bytes h i = utf8 c) [0..<length (offsets h)] =
      (if c \<in> command ` set ocs then Some (entry_of ocs c) else None)"
  proof (cases "c \<in> command ` set ocs")
    case True
    have "List.find (\<lambda>i. entry_bytes h i = utf8 c) [0..<length (first_uses ocs)] = Some (entry_of ocs c)"
      unfolding find_Some
    proof (intro conjI allI impI)
      fix i assume i: "i < entry_of ocs c"
      then have "i < length (first_uses ocs)" using entry_of_nth(1) [OF True] by simp
      then show "entry_bytes h i \<noteq> utf8 c" using eq entry_of_eqI [of i ocs c] i by auto
    qed (use entry_of_nth [OF True] eq in auto)
    then show ?thesis using True n by simp
  next
    case False
    then have "first_uses ocs ! i \<noteq> c" if "i < length (first_uses ocs)" for i
      using that nth_mem set_first_uses by metis
    then show ?thesis using False eq n by (auto simp: find_None_iff)
  qed
  show ?thesis
  proof (cases "index_by_hash h (hash c)")
    case None
    then have "c \<notin> command ` set ocs" using h by (auto simp: indexes_def)
    then show ?thesis using None by (simp add: find_entry_index_def)
  next
    case (Some i)
    then show ?thesis using find eq [of i] range [of "hash c" i] entry_of_eqI [of i ocs c] set_first_uses [of ocs]
      by (auto simp: find_entry_index_def dest: nth_mem)
  qed
qed

subsection \<open>The table of latest occurrences\<close>

lemma search_key_present:
  "search_key key table = (case position (\<lambda>row. fst row = key) table of
     Some at \<Rightarrow> Inr at | None \<Rightarrow> Inl (length (takeWhile (\<lambda>row. fst row < key) table)))"
  by (simp add: search_key_def)

lemma remove_at:
  assumes "distinct (map fst table)" "position (\<lambda>row. fst row = key) table = Some at"
  shows "take at table @ drop (at + 1) table = filter (\<lambda>row. fst row \<noteq> key) table"
  using assms
proof (induction table arbitrary: at)
  case (Cons row table)
  show ?case
  proof (cases "fst row = key")
    case True
    then have "key \<notin> set (map fst table)" using Cons.prems(1) by simp
    then have "\<forall>r \<in> set table. fst r \<noteq> key" by force
    then have "filter (\<lambda>r. fst r \<noteq> key) table = table" by (rule filter_True)
    then show ?thesis using True Cons.prems(2) by simp
  qed (use Cons in auto)
qed simp

lemma forget_filter:
  "distinct (map fst (latest_occurrences h)) \<Longrightarrow>
   latest_occurrences (forget_latest_occurrence key h) = filter (\<lambda>row. fst row \<noteq> key) (latest_occurrences h)"
  using remove_at [of "latest_occurrences h" key]
  by (auto simp: forget_latest_occurrence_def search_key_def position_None filter_id_conv Let_def
      split: option.splits)

lemma record_latest_last:
  assumes "\<forall>row \<in> set (latest_occurrences h). fst row < key"
  shows "latest_occurrences (record_latest_occurrence key idx h) = latest_occurrences h @ [(key, idx)]"
proof -
  have "position (\<lambda>row. fst row = key) (latest_occurrences h) = None" using assms by (auto simp: position_None)
  moreover have "length (takeWhile (\<lambda>row. fst row < key) (latest_occurrences h)) = length (latest_occurrences h)"
    using assms by (metis takeWhile_eq_all_conv)
  ultimately show ?thesis by (simp add: record_latest_occurrence_def search_key_def Let_def)
qed

subsection \<open>One occurrence\<close>

text \<open>What the updates of directories leave alone.\<close>

definition entry_core :: "entry_usage \<Rightarrow> nat \<times> u32 \<times> usage \<times> nat option" where
  "entry_core u = (latest_id u, letters u, total_usage u, session_position u)"

definition core where
  "core h = (arena h, offsets h, map entry_core (usages h), index_by_hash h, latest_occurrences h, session h,
     session_live h, hist_generation h, last_id h)"

lemma core_update: "(\<And>u. entry_core (f u) = entry_core u) \<Longrightarrow> core (update_entry idx f h) = core h"
  using list_update_id [of "map entry_core (usages h)" idx]
  by (cases "idx < length (usages h)") (auto simp: core_def update_entry_def map_update list_update_beyond)

lemma core_details: "core (h\<lparr>directory_details := d\<rparr>) = core h"
  and core_paths: "core (h\<lparr>directory_paths := ps, directory_codes := cs\<rparr>) = core h"
  by (simp_all add: core_def)

lemma core_record_directory: "core (record_directory idx code t h) = core h"
  by (auto simp: record_directory_def Let_def core_details core_update entry_core_def
      split: option.splits directory_detail.splits)

lemma core_detach: "core (detach_shared_directory idx h) = core h"
  by (auto simp: detach_shared_directory_def Let_def core_details core_update entry_core_def)

lemma core_intern: "intern_directory path h = Some (code, h') \<Longrightarrow> core h' = core h"
  by (auto simp: intern_directory_def core_paths split: option.splits)

lemma note_directory_core: "note_directory idx oc h = Some h' \<Longrightarrow> core h' = core h"
  by (auto simp: note_directory_def core_detach core_record_directory core_intern split: option.splits)

text \<open>The state in which an entry for the command exists and the occurrence is not yet counted.\<close>

definition pending_ok :: "occurrence list \<Rightarrow> ustring \<Rightarrow> nat \<times> u32 \<times> usage \<times> nat option \<Rightarrow> bool" where
  "pending_ok ocs c = (\<lambda>(latest, mask, used, _).
     int latest = (if uses_of c ocs = [] then 0 else occ_id (last (uses_of c ocs))) \<and> mask = letter_mask (utf8 c) \<and>
     used = fold record_use (map timestamp (uses_of c ocs)) no_usage)"

definition ready :: "(ustring \<Rightarrow> u64) \<Rightarrow> history \<Rightarrow> occurrence list \<Rightarrow> occurrence \<Rightarrow> nat \<Rightarrow> bool" where
  "ready hash h ocs oc idx \<longleftrightarrow>
     (\<forall>(start, len) \<in> set (offsets h). start + len \<le> length (arena h)) \<and>
     map (entry_bytes h) [0..<length (offsets h)] = map utf8 (first_uses (ocs @ [oc])) \<and>
     (\<forall>k i. index_by_hash h k = Some i \<longrightarrow> i < length (offsets h)) \<and>
     (\<forall>p \<in> set (ocs @ [oc]). index_by_hash h (hash (command p)) \<noteq> None) \<and>
     list_all2 (pending_ok ocs) (first_uses (ocs @ [oc])) (map entry_core (usages h)) \<and>
     latest_occurrences h = map (\<lambda>p. (occ_id p, entry_of (ocs @ [oc]) (command p))) (last_uses ocs) \<and>
     last_id h = last_occ_id ocs \<and> idx = entry_of (ocs @ [oc]) (command oc)"

lemma ready_core: "core h' = core h \<Longrightarrow> ready hash h ocs oc idx \<Longrightarrow> ready hash h' ocs oc idx"
proof -
  assume "core h' = core h"
  then have "arena h' = arena h" "offsets h' = offsets h" "map entry_core (usages h') = map entry_core (usages h)"
    "index_by_hash h' = index_by_hash h" "latest_occurrences h' = latest_occurrences h" "last_id h' = last_id h"
    by (auto simp: core_def)
  moreover from this have "entry_bytes h' = entry_bytes h" by (simp add: entry_bytes_def fun_eq_iff)
  ultimately show "ready hash h ocs oc idx \<Longrightarrow> ?thesis" by (simp add: ready_def)
qed

lemma entry_ok_pending: "entry_ok ocs c u \<Longrightarrow> c \<in> command ` set ocs \<Longrightarrow> pending_ok ocs c (entry_core u)"
  by (simp add: entry_ok_def pending_ok_def entry_core_def uses_of_Nil)

lemma indexes_pending:
  "indexes hash h ocs \<Longrightarrow> list_all2 (pending_ok ocs) (first_uses ocs) (map entry_core (usages h))"
  using indexes_usages [of hash h ocs] entry_ok_pending set_first_uses [of ocs]
  by (auto simp: list_all2_conv_all_nth) (metis nth_mem)

lemma rows_snoc:
  "map (\<lambda>p. (occ_id p, entry_of (ocs @ [oc]) (command p))) (last_uses ocs) =
   map (\<lambda>p. (occ_id p, entry_of ocs (command p))) (last_uses ocs)"
  using last_uses_subset [of ocs] by (auto simp: entry_of_snoc)

lemma ready_known:
  assumes "indexes hash h ocs" "command oc \<in> command ` set ocs"
  shows "ready hash h ocs oc (entry_of ocs (command oc))"
  using assms indexes_pending [OF assms(1)]
  unfolding ready_def rows_snoc by (auto simp: indexes_def first_uses_snoc entry_of_snoc)

lemma ready_new:
  assumes h: "indexes hash h ocs" and new: "command oc \<notin> command ` set ocs"
    and e: "new_entry (hash (command oc)) (command oc) h = Some (idx, h')"
  shows "ready hash h' ocs oc idx"
proof -
  let ?t = "command oc" and ?n = "length (offsets h)"
  have h': "h' = h\<lparr>arena := arena h @ utf8 ?t, offsets := offsets h @ [(length (arena h), length (utf8 ?t))],
      usages := usages h @ [\<lparr>latest_id = 0, letters = letter_mask (utf8 ?t), total_usage = no_usage,
        directories = DIRECTORY_NONE, session_position = None\<rparr>],
      index_by_hash := (index_by_hash h)(hash ?t \<mapsto> ?n)\<rparr>" and idx: "idx = ?n"
    using e by (auto simp: new_entry_def expect_u32_def Let_def split: if_splits bind_splits)
  have get: "entry_bytes h' i = entry_bytes h i" if "i < ?n" for i
  proof -
    obtain start len where o: "offsets h ! i = (start, len)" by (cases "offsets h ! i")
    then have "start + len \<le> length (arena h)" using h that by (auto simp: indexes_def dest!: nth_mem [of i])
    then show ?thesis using o that by (simp add: entry_bytes_def h' nth_append slice_def)
  qed
  have new_text: "entry_bytes h' ?n = utf8 ?t" by (simp add: entry_bytes_def h' slice_def)
  have "map (entry_bytes h') [0..<?n] = map (entry_bytes h) [0..<?n]" using get by simp
  moreover have "map (entry_bytes h) [0..<?n] = map utf8 (first_uses ocs)" using h by (simp only: indexes_def)
  ultimately have "map (entry_bytes h') [0..<?n] = map utf8 (first_uses ocs)" by (rule trans)
  then have texts: "map (entry_bytes h') [0..<length (offsets h')] = map utf8 (first_uses (ocs @ [oc]))"
    using new new_text by (simp add: h' first_uses_snoc)
  have "list_all2 (pending_ok ocs) (first_uses (ocs @ [oc])) (map entry_core (usages h'))"
    using indexes_pending [OF h] new
    by (simp add: h' first_uses_snoc list_all2_append pending_ok_def entry_core_def uses_of_Nil [THEN iffD2] list_all2_lengthD)
  moreover have "\<forall>(start, len) \<in> set (offsets h'). start + len \<le> length (arena h')"
    using h by (fastforce simp: indexes_def h')
  moreover have "\<forall>k i. index_by_hash h' k = Some i \<longrightarrow> i < length (offsets h')"
    using h by (auto simp: indexes_def h' intro: less_SucI)
  moreover have "\<forall>p \<in> set (ocs @ [oc]). index_by_hash h' (hash (command p)) \<noteq> None"
    using h by (auto simp: indexes_def h')
  moreover have "latest_occurrences h' = latest_occurrences h" "last_id h' = last_id h" by (simp_all add: h')
  ultimately show ?thesis
    using h texts entry_of_new [OF new] indexes_length [OF h] unfolding ready_def rows_snoc by (simp add: indexes_def idx)
qed

lemma fold_record_snoc:
  "fold record_use (map timestamp (xs @ [oc])) u = record_use (timestamp oc) (fold record_use (map timestamp xs) u)"
  by simp

lemma pending_others: "command oc \<noteq> c \<Longrightarrow> uses_of c ocs \<noteq> [] \<Longrightarrow> pending_ok ocs c (entry_core u) \<Longrightarrow> entry_ok (ocs @ [oc]) c u"
  by (simp add: pending_ok_def entry_core_def entry_ok_def uses_of_snoc)

lemma pending_counted:
  "pending_ok ocs (command oc) (entry_core u) \<Longrightarrow> 0 < occ_id oc \<Longrightarrow>
   entry_ok (ocs @ [oc]) (command oc) (u\<lparr>latest_id := nat (occ_id oc), total_usage := record_use (timestamp oc) (total_usage u)\<rparr>)"
  by (simp add: pending_ok_def entry_core_def entry_ok_def uses_of_snoc)

lemma first_uses_mem_snoc:
  "c \<in> set (first_uses (ocs @ [oc])) \<Longrightarrow> c \<noteq> command oc \<Longrightarrow> uses_of c ocs \<noteq> []"
  by (auto simp: set_first_uses uses_of_Nil)

lemma counted_entries:
  assumes r: "ready hash h ocs oc idx" and pos: "0 < occ_id oc"
  shows "list_all2 (entry_ok (ocs @ [oc])) (first_uses (ocs @ [oc]))
    (usages (update_entry idx (\<lambda>u. u\<lparr>latest_id := nat (occ_id oc), total_usage := record_use (timestamp oc) (total_usage u)\<rparr>) h))"
    (is "list_all2 _ ?cs (usages ?h)")
proof (rule list_all2_all_nthI)
  have len: "length ?cs = length (usages h)" and idx: "idx = entry_of (ocs @ [oc]) (command oc)"
    using r by (auto simp: ready_def dest: list_all2_lengthD)
  then show "length ?cs = length (usages ?h)" by (simp add: update_entry_def)
  fix i assume i: "i < length ?cs"
  have at: "idx < length ?cs" "?cs ! idx = command oc" using entry_of_nth [of "command oc" "ocs @ [oc]"] by (auto simp: idx)
  have p: "pending_ok ocs (?cs ! i) (entry_core (usages h ! i))"
    using r i len by (auto simp: ready_def list_all2_conv_all_nth)
  show "entry_ok (ocs @ [oc]) (?cs ! i) (usages ?h ! i)"
  proof (cases "i = idx")
    case True
    then show ?thesis using p at len pos pending_counted by (simp add: update_entry_def)
  next
    case False
    then have "?cs ! i \<noteq> command oc" using i at distinct_first_uses [of "ocs @ [oc]"] by (metis nth_eq_iff_index_eq)
    then show ?thesis using False p i first_uses_mem_snoc [of "?cs ! i" ocs oc] pending_others [of oc "?cs ! i" ocs "usages h ! i"]
      by (simp add: update_entry_def)
  qed
qed

lemma log_ok_snoc: "log_ok (ocs @ [oc]) \<Longrightarrow> log_ok ocs \<and> 0 < occ_id oc \<and> wf_str (command oc) \<and> (\<forall>p \<in> set ocs. occ_id p < occ_id oc)"
  by (auto simp: log_ok_def sorted_wrt_append)

lemma distinct_last_ids: "log_ok ocs \<Longrightarrow> distinct (map occ_id (last_uses ocs))"
proof (induction ocs rule: rev_induct)
  case (snoc oc ocs)
  then have "distinct (map occ_id (last_uses ocs))" "\<forall>p \<in> set (last_uses ocs). occ_id p < occ_id oc"
    using log_ok_snoc [OF snoc.prems] last_uses_subset [of ocs] by auto
  then show ?case by (auto simp: last_uses_snoc distinct_map_filter)
qed simp

text \<open>The row that is dropped is the row of the command.\<close>

lemma forget_old_row:
  assumes r: "ready hash h ocs oc idx" and ok: "log_ok (ocs @ [oc])"
  shows "latest_occurrences (forget_latest_occurrence (int (latest_id (usages h ! idx))) h) =
    map (\<lambda>p. (occ_id p, entry_of (ocs @ [oc]) (command p))) (filter (\<lambda>p. command p \<noteq> command oc) (last_uses ocs))"
proof -
  let ?c = "command oc" and ?row = "\<lambda>p. (occ_id p, entry_of (ocs @ [oc]) (command p))" and ?key = "int (latest_id (usages h ! idx))"
  have ok': "log_ok ocs" "0 < occ_id oc" using log_ok_snoc [OF ok] by auto
  have rows: "latest_occurrences h = map ?row (last_uses ocs)" and idx: "idx = entry_of (ocs @ [oc]) ?c"
    using r by (auto simp: ready_def)
  have at: "idx < length (first_uses (ocs @ [oc]))" "first_uses (ocs @ [oc]) ! idx = ?c"
    using entry_of_nth [of ?c "ocs @ [oc]"] by (auto simp: idx)
  then have key: "?key = (if uses_of ?c ocs = [] then 0 else occ_id (last (uses_of ?c ocs)))"
    using r by (auto simp: ready_def list_all2_conv_all_nth pending_ok_def entry_core_def)
  have "occ_id p \<noteq> ?key \<longleftrightarrow> command p \<noteq> ?c" if p: "p \<in> set (last_uses ocs)" for p
  proof
    assume "command p \<noteq> ?c"
    then have "p \<noteq> last (uses_of ?c ocs) \<or> uses_of ?c ocs = []"
      using last_in_set [of "uses_of ?c ocs"] by (auto simp: uses_of_def)
    moreover have "0 < occ_id p" using p last_uses_subset ok' by (auto simp: log_ok_def)
    moreover have "uses_of ?c ocs \<noteq> [] \<Longrightarrow> last (uses_of ?c ocs) \<in> set ocs"
      using last_in_set [of "uses_of ?c ocs"] by (auto simp: uses_of_def)
    moreover have "inj_on occ_id (set ocs)"
      using ok' strict_sorted_imp_sorted by (auto simp: log_ok_def strict_sorted_iff distinct_map)
    ultimately show "occ_id p \<noteq> ?key" using p last_uses_subset unfolding key by (auto dest: inj_onD)
  next
    assume "occ_id p \<noteq> ?key"
    then show "command p \<noteq> ?c" using p unfolding key last_uses_iff
      by (metis uses_of_Nil image_eqI)
  qed
  then have "filter (\<lambda>row. fst row \<noteq> ?key) (map ?row (last_uses ocs)) = map ?row (filter (\<lambda>p. command p \<noteq> ?c) (last_uses ocs))"
    by (auto simp: filter_map comp_def intro!: filter_cong arg_cong [where f = "map _"])
  then show ?thesis using forget_filter [of h ?key] distinct_last_ids [OF ok'(1)] by (simp add: rows comp_def)
qed

text \<open>The fields that counting an occurrence leaves alone.\<close>

lemma table_frames:
  "arena (forget_latest_occurrence k h) = arena h" "offsets (forget_latest_occurrence k h) = offsets h"
  "usages (forget_latest_occurrence k h) = usages h" "index_by_hash (forget_latest_occurrence k h) = index_by_hash h"
  "last_id (forget_latest_occurrence k h) = last_id h"
  "arena (record_latest_occurrence k i h) = arena h" "offsets (record_latest_occurrence k i h) = offsets h"
  "usages (record_latest_occurrence k i h) = usages h" "index_by_hash (record_latest_occurrence k i h) = index_by_hash h"
  "last_id (record_latest_occurrence k i h) = last_id h"
  "arena (update_entry i f h) = arena h" "offsets (update_entry i f h) = offsets h"
  "index_by_hash (update_entry i f h) = index_by_hash h" "latest_occurrences (update_entry i f h) = latest_occurrences h"
  "last_id (update_entry i f h) = last_id h"
  by (simp_all add: forget_latest_occurrence_def record_latest_occurrence_def update_entry_def Let_def)

lemma update_entry_cong: "usages h' = usages h \<Longrightarrow> usages (update_entry i f h') = usages (update_entry i f h)"
  by (simp add: update_entry_def)

definition count_occurrence :: "occurrence \<Rightarrow> nat \<Rightarrow> history \<Rightarrow> history" where
  "count_occurrence oc idx h =
     (let h = forget_latest_occurrence (int (latest_id (usages h ! idx))) h;
          h = update_entry idx (\<lambda>u. u\<lparr>latest_id := nat (occ_id oc), total_usage := record_use (timestamp oc) (total_usage u)\<rparr>) h;
          h = record_latest_occurrence (occ_id oc) idx h
      in h\<lparr>last_id := max (last_id h) (occ_id oc)\<rparr>)"

lemma apply_occurrence_unfold:
  "apply_occurrence hash oc h =
     Option.bind (case find_entry_index h (hash (command oc)) (command oc) of
         Some idx \<Rightarrow> Some (idx, h)
       | None \<Rightarrow> new_entry (hash (command oc)) (command oc) h) (\<lambda>(idx, h).
     Option.bind (note_directory idx oc h) (\<lambda>h.
       if occ_id oc < 0 \<or> int u32_max < occ_id oc then None else Some (idx, count_occurrence oc idx h)))"
  unfolding apply_occurrence_def count_occurrence_def Let_def by (rule refl)

lemma count_indexes:
  assumes r: "ready hash h ocs oc idx" and ok: "log_ok (ocs @ [oc])"
  shows "indexes hash (count_occurrence oc idx h) (ocs @ [oc])"
proof -
  have pos: "0 < occ_id oc" and below: "\<forall>p \<in> set ocs. occ_id p < occ_id oc" using log_ok_snoc [OF ok] by auto
  let ?key = "int (latest_id (usages h ! idx))"
  let ?f = "\<lambda>u. u\<lparr>latest_id := nat (occ_id oc), total_usage := record_use (timestamp oc) (total_usage u)\<rparr>"
  let ?h = "update_entry idx ?f (forget_latest_occurrence ?key h)"
  note old = forget_old_row [OF r ok]
  have before: "\<forall>row \<in> set (latest_occurrences ?h). fst row < occ_id oc"
    using last_uses_subset [of ocs] below by (auto simp: table_frames old)
  have idx: "idx = entry_of (ocs @ [oc]) (command oc)" using r by (simp add: ready_def)
  have table: "latest_occurrences (record_latest_occurrence (occ_id oc) idx ?h) =
      map (\<lambda>p. (occ_id p, entry_of (ocs @ [oc]) (command p))) (last_uses (ocs @ [oc]))"
    unfolding record_latest_last [OF before] table_frames old last_uses_snoc by (simp add: idx [symmetric])
  have "usages ?h = usages (update_entry idx ?f h)" by (rule update_entry_cong) (simp add: table_frames)
  then have entries: "list_all2 (entry_ok (ocs @ [oc])) (first_uses (ocs @ [oc])) (usages ?h)"
    using counted_entries [OF r pos] by simp
  have last: "max (last_id h) (occ_id oc) = last_occ_id (ocs @ [oc])"
    using r below pos by (auto simp: ready_def last_occ_id_def)
  have "entry_bytes (count_occurrence oc idx h) = entry_bytes h"
    by (simp add: count_occurrence_def Let_def entry_bytes_def fun_eq_iff table_frames)
  moreover have "offsets (count_occurrence oc idx h) = offsets h" "arena (count_occurrence oc idx h) = arena h"
    "index_by_hash (count_occurrence oc idx h) = index_by_hash h"
    "usages (count_occurrence oc idx h) = usages ?h"
    "latest_occurrences (count_occurrence oc idx h) = latest_occurrences (record_latest_occurrence (occ_id oc) idx ?h)"
    "last_id (count_occurrence oc idx h) = max (last_id h) (occ_id oc)"
    by (simp_all add: count_occurrence_def Let_def table_frames)
  ultimately show ?thesis using r table entries last unfolding indexes_def ready_def by simp
qed

lemma apply_occurrence_indexes:
  assumes h: "indexes hash h ocs" and ok: "log_ok (ocs @ [oc])" and a: "apply_occurrence hash oc h = Some (idx, h')"
  shows "indexes hash h' (ocs @ [oc]) \<and> idx = entry_of (ocs @ [oc]) (command oc)"
proof -
  have ok': "log_ok ocs" "wf_str (command oc)" using log_ok_snoc [OF ok] by auto
  note find = find_entry_index_correct [OF h ok']
  obtain h1 where l: "(case find_entry_index h (hash (command oc)) (command oc) of
         Some idx \<Rightarrow> Some (idx, h)
       | None \<Rightarrow> new_entry (hash (command oc)) (command oc) h) = Some (idx, h1)"
    and rest: "Option.bind (note_directory idx oc h1) (\<lambda>h.
       if occ_id oc < 0 \<or> int u32_max < occ_id oc then None else Some (idx, count_occurrence oc idx h)) = Some (idx, h')"
    using a unfolding apply_occurrence_unfold by (fastforce split: Option.bind_splits if_splits)
  have r: "ready hash h1 ocs oc idx"
    using l find ready_known [OF h] ready_new [OF h] by (auto split: if_splits)
  obtain h2 where "note_directory idx oc h1 = Some h2" "h' = count_occurrence oc idx h2"
    using rest by (auto split: Option.bind_splits if_splits)
  then have "ready hash h2 ocs oc idx" using r ready_core note_directory_core by blast
  then show ?thesis using count_indexes [OF _ ok] \<open>h' = _\<close> by (auto simp: ready_def)
qed

lemma apply_occurrences_indexes:
  "indexes hash h ocs \<Longrightarrow> log_ok (ocs @ ns) \<Longrightarrow> apply_occurrences hash ns h = Some h' \<Longrightarrow> indexes hash h' (ocs @ ns)"
proof (induction ns arbitrary: h ocs)
  case (Cons oc ns)
  then obtain idx h1 where a: "apply_occurrence hash oc h = Some (idx, h1)" "apply_occurrences hash ns h1 = Some h'"
    by (auto split: Option.bind_splits)
  have "log_ok (ocs @ [oc])" using Cons.prems(2) by (auto simp: log_ok_def sorted_wrt_append)
  then have "indexes hash h1 (ocs @ [oc])" using apply_occurrence_indexes [OF Cons.prems(1) _ a(1)] by simp
  then show ?case using Cons.IH [of h1 "ocs @ [oc]"] Cons.prems(2) a(2) by simp
qed simp

lemma empty_indexes: "indexes hash empty_history []"
  by (simp add: indexes_def empty_history_def first_uses_def last_occ_id_def)

end
