(* ===== verification/History_Session.thy ===== *)
theory History_Session
  imports History_Laws
begin

text \<open>
  Recall and the ways a history grows: the list of the session with its tombstones and their
  compaction, adding a command through the store, loading a log.
\<close>

subsection \<open>The list of the session\<close>

abbreviation live :: "nat list \<Rightarrow> nat list" where
  "live slots \<equiv> filter (\<lambda>idx. idx \<noteq> SESSION_REMOVED) slots"

abbreviation slot_of :: "nat list \<Rightarrow> nat \<Rightarrow> nat option" where
  "slot_of slots i \<equiv> map_option Suc (position (\<lambda>idx. idx = i) slots)"

text \<open>\<open>slots_ok\<close> without the bound on the length of the list, which compaction restores.\<close>

definition slots_ok :: "history \<Rightarrow> bool" where
  "slots_ok h \<longleftrightarrow> length (usages h) \<le> SESSION_REMOVED \<and> session_live h = length (live (session h)) \<and>
     distinct (live (session h)) \<and> (\<forall>idx \<in> set (live (session h)). idx < length (usages h)) \<and>
     (\<forall>i < length (usages h). session_position (usages h ! i) = slot_of (session h) i)"

definition session_ok :: "history \<Rightarrow> bool" where
  "session_ok h \<longleftrightarrow> slots_ok h \<and> length (session h) \<le> max 64 (2 * session_live h)"

lemma length_filter_out:
  "distinct xs \<Longrightarrow> length (filter (\<lambda>i. i \<noteq> x) xs) = (if x \<in> set xs then length xs - 1 else length xs)"
proof -
  assume "distinct xs"
  then have "filter (\<lambda>i. i \<noteq> x) xs = remove1 x xs" by (simp add: distinct_remove1_removeAll removeAll_filter_not_eq eq_commute)
  then show ?thesis by (simp add: length_remove1)
qed

lemma live_tombstone:
  assumes "position (\<lambda>idx. idx = i) slots = Some at" "distinct (live slots)" "i \<noteq> SESSION_REMOVED"
  shows "live (slots[at := SESSION_REMOVED]) = filter (\<lambda>idx. idx \<noteq> i) (live slots)"
  using assms
proof (induction slots arbitrary: at)
  case (Cons s slots)
  show ?case
  proof (cases "s = i")
    case True
    then have "i \<notin> set (live slots)" using Cons.prems by auto
    then have "\<forall>x \<in> set (live slots). x \<noteq> i" by blast
    then have "filter (\<lambda>idx. idx \<noteq> i) (live slots) = live slots" by (rule filter_True)
    then show ?thesis using True Cons.prems by simp
  qed (use Cons in \<open>auto split: if_splits\<close>)
qed simp

lemma position_tombstone:
  assumes "position (\<lambda>idx. idx = i) slots = Some at" "j \<noteq> i" "j \<noteq> r"
  shows "position (\<lambda>idx. idx = j) (slots[at := r]) = position (\<lambda>idx. idx = j) slots"
  using assms
proof (induction slots arbitrary: at)
  case (Cons s slots)
  then show ?case by (cases "s = i") auto
qed simp

lemma position_removed:
  assumes "position (\<lambda>idx. idx = i) slots = Some at" "distinct (live slots)" "i \<noteq> SESSION_REMOVED"
  shows "position (\<lambda>idx. idx = i) (slots[at := SESSION_REMOVED]) = None"
proof -
  have "i \<notin> set (live (slots[at := SESSION_REMOVED]))" unfolding live_tombstone [OF assms] by simp
  then show ?thesis using assms(3) by (auto simp: position_None)
qed

lemma compact_slots_correct:
  assumes "distinct (kept @ live slots)" "\<forall>idx \<in> set (live slots). idx < length us"
  shows "fst (compact_slots slots kept us) = kept @ live slots \<and>
    length (snd (compact_slots slots kept us)) = length us \<and>
    (\<forall>i < length us. snd (compact_slots slots kept us) ! i =
      (if i \<in> set (live slots) then (us ! i)\<lparr>session_position := slot_of (kept @ live slots) i\<rparr> else us ! i))"
  using assms
proof (induction slots arbitrary: kept us)
  case (Cons idx slots)
  show ?case
  proof (cases "idx = SESSION_REMOVED")
    case False
    let ?us = "us[idx := (us ! idx)\<lparr>session_position := Some (length kept + 1)\<rparr>]"
    have new: "idx \<notin> set kept" "idx \<notin> set (live slots)" "idx < length us" using Cons.prems False by auto
    then have "position (\<lambda>x. x = idx) kept = None" by (auto simp: position_None)
    then have at: "position (\<lambda>x. x = idx) (kept @ idx # live slots) = Some (length kept)"
      by (simp add: position_append)
    have "fst (compact_slots slots (kept @ [idx]) ?us) = (kept @ [idx]) @ live slots \<and>
      length (snd (compact_slots slots (kept @ [idx]) ?us)) = length ?us \<and>
      (\<forall>i < length ?us. snd (compact_slots slots (kept @ [idx]) ?us) ! i =
        (if i \<in> set (live slots) then (?us ! i)\<lparr>session_position := slot_of ((kept @ [idx]) @ live slots) i\<rparr> else ?us ! i))"
      using Cons.prems False by (intro Cons.IH) auto
    then show ?thesis using False new at by (auto simp: nth_list_update)
  qed (use Cons in auto)
qed simp

lemma position_live: "i \<noteq> SESSION_REMOVED \<Longrightarrow> position (\<lambda>idx. idx = i) (live slots) = None \<longleftrightarrow> position (\<lambda>idx. idx = i) slots = None"
  by (auto simp: position_None)

lemma compact_session_ok:
  assumes "slots_ok h"
  shows "session_ok (compact_session h) \<and> live (session (compact_session h)) = live (session h)"
proof (cases "length (session h) \<le> 2 * session_live h \<or> length (session h) \<le> 64")
  case True
  then show ?thesis using assms by (auto simp: compact_session_def session_ok_def)
next
  case False
  let ?r = "compact_slots (session h) [] (usages h)"
  have r: "fst ?r = live (session h)" "length (snd ?r) = length (usages h)"
    "\<And>i. i < length (usages h) \<Longrightarrow> snd ?r ! i = (if i \<in> set (live (session h))
      then (usages h ! i)\<lparr>session_position := slot_of (live (session h)) i\<rparr> else usages h ! i)"
    using compact_slots_correct [of "[]" "session h" "usages h"] assms by (auto simp: slots_ok_def)
  have h: "compact_session h = h\<lparr>session := fst ?r, usages := snd ?r\<rparr>"
    using False by (simp add: compact_session_def split: prod.splits)
  have "session_position (snd ?r ! i) = slot_of (live (session h)) i" if i: "i < length (usages h)" for i
  proof (cases "i \<in> set (live (session h))")
    case out: False
    have "i \<noteq> SESSION_REMOVED" using i assms by (auto simp: slots_ok_def)
    then have "position (\<lambda>idx. idx = i) (session h) = None" "position (\<lambda>idx. idx = i) (live (session h)) = None"
      using out by (auto simp: position_None)
    then show ?thesis using out i r(3) [OF i] assms by (simp add: slots_ok_def)
  qed (simp add: r(3) [OF i])
  then show ?thesis using assms r by (simp add: h session_ok_def slots_ok_def)
qed

lemma live_bounded: "slots_ok h \<Longrightarrow> session_live h \<le> length (usages h)"
  using card_mono [of "{..<length (usages h)}" "set (live (session h))"] distinct_card [of "live (session h)"]
  by (auto simp: slots_ok_def subset_eq)

text \<open>Remembering an entry moves it to the end; nothing panics while the tables fit 31 bits.\<close>

lemma remember_session_ok:
  assumes "session_ok h" "idx < length (usages h)" "length (usages h) < 2 ^ 31"
  shows "\<exists>h'. remember_session idx h = Some h' \<and> session_ok h' \<and>
    live (session h') = filter (\<lambda>i. i \<noteq> idx) (live (session h)) @ [idx]"
proof -
  have ok: "slots_ok h" using assms(1) by (simp add: session_ok_def)
  have idx: "idx \<noteq> SESSION_REMOVED" "idx \<le> u32_max" using assms(2,3) by (auto simp: SESSION_REMOVED_def u32_max_def)
  have len: "length (session h) < u32_max"
    using assms(1,3) live_bounded [OF ok] by (auto simp: session_ok_def u32_max_def)
  define slots where "slots = (case position (\<lambda>i. i = idx) (session h) of
    Some at \<Rightarrow> (session h)[at := SESSION_REMOVED] | None \<Rightarrow> session h)"
  define h1 where "h1 = update_entry idx (\<lambda>u. u\<lparr>session_position := Some (length slots + 1)\<rparr>)
    (h\<lparr>session_live := (case position (\<lambda>i. i = idx) (session h) of
        Some _ \<Rightarrow> session_live h | None \<Rightarrow> session_live h + 1), session := slots @ [idx]\<rparr>)"
  have pos: "session_position (usages h ! i) = slot_of (session h) i" if "i < length (usages h)" for i
    using ok that by (simp add: slots_ok_def)
  have "length slots = length (session h)" by (simp add: slots_def split: option.splits)
  then have step: "remember_session idx h = Some (compact_session h1)"
    using pos [OF assms(2)] idx len
    by (auto simp: remember_session_def Let_def expect_u32_def h1_def slots_def update_entry_def split: option.splits)
  have d: "distinct (live (session h))" using ok by (simp add: slots_ok_def)
  have live: "live slots = filter (\<lambda>i. i \<noteq> idx) (live (session h))"
  proof (cases "position (\<lambda>i. i = idx) (session h)")
    case None
    then have "\<forall>i \<in> set (live (session h)). i \<noteq> idx" by (auto simp: position_None)
    then have "filter (\<lambda>i. i \<noteq> idx) (live (session h)) = live (session h)" by (rule filter_True)
    then show ?thesis using None by (simp only: slots_def option.case)
  next
    case (Some at)
    then show ?thesis using live_tombstone [OF Some d idx(1)] by (simp add: slots_def)
  qed
  have others: "position (\<lambda>x. x = i) slots = (if i = idx then None else position (\<lambda>x. x = i) (session h))"
    if "i \<noteq> SESSION_REMOVED" for i
    using that position_tombstone [of idx "session h" _ i SESSION_REMOVED] position_removed [OF _ d idx(1)]
    by (auto simp: slots_def split: option.splits)
  have present: "idx \<in> set (live (session h)) \<longleftrightarrow> position (\<lambda>i. i = idx) (session h) \<noteq> None"
    using idx(1) by (auto simp: position_None)
  have "session_live h1 = length (live (session h1))"
    using ok present length_filter_out [OF d, of idx] idx(1) length_pos_if_in_set [of idx "live (session h)"]
    by (cases "idx \<in> set (live (session h))")
      (simp_all add: h1_def update_entry_def live slots_ok_def del: filter_filter split: option.splits)
  moreover have "session_position (usages h1 ! i) = slot_of (session h1) i" if "i < length (usages h1)" for i
  proof -
    have i: "i < length (usages h)" "i \<noteq> SESSION_REMOVED"
      using that assms(3) by (auto simp: h1_def update_entry_def SESSION_REMOVED_def u32_max_def)
    show ?thesis using pos [OF i(1)] others [OF i(2)] others [OF idx(1)] i(1)
      by (auto simp: h1_def update_entry_def position_append split: option.splits)
  qed
  moreover have "distinct (live (session h1))"
    using distinct_filter [OF d] by (simp add: h1_def update_entry_def live idx del: filter_filter)
  moreover have "\<forall>i \<in> set (live (session h1)). i < length (usages h1)"
    "length (usages h1) \<le> SESSION_REMOVED"
    using ok d assms(2) by (auto simp: h1_def update_entry_def live slots_ok_def idx)
  ultimately have "slots_ok h1" by (simp add: slots_ok_def)
  with compact_session_ok [OF this] show ?thesis
    unfolding step by (auto simp: h1_def update_entry_def live idx)
qed

subsection \<open>Occurrences keep the session and do not panic\<close>

definition text_bytes :: "occurrence list \<Rightarrow> nat" where
  "text_bytes ocs = sum_list (map (\<lambda>oc. length (utf8 (command oc))) ocs)"

text \<open>What 32-bit tables hold.\<close>

definition fits_memory :: "occurrence list \<Rightarrow> bool" where
  "fits_memory ocs \<longleftrightarrow> text_bytes ocs \<le> u32_max \<and> length ocs < 2 ^ 31 \<and> (\<forall>oc \<in> set ocs. occ_id oc \<le> int u32_max)"

definition mirrors :: "(ustring \<Rightarrow> u64) \<Rightarrow> history \<Rightarrow> occurrence list \<Rightarrow> bool" where
  "mirrors hash h ocs \<longleftrightarrow> indexes hash h ocs \<and> log_ok ocs \<and> session_ok h \<and>
     length (arena h) \<le> text_bytes ocs \<and> length (directory_paths h) \<le> length ocs"

lemma length_first_uses: "length (first_uses ocs) \<le> length ocs"
  by (metis first_uses_def length_map length_remdups_leq length_rev)

lemma intern_total:
  "length (directory_paths h) \<le> u32_max \<Longrightarrow>
   \<exists>code h'. intern_directory path h = Some (code, h') \<and> length (directory_paths h') \<le> length (directory_paths h) + 1"
  by (auto simp: intern_directory_def expect_u32_def split: option.splits)

lemma directory_paths_frames:
  "directory_paths (record_directory idx code t h) = directory_paths h"
  "directory_paths (detach_shared_directory idx h) = directory_paths h"
  "directory_paths (update_entry idx f h) = directory_paths h"
  by (auto simp: record_directory_def detach_shared_directory_def update_entry_def Let_def
      split: option.splits directory_detail.splits)

lemma note_directory_total:
  "length (directory_paths h) \<le> u32_max \<Longrightarrow>
   \<exists>h'. note_directory idx oc h = Some h' \<and> length (directory_paths h') \<le> length (directory_paths h) + 1"
  using intern_total [of h] by (cases "cwd oc") (fastforce simp: note_directory_def directory_paths_frames)+

text \<open>The slots of a state depend on its core.\<close>

lemma session_ok_core:
  assumes "session h' = session h" "session_live h' = session_live h"
    and "map session_position (usages h') = map session_position (usages h)" "session_ok h"
  shows "session_ok h'"
proof -
  have "length (usages h') = length (usages h)" using assms(3) by (metis length_map)
  moreover have "session_position (usages h' ! i) = session_position (usages h ! i)" if "i < length (usages h)" for i
    using assms(3) that calculation by (metis nth_map)
  ultimately show ?thesis using assms by (auto simp: session_ok_def slots_ok_def)
qed

lemma core_session:
  "core h' = core h \<Longrightarrow> session h' = session h \<and> session_live h' = session_live h \<and>
     map session_position (usages h') = map session_position (usages h)"
proof -
  assume c: "core h' = core h"
  then have "map (snd \<circ> snd \<circ> snd) (map entry_core (usages h')) = map (snd \<circ> snd \<circ> snd) (map entry_core (usages h))"
    by (simp add: core_def)
  then show ?thesis using c by (simp add: core_def entry_core_def comp_def)
qed

lemma count_session:
  "session (count_occurrence oc idx h) = session h \<and> session_live (count_occurrence oc idx h) = session_live h \<and>
     map session_position (usages (count_occurrence oc idx h)) = map session_position (usages h) \<and>
     arena (count_occurrence oc idx h) = arena h \<and> directory_paths (count_occurrence oc idx h) = directory_paths h \<and>
     hist_generation (count_occurrence oc idx h) = hist_generation h"
  using list_update_id [of "map session_position (usages h)" idx]
  by (cases "idx < length (usages h)")
    (auto simp: count_occurrence_def forget_latest_occurrence_def record_latest_occurrence_def update_entry_def Let_def
      map_update list_update_beyond)

lemma new_entry_session:
  assumes "session_ok h" "length (usages h) < SESSION_REMOVED" "length (offsets h) = length (usages h)"
    and "new_entry k t h = Some (idx, h')"
  shows "session_ok h' \<and> session h' = session h \<and> length (arena h') = length (arena h) + length (utf8 t) \<and>
    directory_paths h' = directory_paths h \<and> hist_generation h' = hist_generation h"
proof -
  have "position (\<lambda>i. i = length (usages h)) (session h) = None"
    using assms(1,2) by (auto simp: session_ok_def slots_ok_def position_None)
  then show ?thesis using assms
    by (auto simp: new_entry_def expect_u32_def session_ok_def slots_ok_def nth_append less_Suc_eq Let_def
        split: if_splits Option.bind_splits)
qed

lemma apply_occurrence_mirrors:
  assumes h: "mirrors hash h ocs" and ok: "log_ok (ocs @ [oc])" and fits: "fits_memory (ocs @ [oc])"
  shows "\<exists>idx h'. apply_occurrence hash oc h = Some (idx, h') \<and> mirrors hash h' (ocs @ [oc]) \<and>
    idx = entry_of (ocs @ [oc]) (command oc) \<and> session h' = session h \<and> hist_generation h' = hist_generation h"
proof -
  have i: "indexes hash h ocs" and s: "session_ok h" and a: "length (arena h) \<le> text_bytes ocs"
    and d: "length (directory_paths h) \<le> length ocs" using h by (auto simp: mirrors_def)
  note len = indexes_length [OF i] indexes_usages [OF i] length_first_uses [of ocs]
  have small: "length ocs < 2 ^ 31" "text_bytes ocs + length (utf8 (command oc)) \<le> u32_max" "0 < occ_id oc" "occ_id oc \<le> int u32_max"
    using fits log_ok_snoc [OF ok] by (auto simp: fits_memory_def text_bytes_def)
  define start where "start = (case find_entry_index h (hash (command oc)) (command oc) of
       Some idx \<Rightarrow> Some (idx, h) | None \<Rightarrow> new_entry (hash (command oc)) (command oc) h)"
  have "\<exists>idx h1. start = Some (idx, h1) \<and> session_ok h1 \<and> session h1 = session h \<and> hist_generation h1 = hist_generation h \<and>
    length (arena h1) \<le> text_bytes (ocs @ [oc]) \<and> directory_paths h1 = directory_paths h"
  proof (cases "find_entry_index h (hash (command oc)) (command oc)")
    case None
    have "new_entry (hash (command oc)) (command oc) h \<noteq> None"
      using len small a by (auto simp: new_entry_def expect_u32_def u32_max_def Let_def split: Option.bind_splits)
    then obtain idx h1 where n: "new_entry (hash (command oc)) (command oc) h = Some (idx, h1)" by auto
    have "length (usages h) < SESSION_REMOVED" using len small by (auto simp: SESSION_REMOVED_def u32_max_def)
    then show ?thesis using new_entry_session [OF s _ _ n] n None len a by (auto simp: start_def text_bytes_def)
  qed (use s a in \<open>auto simp: start_def text_bytes_def\<close>)
  then obtain idx h1 where 1: "start = Some (idx, h1)" "session_ok h1" "session h1 = session h"
    "hist_generation h1 = hist_generation h" "length (arena h1) \<le> text_bytes (ocs @ [oc])" "directory_paths h1 = directory_paths h" by blast
  obtain h2 where 2: "note_directory idx oc h1 = Some h2" "length (directory_paths h2) \<le> length ocs + 1"
    using note_directory_total [of h1 idx oc] 1(6) d small(1) by (auto simp: u32_max_def)
  note c = note_directory_core [OF 2(1)]
  let ?h = "count_occurrence oc idx h2"
  have app: "apply_occurrence hash oc h = Some (idx, ?h)"
    unfolding apply_occurrence_unfold start_def [symmetric] using 1(1) 2(1) small by simp
  have frames: "session ?h = session h" "hist_generation ?h = hist_generation h" "arena ?h = arena h1" "session_ok ?h"
    using c core_session [OF c] count_session [of oc idx h2] 1 session_ok_core [of ?h h1] by (auto simp: core_def)
  have "mirrors hash ?h (ocs @ [oc])"
    unfolding mirrors_def using apply_occurrence_indexes [OF i ok app] frames(3,4) ok 1(5) 2(2) count_session [of oc idx h2]
    by (metis length_append_singleton Suc_eq_plus1)
  then show ?thesis using app frames apply_occurrence_indexes [OF i ok app] by blast
qed

lemma apply_occurrences_mirrors:
  "mirrors hash h ocs \<Longrightarrow> log_ok (ocs @ ns) \<Longrightarrow> fits_memory (ocs @ ns) \<Longrightarrow>
   \<exists>h'. apply_occurrences hash ns h = Some h' \<and> mirrors hash h' (ocs @ ns) \<and> session h' = session h \<and> hist_generation h' = hist_generation h"
proof (induction ns arbitrary: h ocs)
  case (Cons oc ns)
  have "log_ok (ocs @ [oc])" "fits_memory (ocs @ [oc])"
    using Cons.prems by (auto simp: log_ok_def sorted_wrt_append fits_memory_def text_bytes_def)
  then obtain idx h1 where "apply_occurrence hash oc h = Some (idx, h1)" "mirrors hash h1 (ocs @ [oc])"
      "session h1 = session h" "hist_generation h1 = hist_generation h"
    using apply_occurrence_mirrors [OF Cons.prems(1)] by blast
  then show ?case using Cons.IH [of h1 "ocs @ [oc]"] Cons.prems by auto
qed simp

lemma empty_mirrors: "mirrors hash (empty_history\<lparr>hist_generation := g\<rparr>) []"
  using empty_indexes [of hash]
  by (simp add: mirrors_def indexes_def empty_history_def log_ok_def session_ok_def slots_ok_def text_bytes_def entry_bytes_def)

subsection \<open>Loading, synchronizing, adding\<close>

definition history_sync :: "(ustring \<Rightarrow> u64) \<Rightarrow> nat \<Rightarrow> (nat \<Rightarrow> nat \<times> nat) \<Rightarrow> store \<Rightarrow> history \<Rightarrow>
    ((log_error + history) \<times> store) option" where
  "history_sync hash fuel fids st h =
     Option.bind (store_snapshot fuel fids st (hist_generation h) (last_id h)) (\<lambda>(r, st).
       case r of
         Inl e \<Rightarrow> Some (Inl e, st)
       | Inr snap \<Rightarrow> map_option (\<lambda>h. (Inr h, st)) (apply_snapshot hash snap h))"

fun remember_all :: "nat list \<Rightarrow> history \<Rightarrow> history option" where
  "remember_all [] h = Some h"
| "remember_all (idx # is) h = Option.bind (remember_session idx h) (remember_all is)"

definition is_frame_corruption :: "log_error \<Rightarrow> bool" where
  "is_frame_corruption e \<longleftrightarrow> (case e of FrameCorruption _ _ \<Rightarrow> True | _ \<Rightarrow> False)"

text \<open>A damaged log is salvaged and read again. The message about it is not modelled.\<close>

definition sync_or_salvage :: "(ustring \<Rightarrow> u64) \<Rightarrow> nat \<Rightarrow> (nat \<Rightarrow> nat \<times> nat) \<Rightarrow> nat \<times> nat \<Rightarrow> store \<Rightarrow>
    ((log_error + history) \<times> store) option" where
  "sync_or_salvage hash fuel fids fid st =
     Option.bind (history_sync hash fuel fids st empty_history) (\<lambda>(r, st).
       case r of
         Inr h \<Rightarrow> Some (Inr h, st)
       | Inl e \<Rightarrow>
           if \<not> is_frame_corruption e then Some (Inl e, st)
           else Option.bind (store_salvage fuel fids fid st) (\<lambda>(r, st).
             case r of Inl e \<Rightarrow> Some (Inl e, st) | Inr _ \<Rightarrow> history_sync hash fuel fids st empty_history))"

definition history_load :: "(ustring \<Rightarrow> u64) \<Rightarrow> nat \<Rightarrow> (nat \<Rightarrow> nat \<times> nat) \<Rightarrow> nat \<times> nat \<Rightarrow> store \<Rightarrow>
    ((log_error + history) \<times> store) option" where
  "history_load hash fuel fids fid st =
     Option.bind (sync_or_salvage hash fuel fids fid st) (\<lambda>(r, st).
       case r of
         Inl e \<Rightarrow> Some (Inl e, st)
       | Inr h \<Rightarrow> map_option (\<lambda>h. (Inr h, st)) (remember_all (map snd (latest_occurrences h)) h))"

definition new_occurrence :: "history \<Rightarrow> ustring \<Rightarrow> bytes option \<Rightarrow> nat \<Rightarrow> nat \<Rightarrow> occurrence" where
  "new_occurrence h line dir now sid =
     \<lparr>occ_id = last_id h + 1, command = line, timestamp = now, session_id = sid, cwd = dir\<rparr>"

definition history_add :: "(ustring \<Rightarrow> u64) \<Rightarrow> nat \<Rightarrow> (nat \<Rightarrow> nat \<times> nat) \<Rightarrow> write_outcome \<Rightarrow> store \<Rightarrow> history \<Rightarrow>
    ustring \<Rightarrow> bytes option \<Rightarrow> nat \<Rightarrow> nat \<Rightarrow> ((log_error + history) \<times> store) option" where
  "history_add hash fuel fids out st h line dir now sid =
     (if list_all is_whitespace line then Some (Inr h, st)
      else Option.bind (store_append fuel fids out st (hist_generation h) (last_id h) (new_occurrence h line dir now sid)) (\<lambda>(r, st).
        case r of
          Inl e \<Rightarrow> Some (Inl e, st)
        | Inr (snap, _) \<Rightarrow>
            Option.bind (apply_snapshot hash snap h) (\<lambda>h.
            Option.bind (find_entry_index h (hash line) line) (\<lambda>idx.
              map_option (\<lambda>h. (Inr h, st)) (remember_session idx h)))))"

definition history_reset :: "nat \<times> nat \<Rightarrow> nat \<Rightarrow> store \<Rightarrow> history \<Rightarrow> (log_error + history) \<times> store" where
  "history_reset fid now st h =
     (case store_reset fid now st of
        (Inl e, st) \<Rightarrow> (Inl e, st)
      | (Inr g, st) \<Rightarrow> (Inr ((clear_history h)\<lparr>hist_generation := g\<rparr>), st))"

text \<open>The commands that the Up key walks, latest first.\<close>

definition recall :: "history \<Rightarrow> ustring list" where
  "recall h = map (get_text h) (live_slots h)"

lemma get_text_entry: "mirrors hash h ocs \<Longrightarrow> i < length (first_uses ocs) \<Longrightarrow> get_text h i = first_uses ocs ! i"
  using indexes_get [of hash h ocs i] log_ok_command [of ocs i] utf8_chunk_utf8 [of "first_uses ocs ! i" "[]"]
  by (simp add: mirrors_def get_text_def)

lemma first_uses_append: "\<exists>zs. first_uses (ocs @ ns) = first_uses ocs @ zs"
proof (induction ns rule: rev_induct)
  case (snoc oc ns)
  then show ?case using first_uses_snoc [of "ocs @ ns" oc] by (auto split: if_splits)
qed simp

lemma live_range: "mirrors hash h ocs \<Longrightarrow> i \<in> set (live_slots h) \<Longrightarrow> i < length (first_uses ocs)"
  using indexes_usages [of hash h ocs] by (auto simp: mirrors_def session_ok_def slots_ok_def live_slots_def)

lemma recall_kept:
  assumes "mirrors hash h ocs" "mirrors hash h' (ocs @ ns)" "session h' = session h"
  shows "recall h' = recall h"
proof -
  obtain zs where z: "first_uses (ocs @ ns) = first_uses ocs @ zs" using first_uses_append by blast
  have "get_text h' i = get_text h i" if "i \<in> set (live_slots h)" for i
    using live_range [OF assms(1) that] get_text_entry [OF assms(1)] get_text_entry [OF assms(2), of i] z by (simp add: nth_append)
  moreover have "live_slots h' = live_slots h" using assms(3) by (simp add: live_slots_def)
  ultimately show ?thesis by (simp add: recall_def)
qed

text \<open>Remembering an entry changes the slots only.\<close>

definition without_slots :: "history \<Rightarrow> history" where
  "without_slots h = h\<lparr>session := [], session_live := 0, usages := map (\<lambda>u. u\<lparr>session_position := None\<rparr>) (usages h)\<rparr>"

lemma forget_position:
  "map (\<lambda>u. u\<lparr>session_position := None\<rparr>) (us[s := (us ! s)\<lparr>session_position := p\<rparr>]) = map (\<lambda>u. u\<lparr>session_position := None\<rparr>) us"
  using list_update_id [of "map (\<lambda>u. u\<lparr>session_position := None\<rparr>) us" s]
  by (cases "s < length us") (auto simp: map_update list_update_beyond)

lemma compact_slots_forget:
  "map (\<lambda>u. u\<lparr>session_position := None\<rparr>) (snd (compact_slots slots kept us)) = map (\<lambda>u. u\<lparr>session_position := None\<rparr>) us"
  by (induction slots arbitrary: kept us) (simp_all add: forget_position)

lemma compact_without: "without_slots (compact_session h) = without_slots h"
  using compact_slots_forget [of "session h" "[]" "usages h"]
  by (cases "compact_slots (session h) [] (usages h)") (simp add: compact_session_def without_slots_def)

lemma without_updates:
  "without_slots (update_entry idx (\<lambda>u. u\<lparr>session_position := Some at\<rparr>) h) = without_slots h"
  "without_slots (h\<lparr>session := ss\<rparr>) = without_slots h" "without_slots (h\<lparr>session_live := n\<rparr>) = without_slots h"
  by (simp_all add: without_slots_def update_entry_def forget_position)

lemma remember_without: "remember_session idx h = Some h' \<Longrightarrow> without_slots h' = without_slots h"
  by (auto simp: remember_session_def Let_def expect_u32_def compact_without without_updates split: option.splits if_splits)

lemma entry_ok_without: "entry_ok ocs c (u\<lparr>session_position := p\<rparr>) = entry_ok ocs c u"
  by (simp add: entry_ok_def)

lemma indexes_without: "indexes hash (without_slots h) ocs = indexes hash h ocs"
proof -
  have "entry_bytes (without_slots h) = entry_bytes h" by (simp add: entry_bytes_def without_slots_def fun_eq_iff)
  then show ?thesis by (simp add: indexes_def without_slots_def list_all2_map2 entry_ok_without)
qed

lemma without_fields:
  assumes "without_slots h' = without_slots h"
  shows "arena h' = arena h \<and> offsets h' = offsets h \<and> directory_paths h' = directory_paths h \<and>
    hist_generation h' = hist_generation h \<and> latest_occurrences h' = latest_occurrences h"
proof -
  show ?thesis using arg_cong [OF assms, of arena] arg_cong [OF assms, of offsets] arg_cong [OF assms, of directory_paths]
      arg_cong [OF assms, of hist_generation] arg_cong [OF assms, of latest_occurrences] by (simp add: without_slots_def)
qed

text \<open>Remembering an entry puts its text at the front of recall.\<close>

lemma remember_recall:
  assumes h: "mirrors hash h ocs" and idx: "idx < length (first_uses ocs)" and small: "length ocs < 2 ^ 31"
  shows "\<exists>h'. remember_session idx h = Some h' \<and> mirrors hash h' ocs \<and> hist_generation h' = hist_generation h \<and>
    latest_occurrences h' = latest_occurrences h \<and>
    recall h' = first_uses ocs ! idx # filter (\<lambda>c. c \<noteq> first_uses ocs ! idx) (recall h)"
proof -
  have i: "indexes hash h ocs" and s: "session_ok h" using h by (auto simp: mirrors_def)
  have len: "length (usages h) = length (first_uses ocs)" using indexes_usages [OF i] by simp
  then have u: "idx < length (usages h)" "length (usages h) < 2 ^ 31"
    using idx small length_first_uses [of ocs] by (auto simp: le_less_trans)
  obtain h' where r: "remember_session idx h = Some h'" "session_ok h'"
      "live (session h') = filter (\<lambda>i. i \<noteq> idx) (live (session h)) @ [idx]"
    using remember_session_ok [OF s u] by blast
  note w = remember_without [OF r(1)]
  note f = without_fields [OF w]
  have "indexes hash h' ocs" using i indexes_without w by metis
  then have m: "mirrors hash h' ocs" using h r(2) f by (simp add: mirrors_def)
  have slots: "live_slots h' = idx # filter (\<lambda>i. i \<noteq> idx) (live_slots h)"
    using arg_cong [OF r(3), of rev] by (simp add: live_slots_def rev_filter del: filter_filter)
  have get: "get_text h' = get_text h" using f by (simp add: get_text_def entry_bytes_def fun_eq_iff)
  have "get_text h i \<noteq> first_uses ocs ! idx \<longleftrightarrow> i \<noteq> idx" if "i \<in> set (live_slots h)" for i
    using live_range [OF h that] get_text_entry [OF h] idx distinct_first_uses [of ocs] by (simp add: nth_eq_iff_index_eq)
  then have "filter (\<lambda>c. c \<noteq> first_uses ocs ! idx) (recall h) = map (get_text h) (filter (\<lambda>i. i \<noteq> idx) (live_slots h))"
    by (auto simp: recall_def filter_map comp_def intro!: arg_cong [where f = "map _"] filter_cong)
  then show ?thesis using r(1) m f slots get get_text_entry [OF h idx] by (simp add: recall_def)
qed

lemma remember_all_recall:
  assumes "mirrors hash h ocs" "list_all (\<lambda>i. i < length (first_uses ocs)) is" "length ocs < 2 ^ 31"
  shows "\<exists>h'. remember_all is h = Some h' \<and> mirrors hash h' ocs \<and> hist_generation h' = hist_generation h \<and>
    recall h' = rev (remdups (rev (recall h) @ map ((!) (first_uses ocs)) is))"
  using assms
proof (induction "is" arbitrary: h)
  case Nil
  have "distinct (recall h)"
  proof -
    have "inj_on (get_text h) (set (live_slots h))"
      using live_range [OF Nil(1)] get_text_entry [OF Nil(1)] distinct_first_uses [of ocs]
      by (auto intro!: inj_onI simp: nth_eq_iff_index_eq)
    moreover have "distinct (live_slots h)"
      using Nil(1) by (simp add: mirrors_def session_ok_def slots_ok_def live_slots_def rev_filter [symmetric])
    ultimately show ?thesis by (simp add: recall_def distinct_map)
  qed
  then show ?case using Nil by (simp add: distinct_remdups_id)
next
  case (Cons i "is")
  obtain h1 where h1: "remember_session i h = Some h1" "mirrors hash h1 ocs" "hist_generation h1 = hist_generation h"
      "recall h1 = first_uses ocs ! i # filter (\<lambda>c. c \<noteq> first_uses ocs ! i) (recall h)"
    using remember_recall [OF Cons.prems(1)] Cons.prems by fastforce
  have "remdups (filter (\<lambda>c. c \<noteq> x) xs @ x # ys) = remdups (xs @ x # ys)" for xs ys and x :: ustring
    by (induction xs) auto
  then show ?case using Cons.IH [OF h1(2)] Cons.prems h1 by (auto simp: rev_filter)
qed

subsection \<open>The store and the index together\<close>

lemma valid_log_ok: "valid_log g ocs \<Longrightarrow> log_ok ocs"
  by (auto simp: valid_log_def log_ok_def occ_ok_def list_all_iff)

lemma unseen_suffix:
  assumes "valid_log g ocs" "n \<le> length ocs"
  shows "unseen g g (last_occ_id (take n ocs)) ocs = drop n ocs"
proof -
  have ids: "sorted_wrt (<) (map occ_id (take n ocs @ drop n ocs))" "\<forall>oc \<in> set ocs. 0 < occ_id oc"
    using assms(1) by (auto simp: valid_log_def occ_ok_def list_all_iff)
  have "\<forall>oc \<in> set (take n ocs). \<not> last_occ_id (take n ocs) < occ_id oc"
    using last_occ_id_max [of "take n ocs"] ids(1) unfolding map_append sorted_wrt_append by fastforce
  moreover have "\<forall>oc \<in> set (drop n ocs). last_occ_id (take n ocs) < occ_id oc"
    using ids last_in_set [of "take n ocs"] unfolding map_append sorted_wrt_append
    by (auto simp: last_occ_id_def dest: in_set_dropD)
  ultimately have "filter (\<lambda>oc. last_occ_id (take n ocs) < occ_id oc) (take n ocs @ drop n ocs) = drop n ocs"
    unfolding filter_append by (metis (no_types, lifting) append_Nil filter_False filter_True)
  then show ?thesis by (simp add: unseen_def)
qed

text \<open>A snapshot brings an index of a part of the log up to the whole log.\<close>

lemma snapshot_mirrors:
  assumes "mirrors hash h (take n ocs)" "hist_generation h = g" "n \<le> length ocs" "log_ok (ocs @ ns)" "fits_memory (ocs @ ns)"
  shows "\<exists>h'. apply_snapshot hash \<lparr>snap_generation = g, occurrences = drop n ocs @ ns\<rparr> h = Some h' \<and>
    mirrors hash h' (ocs @ ns) \<and> hist_generation h' = g \<and> recall h' = recall h"
proof -
  have all: "take n ocs @ drop n ocs @ ns = ocs @ ns" by simp
  obtain h' where "apply_occurrences hash (drop n ocs @ ns) h = Some h'" "mirrors hash h' (ocs @ ns)"
      "session h' = session h" "hist_generation h' = hist_generation h"
    using apply_occurrences_mirrors [OF assms(1), of "drop n ocs @ ns"] assms(4,5) unfolding all by blast
  moreover from this have "recall h' = recall h" using recall_kept [OF assms(1), of h' "drop n ocs @ ns"] unfolding all by blast
  ultimately show ?thesis using assms(2) by (simp add: apply_snapshot_def)
qed

text \<open>
  C16.  A shell starts with the whole log: from a store that holds a log, loading builds the index of
  all its commands, and recall walks them from the latest to the oldest, each once.
\<close>

theorem history_load_recalls:
  assumes "holds_log st g ocs" and "fits_memory ocs"
  shows "\<exists>h st'. history_load hash (Suc fuel) fids fid st = Some (Inr h, st') \<and> holds_log st' g ocs \<and>
    mirrors hash h ocs \<and> hist_generation h = g \<and> recall h = rev (remdups (map command ocs))"
proof -
  have v: "valid_log g ocs" and c: "cursor_ok (st_cursor st) (st_file st) g ocs" and d: "file_data (st_file st) = log_data g ocs"
    using assms(1) by (simp_all add: holds_log_def)
  define st' where "st' = st\<lparr>st_cursor := end_cursor (st_file st) g ocs\<rparr>"
  have ok: "log_ok ocs" using v by (rule valid_log_ok)
  have u: "unseen g 0 0 ocs = ocs" using ok by (auto simp: unseen_def log_ok_def)
  have snap: "store_snapshot (Suc fuel) fids st 0 0 = Some (Inr \<lparr>snap_generation = g, occurrences = ocs\<rparr>, st')"
    using read_snapshot_intact [OF v c d, of fuel fids 0 0] by (simp add: store_snapshot_def u st'_def)
  have st': "holds_log st' g ocs"
    using v d cursor_ok_end [of "st_file st'" g ocs _ _ "[]"] by (simp add: holds_log_def st'_def)
  have start: "(if g \<noteq> hist_generation empty_history then (clear_history empty_history)\<lparr>hist_generation := g\<rparr> else empty_history) =
      empty_history\<lparr>hist_generation := g\<rparr>" by (simp add: clear_history_def empty_history_def)
  obtain h where h: "apply_occurrences hash ocs (empty_history\<lparr>hist_generation := g\<rparr>) = Some h" "mirrors hash h ocs"
      "session h = []" "hist_generation h = g"
    using apply_occurrences_mirrors [OF empty_mirrors, of ocs hash g] ok assms(2) by (auto simp: empty_history_def)
  have sync: "history_sync hash (Suc fuel) fids st empty_history = Some (Inr h, st')"
  proof -
    have "apply_snapshot hash \<lparr>snap_generation = g, occurrences = ocs\<rparr> empty_history = Some h"
      unfolding apply_snapshot_def Let_def snapshot.simps start by (rule h(1))
    then show ?thesis using snap by (simp add: history_sync_def empty_history_def)
  qed
  have rows: "latest_occurrences h = map (\<lambda>oc. (occ_id oc, entry_of ocs (command oc))) (last_uses ocs)"
    using h(2) by (simp add: mirrors_def indexes_def)
  have known: "command oc \<in> command ` set ocs" if "oc \<in> set (last_uses ocs)" for oc using that last_uses_subset by blast
  have "list_all (\<lambda>i. i < length (first_uses ocs)) (map snd (latest_occurrences h))"
    using entry_of_nth [OF known] by (simp add: rows list_all_iff)
  moreover have "map ((!) (first_uses ocs)) (map snd (latest_occurrences h)) = remdups (map command ocs)"
    using entry_of_nth [OF known] by (simp add: rows command_last_uses [symmetric] cong: map_cong)
  moreover have "recall h = []" using h(3) by (simp add: recall_def live_slots_def)
  ultimately obtain h' where "remember_all (map snd (latest_occurrences h)) h = Some h'" "mirrors hash h' ocs"
      "hist_generation h' = g" "recall h' = rev (remdups (remdups (map command ocs)))"
    using remember_all_recall [OF h(2), of "map snd (latest_occurrences h)"] assms(2) h(4) by (auto simp: fits_memory_def)
  then show ?thesis using st' by (simp add: history_load_def sync_or_salvage_def sync)
qed

text \<open>
  C14.  Adding a command joins the store and the index. The log may hold commands of other shells
  that the index has not seen: after the call the file is the log with the new command at its
  end, the index mirrors that whole log, and the new command is at the front of recall, where
  the commands of the other shells do not appear.
\<close>

theorem history_add_records:
  assumes "holds_log st g ocs" and "mirrors hash h (take n ocs)" and "n \<le> length ocs" and "hist_generation h = g"
    and "fits_log g ocs (new_occurrence h line dir now sid)" and "\<not> list_all is_whitespace line"
    and "fits_memory (ocs @ [(new_occurrence h line dir now sid)\<lparr>occ_id := last_occ_id ocs + 1\<rparr>])"
  shows "\<exists>h' st'. let log = ocs @ [(new_occurrence h line dir now sid)\<lparr>occ_id := last_occ_id ocs + 1\<rparr>] in
    history_add hash (Suc fuel) fids Written st h line dir now sid = Some (Inr h', st') \<and> holds_log st' g log \<and>
    mirrors hash h' log \<and> hist_generation h' = g \<and> recall h' = line # filter (\<lambda>c. c \<noteq> line) (recall h)"
proof -
  define oc where "oc = new_occurrence h line dir now sid"
  define new where "new = oc\<lparr>occ_id := last_occ_id ocs + 1\<rparr>"
  have line: "command new = line" by (simp add: new_def oc_def new_occurrence_def)
  have v: "valid_log g ocs" using assms(1) by (simp add: holds_log_def)
  obtain st' where a: "store_append (Suc fuel) fids Written st g (last_id h) oc =
      Some (Inr (\<lparr>snap_generation = g, occurrences = unseen g g (last_id h) ocs @ [new]\<rparr>, occ_id new), st')"
    and st': "holds_log st' g (ocs @ [new])"
    using append_read_back [OF assms(1) assms(5) cursor_ok_default, where generation = g and last_id = "last_id h" and fuel = fuel and fids = fids]
    unfolding new_def oc_def by (auto simp: Let_def)
  have "last_id h = last_occ_id (take n ocs)" using assms(2) by (simp add: mirrors_def indexes_def)
  then have seen: "unseen g g (last_id h) ocs = drop n ocs" using unseen_suffix [OF v assms(3)] by simp
  have ok: "log_ok (ocs @ [new])" using st' valid_log_ok by (auto simp: holds_log_def)
  have fits: "fits_memory (ocs @ [new])" using assms(7) by (simp add: new_def oc_def)
  obtain h1 where h1: "apply_snapshot hash \<lparr>snap_generation = g, occurrences = drop n ocs @ [new]\<rparr> h = Some h1"
      "mirrors hash h1 (ocs @ [new])" "hist_generation h1 = g" "recall h1 = recall h"
    using snapshot_mirrors [OF assms(2,4,3) ok fits] by blast
  have "line \<in> command ` set (ocs @ [new])" using line by auto
  then have e: "find_entry_index h1 (hash line) line = Some (entry_of (ocs @ [new]) line)"
    "entry_of (ocs @ [new]) line < length (first_uses (ocs @ [new]))" "first_uses (ocs @ [new]) ! entry_of (ocs @ [new]) line = line"
    using find_entry_index_correct [of hash h1 "ocs @ [new]" line] h1(2) ok entry_of_nth [of line "ocs @ [new]"] line
    by (auto simp: mirrors_def log_ok_def)
  obtain h' where "remember_session (entry_of (ocs @ [new]) line) h1 = Some h'" "mirrors hash h' (ocs @ [new])"
      "hist_generation h' = g" "recall h' = line # filter (\<lambda>c. c \<noteq> line) (recall h)"
    using remember_recall [OF h1(2) e(2)] fits h1 unfolding e(3) by (auto simp: fits_memory_def)
  then have "history_add hash (Suc fuel) fids Written st h line dir now sid = Some (Inr h', st') \<and>
      holds_log st' g (ocs @ [new]) \<and> mirrors hash h' (ocs @ [new]) \<and> hist_generation h' = g \<and>
      recall h' = line # filter (\<lambda>c. c \<noteq> line) (recall h)"
    using assms(4,6) a st' seen h1(1) e(1) by (simp add: history_add_def oc_def)
  then show ?thesis unfolding Let_def oc_def [symmetric] new_def [symmetric] by blast
qed

text \<open>A failed append leaves the index as it was.\<close>

lemma history_add_failed:
  assumes "holds_log st (hist_generation h) ocs" and "fits_log (hist_generation h) ocs (new_occurrence h line dir now sid)"
    and "\<not> list_all is_whitespace line"
  shows "\<exists>e st'. history_add hash (Suc fuel) fids (Failed k rolled_back) st h line dir now sid = Some (Inl e, st')"
  using assms(3) unfolding history_add_def append_writes [OF assms(1,2)] write_frame_def by (simp add: Let_def)

lemma history_load_recalls_witness:
  "\<exists>h st'. history_load (\<lambda>_. 0) 1 (\<lambda>n. (1, 3 + n)) (9, 9) demo_store = Some (Inr h, st') \<and> recall h = []"
  using history_load_recalls [OF demo_holds(1), of "\<lambda>_. 0" 0 "\<lambda>n. (1, 3 + n)" "(9, 9)"]
  by (auto simp: fits_memory_def text_bytes_def)

lemma history_add_records_witness:
  "\<exists>h st'. history_add (\<lambda>_. 0) 1 (\<lambda>n. (1, 3 + n)) Written demo_store empty_history [108, 115] (Some [47]) 5 1 = Some (Inr h, st') \<and>
     recall h = [[108, 115]]"
proof -
  have f: "fits_log 0 [] (new_occurrence empty_history [108, 115] (Some [47]) 5 1)"
    using demo_holds(2) by (simp add: fits_log_def new_occurrence_def demo_occurrence_def length_frame length_payload)
  have m: "mirrors (\<lambda>_. 0) empty_history (take 0 [])" using empty_mirrors [of "\<lambda>_. 0" 0] by (simp add: empty_history_def)
  have "fits_memory ([] @ [(new_occurrence empty_history [108, 115] (Some [47]) 5 1)\<lparr>occ_id := last_occ_id [] + 1\<rparr>])"
    by (simp add: fits_memory_def text_bytes_def new_occurrence_def last_occ_id_def u32_max_def encode_utf8_def)
  from history_add_records [OF demo_holds(1) m _ _ f _ this, of 0 "\<lambda>n. (1, 3 + n)"]
  moreover have "hist_generation empty_history = 0" "recall empty_history = []"
    by (simp_all add: empty_history_def recall_def live_slots_def)
  ultimately show ?thesis by (auto simp: is_whitespace_def Let_def)
qed

end
