(* ===== verification/History_Search.thy ===== *)
theory History_Search
  imports History_Session
begin

text \<open>
  The search of Ctrl+R (\<^verbatim>\<open>search_limited\<close> and what it calls, \<^verbatim>\<open>src/history.rs\<close>): every candidate
  is tested, the matching ones are ranked by their tier, the distance of the directory they ran
  in, their use and their age, and the best ones are kept in a bounded list.

  The clock is an argument \<open>now\<close>. \<open>None\<close> is a panic.
\<close>

subsection \<open>Rank keys\<close>

definition usize_max :: nat where
  "usize_max = 2 ^ 64 - 1"

type_synonym ranking = "nat \<times> nat \<times> nat \<times> nat \<times> nat"

fun ilog2 :: "nat \<Rightarrow> nat" where
  "ilog2 n = (if n < 2 then 0 else ilog2 (n div 2) + 1)"

declare ilog2.simps [simp del]

definition usage_bonus :: "usage \<Rightarrow> nat \<Rightarrow> nat" where
  "usage_bonus u now =
     (let frequency = min (ilog2 (max (use_count u) 1)) 10 * 2;
          hours = (now - use_time u) div 3600000;
          recency = (if hours \<le> 1 then 24 else if hours \<le> 23 then 20 else if hours \<le> 167 then 12
                     else if hours \<le> 719 then 4 else 0)
      in frequency + recency)"

text \<open>The two walks for a command that ran in several directories: over the map, or up from the
  current directory.\<close>

definition nearest_step :: "bytes list \<Rightarrow> bytes \<Rightarrow> nat \<times> usage \<Rightarrow> (nat \<times> usage) option \<Rightarrow> (nat \<times> usage) option" where
  "nearest_step paths here = (\<lambda>(code, u) nearest.
     case ancestor_distance (paths ! code) here of
       None \<Rightarrow> nearest
     | Some distance \<Rightarrow>
         if (case nearest of None \<Rightarrow> True | Some (closest, _) \<Rightarrow> distance < closest) then Some (distance, u) else nearest)"

fun ancestor_walk :: "history \<Rightarrow> (nat \<times> usage) list \<Rightarrow> nat \<Rightarrow> bytes list list \<Rightarrow> (nat \<times> usage) option" where
  "ancestor_walk h m distance [] = None"
| "ancestor_walk h m distance (directory # rest) =
     (case Option.bind (directory_codes h directory) (map_of m) of
        Some u \<Rightarrow> Some (distance, u)
      | None \<Rightarrow> ancestor_walk h m (distance + 1) rest)"

definition at_distance :: "usage \<Rightarrow> (nat \<times> usage) option \<Rightarrow> nat \<times> usage" where
  "at_distance all nearest = (case nearest of Some (distance, u) \<Rightarrow> (usize_max - distance, u) | None \<Rightarrow> (0, all))"

definition context_usage :: "history \<Rightarrow> nat \<Rightarrow> bytes option \<Rightarrow> nat \<Rightarrow> nat \<times> usage" where
  "context_usage h idx here depth =
     (let e = usages h ! idx; all = total_usage e in
      case here of
        None \<Rightarrow> (0, all)
      | Some here \<Rightarrow>
          if directories e = DIRECTORY_NONE then (0, all)
          else if directories e = DIRECTORY_DETAILED then
            (case directory_details h idx of
               Some (Tracked code u) \<Rightarrow>
                 at_distance all (map_option (\<lambda>distance. (distance, u)) (ancestor_distance (directory_paths h ! code) here))
             | Some (Many m) \<Rightarrow>
                 at_distance all (if length m \<le> depth then fold (nearest_step (directory_paths h) here) m None
                   else ancestor_walk h m 0 (path_ancestors here))
             | None \<Rightarrow> (0, all))
          else at_distance all (map_option (\<lambda>distance. (distance, all))
                 (ancestor_distance (directory_paths h ! directories e) here)))"

definition rank_key :: "history \<Rightarrow> nat \<Rightarrow> nat \<Rightarrow> bool \<Rightarrow> bytes option \<Rightarrow> nat \<Rightarrow> nat \<Rightarrow> ranking" where
  "rank_key h idx primary is_empty here depth now =
     (case context_usage h idx here depth of (context, u) \<Rightarrow>
        (primary, context, if is_empty then 0 else usage_bonus u now, use_time u, latest_id (usages h ! idx)))"

subsection \<open>The bounded list\<close>

definition insert_ranked :: "nat \<Rightarrow> nat \<Rightarrow> ranking \<Rightarrow> nat \<Rightarrow> (ranking \<times> nat) list \<Rightarrow> (ranking \<times> nat) list" where
  "insert_ranked limit primary key idx ranking =
     (if length ranking = limit \<and> ranking \<noteq> [] \<and> primary < fst (fst (last ranking)) then ranking
      else if length ranking = limit \<and> ranking \<noteq> [] \<and> key \<le> fst (last ranking) then ranking
      else
        let at = length (takeWhile (\<lambda>existing. key < fst existing) ranking);
            kept = (if length ranking = limit then butlast ranking else ranking)
        in take at kept @ (key, idx) # drop at kept)"

subsection \<open>The search\<close>

record search_state =
  search_chars :: "ustring option"
  search_matched :: "nat list"
  search_ranking :: "(ranking \<times> nat) list"

definition lowercase_query :: "(cp \<Rightarrow> cp) \<Rightarrow> ustring \<Rightarrow> ustring" where
  "lowercase_query lower query = map lower query"

definition ascii_query :: "ustring \<Rightarrow> bool" where
  "ascii_query query \<longleftrightarrow> is_ascii query \<and> length (utf8 query) \<le> 32"

definition ascii_bytes :: "ustring \<Rightarrow> bytes" where
  "ascii_bytes query = map lower8 (utf8 query)"

text \<open>The tier of a candidate, and the query as characters once a candidate needs it.\<close>

definition candidate_rank :: "(cp \<Rightarrow> cp) \<Rightarrow> ustring \<Rightarrow> u32 \<Rightarrow> ustring \<Rightarrow> ustring option \<Rightarrow>
    (match_rank option \<times> ustring option) option" where
  "candidate_rank lower query letter_set text chars =
     (if query = [] then Some (Some MatchEmpty, chars)
      else if ascii_query query \<and> is_ascii text then
        let query_letters = letter_mask (ascii_bytes query) in
        if letter_set AND query_letters \<noteq> query_letters then Some (None, chars)
        else map_option (\<lambda>rank. (rank, chars)) (rank_match_ascii (ascii_bytes query) text)
      else
        let q = (case chars of Some q \<Rightarrow> q | None \<Rightarrow> lowercase_query lower query)
        in Some (rank_match lower q text, Some q))"

definition search_step :: "(cp \<Rightarrow> cp) \<Rightarrow> history \<Rightarrow> ustring \<Rightarrow> nat \<Rightarrow> bytes option \<Rightarrow> nat \<Rightarrow> nat \<Rightarrow> search_state \<Rightarrow>
    search_state option" where
  "search_step lower h query limit here now idx st =
     Option.bind (candidate_rank lower query (letters (usages h ! idx)) (get_text h idx) (search_chars st)) (\<lambda>(rank, chars).
       let st = st\<lparr>search_chars := chars\<rparr> in
       case rank of
         None \<Rightarrow> Some st
       | Some rank \<Rightarrow>
           let st = st\<lparr>search_matched := search_matched st @ [idx]\<rparr> in
           if limit = 0 then Some st
           else
             let primary = (if query = [] then use_time (total_usage (usages h ! idx)) else rank_score rank);
                 depth = (case here of None \<Rightarrow> 0 | Some here \<Rightarrow> length (path_ancestors here));
                 key = rank_key h idx primary (query = []) here depth now
             in Some (st\<lparr>search_ranking := insert_ranked limit primary key idx (search_ranking st)\<rparr>))"

fun search_loop :: "(cp \<Rightarrow> cp) \<Rightarrow> history \<Rightarrow> ustring \<Rightarrow> nat \<Rightarrow> bytes option \<Rightarrow> nat \<Rightarrow> nat list \<Rightarrow> search_state \<Rightarrow>
    search_state option" where
  "search_loop lower h query limit here now [] st = Some st"
| "search_loop lower h query limit here now (idx # is) st =
     Option.bind (search_step lower h query limit here now idx st) (search_loop lower h query limit here now is)"

text \<open>The results: the tier is computed once more, and has to be there (\<^verbatim>\<open>expect\<close>).\<close>

definition result_rank :: "(cp \<Rightarrow> cp) \<Rightarrow> ustring \<Rightarrow> ustring \<Rightarrow> ustring option \<Rightarrow> (match_rank \<times> ustring option) option" where
  "result_rank lower query text chars =
     (if query = [] then Some (MatchEmpty, chars)
      else if ascii_query query \<and> is_ascii text then
        Option.bind (rank_match_ascii (ascii_bytes query) text) (map_option (\<lambda>rank. (rank, chars)))
      else
        let q = (case chars of Some q \<Rightarrow> q | None \<Rightarrow> lowercase_query lower query)
        in map_option (\<lambda>rank. (rank, Some q)) (rank_match lower q text))"

fun search_results :: "(cp \<Rightarrow> cp) \<Rightarrow> history \<Rightarrow> ustring \<Rightarrow> (ranking \<times> nat) list \<Rightarrow> ustring option \<Rightarrow> fuzzy_match list option" where
  "search_results lower h query [] chars = Some []"
| "search_results lower h query ((_, idx) # ranking) chars =
     Option.bind (result_rank lower query (get_text h idx) chars) (\<lambda>(rank, chars).
     Option.bind (materialize_match lower rank idx (get_text h idx) (take 32 (ascii_bytes query)) chars) (\<lambda>m.
       map_option (\<lambda>ms. m # ms) (search_results lower h query ranking chars)))"

definition search_limited :: "(cp \<Rightarrow> cp) \<Rightarrow> history \<Rightarrow> ustring \<Rightarrow> nat list option \<Rightarrow> nat \<Rightarrow> bytes option \<Rightarrow> nat \<Rightarrow>
    (nat list \<times> fuzzy_match list) option" where
  "search_limited lower h query candidates limit here now =
     (let chars = (if ascii_query query then None else Some (lowercase_query lower query));
          indices = (case candidates of None \<Rightarrow> [0..<length (offsets h)] | Some is \<Rightarrow> is)
      in Option.bind (search_loop lower h query limit here now indices
             \<lparr>search_chars = chars, search_matched = [], search_ranking = []\<rparr>) (\<lambda>st.
           if limit = 0 then Some (search_matched st, [])
           else map_option (Pair (search_matched st)) (search_results lower h query (search_ranking st) (search_chars st))))"

text \<open>\<^verbatim>\<open>display_line\<close>: one character for one.\<close>

definition display_line :: "ustring \<Rightarrow> ustring" where
  "display_line c =
     (if \<not> list_ex is_control c then c
      else map (\<lambda>ch. if ch = 10 then 0x21b5 else if is_control ch then 0xfffd else ch) c)"

subsection \<open>The bounded list keeps the best\<close>

text \<open>All candidates so far, best first; the code keeps the first \<open>limit\<close> of them.\<close>

definition insert_desc :: "ranking \<Rightarrow> nat \<Rightarrow> (ranking \<times> nat) list \<Rightarrow> (ranking \<times> nat) list" where
  "insert_desc key idx ys = takeWhile (\<lambda>e. key < fst e) ys @ (key, idx) # dropWhile (\<lambda>e. key < fst e) ys"

abbreviation descending :: "(ranking \<times> nat) list \<Rightarrow> bool" where
  "descending ys \<equiv> sorted_wrt (\<lambda>a b. fst b < fst a) ys"

lemma takeWhile_take: "takeWhile P (take n xs) = take n (takeWhile P xs)"
  by (induction xs arbitrary: n) (auto simp: take_Cons split: nat.split)

lemma set_insert_desc: "set (insert_desc key idx ys) = insert (key, idx) (set ys)"
  using set_append [of "takeWhile (\<lambda>e. key < fst e) ys" "dropWhile (\<lambda>e. key < fst e) ys"]
  by (simp add: insert_desc_def)

lemma length_insert_desc: "length (insert_desc key idx ys) = Suc (length ys)"
  using takeWhile_dropWhile_length [of "\<lambda>e. key < fst e" ys] by (simp add: insert_desc_def)

lemma descending_insert:
  assumes "descending ys" "\<forall>e \<in> set ys. fst e \<noteq> key"
  shows "descending (insert_desc key idx ys)"
  using assms
proof (induction ys)
  case (Cons y ys)
  show ?case
  proof (cases "key < fst y")
    case True
    then show ?thesis using Cons set_insert_desc [of key idx ys] by (auto simp: insert_desc_def)
  next
    case False
    then have "fst y < key" using Cons.prems(2) by auto
    moreover have "\<forall>e \<in> set ys. fst e < fst y" using Cons.prems(1) by simp
    ultimately show ?thesis using False Cons.prems(1) by (auto simp: insert_desc_def dest: less_trans)
  qed
qed (simp add: insert_desc_def)

lemma last_least: "descending xs \<Longrightarrow> e \<in> set xs \<Longrightarrow> fst (last xs) \<le> fst e"
  by (cases xs rule: rev_cases) (auto simp: sorted_wrt_append intro: less_imp_le)

text \<open>The two rejections agree with cutting the list: the tier alone decides when it is lower.\<close>

lemma insert_ranked_take:
  assumes d: "descending ys" and new: "\<forall>e \<in> set ys. fst e \<noteq> key" and limit: "0 < limit" and p: "primary = fst key"
  shows "insert_ranked limit primary key idx (take limit ys) = take limit (insert_desc key idx ys)"
proof -
  let ?P = "\<lambda>e. key < fst e" and ?r = "take limit ys"
  have worse: "primary < fst (fst e) \<Longrightarrow> key \<le> fst e" for e :: "ranking \<times> nat"
    using p by (auto simp: less_eq_prod_def)
  have split: "ys = takeWhile ?P ys @ dropWhile ?P ys" by simp
  show ?thesis
  proof (cases "length ?r = limit \<and> key \<le> fst (last ?r)")
    case True
    then have long: "limit \<le> length ys" "?r \<noteq> []" using limit by auto
    have "last ?r \<in> set ys" using long(2) last_in_set in_set_takeD by metis
    then have "key < fst (last ?r)" using True new by (metis order_less_le)
    moreover have "fst (last ?r) \<le> fst e" if "e \<in> set ?r" for e
      using last_least [OF sorted_wrt_take [OF d] that] .
    ultimately have "\<forall>e \<in> set ?r. key < fst e" by (blast intro: less_le_trans)
    then have "takeWhile ?P ?r = ?r" by (metis takeWhile_eq_all_conv)
    then have "take limit (takeWhile ?P ys) = ?r" by (simp add: takeWhile_take)
    moreover from this have "limit \<le> length (takeWhile ?P ys)" using True by (metis length_take min.absorb_iff2 min.commute)
    ultimately have "take limit (insert_desc key idx ys) = ?r" by (simp add: insert_desc_def)
    then show ?thesis using True limit by (auto simp: insert_ranked_def)
  next
    case False
    have w: "primary < fst (fst (last ?r)) \<Longrightarrow> key \<le> fst (last ?r)" by (rule worse)
    have no: "\<not> (length ?r = limit \<and> ?r \<noteq> [] \<and> primary < fst (fst (last ?r)))"
      "\<not> (length ?r = limit \<and> ?r \<noteq> [] \<and> key \<le> fst (last ?r))" using False w by argo+
    let ?n = "length (takeWhile ?P ys)"
    have n: "?n < limit"
    proof (rule ccontr)
      assume "\<not> ?n < limit"
      then have long: "limit \<le> ?n" "limit \<le> length ys" using length_takeWhile_le [of ?P ys] by auto
      have "takeWhile ?P ?r = take limit (take ?n ys)" by (metis takeWhile_take takeWhile_eq_take)
      then have "takeWhile ?P ?r = ?r" "length ?r = limit" using long by (simp_all add: min_def)
      then have "last ?r \<in> set (takeWhile ?P ?r)" using limit by (metis last_in_set length_greater_0_conv)
      then have "key \<le> fst (last ?r)" by (auto dest: set_takeWhileD)
      then show False using False \<open>length ?r = limit\<close> by blast
    qed
    have at: "takeWhile ?P ?r = takeWhile ?P ys" using n by (simp add: takeWhile_take)
    have pre: "take ?n ys = takeWhile ?P ys" "drop ?n ys = dropWhile ?P ys" 
      by (metis takeWhile_eq_take, metis dropWhile_eq_drop)
    have "insert_ranked limit primary key idx ?r =
        (let kept = (if length ?r = limit then butlast ?r else ?r) in take ?n kept @ (key, idx) # drop ?n kept)"
      using no by (auto simp: insert_ranked_def at Let_def)
    also have "\<dots> = takeWhile ?P ys @ (key, idx) # take (limit - ?n - 1) (dropWhile ?P ys)"
    proof (cases "length ?r = limit")
      case True
      then have "butlast ?r = take (limit - 1) ys" by (simp add: butlast_take)
      moreover have "drop ?n (take (limit - 1) ys) = take (limit - ?n - 1) (dropWhile ?P ys)"
        by (simp only: drop_take pre) simp
      moreover have "take ?n (take (limit - 1) ys) = takeWhile ?P ys" 
      proof -
        have "min ?n (limit - 1) = ?n" using n by simp
        then show ?thesis by (simp only: take_take pre(1))
      qed
      ultimately show ?thesis using True by (simp add: Let_def)
    next
      case False
      then have "length ys < limit" by auto
      moreover have "length (dropWhile ?P ys) \<le> limit - ?n - 1"
        using takeWhile_dropWhile_length [of ?P ys] \<open>length ys < limit\<close> by linarith
      ultimately show ?thesis using False pre by (simp add: Let_def)
    qed
    also have "\<dots> = take limit (insert_desc key idx ys)" using n
      by (simp add: insert_desc_def take_Cons')
    finally show ?thesis .
  qed
qed

subsection \<open>The tier of a candidate\<close>

text \<open>What both the fast and the general routine compute.\<close>

definition text_rank :: "(cp \<Rightarrow> cp) \<Rightarrow> ustring \<Rightarrow> ustring \<Rightarrow> match_rank option" where
  "text_rank lower query text = (if query = [] then Some MatchEmpty else rank_match lower (map lower query) text)"

definition chars_ok :: "(cp \<Rightarrow> cp) \<Rightarrow> ustring \<Rightarrow> ustring option \<Rightarrow> bool" where
  "chars_ok lower query chars \<longleftrightarrow> (case chars of None \<Rightarrow> ascii_query query | Some q \<Rightarrow> q = map lower query)"

lemma lower_ascii_query:
  assumes "folds_ascii lower" "is_ascii q"
  shows "ascii_bytes q = map byte (map lower q)" "is_ascii (map lower q)" "map lower (map lower q) = map lower q"
proof -
  show "ascii_bytes q = map byte (map lower q)" using assms by (simp only: ascii_bytes_def utf8_ascii map_lower8)
  show "is_ascii (map lower q)" by (rule is_ascii_lower [OF assms])
  have "lower (lower c) = lower c" if "c < 128" for c
    using assms(1) that by (auto simp: folds_ascii_def ascii_lower_def)
  then show "map lower (map lower q) = map lower q" using assms(2) by (auto simp: is_ascii_def list_all_iff)
qed

lemma fast_rank:
  assumes "folds_ascii lower" "is_ascii q" "is_ascii t" "q \<noteq> []"
  shows "rank_match_ascii (ascii_bytes q) t = Some (text_rank lower q t)"
  using rank_match_ascii_exact [OF assms(1) lower_ascii_query(2) [OF assms(1,2)] assms(3) lower_ascii_query(3) [OF assms(1,2)]] assms(4)
  unfolding lower_ascii_query(1) [OF assms(1,2)] by (simp add: text_rank_def)

lemma candidate_rank_exact:
  assumes "folds_ascii lower" "chars_ok lower q chars"
  shows "\<exists>chars'. candidate_rank lower q (letter_mask (utf8 t)) t chars = Some (text_rank lower q t, chars') \<and> chars_ok lower q chars'"
proof (cases "q \<noteq> [] \<and> ascii_query q \<and> is_ascii t")
  case True
  then have a: "is_ascii q" "is_ascii t" by (auto simp: ascii_query_def)
  note low = lower_ascii_query [OF assms(1) a(1)]
  have "text_rank lower q t = None" if "letter_mask (utf8 t) AND letter_mask (ascii_bytes q) \<noteq> letter_mask (ascii_bytes q)"
    using that letters_prefilter [OF assms(1) low(2) a(2) low(3)] True unfolding low(1)
    by (cases "rank_match lower (map lower q) t") (auto simp: text_rank_def simp del: map_map)
  then show ?thesis using True fast_rank [OF assms(1) a] assms(2) by (auto simp: candidate_rank_def Let_def)
next
  case False
  then show ?thesis using assms(2)
    by (cases chars) (auto simp: candidate_rank_def text_rank_def Let_def chars_ok_def lowercase_query_def)
qed

lemma rank_means_subseq: "rank_means lower q t (Some r) \<Longrightarrow> subseq q (map lower t)"
  by (cases r) (auto intro: prefix_imp_subseq sublist_imp_subseq matches_at_sublist)

lemma text_rank_subseq:
  assumes "folds_ascii lower"
  shows "text_rank lower q t \<noteq> None \<longleftrightarrow> subseq (map lower q) (map lower t)"
proof (cases "q = []")
  case False
  have "rank_means lower (map lower q) t (rank_match lower (map lower q) t)" by (rule rank_match_exact [OF assms])
  then show ?thesis using False rank_means_subseq [of lower "map lower q" t]
    by (cases "rank_match lower (map lower q) t") (auto simp: text_rank_def)
qed (simp add: text_rank_def)

lemma result_rank_exact:
  assumes "folds_ascii lower" "chars_ok lower q chars" "text_rank lower q t = Some r"
  shows "\<exists>chars'. result_rank lower q t chars = Some (r, chars') \<and> chars_ok lower q chars' \<and>
    (chars' = None \<longrightarrow> q = [] \<or> is_ascii t)"
proof (cases "q \<noteq> [] \<and> ascii_query q \<and> is_ascii t")
  case True
  then show ?thesis using fast_rank [OF assms(1), of q t] assms(2,3) by (auto simp: result_rank_def ascii_query_def)
next
  case False
  then show ?thesis using assms(2,3)
    by (cases chars) (auto simp: result_rank_def text_rank_def Let_def chars_ok_def lowercase_query_def)
qed

subsection \<open>Results\<close>

lemma contiguous_good:
  assumes "start + length q \<le> length t" "matches_at lower q t start"
  shows "good_positions lower q t (match_positions (contiguous_match idx sc start (length q)))
    (match_count (contiguous_match idx sc start (length q)))"
proof -
  let ?n = "min (length q) 32" and ?m = "contiguous_match idx sc start (length q)"
  have q: "map (\<lambda>i. lower (t ! i)) [start..<start + length q] = q"
  proof -
    have "map (\<lambda>i. lower (t ! i)) [start..<start + length q] = map lower (slice start (start + length q) t)"
      using assms(1) by (intro nth_equalityI) (auto simp: slice_def)
    then show ?thesis using assms(2) by (simp add: matches_at_def)
  qed
  have m: "match_count ?m = ?n" "match_positions ?m = map (\<lambda>offset. if offset < ?n then start + offset else 0) [0..<32]"
    by (simp_all add: contiguous_match_def Let_def)
  have "take ?n (match_positions ?m) = map (\<lambda>offset. if offset < ?n then start + offset else 0) [0..<?n]"
    by (simp add: m take_map min_def)
  also have "\<dots> = map ((+) start) [0..<?n]" by simp
  also have "\<dots> = take ?n [start..<start + length q]" by (rule nth_equalityI) auto
  finally show ?thesis using assms(1) q m unfolding good_positions_def
    by (intro conjI exI [of _ "[start..<start + length q]"]) auto
qed

lemma materialize_good:
  assumes "folds_ascii lower" "chars_ok lower q chars" "text_rank lower q t = Some r" "chars = None \<longrightarrow> q = [] \<or> is_ascii t"
  shows "\<exists>m. materialize_match lower r idx t (take 32 (ascii_bytes q)) chars = Some m \<and> entry_idx m = idx \<and>
    score m = int (rank_score r) \<and> good_positions lower (map lower q) t (match_positions m) (match_count m)"
proof (cases "q = []")
  case True
  then show ?thesis using assms(3)
    by (auto simp: text_rank_def materialize_match_def Let_def contiguous_match_def good_positions_def split: option.splits)
next
  case False
  let ?q = "map lower q"
  have bytes: "take 32 (ascii_bytes q) = map byte ?q" if "chars = None"
    using that assms(1,2) lower_ascii_query(1) [OF assms(1), of q] by (auto simp: chars_ok_def ascii_query_def utf8_ascii)
  then have len: "(case chars of None \<Rightarrow> length (take 32 (ascii_bytes q)) | Some query \<Rightarrow> length query) = length ?q"
    using assms(2) by (auto simp: chars_ok_def split: option.splits)
  have r: "rank_means lower ?q t (Some r)"
    using rank_match_exact [OF assms(1), of ?q t] assms(3) False by (simp add: text_rank_def)
  show ?thesis
  proof (cases r)
    case MatchSubsequence
    have "\<exists>ps n. (case chars of None \<Rightarrow> subsequence_match_ascii_bytes (take 32 (ascii_bytes q)) (utf8 t)
        | Some query \<Rightarrow> subsequence_match lower query t) = Some (ps, n) \<and> good_positions lower ?q t ps n"
    proof (cases chars)
      case None
      then have a: "is_ascii t" "is_ascii ?q" "subseq ?q (map lower t)"
        using assms(1,2,4) False r MatchSubsequence lower_ascii_query(2) [OF assms(1), of q] by (auto simp: chars_ok_def ascii_query_def)
      have "subseq (map byte ?q) (map lower8 (map byte t))"
        using a assms(1) by (simp only: map_lower8 subseq_bytes is_ascii_lower)
      then obtain ps n where p: "subsequence_positions lower8 (map byte ?q) (map byte t) = Some (ps, n)"
        using subsequence_positions_None [of "map byte ?q" lower8 "map byte t"] False by auto
      then have "good_positions lower ?q t ps n"
        using good_positions_bytes [OF assms(1) a(2,1)] subsequence_positions_Some [OF _ p] False by simp
      then show ?thesis using None p a(1) unfolding bytes [OF None] by (simp add: subsequence_match_ascii_bytes_def utf8_ascii)
    next
      case (Some query)
      then show ?thesis using subsequence_match_correct [OF assms(1), of ?q t] assms(2) r MatchSubsequence
        by (auto simp: chars_ok_def split: option.splits)
    qed
    then show ?thesis using MatchSubsequence by (auto simp: materialize_match_def Let_def)
  next
    case MatchPrefix
    then have "matches_at lower ?q t 0" "length ?q \<le> length t"
      using r by (auto simp: matches_at_def slice_def prefix_def take_map [symmetric] dest: prefix_length_le) (metis length_map length_append le_add1 prefix_def)+
    then show ?thesis using MatchPrefix contiguous_good [of 0 ?q t lower idx 3] len
      by (simp add: materialize_match_def Let_def) (simp add: contiguous_match_def Let_def)
  qed (use r len contiguous_good [of _ ?q t lower idx] in \<open>simp_all add: materialize_match_def Let_def, simp_all add: contiguous_match_def Let_def\<close>)
qed

subsection \<open>The search keeps the best matches\<close>

definition candidate_key :: "(cp \<Rightarrow> cp) \<Rightarrow> history \<Rightarrow> ustring \<Rightarrow> bytes option \<Rightarrow> nat \<Rightarrow> nat \<Rightarrow> ranking" where
  "candidate_key lower h q here now idx =
     rank_key h idx (if q = [] then use_time (total_usage (usages h ! idx)) else rank_score (the (text_rank lower q (get_text h idx))))
       (q = []) here (case here of None \<Rightarrow> 0 | Some here \<Rightarrow> length (path_ancestors here)) now"

definition is_match :: "(cp \<Rightarrow> cp) \<Rightarrow> history \<Rightarrow> ustring \<Rightarrow> nat \<Rightarrow> bool" where
  "is_match lower h q idx \<longleftrightarrow> subseq (map lower q) (map lower (get_text h idx))"

fun ranked :: "(nat \<Rightarrow> ranking) \<Rightarrow> nat list \<Rightarrow> (ranking \<times> nat) list" where
  "ranked key is = fold (\<lambda>i. insert_desc (key i) i) is []"

declare ranked.simps [simp del]

lemma ranked_snoc: "ranked key (is @ [i]) = insert_desc (key i) i (ranked key is)"
  by (simp add: ranked.simps)

lemma ranked_Nil: "ranked key [] = []"
  by (simp add: ranked.simps)

lemma set_ranked: "set (ranked key is) = (\<lambda>i. (key i, i)) ` set is"
  by (induction "is" rule: rev_induct) (auto simp: ranked_Nil ranked_snoc set_insert_desc)

lemma length_ranked: "length (ranked key is) = length is"
  by (induction "is" rule: rev_induct) (auto simp: ranked_Nil ranked_snoc length_insert_desc)

lemma descending_ranked: "inj_on key (set is) \<Longrightarrow> distinct is \<Longrightarrow> descending (ranked key is)"
proof (induction "is" rule: rev_induct)
  case (snoc i "is")
  then have "descending (ranked key is)" by (simp add: inj_on_Un)
  moreover have "\<forall>e \<in> set (ranked key is). fst e \<noteq> key i" using snoc.prems by (auto simp: set_ranked inj_on_def)
  ultimately show ?case unfolding ranked_snoc by (rule descending_insert)
qed (simp add: ranked_Nil)

text \<open>The sorted list is the one of the library.\<close>

lemma ranked_sort:
  assumes "inj_on key (set is)" "distinct is"
  shows "map snd (ranked key is) = rev (sort_key key is)"
proof -
  let ?r = "rev (ranked key is)"
  have s: "sorted_wrt (\<lambda>a b. fst a < fst b) ?r" using descending_ranked [OF assms] by (simp add: sorted_wrt_rev)
  have e: "fst e = key (snd e)" if "e \<in> set ?r" for e using that by (auto simp: set_ranked)
  have "sorted_wrt (\<lambda>a b. key (snd a) < key (snd b)) ?r"
  proof (rule sorted_wrt_mono_rel [OF _ s])
    fix a b assume "a \<in> set ?r" "b \<in> set ?r" "fst a < fst b"
    then show "key (snd a) < key (snd b)" using e by metis
  qed
  then have strict: "sorted_wrt (<) (map key (map snd ?r))" by (simp add: sorted_wrt_map)
  have sets: "set (map snd ?r) = set (sort_key key is)" by (auto simp: set_ranked image_iff)
  have "map key (map snd ?r) = map key (sort_key key is)"
  proof (rule sorted_distinct_set_unique)
    show "sorted (map key (map snd ?r))" "distinct (map key (map snd ?r))" using strict strict_sorted_iff by blast+
    show "sorted (map key (sort_key key is))" by simp
    show "distinct (map key (sort_key key is))" using assms by (simp add: distinct_map)
    show "set (map key (map snd ?r)) = set (map key (sort_key key is))" using sets by (metis set_map)
  qed
  then have "map snd ?r = sort_key key is" using assms(1) sets by (intro map_inj_on [of key]) auto
  then show ?thesis by (metis rev_map rev_rev_ident)
qed

lemma ranked_take:
  assumes "inj_on key (set (is @ [i]))" "distinct (is @ [i])" "0 < limit" "primary = fst (key i)"
  shows "insert_ranked limit primary (key i) i (take limit (ranked key is)) = take limit (ranked key (is @ [i]))"
proof -
  have "descending (ranked key is)" using assms by (intro descending_ranked) (auto simp: inj_on_Un)
  moreover have "\<forall>e \<in> set (ranked key is). fst e \<noteq> key i" using assms(1,2) by (auto simp: set_ranked inj_on_def)
  ultimately show ?thesis unfolding ranked_snoc using assms(3,4) by (intro insert_ranked_take) auto
qed

text \<open>The ids of the entries are distinct, so are the keys.\<close>

lemma latest_ids_distinct:
  assumes "mirrors hash h ocs" "i < length (first_uses ocs)" "j < length (first_uses ocs)"
    and "latest_id (usages h ! i) = latest_id (usages h ! j)"
  shows "i = j"
proof -
  let ?c = "first_uses ocs ! i" and ?d = "first_uses ocs ! j"
  let ?p = "last (uses_of ?c ocs)" and ?r = "last (uses_of ?d ocs)"
  have ok: "entry_ok ocs ?c (usages h ! i)" "entry_ok ocs ?d (usages h ! j)" "log_ok ocs"
    using assms(1-3) indexes_usages [of hash h ocs] by (auto simp: mirrors_def)
  then have id: "occ_id ?p = occ_id ?r" using assms(4) by (simp add: entry_ok_def)
  have "uses_of ?c ocs \<noteq> []" "uses_of ?d ocs \<noteq> []"
    using assms(2,3) nth_mem set_first_uses by (metis uses_of_Nil)+
  then have mem: "?p \<in> set (uses_of ?c ocs)" "?r \<in> set (uses_of ?d ocs)" by (simp_all add: last_in_set)
  moreover have "inj_on occ_id (set ocs)" using ok(3) by (auto simp: log_ok_def strict_sorted_iff distinct_map)
  ultimately have "?p = ?r" using id by (auto simp: uses_of_def dest: inj_onD)
  then have "?c = ?d" using mem by (auto simp: uses_of_def)
  then show ?thesis using assms(2,3) distinct_first_uses [of ocs] by (simp add: nth_eq_iff_index_eq)
qed

lemma candidate_key_inj:
  assumes "mirrors hash h ocs" "\<forall>i \<in> set is. i < length (first_uses ocs)"
  shows "inj_on (candidate_key lower h q here now) (set is)"
proof (rule inj_onI)
  fix i j
  assume ij: "i \<in> set is" "j \<in> set is" and k: "candidate_key lower h q here now i = candidate_key lower h q here now j"
  have last: "snd (snd (snd (snd (candidate_key lower h q here now i)))) = latest_id (usages h ! i)" for i
    by (simp add: candidate_key_def rank_key_def split: prod.splits)
  have "latest_id (usages h ! i) = latest_id (usages h ! j)" using last [of i] last [of j] unfolding k by simp
  then show "i = j" using latest_ids_distinct [OF assms(1)] ij assms(2) by blast
qed

definition search_ok :: "(cp \<Rightarrow> cp) \<Rightarrow> history \<Rightarrow> ustring \<Rightarrow> nat \<Rightarrow> bytes option \<Rightarrow> nat \<Rightarrow> nat list \<Rightarrow> search_state \<Rightarrow> bool" where
  "search_ok lower h q limit here now done st \<longleftrightarrow> chars_ok lower q (search_chars st) \<and>
     search_matched st = filter (is_match lower h q) done \<and>
     search_ranking st = take limit (ranked (candidate_key lower h q here now) (filter (is_match lower h q) done))"

lemma entry_letters:
  assumes "mirrors hash h ocs" "i < length (first_uses ocs)"
  shows "letters (usages h ! i) = letter_mask (utf8 (get_text h i))"
  using assms indexes_usages [of hash h ocs] get_text_entry [OF assms] by (simp add: mirrors_def entry_ok_def)

lemma search_step_ok:
  assumes lower: "folds_ascii lower" and h: "mirrors hash h ocs" and i: "i < length (first_uses ocs)"
    and "\<forall>j \<in> set done. j < length (first_uses ocs)" "distinct (done @ [i])"
    and st: "search_ok lower h q limit here now done st"
  shows "\<exists>st'. search_step lower h q limit here now i st = Some st' \<and> search_ok lower h q limit here now (done @ [i]) st'"
proof -
  let ?t = "get_text h i" and ?key = "candidate_key lower h q here now" and ?m = "filter (is_match lower h q) done"
  obtain chars' where c: "candidate_rank lower q (letters (usages h ! i)) ?t (search_chars st) = Some (text_rank lower q ?t, chars')"
      "chars_ok lower q chars'"
    using candidate_rank_exact [OF lower, of q "search_chars st" ?t] st entry_letters [OF h i] by (auto simp: search_ok_def)
  show ?thesis
  proof (cases "text_rank lower q ?t")
    case None
    then have "\<not> is_match lower h q i" using text_rank_subseq [OF lower, of q ?t] by (simp add: is_match_def)
    then show ?thesis using None c st by (simp add: search_step_def search_ok_def)
  next
    case (Some r)
    then have m: "is_match lower h q i" using text_rank_subseq [OF lower, of q ?t] by (simp add: is_match_def)
    let ?primary = "if q = [] then use_time (total_usage (usages h ! i)) else rank_score r"
    have key: "?key i = rank_key h i ?primary (q = []) here (case here of None \<Rightarrow> 0 | Some here \<Rightarrow> length (path_ancestors here)) now"
      using Some by (simp add: candidate_key_def)
    have first: "?primary = fst (?key i)" unfolding key by (simp add: rank_key_def split: prod.splits)
    have "insert_ranked limit ?primary (?key i) i (take limit (ranked ?key ?m)) = take limit (ranked ?key (?m @ [i]))" if "0 < limit"
    proof -
      have "inj_on ?key (set (?m @ [i]))" using assms(4) i by (intro candidate_key_inj [OF h]) auto
      moreover have "distinct (?m @ [i])" using assms(5) by simp
      ultimately show ?thesis using that first by (rule ranked_take)
    qed
    then show ?thesis using Some m c st unfolding key search_ok_def
      by (cases "limit = 0") (simp_all add: search_step_def Let_def)
  qed
qed

lemma search_loop_ok:
  assumes lower: "folds_ascii lower" and h: "mirrors hash h ocs"
  shows "\<forall>j \<in> set (done @ is). j < length (first_uses ocs) \<Longrightarrow> distinct (done @ is) \<Longrightarrow>
    search_ok lower h q limit here now done st \<Longrightarrow>
    \<exists>st'. search_loop lower h q limit here now is st = Some st' \<and> search_ok lower h q limit here now (done @ is) st'"
proof (induction "is" arbitrary: "done" st)
  case (Cons i "is")
  then obtain st1 where "search_step lower h q limit here now i st = Some st1" "search_ok lower h q limit here now (done @ [i]) st1"
    using search_step_ok [OF lower h, of i "done" q limit here now st] by auto
  then show ?case using Cons.IH [of "done @ [i]" st1] Cons.prems by simp
qed simp

lemma search_results_ok:
  assumes "folds_ascii lower" "chars_ok lower q chars" "\<forall>e \<in> set ranking. is_match lower h q (snd e)"
  shows "\<exists>ms. search_results lower h q ranking chars = Some ms \<and> map entry_idx ms = map snd ranking \<and>
    list_all (\<lambda>m. \<exists>r. text_rank lower q (get_text h (entry_idx m)) = Some r \<and> score m = int (rank_score r) \<and>
      good_positions lower (map lower q) (get_text h (entry_idx m)) (match_positions m) (match_count m)) ms"
  using assms(2,3)
proof (induction ranking arbitrary: chars)
  case (Cons e ranking)
  obtain k i where e: "e = (k, i)" by (cases e)
  obtain r where r: "text_rank lower q (get_text h i) = Some r"
    using text_rank_subseq [OF assms(1), of q "get_text h i"] Cons.prems(2) e by (auto simp: is_match_def)
  obtain chars' where c: "result_rank lower q (get_text h i) chars = Some (r, chars')" "chars_ok lower q chars'"
      "chars' = None \<longrightarrow> q = [] \<or> is_ascii (get_text h i)"
    using result_rank_exact [OF assms(1) Cons.prems(1) r] by blast
  obtain m where m: "materialize_match lower r i (get_text h i) (take 32 (ascii_bytes q)) chars' = Some m" "entry_idx m = i"
      "score m = int (rank_score r)" "good_positions lower (map lower q) (get_text h i) (match_positions m) (match_count m)"
    using materialize_good [OF assms(1) c(2) r c(3)] by blast
  show ?case using Cons.IH [OF c(2)] Cons.prems(2) e r c(1) m by auto
qed simp

text \<open>
  C15.  The search returns the best matches. On an index of a log, with any candidates of it, the
  search reports exactly the candidates that contain the query as a subsequence, up to case, and
  returns those with the \<open>limit\<close> largest keys, largest first; each result carries its tier and
  positions of matching characters in order. The letter masks, the byte routines, the two early
  rejections and the bounded list change nothing of it, and nothing panics.
\<close>

theorem search_returns_best:
  assumes "folds_ascii lower" and "mirrors hash h ocs"
    and "distinct candidates" and "\<forall>i \<in> set candidates. i < length (first_uses ocs)"
  shows "let matched = filter (is_match lower h q) candidates in
    \<exists>results. search_limited lower h q (Some candidates) limit here now = Some (matched, results) \<and>
      map entry_idx results = take limit (rev (sort_key (candidate_key lower h q here now) matched)) \<and>
      list_all (\<lambda>m. \<exists>r. text_rank lower q (get_text h (entry_idx m)) = Some r \<and> score m = int (rank_score r) \<and>
        good_positions lower (map lower q) (get_text h (entry_idx m)) (match_positions m) (match_count m)) results"
proof -
  let ?m = "filter (is_match lower h q) candidates" and ?key = "candidate_key lower h q here now"
  define st where "st = \<lparr>search_chars = (if ascii_query q then None else Some (lowercase_query lower q)), search_matched = [], search_ranking = []\<rparr>"
  have "search_ok lower h q limit here now [] st"
    by (simp add: st_def search_ok_def chars_ok_def lowercase_query_def ranked_Nil)
  then obtain st' where l: "search_loop lower h q limit here now candidates st = Some st'" "search_ok lower h q limit here now candidates st'"
    using search_loop_ok [OF assms(1,2), of "[]" candidates q limit here now st] assms(3,4) by auto
  then have s: "chars_ok lower q (search_chars st')" "search_matched st' = ?m" "search_ranking st' = take limit (ranked ?key ?m)"
    by (simp_all add: search_ok_def)
  have "\<forall>e \<in> set (search_ranking st'). is_match lower h q (snd e)"
    unfolding s(3) by (auto dest!: in_set_takeD simp: set_ranked)
  then obtain ms where ms: "search_results lower h q (search_ranking st') (search_chars st') = Some ms"
      "map entry_idx ms = map snd (search_ranking st')"
      "list_all (\<lambda>m. \<exists>r. text_rank lower q (get_text h (entry_idx m)) = Some r \<and> score m = int (rank_score r) \<and>
        good_positions lower (map lower q) (get_text h (entry_idx m)) (match_positions m) (match_count m)) ms"
    using search_results_ok [OF assms(1) s(1)] by blast
  have "map snd (ranked ?key ?m) = rev (sort_key ?key ?m)"
    using assms(3,4) by (intro ranked_sort candidate_key_inj [OF assms(2)]) auto
  then have idx: "map entry_idx ms = take limit (rev (sort_key ?key ?m))" unfolding ms(2) s(3) by (simp add: take_map [symmetric])
  have "search_limited lower h q (Some candidates) limit here now = Some (?m, ms)"
    using l(1) s(2,3) ms by (auto simp: search_limited_def Let_def st_def)
  then show ?thesis using idx ms(3) by (auto simp: Let_def)
qed

text \<open>The candidates of Ctrl+R are the entries of the table, latest first; each entry once.\<close>

lemma search_entry_indices_ok:
  assumes "mirrors hash h ocs"
  shows "distinct (search_entry_indices h) \<and> (\<forall>i \<in> set (search_entry_indices h). i < length (first_uses ocs))"
proof -
  have rows: "latest_occurrences h = map (\<lambda>oc. (occ_id oc, entry_of ocs (command oc))) (last_uses ocs)"
    using assms by (simp add: mirrors_def indexes_def)
  have known: "command oc \<in> command ` set ocs" if "oc \<in> set (last_uses ocs)" for oc using that last_uses_subset by blast
  have "map snd (latest_occurrences h) = map (entry_of ocs) (remdups (map command ocs))"
    by (simp add: rows command_last_uses [symmetric])
  moreover have "inj_on (entry_of ocs) (command ` set ocs)" using entry_of_nth(2) [of _ ocs] by (metis inj_onI)
  ultimately have "distinct (map snd (latest_occurrences h))" by (simp add: distinct_map)
  then show ?thesis using entry_of_nth(1) [OF known]
    by (auto simp: search_entry_indices_def rev_map [symmetric] rows)
qed

lemma search_returns_best_witness:
  "\<exists>h results. search_limited ascii_lower h [76] (Some [0]) 5 None 9 = Some ([0], results) \<and> map entry_idx results = [0]"
proof -
  let ?ocs = "[demo_occurrence\<lparr>occ_id := 1\<rparr>]"
  have "log_ok ([] @ ?ocs)" "fits_memory ([] @ ?ocs)"
    by (simp_all add: log_ok_def fits_memory_def text_bytes_def demo_occurrence_def u32_max_def is_scalar_def encode_utf8_def)
  from apply_occurrences_mirrors [OF empty_mirrors this]
  obtain h where h: "mirrors (\<lambda>_. 0) h ?ocs" by auto
  have f: "first_uses ?ocs = [[108, 115]]" by (simp add: first_uses_def demo_occurrence_def)
  have "get_text h 0 = [108, 115]" using get_text_entry [OF h, of 0] by (simp add: f)
  then have "filter (is_match ascii_lower h [76]) [0] = [0]" by (simp add: is_match_def ascii_lower_def)
  then obtain results where "search_limited ascii_lower h [76] (Some [0]) 5 None 9 = Some ([0], results)" "map entry_idx results = [0]"
    using search_returns_best [of ascii_lower "\<lambda>_. 0" h ?ocs "[0]" "[76]" 5 None 9] h
    by (auto simp: folds_ascii_def f Let_def simp del: filter.simps)
  then show ?thesis by (intro exI [of _ h] exI [of _ results] conjI)
qed

text \<open>
  A command that ran without a directory before it ran in one shares its totals with that directory:
  the uses without a directory count there too.
\<close>

lemma earlier_uses_shared:
  assumes "idx < length (usages h)" "directories (usages h ! idx) = DIRECTORY_NONE" "code \<noteq> DIRECTORY_NONE" "code \<noteq> DIRECTORY_DETAILED"
    and "ancestor_distance (directory_paths h ! code) here = Some distance"
  shows "context_usage (record_directory idx code t h) idx (Some here) depth = (usize_max - distance, total_usage (usages h ! idx))"
  using assms by (simp add: record_directory_def update_entry_def context_usage_def at_distance_def Let_def)

text \<open>The window of a subsequence match is one of two, not the tightest: of \<^verbatim>\<open>a..b ab a...b\<close>
  and the query \<^verbatim>\<open>ab\<close> it takes the first four characters.\<close>

lemma window_not_tightest:
  "subsequence_positions id [1, 2 :: nat] [1, 0, 0, 2, 0, 1, 2, 0, 1, 0, 0, 0, 2] = Some (0 # 3 # replicate 30 0, 2)"
  by (simp add: subsequence_positions_def match_window_def last_end_def backward_def Let_def eval_nat_numeral)

end
