(* ===== verification/Spec2Isabelle.thy ===== *)
theory Spec2Isabelle
  imports Eval_Laws Parser_Laws Quoting Line Fdu_Tree Capture History_Search
begin

text \<open>
  Verification of the interactive shell \<^verbatim>\<open>ish\<close>, of its engine \<^verbatim>\<open>epsh\<close> and of the
  data structures of its file tools. The paths below are relative to \<^verbatim>\<open>src/\<close>.

  \<^bold>\<open>The program.\<close>  The crate \<^verbatim>\<open>crates/epsh\<close> is a POSIX shell: a lexer and a parser turn
  text into the tree of \<^verbatim>\<open>ast.rs\<close>, the evaluator \<^verbatim>\<open>eval.rs\<close> walks it, calls the word
  expansion of \<^verbatim>\<open>expand.rs\<close> for the words and the builtins of \<^verbatim>\<open>builtins.rs\<close> for the commands,
  and both work on the variables of \<^verbatim>\<open>var.rs\<close>. The binary \<^verbatim>\<open>src/\<close> puts a line editor,
  a history log and an output capture around it; \<^verbatim>\<open>crates/fdu-core\<close> is the arena of the
  disk-usage browser.

  \<^bold>\<open>Theories and sources.\<close>  Each theory opens with its own description.
  \<^item> \<^verbatim>\<open>Prelude\<close>: collections of rewrite rules, text as lists of code points, results of
    fallible code, lemmas on lists and words that several components use.
  \<^item> \<^verbatim>\<open>Utf8\<close>: the part of the standard library's text type that the sources use.
  \<^item> \<^verbatim>\<open>Encoding\<close>: \<^verbatim>\<open>encoding.rs\<close> and \<^verbatim>\<open>shell_bytes.rs\<close>, bytes as text.
  \<^item> \<^verbatim>\<open>Glob\<close>: \<^verbatim>\<open>glob.rs\<close>, pattern matching and pathname expansion.
  \<^item> \<^verbatim>\<open>Num_Text\<close>, \<^verbatim>\<open>Vars\<close>: decimal numbers and \<^verbatim>\<open>var.rs\<close>, the variables with their scopes.
  \<^item> \<^verbatim>\<open>Arith\<close>, \<^verbatim>\<open>Arith_Spec\<close>: \<^verbatim>\<open>arith.rs\<close> and the grammar it implements.
  \<^item> \<^verbatim>\<open>Ast\<close>: \<^verbatim>\<open>ast.rs\<close> and \<^verbatim>\<open>error.rs\<close>.
  \<^item> \<^verbatim>\<open>Expand_Text\<close>, \<^verbatim>\<open>Expand\<close>: \<^verbatim>\<open>expand.rs\<close>, first the functions on text, then the expansion
    of words on the state of the variables.
  \<^item> \<^verbatim>\<open>Lexer_Text\<close>, \<^verbatim>\<open>Lexer\<close>: \<^verbatim>\<open>lexer.rs\<close>, first characters, operators and the text of
    substitutions, then words, tokens and here-documents; \<^verbatim>\<open>Word_Parts\<close>: the second reader of words
    in \<^verbatim>\<open>parser.rs\<close>, on strings; \<^verbatim>\<open>Parser\<close>: the productions of \<^verbatim>\<open>parser.rs\<close>.
  \<^item> \<^verbatim>\<open>Parser_Laws\<close>: parsing ends. \<^verbatim>\<open>Token_Stream\<close>: the interface between lexer and parser as a
    locale, and written text as an instance; \<^verbatim>\<open>Grammar\<close>: the language as a datatype of structures,
    proved against that interface; \<^verbatim>\<open>Quoting\<close>: quoting, parsing and expanding compose to the identity.
  \<^item> \<^verbatim>\<open>Test_Cmd\<close>: \<^verbatim>\<open>test_cmd.rs\<close> and the grammar of test expressions.
  \<^item> \<^verbatim>\<open>Shell_State\<close>, \<^verbatim>\<open>Builtins\<close>: the state of the evaluator and \<^verbatim>\<open>builtins.rs\<close>.
  \<^item> \<^verbatim>\<open>Eval\<close>, \<^verbatim>\<open>Eval_Laws\<close>: \<^verbatim>\<open>eval.rs\<close>; commands as functions with fuel, then their laws.
  \<^item> \<^verbatim>\<open>Line\<close>: \<^verbatim>\<open>src/line.rs\<close>, the buffer of the line editor.
  \<^item> \<^verbatim>\<open>Fdu_Tree\<close>: \<^verbatim>\<open>crates/fdu-core\<close>, the arena of scanned nodes.
  \<^item> \<^verbatim>\<open>Capture\<close>: \<^verbatim>\<open>src/capture.rs\<close>, the bounded output buffer.
  \<^item> \<^verbatim>\<open>Byte_Codec\<close>, \<^verbatim>\<open>History_Store\<close>: \<^verbatim>\<open>src/history/store.rs\<close>, checksums and the history log.
  \<^item> \<^verbatim>\<open>History_Index\<close>, \<^verbatim>\<open>History_Laws\<close>, \<^verbatim>\<open>History_Session\<close>: \<^verbatim>\<open>src/history.rs\<close>, the index of the log in
    memory, what it says of a log, and recall, loading and adding on top of log and index.
  \<^item> \<^verbatim>\<open>Byte_Scan\<close>, \<^verbatim>\<open>Fuzzy_Match\<close>, \<^verbatim>\<open>History_Search\<close>: the search of \<^verbatim>\<open>src/history.rs\<close>, from the
    scan of bytes over the match of a query to the ranked results.

  \<^bold>\<open>State and effects.\<close>  A struct is a record, an enum a datatype, a fallible function returns
  \<^typ>\<open>'e + 'a\<close> with the error on the left. Expansion and evaluation pass the state explicitly; the
  record of the host (processes, descriptors, file system, callbacks) is an argument of the
  definitions, and a theorem that needs a law of it names it.

  \<^bold>\<open>What is shown.\<close>  Encoding is a lossless round trip; the matcher, the arithmetic evaluator
  and the test command decide declarative grammars; the parser ends on every text and builds the
  tree of every program that is written out from its structure; a quoted argument reaches its command unchanged; variables keep their caches, scopes and
  read-only marks; expansion gives the fields that the standard asks for; evaluation bounds loop
  control, restores the caller of a function, applies errexit where it applies and ends on commands
  without loops; the line buffer refines a zipper; the arena of nodes stays a tree; the history
  log survives torn writes and salvage; the index mirrors the log, recall and the ranked search
  read the right commands off it.

  \<^bold>\<open>Bounds and fuel.\<close>  The loops of the lexer and the parser have as much fuel as there are characters
  left, or two more, and nested substitutions as much as the nesting limit of 32 allows;
  \<^verbatim>\<open>Parser_Laws.parse_returns\<close> shows that it suffices. Arithmetic parses with fuel linear in the length of the text
  (\<^verbatim>\<open>Arith_Spec.eval_arith_total\<close> shows that it suffices). Walks in the arena use one more than
  the number of nodes. A snapshot of the history is read at most twice. Commands are evaluated
  with fuel: the result does not depend on it and commands without loops and calls need no more than
  their size.

  \<^bold>\<open>Not modelled.\<close>  Terminal, pseudo-terminal, signal and process control, the platform calls
  beneath them, the threads that relay captured output, benchmarks, examples and the Lean sources:
  input and output, or code of another language. Completion,
  the environment loader and the file engine are pure enough to model and are not yet.
\<close>

end
